(* ===== verification/Prelude.thy ===== *)
theory Prelude
  imports Main "HOL-Library.Word"
begin

text \<open>
  Shared vocabulary of the development: machine words, the result type of kernel code
  (a value, or the way the code stops without returning) with its weakest-precondition
  calculus, and the addresses of the intrusive list anchors of the kernel's structures.
\<close>

unbundle bit_operations_syntax

named_theorems rok_simps \<open>weakest-precondition rules of the result type\<close>
named_theorems list_defs \<open>unfolding of the operations of lib/list.c\<close>
named_theorems flag_defs \<open>values of the flag and mask macros\<close>

type_synonym u8 = "8 word"
type_synonym u16 = "16 word"
type_synonym u32 = "32 word"
type_synonym u64 = "64 word"

section \<open>Results of kernel code\<close>

text \<open>
  Kernel code either returns a value or stops: \<open>KPanic\<close> is \<^verbatim>\<open>panic()\<close> or a failed
  \<^verbatim>\<open>assert()\<close> (include/assert.h), \<open>KUndef\<close> is an access outside an array or a shift by an
  excessive amount (undefined in C), \<open>KSpin\<close> is waiting for a spin lock that another CPU
  holds (the caller makes no step until that CPU releases it), \<open>KDiverge\<close> is a loop that never ends.
\<close>

datatype kerr = KPanic | KUndef | KSpin | KDiverge

type_synonym 'a res = "kerr + 'a"

definition rbind :: "'a res \<Rightarrow> ('a \<Rightarrow> 'b res) \<Rightarrow> 'b res" where
  "rbind m f = (case m of Inl e \<Rightarrow> Inl e | Inr x \<Rightarrow> f x)"

definition kassert :: "bool \<Rightarrow> 'a res \<Rightarrow> 'a res" where
  "kassert b m = (if b then m else Inl KPanic)"

definition kdefined :: "bool \<Rightarrow> 'a res \<Rightarrow> 'a res" where
  "kdefined b m = (if b then m else Inl KUndef)"

definition rok :: "'a res \<Rightarrow> ('a \<Rightarrow> bool) \<Rightarrow> bool" where
  "rok m Q = (case m of Inl e \<Rightarrow> False | Inr x \<Rightarrow> Q x)"

lemma rbind_simps [simp]:
  "rbind (Inl e) f = Inl e"
  "rbind (Inr x) f = f x"
  by (simp_all add: rbind_def)

lemma rbind_assoc: "rbind (rbind m f) g = rbind m (\<lambda>x. rbind (f x) g)"
  by (cases m) simp_all

lemma rbind_cong [fundef_cong]:
  "m = m' \<Longrightarrow> (\<And>x. m' = Inr x \<Longrightarrow> f x = g x) \<Longrightarrow> rbind m f = rbind m' g"
  by (cases m') simp_all

lemma rbind_eq_Inr: "rbind m f = Inr y \<longleftrightarrow> (\<exists>x. m = Inr x \<and> f x = Inr y)"
  by (cases m) simp_all

lemma kassert_simps [simp]: "kassert True m = m" "kassert False m = Inl KPanic"
  by (simp_all add: kassert_def)

lemma kassert_cong [fundef_cong]: "b = c \<Longrightarrow> (c \<Longrightarrow> m = m') \<Longrightarrow> kassert b m = kassert c m'"
  by (simp add: kassert_def)

lemma kassert_eq_Inr: "kassert b m = Inr y \<longleftrightarrow> b \<and> m = Inr y"
  by (simp add: kassert_def)

lemma kdefined_simps [simp]: "kdefined True m = m" "kdefined False m = Inl KUndef"
  by (simp_all add: kdefined_def)

lemma kdefined_cong [fundef_cong]: "b = c \<Longrightarrow> (c \<Longrightarrow> m = m') \<Longrightarrow> kdefined b m = kdefined c m'"
  by (simp add: kdefined_def)

lemma kdefined_eq_Inr: "kdefined b m = Inr y \<longleftrightarrow> b \<and> m = Inr y"
  by (simp add: kdefined_def)

lemmas res_eq_Inr = rbind_eq_Inr kassert_eq_Inr kdefined_eq_Inr

text \<open>\<open>rok m Q\<close>: the code returns and its value satisfies \<open>Q\<close> (total correctness).\<close>

lemma rok_Inl [rok_simps, simp]: "rok (Inl e) Q \<longleftrightarrow> False"
  by (simp add: rok_def)

lemma rok_Inr [rok_simps, simp]: "rok (Inr x) Q \<longleftrightarrow> Q x"
  by (simp add: rok_def)

lemma rok_rbind [rok_simps]: "rok (rbind m f) Q \<longleftrightarrow> rok m (\<lambda>x. rok (f x) Q)"
  by (cases m) simp_all

lemma rok_kassert [rok_simps]: "rok (kassert b m) Q \<longleftrightarrow> b \<and> rok m Q"
  by (simp add: kassert_def)

lemma rok_kdefined [rok_simps]: "rok (kdefined b m) Q \<longleftrightarrow> b \<and> rok m Q"
  by (simp add: kdefined_def)

lemma rok_iff: "rok m Q \<longleftrightarrow> (\<exists>x. m = Inr x \<and> Q x)"
  by (cases m) simp_all

lemma rok_mono: "rok m P \<Longrightarrow> (\<And>x. P x \<Longrightarrow> Q x) \<Longrightarrow> rok m Q"
  by (cases m) simp_all

lemma rok_conj: "rok m P \<Longrightarrow> rok m Q \<Longrightarrow> rok m (\<lambda>x. P x \<and> Q x)"
  by (cases m) simp_all

lemma rok_seq: "rok m P \<Longrightarrow> (\<And>x. P x \<Longrightarrow> rok (f x) Q) \<Longrightarrow> rok (rbind m f) Q"
  by (cases m) simp_all

section \<open>List anchors\<close>

text \<open>
  A \<^verbatim>\<open>struct list\<close> (include/list.h) is always embedded in another object: a global head, or
  a member of \<^verbatim>\<open>struct page_info\<close>, \<^verbatim>\<open>struct slab\<close>, \<^verbatim>\<open>struct task\<close> and so on. An anchor
  names the object and the member, so \<^verbatim>\<open>container_of()\<close> is the inverse of the constructor.
  \<open>Null\<close> is the null pointer; page frames are numbered by their index in \<^verbatim>\<open>pages[]\<close>, all
  other objects by their address.
\<close>

datatype anchor =
    Null
  | BuddyHead nat       \<comment> \<open>\<^verbatim>\<open>buddy_free_list[k]\<close>\<close>
  | ZeroHead            \<comment> \<open>\<^verbatim>\<open>zero_list\<close>\<close>
  | SwapHead            \<comment> \<open>\<^verbatim>\<open>swap.pages\<close>\<close>
  | PpNode nat          \<comment> \<open>\<^verbatim>\<open>pages[i].pp_node\<close>\<close>
  | SwapNode nat        \<comment> \<open>\<^verbatim>\<open>pages[i].swap_node\<close>\<close>
  | ZeroNode nat        \<comment> \<open>\<^verbatim>\<open>pages[i].pp_zero_node\<close>\<close>
  | SlabPartial nat     \<comment> \<open>\<^verbatim>\<open>slab->partial\<close>\<close>
  | SlabFull nat        \<comment> \<open>\<^verbatim>\<open>slab->full\<close>\<close>
  | InfoNode nat        \<comment> \<open>\<^verbatim>\<open>info->node\<close>\<close>
  | InfoFree nat        \<comment> \<open>\<^verbatim>\<open>info->free_list\<close>\<close>
  | ObjNode nat         \<comment> \<open>\<^verbatim>\<open>obj->node\<close>\<close>
  | TaskMmap nat        \<comment> \<open>\<^verbatim>\<open>task->task_mmap\<close>\<close>
  | VmMmap nat          \<comment> \<open>\<^verbatim>\<open>vma->vm_mmap\<close>\<close>
  | RmapVmas nat        \<comment> \<open>\<^verbatim>\<open>rmap->vmas\<close>\<close>
  | RmapNode nat        \<comment> \<open>\<^verbatim>\<open>vma->rmap_node\<close>\<close>
  | RunqHead            \<comment> \<open>\<^verbatim>\<open>runq\<close>\<close>
  | CpuRunq nat         \<comment> \<open>\<^verbatim>\<open>cpus[c].runq\<close>\<close>
  | CpuNextq nat        \<comment> \<open>\<^verbatim>\<open>cpus[c].nextq\<close>\<close>
  | TaskNode nat        \<comment> \<open>\<^verbatim>\<open>task->task_node\<close>\<close>
  | TaskChildren nat    \<comment> \<open>\<^verbatim>\<open>task->task_children\<close>\<close>
  | TaskChild nat       \<comment> \<open>\<^verbatim>\<open>task->task_child\<close>\<close>
  | TaskZombies nat     \<comment> \<open>\<^verbatim>\<open>task->task_zombies\<close>\<close>

section \<open>Generic facts\<close>

lemma in_set_split:
  assumes "x \<in> set xs" and "distinct xs"
  obtains ys zs where "xs = ys @ x # zs" and "x \<notin> set ys" and "x \<notin> set zs"
    and "remove1 x xs = ys @ zs"
proof -
  from assms(1) obtain ys zs where eq: "xs = ys @ x # zs" and "x \<notin> set ys"
    by (meson split_list_first)
  with assms(2) that show ?thesis
    by (simp add: remove1_append)
qed

lemma distinct_remove1_set: "distinct xs \<Longrightarrow> set (remove1 x xs) = set xs - {x}"
  by (rule set_remove1_eq)

lemma map_remove1_inj:
  "inj f \<Longrightarrow> map f (remove1 x xs) = remove1 (f x) (map f xs)"
  by (induction xs) (auto dest: injD)

end
