(* ===== verification/Lists.thy ===== *)
theory Lists
  imports Prelude
begin

text \<open>
  The circular doubly linked intrusive lists of lib/list.c and include/list.h, on an explicit
  store of \<open>next\<close> and \<open>prev\<close> pointers. \<open>is_list h p xs\<close> says that the ring starting at the
  anchor \<open>p\<close> visits exactly the anchors \<open>xs\<close>; every operation is related to the
  corresponding operation on HOL lists, first for one ring and then for a family of disjoint
  rings. The locale \<open>intrusive_lists\<close> is the interface the allocator and the scheduler use.
\<close>

section \<open>The operations of lib/list.c\<close>

record lheap =
  nx :: "anchor \<Rightarrow> anchor"
  pv :: "anchor \<Rightarrow> anchor"

definition set_next :: "anchor \<Rightarrow> anchor \<Rightarrow> lheap \<Rightarrow> lheap" where
  "set_next n v h = h\<lparr>nx := (nx h)(n := v)\<rparr>"

definition set_prev :: "anchor \<Rightarrow> anchor \<Rightarrow> lheap \<Rightarrow> lheap" where
  "set_prev n v h = h\<lparr>pv := (pv h)(n := v)\<rparr>"

text \<open>
  The store is total and \<open>Null\<close> is an ordinary cell of it: the boot stub maps address 0, and
  code that follows a null pointer reads or writes the cell there. The lemmas below show that
  operations on well-formed rings never touch it.
\<close>

definition list_init :: "anchor \<Rightarrow> lheap \<Rightarrow> lheap" where
  "list_init head h = set_prev head head (set_next head head h)"

definition list_insert_after :: "anchor \<Rightarrow> anchor \<Rightarrow> lheap \<Rightarrow> lheap" where
  "list_insert_after after new h =
     (let h = set_prev new after h;
          h = set_next new (nx h after) h;
          h = set_prev (nx h after) new h;
          h = set_next after new h
      in h)"

definition list_insert_before :: "anchor \<Rightarrow> anchor \<Rightarrow> lheap \<Rightarrow> lheap" where
  "list_insert_before before new h =
     (let h = set_next new before h;
          h = set_prev new (pv h before) h;
          h = set_next (pv h before) new h;
          h = set_prev before new h
      in h)"

definition list_del :: "anchor \<Rightarrow> lheap \<Rightarrow> lheap res" where
  "list_del node h =
     kassert (nx h node \<noteq> Null) (kassert (pv h node \<noteq> Null)
       (let h = set_next (pv h node) (nx h node) h;
            h = set_prev (nx h node) (pv h node) h;
            h = set_next node node h;
            h = set_prev node node h
        in Inr h))"

definition list_add :: "anchor \<Rightarrow> anchor \<Rightarrow> lheap \<Rightarrow> lheap" where
  "list_add head new h = list_insert_after head new h"

definition list_add_tail :: "anchor \<Rightarrow> anchor \<Rightarrow> lheap \<Rightarrow> lheap" where
  "list_add_tail head new h = list_insert_before head new h"

text \<open>\<open>list_pop\<close> takes the node before the head, \<open>list_pop_tail\<close> the one after it.\<close>

definition list_pop :: "anchor \<Rightarrow> lheap \<Rightarrow> (anchor \<times> lheap) res" where
  "list_pop head h =
     (if pv h head = head then Inr (Null, h)
      else let node = pv h head in rbind (list_del node h) (\<lambda>h. Inr (node, h)))"

definition list_pop_tail :: "anchor \<Rightarrow> lheap \<Rightarrow> (anchor \<times> lheap) res" where
  "list_pop_tail head h =
     (if nx h head = head then Inr (Null, h)
      else let node = nx h head in rbind (list_del node h) (\<lambda>h. Inr (node, h)))"

definition list_is_empty :: "anchor \<Rightarrow> lheap \<Rightarrow> bool" where
  "list_is_empty head h = (nx h head = head)"

definition list_head :: "anchor \<Rightarrow> lheap \<Rightarrow> anchor" where
  "list_head head h = (if nx h head = head then Null else nx h head)"

definition list_tail :: "anchor \<Rightarrow> lheap \<Rightarrow> anchor" where
  "list_tail head h = (if pv h head = head then Null else pv h head)"

definition list_next :: "anchor \<Rightarrow> anchor \<Rightarrow> lheap \<Rightarrow> anchor" where
  "list_next head node h = (if nx h node = head then Null else nx h node)"

definition list_prev :: "anchor \<Rightarrow> anchor \<Rightarrow> lheap \<Rightarrow> anchor" where
  "list_prev head node h = (if pv h node = head then Null else pv h node)"

text \<open>\<^verbatim>\<open>list_foreach\<close>: the nodes visited, \<open>None\<close> when the walk never comes back to the head.\<close>

partial_function (option) foreach_from ::
  "lheap \<Rightarrow> anchor \<Rightarrow> anchor \<Rightarrow> anchor list option" where
  "foreach_from h head node =
     (if node = head then Some []
      else Option.bind (foreach_from h head (nx h node)) (\<lambda>xs. Some (node # xs)))"

definition list_foreach :: "anchor \<Rightarrow> lheap \<Rightarrow> anchor list option" where
  "list_foreach head h = foreach_from h head (nx h head)"

lemmas list_op_defs [list_defs] =
  set_next_def set_prev_def list_init_def list_insert_after_def list_insert_before_def
  list_del_def list_add_def list_add_tail_def

section \<open>Segments and rings\<close>

fun linked :: "lheap \<Rightarrow> anchor \<Rightarrow> anchor list \<Rightarrow> anchor \<Rightarrow> bool" where
  "linked h a [] b \<longleftrightarrow> nx h a = b \<and> pv h b = a"
| "linked h a (x # xs) b \<longleftrightarrow> nx h a = x \<and> pv h x = a \<and> linked h x xs b"

definition is_list :: "lheap \<Rightarrow> anchor \<Rightarrow> anchor list \<Rightarrow> bool" where
  "is_list h p xs \<longleftrightarrow> linked h p xs p \<and> distinct (p # xs) \<and> Null \<notin> set (p # xs)"

lemma linked_append [simp]:
  "linked h a (xs @ y # ys) b \<longleftrightarrow> linked h a xs y \<and> linked h y ys b"
  by (induction xs arbitrary: a) auto

lemma linked_frame:
  assumes "linked h a xs b"
    and "\<And>x. x \<in> set (a # xs) \<Longrightarrow> nx h' x = nx h x"
    and "\<And>x. x \<in> set (b # xs) \<Longrightarrow> pv h' x = pv h x"
  shows "linked h' a xs b"
  using assms by (induction xs arbitrary: a) auto

lemma is_list_frame:
  assumes "is_list h p xs"
    and "\<And>x. x \<in> set (p # xs) \<Longrightarrow> nx h' x = nx h x \<and> pv h' x = pv h x"
  shows "is_list h' p xs"
proof -
  have "linked h' p xs p"
    by (rule linked_frame [of h]) (use assms in \<open>auto simp: is_list_def\<close>)
  with assms(1) show ?thesis by (simp add: is_list_def)
qed

lemma linked_nx: "linked h a xs b \<Longrightarrow> nx h a = hd (xs @ [b])"
  by (cases xs) auto

lemma linked_pv: "linked h a xs b \<Longrightarrow> pv h b = last (a # xs)"
  by (induction xs arbitrary: a) auto

lemma is_list_unique: "is_list h p xs \<Longrightarrow> is_list h p ys \<Longrightarrow> xs = ys"
proof -
  have "linked h a xs b \<Longrightarrow> linked h a ys b \<Longrightarrow> b \<notin> set xs \<Longrightarrow> b \<notin> set ys \<Longrightarrow> xs = ys" for a b
  proof (induction xs arbitrary: a ys)
    case Nil
    then show ?case by (cases ys) auto
  next
    case (Cons x xs)
    then show ?case by (cases ys) auto
  qed
  then show "is_list h p xs \<Longrightarrow> is_list h p ys \<Longrightarrow> xs = ys"
    by (auto simp: is_list_def)
qed

lemma is_list_head_nodes:
  "is_list h p xs \<Longrightarrow> nx h p = (if xs = [] then p else hd xs)"
  "is_list h p xs \<Longrightarrow> pv h p = (if xs = [] then p else last xs)"
  by (auto simp: is_list_def dest: linked_nx linked_pv)

lemma is_list_empty_iff: "is_list h p xs \<Longrightarrow> list_is_empty p h \<longleftrightarrow> xs = []"
  by (cases xs) (auto simp: is_list_def list_is_empty_def)

lemma is_list_in_nodes:
  assumes "is_list h p xs" and "n \<in> set xs"
  shows "nx h n \<noteq> n" and "nx h n \<noteq> Null" and "pv h n \<noteq> Null"
proof -
  from assms obtain ys zs where xs: "xs = ys @ n # zs" by (meson split_list)
  with assms(1) have l: "linked h p ys n" "linked h n zs p" by (auto simp: is_list_def)
  from linked_nx [OF l(2)] assms(1) xs show "nx h n \<noteq> n" "nx h n \<noteq> Null"
    by (cases zs; auto simp: is_list_def)+
  from linked_pv [OF l(1)] assms(1) xs show "pv h n \<noteq> Null"
    by (cases ys rule: rev_cases; auto simp: is_list_def)
qed

lemma is_list_init [simp]: "p \<noteq> Null \<Longrightarrow> is_list (list_init p h) p []"
  by (simp add: is_list_def list_defs)

section \<open>Effect of each operation on its own ring\<close>

lemma is_list_add:
  assumes "is_list h p xs" and "n \<notin> set (p # xs)" and "n \<noteq> Null"
  shows "is_list (list_add p n h) p (n # xs)"
proof (cases xs)
  case Nil
  with assms show ?thesis by (auto simp: is_list_def list_defs)
next
  case (Cons y ys)
  with assms have l: "linked h y ys p" and nx: "nx h p = y" and "y \<noteq> p" "p \<notin> set ys" "y \<notin> set ys"
    and fresh: "n \<notin> set (p # y # ys)"
    by (auto simp: is_list_def)
  have eq: "nx (list_add p n h) = (nx h)(n := y, p := n)"
    "pv (list_add p n h) = (pv h)(n := p, y := n)"
    using nx fresh by (auto simp: list_defs Let_def)
  have "linked (list_add p n h) y ys p"
    by (rule linked_frame [OF l]) (use fresh \<open>y \<noteq> p\<close> \<open>p \<notin> set ys\<close> \<open>y \<notin> set ys\<close> in \<open>auto simp: eq\<close>)
  with Cons assms \<open>y \<noteq> p\<close> show ?thesis
    by (auto simp: is_list_def eq)
qed

lemma is_list_add_tail:
  assumes "is_list h p xs" and "n \<notin> set (p # xs)" and "n \<noteq> Null"
  shows "is_list (list_add_tail p n h) p (xs @ [n])"
proof (cases xs rule: rev_cases)
  case Nil
  with assms show ?thesis by (auto simp: is_list_def list_defs)
next
  case (snoc ys y)
  with assms have l: "linked h p ys y" and pv: "pv h p = y" and "y \<noteq> p" "p \<notin> set ys" "y \<notin> set ys"
    and fresh: "n \<notin> set (p # y # ys)"
    by (auto simp: is_list_def)
  have eq: "nx (list_add_tail p n h) = (nx h)(n := p, y := n)"
    "pv (list_add_tail p n h) = (pv h)(n := y, p := n)"
    using pv fresh by (auto simp: list_defs Let_def)
  have "linked (list_add_tail p n h) p ys y"
    by (rule linked_frame [OF l]) (use fresh \<open>y \<noteq> p\<close> \<open>p \<notin> set ys\<close> \<open>y \<notin> set ys\<close> in \<open>auto simp: eq\<close>)
  with snoc assms \<open>y \<noteq> p\<close> show ?thesis
    by (auto simp: is_list_def eq)
qed

lemma list_del_heap:
  assumes "nx h n \<noteq> Null" and "pv h n \<noteq> Null" and "nx h n \<noteq> n"
  shows "list_del n h =
    Inr \<lparr>nx = (nx h)(pv h n := nx h n, n := n), pv = (pv h)(nx h n := pv h n, n := n)\<rparr>"
  using assms by (cases h) (auto simp: list_defs Let_def fun_upd_twist)

lemma is_list_del:
  assumes "is_list h p (ys @ n # zs)"
  obtains h' where "list_del n h = Inr h'" and "is_list h' p (ys @ zs)" and "is_list h' n []"
    and "\<And>x. x \<notin> set (p # ys @ n # zs) \<Longrightarrow> nx h' x = nx h x \<and> pv h' x = pv h x"
proof -
  let ?h = "\<lparr>nx = (nx h)(pv h n := nx h n, n := n), pv = (pv h)(nx h n := pv h n, n := n)\<rparr>"
  from assms have l: "linked h p ys n" "linked h n zs p"
    and d: "distinct (p # ys @ n # zs)" and nn: "Null \<notin> set (p # ys @ n # zs)"
    by (auto simp: is_list_def)
  note ok = is_list_in_nodes [OF assms, of n, simplified]
  have a: "pv h n = last (p # ys)" and b: "nx h n = hd (zs @ [p])"
    using l by (simp_all only: linked_pv linked_nx)
  have "linked ?h p (ys @ zs) p"
  proof (cases zs)
    case Nil
    have "linked ?h p ys p"
    proof (cases ys rule: rev_cases)
      case Nil
      with \<open>zs = []\<close> a b d show ?thesis by auto
    next
      case (snoc us u)
      with l(1) have "linked h p us u" by simp
      then have "linked ?h p us u"
        by (rule linked_frame) (use snoc \<open>zs = []\<close> a b d in auto)
      with snoc \<open>zs = []\<close> a b d show ?thesis by auto
    qed
    with Nil show ?thesis by simp
  next
    case (Cons z ws)
    with l(2) have lw: "linked h z ws p" by simp
    have "pv h n \<notin> set (z # ws)"
      unfolding a using Cons d by (cases ys rule: rev_cases) auto
    then have lw': "linked ?h z ws p"
      by (intro linked_frame [OF lw]) (use Cons a b d in auto)
    have "linked ?h p ys z"
    proof (cases ys rule: rev_cases)
      case Nil
      with Cons a b d show ?thesis by auto
    next
      case (snoc us u)
      with l(1) have "linked h p us u" by simp
      then have "linked ?h p us u"
        by (rule linked_frame) (use snoc Cons a b d in auto)
      with snoc Cons a b d show ?thesis by auto
    qed
    with lw' Cons show ?thesis by simp
  qed
  then have "is_list ?h p (ys @ zs)"
    using d nn by (auto simp: is_list_def)
  moreover have "is_list ?h n []"
    using nn by (auto simp: is_list_def)
  moreover have "nx ?h x = nx h x \<and> pv ?h x = pv h x" if "x \<notin> set (p # ys @ n # zs)" for x
  proof -
    have "pv h n \<in> set (p # ys)" "nx h n \<in> set (p # zs)"
      unfolding a b by (cases ys rule: rev_cases; simp) (cases zs; simp)
    with that show ?thesis by auto
  qed
  ultimately show ?thesis
    using that [of ?h] list_del_heap [of h n] ok by blast
qed

lemma list_del_single: "is_list h n [] \<Longrightarrow> list_del n h = Inr h"
  by (cases h) (auto simp: is_list_def list_defs Let_def fun_upd_idem)

lemma list_add_untouched:
  assumes "is_list h p xs" and "x \<notin> insert n (set (p # xs))"
  shows "nx (list_add p n h) x = nx h x \<and> pv (list_add p n h) x = pv h x"
proof -
  have "nx h p \<in> set (p # xs)"
    using assms(1) by (cases xs) (auto simp: is_list_def)
  with assms(2) show ?thesis by (auto simp: list_defs Let_def)
qed

lemma list_add_tail_untouched:
  assumes "is_list h p xs" and "x \<notin> insert n (set (p # xs))"
  shows "nx (list_add_tail p n h) x = nx h x \<and> pv (list_add_tail p n h) x = pv h x"
proof -
  have "pv h p \<in> set (p # xs)"
    using is_list_head_nodes(2) [OF assms(1)] by auto
  with assms(2) show ?thesis by (auto simp: list_defs Let_def)
qed

lemma foreach_from_linked:
  "linked h a xs p \<Longrightarrow> p \<notin> set xs \<Longrightarrow> foreach_from h p (nx h a) = Some xs"
  by (induction xs arbitrary: a) (auto simp: foreach_from.simps)

lemma list_foreach_is_list: "is_list h p xs \<Longrightarrow> list_foreach p h = Some xs"
  by (simp add: is_list_def list_foreach_def foreach_from_linked)

section \<open>The interface of intrusive lists\<close>

text \<open>
  A family of rings is a map from head anchors to the nodes on their rings; an anchor on no
  other ring is a head with no nodes. Adding a node to a ring takes it out of the domain,
  removing it puts it back, so the rings always partition the same set of anchors.
\<close>

definition ring_family :: "('h \<Rightarrow> 'p \<Rightarrow> 'p list \<Rightarrow> bool) \<Rightarrow> 'h \<Rightarrow> ('p \<rightharpoonup> 'p list) \<Rightarrow> bool" where
  "ring_family rep h L \<longleftrightarrow> (\<forall>p xs. L p = Some xs \<longrightarrow> rep h p xs) \<and>
     (\<forall>p q xs ys. L p = Some xs \<longrightarrow> L q = Some ys \<longrightarrow> p \<noteq> q \<longrightarrow>
        set (p # xs) \<inter> set (q # ys) = {})"

definition ring_nodes :: "('p \<rightharpoonup> 'p list) \<Rightarrow> 'p set" where
  "ring_nodes L = {x. \<exists>p xs. L p = Some xs \<and> x \<in> set (p # xs)}"

lemma ring_nodesD: "L p = Some xs \<Longrightarrow> set (p # xs) \<subseteq> ring_nodes L"
  by (auto simp: ring_nodes_def)

locale intrusive_lists =
  fixes rep :: "'h \<Rightarrow> 'p \<Rightarrow> 'p list \<Rightarrow> bool"
    and add :: "'p \<Rightarrow> 'p \<Rightarrow> 'h \<Rightarrow> 'h"
    and add_tail :: "'p \<Rightarrow> 'p \<Rightarrow> 'h \<Rightarrow> 'h"
    and del :: "'p \<Rightarrow> 'h \<Rightarrow> 'h res"
    and pop :: "'p \<Rightarrow> 'h \<Rightarrow> ('p \<times> 'h) res"
    and pop_tail :: "'p \<Rightarrow> 'h \<Rightarrow> ('p \<times> 'h) res"
    and isempty :: "'p \<Rightarrow> 'h \<Rightarrow> bool"
    and null :: 'p
  assumes rep_distinct: "rep h p xs \<Longrightarrow> distinct (p # xs)"
    and rep_empty: "rep h p xs \<Longrightarrow> isempty p h \<longleftrightarrow> xs = []"
    and rep_add: "rep h p xs \<Longrightarrow> rep h n [] \<Longrightarrow> n \<notin> set (p # xs) \<Longrightarrow> rep (add p n h) p (n # xs)"
    and rep_add_tail:
      "rep h p xs \<Longrightarrow> rep h n [] \<Longrightarrow> n \<notin> set (p # xs) \<Longrightarrow> rep (add_tail p n h) p (xs @ [n])"
    and rep_add_frame:
      "rep h p xs \<Longrightarrow> rep h q ys \<Longrightarrow> set (q # ys) \<inter> insert n (set (p # xs)) = {} \<Longrightarrow>
       rep (add p n h) q ys"
    and rep_add_tail_frame:
      "rep h p xs \<Longrightarrow> rep h q ys \<Longrightarrow> set (q # ys) \<inter> insert n (set (p # xs)) = {} \<Longrightarrow>
       rep (add_tail p n h) q ys"
    and rep_del:
      "rep h p xs \<Longrightarrow> n \<in> set xs \<Longrightarrow>
       rok (del n h) (\<lambda>h'. rep h' p (remove1 n xs) \<and> rep h' n [] \<and>
         (\<forall>q ys. rep h q ys \<longrightarrow> set (q # ys) \<inter> set (p # xs) = {} \<longrightarrow> rep h' q ys))"
    and rep_del_single: "rep h n [] \<Longrightarrow> del n h = Inr h"
    and rep_pop:
      "rep h p xs \<Longrightarrow> pop p h =
       (if xs = [] then Inr (null, h) else rbind (del (last xs) h) (\<lambda>h. Inr (last xs, h)))"
    and rep_pop_tail:
      "rep h p xs \<Longrightarrow> pop_tail p h =
       (if xs = [] then Inr (null, h) else rbind (del (hd xs) h) (\<lambda>h. Inr (hd xs, h)))"
begin

lemma family_rep: "ring_family rep h L \<Longrightarrow> L p = Some xs \<Longrightarrow> rep h p xs"
  by (simp add: ring_family_def)

lemma family_disjoint:
  "ring_family rep h L \<Longrightarrow> L p = Some xs \<Longrightarrow> L q = Some ys \<Longrightarrow> p \<noteq> q \<Longrightarrow>
   set (p # xs) \<inter> set (q # ys) = {}"
  by (simp add: ring_family_def)

lemma family_add_gen:
  assumes fam: "ring_family rep h L" and p: "L p = Some xs" and n: "L n = Some []" and ne: "p \<noteq> n"
    and own: "rep h' p zs" and zs: "set zs = insert n (set xs)"
    and frame: "\<And>q ys. rep h q ys \<Longrightarrow> set (q # ys) \<inter> insert n (set (p # xs)) = {} \<Longrightarrow> rep h' q ys"
  shows "ring_family rep h' (L(p \<mapsto> zs, n := None))"
  unfolding ring_family_def
proof (intro conjI allI impI)
  fix q ys
  assume q: "(L(p \<mapsto> zs, n := None)) q = Some ys"
  show "rep h' q ys"
  proof (cases "q = p")
    case True
    with q own ne show ?thesis by (auto split: if_splits)
  next
    case False
    with q have "L q = Some ys" "q \<noteq> n" by (auto split: if_splits)
    with family_disjoint [OF fam _ p] family_disjoint [OF fam _ n] False
    have "set (q # ys) \<inter> insert n (set (p # xs)) = {}" by fastforce
    with family_rep [OF fam \<open>L q = Some ys\<close>] show ?thesis by (rule frame)
  qed
next
  fix q r us vs
  assume qr: "(L(p \<mapsto> zs, n := None)) q = Some us" "(L(p \<mapsto> zs, n := None)) r = Some vs" "q \<noteq> r"
  have other: "L a = Some ws \<and> set (a # ws) \<inter> set (p # zs) = {}"
    if "(L(p \<mapsto> zs, n := None)) a = Some ws" "a \<noteq> p" for a ws
  proof -
    from that have "L a = Some ws" "a \<noteq> n" by (auto split: if_splits)
    with family_disjoint [OF fam _ p] family_disjoint [OF fam _ n] that(2)
    show ?thesis unfolding list.set zs by fastforce
  qed
  show "set (q # us) \<inter> set (r # vs) = {}"
  proof (cases "q = p \<or> r = p")
    case True
    with qr ne have "q = p \<and> us = zs \<and> r \<noteq> p \<or> r = p \<and> vs = zs \<and> q \<noteq> p"
      by (auto split: if_splits)
    with other qr show ?thesis by blast
  next
    case False
    with other qr have "L q = Some us" "L r = Some vs" by blast+
    from family_disjoint [OF fam this \<open>q \<noteq> r\<close>] show ?thesis .
  qed
qed

lemma family_add:
  assumes "ring_family rep h L" and "L p = Some xs" and "L n = Some []" and "p \<noteq> n"
  shows "ring_family rep (add p n h) (L(p \<mapsto> n # xs, n := None))"
proof (rule family_add_gen [OF assms])
  have "n \<notin> set (p # xs)"
    using family_disjoint [OF assms(1-3) assms(4)] by auto
  then show "rep (add p n h) p (n # xs)"
    using assms family_rep rep_add by blast
qed (use rep_add_frame [OF family_rep [OF assms(1,2)]] in auto)

lemma family_add_tail:
  assumes "ring_family rep h L" and "L p = Some xs" and "L n = Some []" and "p \<noteq> n"
  shows "ring_family rep (add_tail p n h) (L(p \<mapsto> xs @ [n], n := None))"
proof (rule family_add_gen [OF assms])
  have "n \<notin> set (p # xs)"
    using family_disjoint [OF assms(1-3) assms(4)] by auto
  then show "rep (add_tail p n h) p (xs @ [n])"
    using assms family_rep rep_add_tail by blast
qed (use rep_add_tail_frame [OF family_rep [OF assms(1,2)]] in auto)

lemma family_del:
  assumes fam: "ring_family rep h L" and p: "L p = Some xs" and n: "n \<in> set xs"
  shows "rok (del n h) (\<lambda>h'. ring_family rep h' (L(p \<mapsto> remove1 n xs, n \<mapsto> [])))"
proof (rule rok_mono [OF rep_del [OF family_rep [OF fam p] n]])
  fix h'
  assume h': "rep h' p (remove1 n xs) \<and> rep h' n [] \<and>
    (\<forall>q ys. rep h q ys \<longrightarrow> set (q # ys) \<inter> set (p # xs) = {} \<longrightarrow> rep h' q ys)"
  have d: "distinct (p # xs)" using rep_distinct family_rep [OF fam p] by blast
  let ?L = "L(p \<mapsto> remove1 n xs, n \<mapsto> [])"
  have sub: "set (p # remove1 n xs) = set (p # xs) - {n}" using d n by auto
  have other: "L a = Some ws \<and> set (a # ws) \<inter> set (p # xs) = {}"
    if "?L a = Some ws" "a \<noteq> p" "a \<noteq> n" for a ws
    using that family_disjoint [OF fam _ p] by auto
  have rep: "rep h' q ys" if "?L q = Some ys" for q ys
    using that h' other [of q ys] family_rep [OF fam, of q ys] n d
    by (cases "q = n"; cases "q = p") auto
  have "set (q # us) \<inter> set (r # vs) = {}"
    if qr: "?L q = Some us" "?L r = Some vs" "q \<noteq> r" for q r us vs
  proof -
    have tri: "a = n \<and> set (a # ws) = {n} \<or> a = p \<and> set (a # ws) = set (p # xs) - {n} \<or>
        L a = Some ws \<and> set (a # ws) \<inter> set (p # xs) = {}" if "?L a = Some ws" for a ws
      using that other [of a ws] sub n d by (cases "a = n"; cases "a = p") auto
    have both: "set (q # us) \<inter> set (r # vs) = {}" if "L q = Some us" "L r = Some vs"
      by (rule family_disjoint [OF fam that qr(3)])
    have "n \<in> set (p # xs)" using n by simp
    with tri [OF qr(1)] tri [OF qr(2)] both qr(3) show ?thesis
      by (elim disjE conjE) (simp_all only:, blast+)
  qed
  with rep show "ring_family rep h' ?L" unfolding ring_family_def by blast
qed

lemma family_del_single: "ring_family rep h L \<Longrightarrow> L n = Some [] \<Longrightarrow> del n h = Inr h"
  using family_rep rep_del_single by blast

lemma family_isempty: "ring_family rep h L \<Longrightarrow> L p = Some xs \<Longrightarrow> isempty p h \<longleftrightarrow> xs = []"
  using family_rep rep_empty by blast

lemma family_pop:
  assumes fam: "ring_family rep h L" and p: "L p = Some xs" and ne: "xs \<noteq> []"
  shows "rok (pop p h) (\<lambda>(n, h'). n = last xs \<and> ring_family rep h' (L(p \<mapsto> butlast xs, n \<mapsto> [])))"
proof -
  have d: "distinct xs" using rep_distinct family_rep [OF fam p] by auto
  then have "remove1 (last xs) xs = butlast xs"
    using ne by (cases xs rule: rev_cases) (auto simp: remove1_append)
  with family_del [OF fam p last_in_set [OF ne]] ne show ?thesis
    by (simp add: rep_pop [OF family_rep [OF fam p]] rok_rbind)
qed

lemma family_pop_tail:
  assumes fam: "ring_family rep h L" and p: "L p = Some xs" and ne: "xs \<noteq> []"
  shows "rok (pop_tail p h) (\<lambda>(n, h'). n = hd xs \<and> ring_family rep h' (L(p \<mapsto> tl xs, n \<mapsto> [])))"
proof -
  have "remove1 (hd xs) xs = tl xs" using ne by (cases xs) auto
  with family_del [OF fam p hd_in_set [OF ne]] ne show ?thesis
    by (simp add: rep_pop_tail [OF family_rep [OF fam p]] rok_rbind)
qed

text \<open>An operation on the rings of one family leaves a family on other anchors alone.\<close>

lemma family_add_frame:
  assumes "ring_family rep h M" and "rep h p xs" and "ring_nodes M \<inter> insert n (set (p # xs)) = {}"
  shows "ring_family rep (add p n h) M"
proof -
  have "rep (add p n h) q ys" if "M q = Some ys" for q ys
    by (rule rep_add_frame [OF assms(2) family_rep [OF assms(1) that]])
      (use assms(3) ring_nodesD [of M, OF that] in blast)
  with assms(1) show ?thesis by (simp add: ring_family_def)
qed

lemma family_del_frame:
  assumes fam: "ring_family rep h M" and "rep h p xs" and "n \<in> set xs"
    and dis: "ring_nodes M \<inter> set (p # xs) = {}"
  shows "rok (del n h) (\<lambda>h'. ring_family rep h' M)"
proof (rule rok_mono [OF rep_del [OF assms(2,3)]], elim conjE)
  fix h'
  assume h': "\<forall>q ys. rep h q ys \<longrightarrow> set (q # ys) \<inter> set (p # xs) = {} \<longrightarrow> rep h' q ys"
  have "rep h' q ys" if "M q = Some ys" for q ys
  proof -
    have "set (q # ys) \<inter> set (p # xs) = {}" using dis ring_nodesD [of M, OF that] by blast
    with h' family_rep [OF fam that] show ?thesis by blast
  qed
  with fam show "ring_family rep h' M" by (simp add: ring_family_def)
qed

text \<open>\<open>add_tail\<close> and \<open>pop_tail\<close> together are a first-in first-out queue.\<close>

lemma family_fifo:
  assumes "ring_family rep h L" and "L p = Some (x # xs)" and "L n = Some []" and "p \<noteq> n"
  shows "rok (pop_tail p (add_tail p n h))
    (\<lambda>(m, h'). m = x \<and> ring_family rep h' (L(n := None, p \<mapsto> xs @ [n], x \<mapsto> [])))"
proof -
  have x: "x \<noteq> n" "x \<noteq> p"
    using family_disjoint [OF assms(1-3) assms(4)] rep_distinct [OF family_rep [OF assms(1,2)]] by auto
  show ?thesis
    by (rule rok_mono [OF family_pop_tail [OF family_add_tail [OF assms], of p "x # xs @ [n]"]])
      (use assms(4) x in \<open>auto simp: fun_upd_twist\<close>)
qed

end

lemma is_list_interface: "intrusive_lists is_list list_add list_add_tail list_del
    list_pop list_pop_tail list_is_empty Null"
proof
  fix h p xs n
  assume l: "is_list h p xs" and n: "n \<in> set xs"
  then have "distinct xs" by (simp add: is_list_def)
  with n obtain ys zs where xs: "xs = ys @ n # zs" and r: "remove1 n xs = ys @ zs"
    by (auto elim: in_set_split)
  from is_list_del l xs obtain h' where h': "list_del n h = Inr h'" "is_list h' p (ys @ zs)"
    "is_list h' n []" "\<And>x. x \<notin> set (p # ys @ n # zs) \<Longrightarrow> nx h' x = nx h x \<and> pv h' x = pv h x"
    by metis
  have "is_list h' q us" if "is_list h q us" "set (q # us) \<inter> set (p # xs) = {}" for q us
    by (rule is_list_frame [OF that(1)]) (use h'(4) that(2) xs in blast)
  with h' r show "rok (list_del n h) (\<lambda>h'. is_list h' p (remove1 n xs) \<and> is_list h' n [] \<and>
         (\<forall>q ys. is_list h q ys \<longrightarrow> set (q # ys) \<inter> set (p # xs) = {} \<longrightarrow> is_list h' q ys))"
    by simp
next
  fix h p xs q ys n
  assume l: "is_list h p xs" "is_list h q ys" "set (q # ys) \<inter> insert n (set (p # xs)) = {}"
  show "is_list (list_add p n h) q ys"
    by (rule is_list_frame [OF l(2)]) (use list_add_untouched [OF l(1)] l(3) in blast)
  show "is_list (list_add_tail p n h) q ys"
    by (rule is_list_frame [OF l(2)]) (use list_add_tail_untouched [OF l(1)] l(3) in blast)
next
  fix h p xs
  assume l: "is_list h p xs"
  note nodes = is_list_head_nodes [OF l]
  from l have "p \<notin> set xs" by (simp add: is_list_def)
  with nodes show "list_pop p h = (if xs = [] then Inr (Null, h)
      else rbind (list_del (last xs) h) (\<lambda>h. Inr (last xs, h)))"
    and "list_pop_tail p h = (if xs = [] then Inr (Null, h)
      else rbind (list_del (hd xs) h) (\<lambda>h. Inr (hd xs, h)))"
    using last_in_set [of xs] hd_in_set [of xs]
    by (auto simp: list_pop_def list_pop_tail_def Let_def)
next
  fix h p xs n
  assume l: "is_list h p xs" "is_list h n []" "n \<notin> set (p # xs)"
  then have "n \<noteq> Null" by (auto simp: is_list_def)
  with l show "is_list (list_add p n h) p (n # xs)" and "is_list (list_add_tail p n h) p (xs @ [n])"
    by (simp_all add: is_list_add is_list_add_tail)
qed (simp_all add: is_list_empty_iff list_del_single is_list_def)

interpretation rings: intrusive_lists is_list list_add list_add_tail list_del
    list_pop list_pop_tail list_is_empty Null
  by (rule is_list_interface)

lemma family_frame:
  assumes "ring_family is_list h M"
    and "\<And>x. x \<in> ring_nodes M \<Longrightarrow> nx h' x = nx h x \<and> pv h' x = pv h x"
  shows "ring_family is_list h' M"
proof -
  have "is_list h' q ys" if "M q = Some ys" for q ys
    by (rule is_list_frame [OF rings.family_rep [OF assms(1) that]])
      (use assms(2) ring_nodesD [of M, OF that] in blast)
  with assms(1) show ?thesis by (simp add: ring_family_def)
qed

text \<open>The operations on a family write no cell outside it.\<close>

lemma family_add_outside:
  assumes "ring_family is_list h L" and "L p = Some xs" and "L n = Some []" and "x \<notin> ring_nodes L"
  shows "nx (list_add p n h) x = nx h x \<and> pv (list_add p n h) x = pv h x"
  by (rule list_add_untouched [OF rings.family_rep [OF assms(1,2)]])
    (use assms(4) ring_nodesD [of L, OF assms(2)] ring_nodesD [of L, OF assms(3)] in auto)

lemma family_del_outside:
  assumes "ring_family is_list h L" and "L p = Some xs" and "n \<in> set xs" and "x \<notin> ring_nodes L"
    and "list_del n h = Inr h'"
  shows "nx h' x = nx h x \<and> pv h' x = pv h x"
proof -
  note rep = rings.family_rep [OF assms(1,2)]
  obtain ys zs where xs: "xs = ys @ n # zs"
    using assms(3) by (meson split_list)
  with rep is_list_del obtain h'' where h'': "list_del n h = Inr h''"
    and un: "\<And>x. x \<notin> set (p # ys @ n # zs) \<Longrightarrow> nx h'' x = nx h x \<and> pv h'' x = pv h x"
    by metis
  have "x \<notin> set (p # ys @ n # zs)"
    using ring_nodesD [of L, OF assms(2)] assms(4) xs by blast
  from un [OF this] h'' assms(5) show ?thesis by simp
qed

lemma ring_nodes_add:
  "L p = Some xs \<Longrightarrow> L n = Some [] \<Longrightarrow> p \<noteq> n \<Longrightarrow>
   ring_nodes (L(p \<mapsto> n # xs, n := None)) \<subseteq> ring_nodes L"
  by (fastforce simp: ring_nodes_def split: if_splits)

lemma ring_nodes_del:
  "L p = Some xs \<Longrightarrow> n \<in> set xs \<Longrightarrow>
   ring_nodes (L(p \<mapsto> remove1 n xs, n \<mapsto> [])) \<subseteq> ring_nodes L"
  by (fastforce simp: ring_nodes_def dest: set_remove1_subset [THEN subsetD] split: if_splits)

section \<open>Properties of the list library\<close>

text \<open>A store with one ring of two nodes, one detached node and one empty ring.\<close>

definition demo_rings :: "anchor \<rightharpoonup> anchor list" where
  "demo_rings = [RunqHead \<mapsto> [TaskNode 1, TaskNode 2], TaskNode 3 \<mapsto> [], SwapHead \<mapsto> []]"

definition demo_heap :: lheap where
  "demo_heap = \<lparr>nx = (\<lambda>a. a)(RunqHead := TaskNode 1, TaskNode 1 := TaskNode 2, TaskNode 2 := RunqHead),
     pv = (\<lambda>a. a)(RunqHead := TaskNode 2, TaskNode 2 := TaskNode 1, TaskNode 1 := RunqHead)\<rparr>"

lemma demo_rings_family: "ring_family is_list demo_heap demo_rings"
  by (auto simp: ring_family_def demo_rings_def demo_heap_def is_list_def split: if_splits)

text \<open>
  On a well-formed store the insertions refine the operations on sequences: \<^verbatim>\<open>list_add\<close> puts the node in
  front, \<^verbatim>\<open>list_add_tail\<close> behind, every other ring keeps its nodes, and the traversal with
  \<^verbatim>\<open>list_foreach\<close> ends and visits the new sequence.
\<close>

theorem list_insertions_refine:
  assumes "ring_family is_list h L" and "L p = Some xs" and "L n = Some []" and "p \<noteq> n"
  shows "list_foreach p (list_add p n h) = Some (n # xs) \<and>
    list_foreach p (list_add_tail p n h) = Some (xs @ [n]) \<and>
    ring_family is_list (list_add p n h) (L(p \<mapsto> n # xs, n := None)) \<and>
    ring_family is_list (list_add_tail p n h) (L(p \<mapsto> xs @ [n], n := None))"
proof -
  note a = rings.family_add [OF assms] and t = rings.family_add_tail [OF assms]
  have "is_list (list_add p n h) p (n # xs)" "is_list (list_add_tail p n h) p (xs @ [n])"
    using rings.family_rep [OF a, of p] rings.family_rep [OF t, of p] assms(4) by simp_all
  with a t show ?thesis by (simp add: list_foreach_is_list)
qed

theorem list_insertions_refine_witness:
  "list_foreach RunqHead (list_add RunqHead (TaskNode 3) demo_heap) = Some [TaskNode 3, TaskNode 1, TaskNode 2] \<and>
   list_foreach RunqHead (list_add_tail RunqHead (TaskNode 3) demo_heap) = Some [TaskNode 1, TaskNode 2, TaskNode 3]"
  using list_insertions_refine [OF demo_rings_family, of RunqHead "[TaskNode 1, TaskNode 2]" "TaskNode 3"]
  by (simp add: demo_rings_def)

text \<open>
  \<^verbatim>\<open>list_del\<close> of a node on a ring never fails its assertions, takes exactly this node out of its ring,
  leaves it linked to itself and every other ring as it was; a second \<^verbatim>\<open>list_del\<close> of the node changes nothing.
\<close>

theorem list_del_refines:
  assumes "ring_family is_list h L" and "L p = Some xs" and "n \<in> set xs"
  shows "rok (list_del n h) (\<lambda>h'. list_foreach p h' = Some (remove1 n xs) \<and> list_is_empty n h' \<and>
    ring_family is_list h' (L(p \<mapsto> remove1 n xs, n \<mapsto> [])) \<and> list_del n h' = Inr h')"
proof (rule rok_mono [OF rings.family_del [OF assms]])
  fix h'
  assume f: "ring_family is_list h' (L(p \<mapsto> remove1 n xs, n \<mapsto> []))"
  have "p \<noteq> n" using rings.rep_distinct [OF rings.family_rep [OF assms(1,2)]] assms(3) by auto
  then have "is_list h' p (remove1 n xs)" "is_list h' n []"
    using rings.family_rep [OF f, of p] rings.family_rep [OF f, of n] by simp_all
  with f show "list_foreach p h' = Some (remove1 n xs) \<and> list_is_empty n h' \<and>
    ring_family is_list h' (L(p \<mapsto> remove1 n xs, n \<mapsto> [])) \<and> list_del n h' = Inr h'"
    by (simp add: list_foreach_is_list is_list_empty_iff list_del_single)
qed

theorem list_del_refines_witness:
  "rok (list_del (TaskNode 1) demo_heap) (\<lambda>h'. list_foreach RunqHead h' = Some [TaskNode 2])"
  by (rule rok_mono [OF list_del_refines [OF demo_rings_family, of RunqHead "[TaskNode 1, TaskNode 2]"]])
    (auto simp: demo_rings_def)

text \<open>
  Queue disciplines: \<^verbatim>\<open>list_add_tail\<close> with \<^verbatim>\<open>list_pop_tail\<close>, and \<^verbatim>\<open>list_add\<close> with \<^verbatim>\<open>list_pop\<close>, return the
  oldest node of a non-empty ring (first in, first out) and leave the rest in order with the new node
  youngest; on an empty ring both pops return null and change nothing.
\<close>

theorem list_fifo:
  assumes "ring_family is_list h L" and "L n = Some []" and "p \<noteq> n"
  shows "(L p = Some (x # xs) \<longrightarrow> rok (list_pop_tail p (list_add_tail p n h))
       (\<lambda>(m, h'). m = x \<and> list_foreach p h' = Some (xs @ [n]))) \<and>
    (L p = Some (xs @ [x]) \<longrightarrow> rok (list_pop p (list_add p n h))
       (\<lambda>(m, h'). m = x \<and> list_foreach p h' = Some (n # xs))) \<and>
    (L p = Some [] \<longrightarrow> list_pop p h = Inr (Null, h) \<and> list_pop_tail p h = Inr (Null, h))"
proof (intro conjI impI)
  assume p: "L p = Some (x # xs)"
  have x: "x \<noteq> p" using rings.rep_distinct [OF rings.family_rep [OF assms(1) p]] by auto
  show "rok (list_pop_tail p (list_add_tail p n h)) (\<lambda>(m, h'). m = x \<and> list_foreach p h' = Some (xs @ [n]))"
    by (rule rok_mono [OF rings.family_fifo [OF assms(1) p assms(2,3)]])
      (use x in \<open>auto intro!: list_foreach_is_list dest!: rings.family_rep [where p = p]\<close>)
next
  assume p: "L p = Some (xs @ [x])"
  have x: "x \<noteq> p" using rings.rep_distinct [OF rings.family_rep [OF assms(1) p]] by auto
  note f = rings.family_add [OF assms(1) p assms(2,3)]
  show "rok (list_pop p (list_add p n h)) (\<lambda>(m, h'). m = x \<and> list_foreach p h' = Some (n # xs))"
    by (rule rok_mono [OF rings.family_pop [OF f, of p "n # xs @ [x]"]])
      (use x assms(3) in \<open>auto intro!: list_foreach_is_list dest!: rings.family_rep [where p = p]\<close>)
next
  assume "L p = Some []"
  then show "list_pop p h = Inr (Null, h)" "list_pop_tail p h = Inr (Null, h)"
    using rings.rep_pop rings.rep_pop_tail rings.family_rep [OF assms(1)] by fastforce+
qed

theorem list_fifo_witness:
  "rok (list_pop_tail RunqHead (list_add_tail RunqHead (TaskNode 3) demo_heap))
     (\<lambda>(m, h'). m = TaskNode 1 \<and> list_foreach RunqHead h' = Some [TaskNode 2, TaskNode 3])"
  using list_fifo [OF demo_rings_family, of "TaskNode 3" RunqHead "TaskNode 1" "[TaskNode 2]"]
  by (simp add: demo_rings_def)

end
