(* ===== verification/Spinlock.thy ===== *)
theory Spinlock
  imports Prelude
begin

text \<open>
  The spin locks of kernel/spinlock.c (include/spinlock.h always defines \<^verbatim>\<open>DEBUG_SPINLOCK\<close>),
  first as the operations one CPU performs, then as the steps that several CPUs interleave.
  The step relation has one transition per access to the shared lock, so that the window
  between the successful compare-and-swap and the write of the owner is visible.
\<close>

section \<open>The operations\<close>

record spinlock =
  locked :: u32
  lock_name :: string
  lock_cpu :: "nat option"
  lock_file :: "string option"
  lock_line :: int

definition holding :: "spinlock \<Rightarrow> nat \<Rightarrow> bool" where
  "holding l c \<longleftrightarrow> locked l \<noteq> 0 \<and> lock_cpu l = Some c"

definition spin_init :: "spinlock \<Rightarrow> string \<Rightarrow> spinlock" where
  "spin_init l name = l\<lparr>locked := 0, lock_name := name, lock_cpu := None\<rparr>"

text \<open>\<^verbatim>\<open>atomic_cmpxchg\<close> of include/atomic.h: whether the swap took place, and the new value.\<close>

definition atomic_cmpxchg :: "u32 \<Rightarrow> u32 \<Rightarrow> u32 \<Rightarrow> bool \<times> u32" where
  "atomic_cmpxchg cur old val = (if cur = old then (True, val) else (False, cur))"

text \<open>
  The loop of \<^verbatim>\<open>__spin_lock\<close> ends at the first successful swap. Seen from one CPU, a lock that is
  held stays held until another CPU makes a step, which is the outcome \<open>KSpin\<close>.
\<close>

definition spin_lock :: "spinlock \<Rightarrow> nat \<Rightarrow> string \<Rightarrow> int \<Rightarrow> spinlock res" where
  "spin_lock l c file line =
     (if holding l c then Inl KPanic
      else case atomic_cmpxchg (locked l) 0 1 of
        (False, _) \<Rightarrow> Inl KSpin
      | (True, v) \<Rightarrow>
          Inr (l\<lparr>locked := v, lock_cpu := Some c, lock_file := Some file, lock_line := line\<rparr>))"

definition spin_trylock :: "spinlock \<Rightarrow> nat \<Rightarrow> string \<Rightarrow> int \<Rightarrow> (int \<times> spinlock) res" where
  "spin_trylock l c file line =
     (if holding l c then Inl KPanic
      else case atomic_cmpxchg (locked l) 0 1 of
        (False, _) \<Rightarrow> Inr (0, l)
      | (True, v) \<Rightarrow>
          Inr (1, l\<lparr>locked := v, lock_cpu := Some c, lock_file := Some file, lock_line := line\<rparr>))"

definition spin_unlock :: "spinlock \<Rightarrow> nat \<Rightarrow> spinlock res" where
  "spin_unlock l c =
     (if locked l = 0 then Inl KPanic
      else if \<not> holding l c then Inl KPanic
      else Inr (l\<lparr>lock_cpu := None, lock_file := None, lock_line := 0, locked := 0\<rparr>))"

text \<open>A lock nobody holds, with the owner fields cleared, as \<^verbatim>\<open>spin_unlock\<close> leaves it.\<close>

definition lock_free :: "spinlock \<Rightarrow> bool" where
  "lock_free l \<longleftrightarrow> locked l = 0 \<and> lock_cpu l = None"

lemma spin_lock_free: "lock_free l \<Longrightarrow> rok (spin_lock l c f n) (\<lambda>l'. holding l' c)"
  by (simp add: spin_lock_def lock_free_def holding_def atomic_cmpxchg_def)

lemma spin_unlock_holding: "holding l c \<Longrightarrow> rok (spin_unlock l c) lock_free"
  by (simp add: spin_unlock_def lock_free_def holding_def)

section \<open>Interleaved execution\<close>

datatype lock_pc = Outside | Spinning | Won | Inside | Releasing | Panicked

record lock_sys =
  the_lock :: spinlock
  pcs :: "nat \<Rightarrow> lock_pc"

definition at_pc :: "nat \<Rightarrow> lock_pc \<Rightarrow> spinlock \<Rightarrow> lock_sys \<Rightarrow> lock_sys" where
  "at_pc c p l s = s\<lparr>the_lock := l, pcs := (pcs s)(c := p)\<rparr>"

inductive lock_step :: "lock_sys \<Rightarrow> lock_sys \<Rightarrow> bool" where
  check_panic: "pcs s c = Outside \<Longrightarrow> holding (the_lock s) c \<Longrightarrow>
     lock_step s (at_pc c Panicked (the_lock s) s)"
| check_ok: "pcs s c = Outside \<Longrightarrow> \<not> holding (the_lock s) c \<Longrightarrow>
     lock_step s (at_pc c Spinning (the_lock s) s)"
| cas: "pcs s c = Spinning \<Longrightarrow> atomic_cmpxchg (locked (the_lock s)) 0 1 = (ok, v) \<Longrightarrow>
     lock_step s (at_pc c (if ok then Won else Spinning) ((the_lock s)\<lparr>locked := v\<rparr>) s)"
| own: "pcs s c = Won \<Longrightarrow>
     lock_step s (at_pc c Inside
       ((the_lock s)\<lparr>lock_cpu := Some c, lock_file := Some f, lock_line := n\<rparr>) s)"
| unlock_panic: "pcs s c = Inside \<Longrightarrow> locked (the_lock s) = 0 \<or> \<not> holding (the_lock s) c \<Longrightarrow>
     lock_step s (at_pc c Panicked (the_lock s) s)"
| disown: "pcs s c = Inside \<Longrightarrow> locked (the_lock s) \<noteq> 0 \<Longrightarrow> holding (the_lock s) c \<Longrightarrow>
     lock_step s (at_pc c Releasing
       ((the_lock s)\<lparr>lock_cpu := None, lock_file := None, lock_line := 0\<rparr>) s)"
| unlock: "pcs s c = Releasing \<Longrightarrow>
     lock_step s (at_pc c Outside ((the_lock s)\<lparr>locked := 0\<rparr>) s)"

inductive lock_reach :: "string \<Rightarrow> lock_sys \<Rightarrow> bool" for name where
  start: "lock_reach name
     \<lparr>the_lock = spin_init \<lparr>locked = 0, lock_name = [], lock_cpu = None, lock_file = None, lock_line = 0\<rparr> name,
      pcs = (\<lambda>_. Outside)\<rparr>"
| step: "lock_reach name s \<Longrightarrow> lock_step s t \<Longrightarrow> lock_reach name t"

definition owns :: "lock_pc \<Rightarrow> bool" where
  "owns p \<longleftrightarrow> p = Won \<or> p = Inside \<or> p = Releasing"

text \<open>
  The invariant: the lock word says whether some CPU owns the lock, at most one does, the owner
  field names a CPU exactly while that CPU is inside, and no check has failed.
\<close>

definition lock_inv :: "lock_sys \<Rightarrow> bool" where
  "lock_inv s \<longleftrightarrow>
     (locked (the_lock s) \<noteq> 0 \<longleftrightarrow> (\<exists>c. owns (pcs s c))) \<and>
     (\<forall>c d. owns (pcs s c) \<longrightarrow> owns (pcs s d) \<longrightarrow> c = d) \<and>
     (\<forall>c. lock_cpu (the_lock s) = Some c \<longleftrightarrow> pcs s c = Inside) \<and>
     (\<forall>c. pcs s c \<noteq> Panicked)"

lemma lock_inv_start:
  "lock_inv \<lparr>the_lock = spin_init l name, pcs = (\<lambda>_. Outside)\<rparr>"
  by (simp add: lock_inv_def spin_init_def owns_def)

lemma lock_invD:
  assumes "lock_inv s"
  shows "locked (the_lock s) \<noteq> 0 \<longleftrightarrow> (\<exists>c. owns (pcs s c))"
    and "owns (pcs s c) \<Longrightarrow> owns (pcs s d) \<Longrightarrow> c = d"
    and "lock_cpu (the_lock s) = Some c \<longleftrightarrow> pcs s c = Inside"
    and "pcs s c \<noteq> Panicked"
  using assms unfolding lock_inv_def by blast+

text \<open>A step that keeps the lock word, moving a CPU between states of the same ownership.\<close>

lemma lock_inv_move:
  assumes inv: "lock_inv s" and own: "owns p = owns (pcs s c)" and p: "p \<noteq> Panicked"
    and l: "locked l = locked (the_lock s)"
    and cpu: "\<And>d. lock_cpu l = Some d \<longleftrightarrow> ((pcs s)(c := p)) d = Inside"
  shows "lock_inv (at_pc c p l s)"
proof -
  have same: "owns (((pcs s)(c := p)) d) = owns (pcs s d)" for d
    using own by simp
  have t: "the_lock (at_pc c p l s) = l" "pcs (at_pc c p l s) = (pcs s)(c := p)"
    by (simp_all add: at_pc_def)
  have "((pcs s)(c := p)) d \<noteq> Panicked" for d
    using p lock_invD(4) [OF inv] by simp
  then show ?thesis
    unfolding lock_inv_def t same l cpu
    using lock_invD(1,2) [OF inv] by blast
qed

lemma lock_step_inv: "lock_step s t \<Longrightarrow> lock_inv s \<Longrightarrow> lock_inv t"
proof (induction rule: lock_step.induct)
  case (check_panic s c)
  then have "pcs s c = Inside" using lock_invD(3) [of s c] by (simp add: holding_def)
  with check_panic show ?case by simp
next
  case (check_ok s c)
  show ?case
    by (rule lock_inv_move) (use check_ok lock_invD(3) [of s] in \<open>simp_all add: owns_def\<close>)
next
  case (cas s c ok v)
  show ?case
  proof (cases ok)
    case True
    with cas have free: "locked (the_lock s) = 0" "v = 1"
      by (auto simp: atomic_cmpxchg_def split: if_splits)
    then have none: "\<not> owns (pcs s d)" for d using lock_invD(1) [OF cas.prems] by blast
    have "owns (((pcs s)(c := Won)) d) \<longleftrightarrow> d = c" for d using none by (simp add: owns_def)
    moreover have "((pcs s)(c := Won)) d \<noteq> Inside" "lock_cpu (the_lock s) \<noteq> Some d" for d
      using none [of d] lock_invD(3) [OF cas.prems] by (auto simp: owns_def)
    ultimately show ?thesis
      using True free lock_invD(4) [OF cas.prems] unfolding lock_inv_def at_pc_def by simp
  next
    case False
    with cas(1,2) have "at_pc c (if ok then Won else Spinning) ((the_lock s)\<lparr>locked := v\<rparr>) s = s"
      by (cases s) (auto simp: at_pc_def atomic_cmpxchg_def fun_upd_idem split: if_splits)
    with cas.prems show ?thesis by simp
  qed
next
  case (own s c f n)
  then have "pcs s d \<noteq> Inside" for d using lock_invD(2) [of s c d] by (auto simp: owns_def)
  then show ?case
    by (intro lock_inv_move) (use own in \<open>auto simp: owns_def\<close>)
next
  case (unlock_panic s c)
  then have "locked (the_lock s) \<noteq> 0" "lock_cpu (the_lock s) = Some c"
    using lock_invD(1,3) [of s] by (auto simp: owns_def)
  with unlock_panic show ?case by (simp add: holding_def)
next
  case (disown s c)
  then have "pcs s d \<noteq> Inside" if "d \<noteq> c" for d
    using that lock_invD(2) [of s c d] by (auto simp: owns_def)
  then show ?case
    by (intro lock_inv_move) (use disown in \<open>auto simp: owns_def\<close>)
next
  case (unlock s c)
  then have none: "\<not> owns (((pcs s)(c := Outside)) d)" for d
    using lock_invD(2) [of s c d] by (auto simp: owns_def)
  have "((pcs s)(c := Outside)) d \<noteq> Inside" "pcs s d \<noteq> Inside" for d
    using none [of d] unlock(1) by (cases "d = c"; simp add: owns_def)+
  with none lock_invD(3,4) [OF unlock(2)] show ?case
    unfolding lock_inv_def at_pc_def by simp
qed

lemma lock_reach_inv: "lock_reach name s \<Longrightarrow> lock_inv s"
proof (induction rule: lock_reach.induct)
  case start
  show ?case by (rule lock_inv_start)
next
  case (step s t)
  then show ?case by (blast intro: lock_step_inv)
qed

text \<open>
  A successful \<open>spin_lock\<close> is three steps of one CPU, and \<open>spin_unlock\<close> is two: the operations
  of the first section are the uninterrupted runs of the step relation.
\<close>

lemma spin_lock_steps:
  assumes "pcs s c = Outside" and "spin_lock (the_lock s) c f n = Inr l"
  shows "lock_step\<^sup>*\<^sup>* s (at_pc c Inside l s)"
proof -
  have free: "\<not> holding (the_lock s) c" "locked (the_lock s) = 0"
    and l: "l = (the_lock s)\<lparr>locked := 1, lock_cpu := Some c, lock_file := Some f, lock_line := n\<rparr>"
    using assms(2) by (auto simp: spin_lock_def atomic_cmpxchg_def split: if_splits)
  let ?s1 = "at_pc c Spinning (the_lock s) s"
  let ?s2 = "at_pc c (if True then Won else Spinning) ((the_lock ?s1)\<lparr>locked := 1\<rparr>) ?s1"
  have "lock_step s ?s1" using assms(1) free(1) by (rule lock_step.check_ok)
  moreover have "lock_step ?s1 ?s2"
    by (rule lock_step.cas) (use free in \<open>simp_all add: at_pc_def atomic_cmpxchg_def\<close>)
  moreover have "lock_step ?s2 (at_pc c Inside
      ((the_lock ?s2)\<lparr>lock_cpu := Some c, lock_file := Some f, lock_line := n\<rparr>) ?s2)"
    by (rule lock_step.own) (simp add: at_pc_def)
  moreover have "at_pc c Inside
      ((the_lock ?s2)\<lparr>lock_cpu := Some c, lock_file := Some f, lock_line := n\<rparr>) ?s2 = at_pc c Inside l s"
    by (simp add: at_pc_def l)
  ultimately show ?thesis by (metis converse_rtranclp_into_rtranclp rtranclp.rtrancl_refl)
qed

lemma spin_unlock_steps:
  assumes "pcs s c = Inside" and "spin_unlock (the_lock s) c = Inr l"
  shows "lock_step\<^sup>*\<^sup>* s (at_pc c Outside l s)"
proof -
  have hold: "locked (the_lock s) \<noteq> 0" "holding (the_lock s) c"
    and l: "l = (the_lock s)\<lparr>lock_cpu := None, lock_file := None, lock_line := 0, locked := 0\<rparr>"
    using assms(2) by (auto simp: spin_unlock_def split: if_splits)
  let ?s1 = "at_pc c Releasing ((the_lock s)\<lparr>lock_cpu := None, lock_file := None, lock_line := 0\<rparr>) s"
  have "lock_step s ?s1" using assms(1) hold by (rule lock_step.disown)
  moreover have "lock_step ?s1 (at_pc c Outside ((the_lock ?s1)\<lparr>locked := 0\<rparr>) ?s1)"
    by (rule lock_step.unlock) (simp add: at_pc_def)
  moreover have "at_pc c Outside ((the_lock ?s1)\<lparr>locked := 0\<rparr>) ?s1 = at_pc c Outside l s"
    by (simp add: at_pc_def l)
  ultimately show ?thesis by (metis converse_rtranclp_into_rtranclp rtranclp.rtrancl_refl)
qed

section \<open>Properties of the lock\<close>

lemma lock_reach_steps: "lock_step\<^sup>*\<^sup>* s t \<Longrightarrow> lock_reach name s \<Longrightarrow> lock_reach name t"
  by (induction rule: rtranclp_induct) (auto intro: lock_reach.step)

text \<open>The state in which CPU 1 has taken a fresh lock and CPU 2 has passed its first check.\<close>

definition lock_demo :: lock_sys where
  "lock_demo =
     \<lparr>the_lock = \<lparr>locked = 1, lock_name = ''runq'', lock_cpu = Some 1, lock_file = Some ''f.c'', lock_line = 7\<rparr>,
      pcs = (\<lambda>_. Outside)(1 := Inside, 2 := Spinning)\<rparr>"

lemma lock_demo_reach: "lock_reach ''runq'' lock_demo"
proof -
  let ?l = "spin_init \<lparr>locked = 0, lock_name = [], lock_cpu = None, lock_file = None, lock_line = 0\<rparr> ''runq''"
  let ?s = "\<lparr>the_lock = ?l, pcs = (\<lambda>_. Outside)\<rparr>"
  let ?l' = "\<lparr>locked = 1, lock_name = ''runq'', lock_cpu = Some 1, lock_file = Some ''f.c'', lock_line = 7\<rparr>"
  have "lock_step\<^sup>*\<^sup>* ?s (at_pc 1 Inside ?l' ?s)"
    by (rule spin_lock_steps [where f = "''f.c''" and n = 7])
      (simp_all add: spin_init_def spin_lock_def holding_def atomic_cmpxchg_def)
  then have r: "lock_reach ''runq'' (at_pc 1 Inside ?l' ?s)" by (rule lock_reach_steps) (rule lock_reach.start)
  have "lock_step (at_pc 1 Inside ?l' ?s) (at_pc 2 Spinning (the_lock (at_pc 1 Inside ?l' ?s)) (at_pc 1 Inside ?l' ?s))"
    by (rule lock_step.check_ok) (simp_all add: at_pc_def holding_def)
  from lock_reach.step [OF r this] show ?thesis by (simp add: at_pc_def lock_demo_def fun_upd_twist)
qed

text \<open>A free lock that CPU 2 is about to try.\<close>

definition lock_wait :: lock_sys where
  "lock_wait = at_pc 2 Spinning
     (spin_init \<lparr>locked = 0, lock_name = [], lock_cpu = None, lock_file = None, lock_line = 0\<rparr> ''runq'')
     \<lparr>the_lock = spin_init \<lparr>locked = 0, lock_name = [], lock_cpu = None, lock_file = None, lock_line = 0\<rparr> ''runq'',
      pcs = (\<lambda>_. Outside)\<rparr>"

lemma lock_wait_reach: "lock_reach ''runq'' lock_wait"
proof -
  let ?s = "\<lparr>the_lock = spin_init \<lparr>locked = 0, lock_name = [], lock_cpu = None, lock_file = None, lock_line = 0\<rparr> ''runq'',
      pcs = (\<lambda>_. Outside)\<rparr>"
  have "lock_step ?s (at_pc 2 Spinning (the_lock ?s) ?s)"
    by (rule lock_step.check_ok) (simp_all add: spin_init_def holding_def)
  from lock_reach.step [OF lock_reach.start this] show ?thesis by (simp add: lock_wait_def)
qed

text \<open>
  C17: Mutual exclusion of the spin lock under every interleaving: of the CPUs between the successful
  compare-and-swap of \<^verbatim>\<open>spin_lock\<close> and the final store of \<^verbatim>\<open>spin_unlock\<close> there is at most one, and the
  lock word is non-zero exactly while there is one.
\<close>

theorem spinlock_mutual_exclusion:
  assumes "lock_reach name s"
  shows "(owns (pcs s c) \<and> owns (pcs s d) \<longrightarrow> c = d) \<and>
    (locked (the_lock s) \<noteq> 0 \<longleftrightarrow> (\<exists>c. owns (pcs s c)))"
  using lock_invD(1,2) [OF lock_reach_inv [OF assms]] by blast

theorem spinlock_mutual_exclusion_witness:
  "owns (pcs lock_demo 1) \<and> \<not> owns (pcs lock_demo 2) \<and> locked (the_lock lock_demo) \<noteq> 0"
proof -
  have "owns (pcs lock_demo 1)" by (simp add: lock_demo_def owns_def)
  with spinlock_mutual_exclusion [OF lock_demo_reach, of 1 2] show ?thesis by auto
qed

text \<open>
  The ownership checks of the debug spin lock never fail: no CPU that takes and releases the lock in
  turn reaches either panic, although the owner is written after the lock word is taken; and a waiting CPU
  gets the lock with its next swap whenever no CPU owns it.
\<close>

theorem spinlock_no_panic_and_progress:
  assumes "lock_reach name s"
  shows "pcs s c \<noteq> Panicked \<and>
    (pcs s c = Spinning \<and> (\<forall>d. \<not> owns (pcs s d)) \<longrightarrow>
       lock_step s (at_pc c Won ((the_lock s)\<lparr>locked := 1\<rparr>) s))"
proof -
  note inv = lock_reach_inv [OF assms]
  have "lock_step s (at_pc c (if True then Won else Spinning) ((the_lock s)\<lparr>locked := 1\<rparr>) s)"
    if "pcs s c = Spinning" "\<forall>d. \<not> owns (pcs s d)"
    by (rule lock_step.cas) (use that lock_invD(1) [OF inv] in \<open>auto simp: atomic_cmpxchg_def\<close>)
  with lock_invD(4) [OF inv] show ?thesis by simp
qed

theorem spinlock_no_panic_and_progress_witness:
  "pcs lock_wait 2 = Spinning \<and> lock_step lock_wait (at_pc 2 Won ((the_lock lock_wait)\<lparr>locked := 1\<rparr>) lock_wait)"
  using spinlock_no_panic_and_progress [OF lock_wait_reach, of 2]
  by (simp add: lock_wait_def at_pc_def owns_def)

text \<open>
  Functional behaviour of the three operations on one CPU: taking a free lock and releasing it gives
  back a free lock with the same name, a second attempt by the owner and a release by another CPU panic,
  \<^verbatim>\<open>spin_trylock\<close> on a lock another CPU holds returns 0 and changes nothing.
\<close>

theorem spinlock_roundtrip_and_errors:
  assumes "lock_free l"
  shows "rok (spin_lock l c f n) (\<lambda>m. holding m c \<and> spin_lock m c f' n' = Inl KPanic \<and>
     (\<forall>d. d \<noteq> c \<longrightarrow> spin_unlock m d = Inl KPanic \<and> spin_lock m d f' n' = Inl KSpin \<and>
            spin_trylock m d f' n' = Inr (0, m)) \<and>
     rok (spin_unlock m c) (\<lambda>l'. lock_free l' \<and> lock_name l' = lock_name l))"
  using assms
  by (auto simp: spin_lock_def spin_unlock_def spin_trylock_def lock_free_def holding_def atomic_cmpxchg_def)

theorem spinlock_roundtrip_and_errors_witness:
  "rok (spin_lock \<lparr>locked = 0, lock_name = ''k'', lock_cpu = None, lock_file = None, lock_line = 0\<rparr> 0 ''a'' 1)
     (\<lambda>m. holding m 0 \<and> spin_unlock m 1 = Inl KPanic)"
  by (rule rok_mono [OF spinlock_roundtrip_and_errors [where f' = "''b''" and n' = 2]])
    (auto simp: lock_free_def)

end
