(* ===== verification/Buddy.thy ===== *)
theory Buddy
  imports Lists Spinlock
begin

text \<open>
  The physical page allocator of kernel/mem/buddy.c with the page replacement list of
  kernel/dev/swap_util.c, on the page metadata of include/paging.h. The state is the part of
  the kernel the allocator touches; components that keep more state extend the record.
\<close>

section \<open>State\<close>

definition BUDDY_MAX_ORDER :: nat where
  "BUDDY_MAX_ORDER = 10"

definition ALLOC_ZERO :: nat where "ALLOC_ZERO = 1"
definition ALLOC_HUGE :: nat where "ALLOC_HUGE = 2"

text \<open>
  \<^verbatim>\<open>struct page_info\<close>: \<open>pp_order\<close> is a 7-bit field, so it is a natural number below 128 and every
  change to it is taken modulo 128. The list members are anchors of the list store.
\<close>

record page_info =
  pp_ref :: u16
  pp_order :: nat
  pp_free :: bool
  pp_zero :: u64
  pp_rmap :: "nat option"

text \<open>
  \<open>pages\<close> and \<open>npages\<close> are the metadata array and its length, \<open>pmem\<close> the physical memory as
  512 words per page frame, \<open>this_cpu\<close> the CPU that executes.
\<close>

record kmem =
  lh :: lheap
  pages :: "nat \<Rightarrow> page_info"
  npages :: nat
  pmem :: "nat \<Rightarrow> nat \<Rightarrow> u64"
  buddy_lock :: spinlock
  this_cpu :: nat

definition pp_upd :: "nat \<Rightarrow> (page_info \<Rightarrow> page_info) \<Rightarrow> 'z kmem_scheme \<Rightarrow> 'z kmem_scheme" where
  "pp_upd i f s = s\<lparr>pages := (pages s)(i := f (pages s i))\<rparr>"

definition klist_add :: "anchor \<Rightarrow> anchor \<Rightarrow> 'z kmem_scheme \<Rightarrow> 'z kmem_scheme" where
  "klist_add p n s = s\<lparr>lh := list_add p n (lh s)\<rparr>"

definition klist_del :: "anchor \<Rightarrow> 'z kmem_scheme \<Rightarrow> 'z kmem_scheme res" where
  "klist_del n s = rbind (list_del n (lh s)) (\<lambda>h. Inr (s\<lparr>lh := h\<rparr>))"

text \<open>\<^verbatim>\<open>(struct page_info *)node\<close> on a node of a free list (\<open>pp_node\<close> is the first member).\<close>

definition page_of_node :: "anchor \<Rightarrow> nat option res" where
  "page_of_node n = (case n of Null \<Rightarrow> Inr None | PpNode i \<Rightarrow> Inr (Some i) | _ \<Rightarrow> Inl KUndef)"

definition page_pop :: "nat \<Rightarrow> 'z kmem_scheme \<Rightarrow> (nat option \<times> 'z kmem_scheme) res" where
  "page_pop k s =
     rbind (list_pop (BuddyHead k) (lh s)) (\<lambda>(n, h).
     rbind (page_of_node n) (\<lambda>page. Inr (page, s\<lparr>lh := h\<rparr>)))"

section \<open>Operations\<close>

definition lock_buddy :: "'z kmem_scheme \<Rightarrow> 'z kmem_scheme res" where
  "lock_buddy s =
     rbind (spin_lock (buddy_lock s) (this_cpu s) ''kernel/mem/buddy.c'' 45)
       (\<lambda>l. Inr (s\<lparr>buddy_lock := l\<rparr>))"

definition unlock_buddy :: "'z kmem_scheme \<Rightarrow> 'z kmem_scheme res" where
  "unlock_buddy s =
     rbind (spin_unlock (buddy_lock s) (this_cpu s)) (\<lambda>l. Inr (s\<lparr>buddy_lock := l\<rparr>))"

text \<open>The page replacement list (kernel/dev/swap_util.c).\<close>

definition remove_swap_page :: "nat \<Rightarrow> 'z kmem_scheme \<Rightarrow> 'z kmem_scheme res" where
  "remove_swap_page page s =
     (if \<not> list_is_empty (SwapNode page) (lh s) then klist_del (SwapNode page) s else Inr s)"

definition add_swap_page :: "nat \<Rightarrow> 'z kmem_scheme \<Rightarrow> 'z kmem_scheme" where
  "add_swap_page page s =
     (if \<not> list_is_empty (SwapNode page) (lh s) then s
      else klist_add SwapHead (SwapNode page) s)"

definition mru_swap_page :: "nat option \<Rightarrow> 'z kmem_scheme \<Rightarrow> 'z kmem_scheme res" where
  "mru_swap_page page s =
     (case page of None \<Rightarrow> Inr s
      | Some p \<Rightarrow> rbind (remove_swap_page p s) (\<lambda>s. Inr (add_swap_page p s)))"

text \<open>\<open>None\<close> when the list does not come back to its head: the loop would not end.\<close>

definition count_free_pages :: "nat \<Rightarrow> 'z kmem_scheme \<Rightarrow> nat option" where
  "count_free_pages order s =
     (if order \<ge> BUDDY_MAX_ORDER then Some 0
      else map_option length (list_foreach (BuddyHead order) (lh s)))"

fun count_from :: "nat \<Rightarrow> nat \<Rightarrow> 'z kmem_scheme \<Rightarrow> nat option" where
  "count_from 0 nfree s = Some nfree"
| "count_from (Suc m) nfree s =
     (let order = BUDDY_MAX_ORDER - Suc m in
      Option.bind (count_free_pages order s) (\<lambda>n. count_from m (nfree + n * 2 ^ order) s))"

definition count_total_free_pages :: "'z kmem_scheme \<Rightarrow> nat option" where
  "count_total_free_pages s = count_from BUDDY_MAX_ORDER 0 s"

text \<open>
  \<^verbatim>\<open>buddy_split\<close>: every access to \<^verbatim>\<open>pages[]\<close> and \<^verbatim>\<open>buddy_free_list[]\<close> outside the array is
  undefined. The page is on its free list again when the function returns after a split.
\<close>

function (sequential) buddy_split :: "nat \<Rightarrow> nat \<Rightarrow> 'z kmem_scheme \<Rightarrow> (nat \<times> 'z kmem_scheme) res" where
  "buddy_split lhs req_order s =
     (if pp_order (pages s lhs) = req_order then Inr (lhs, s)
      else kdefined (pp_order (pages s lhs) < 31)
       (let block_size = (2::nat) ^ pp_order (pages s lhs);
            buddy = lhs + block_size div 2
        in kdefined (lhs < npages s \<and> buddy < npages s)
         (rbind (klist_del (PpNode lhs) s) (\<lambda>s1.
          let s2 = pp_upd lhs (\<lambda>p. p\<lparr>pp_order := (pp_order p + 127) mod 128\<rparr>) s1;
              k = pp_order (pages s2 lhs);
              s3 = pp_upd buddy (\<lambda>p. p\<lparr>pp_order := k\<rparr>) s2;
              s4 = pp_upd buddy (\<lambda>p. p\<lparr>pp_free := True\<rparr>) s3
          in kdefined (k < BUDDY_MAX_ORDER)
            (let s5 = klist_add (BuddyHead k) (PpNode lhs) s4;
                 s6 = klist_add (BuddyHead k) (PpNode buddy) s5
             in buddy_split lhs req_order s6)))))"
  by pat_completeness auto

text \<open>
  \<^verbatim>\<open>buddy_merge\<close>: \<open>None\<close> is the null pointer, returned when the page is of the largest order and
  after every merge; otherwise the page itself is returned and is not on a free list yet when
  it was not on one before.
\<close>

function (sequential) buddy_merge :: "nat \<Rightarrow> 'z kmem_scheme \<Rightarrow> (nat option \<times> 'z kmem_scheme) res" where
  "buddy_merge page s =
     kdefined (page < npages s \<and> pp_order (pages s page) < 31)
     (let block_size = (2::nat) ^ pp_order (pages s page) in
      if pp_order (pages s page) = BUDDY_MAX_ORDER - 1 then Inr (None, s)
      else kdefined (pp_order (pages s page) < BUDDY_MAX_ORDER)
       (if list_is_empty (BuddyHead (pp_order (pages s page))) (lh s) then Inr (Some page, s)
        else
          let right = page mod (block_size * 2) = 0;
              buddy = (if right then page + block_size else page - block_size);
              lhs = (if right then page else buddy)
          in kdefined ((right \<or> block_size \<le> page) \<and> buddy < npages s)
           (if pp_free (pages s page) \<and> pp_free (pages s buddy) \<and>
               pp_order (pages s page) = pp_order (pages s buddy)
            then rbind (klist_del (PpNode buddy) s) (\<lambda>s1.
                 rbind (klist_del (PpNode page) s1) (\<lambda>s2.
                 let s3 = (if buddy = lhs then pp_upd page (\<lambda>p. p\<lparr>pp_free := False\<rparr>) s2
                           else pp_upd buddy (\<lambda>p. p\<lparr>pp_free := False\<rparr>) s2);
                     s4 = pp_upd lhs (\<lambda>p. p\<lparr>pp_order := (pp_order p + 1) mod 128\<rparr>) s3;
                     s5 = klist_add (BuddyHead (pp_order (pages s4 lhs))) (PpNode lhs) s4
                 in rbind (buddy_merge lhs s5) (\<lambda>(_, s6). Inr (None, s6))))
            else Inr (Some page, s))))"
  by pat_completeness auto

lemma pages_klist_add [simp]: "pages (klist_add p n s) = pages s"
  by (simp add: klist_add_def)

lemma pages_pp_upd: "pages (pp_upd i f s) = (pages s)(i := f (pages s i))"
  by (simp add: pp_upd_def)

lemma klist_del_pages: "klist_del n s = Inr s' \<Longrightarrow> pages s' = pages s"
  by (auto simp: klist_del_def res_eq_Inr)

termination buddy_split
proof (relation "measure (\<lambda>(lhs, req, s). pp_order (pages s lhs))", simp, goal_cases)
  case (1 lhs req s x xa s1 s2 x3 s3 s4 s5 s6)
  then show ?case
    by (cases "pp_order (pages s lhs)")
      (auto simp: pages_pp_upd BUDDY_MAX_ORDER_def dest!: klist_del_pages)
qed

termination buddy_merge
proof (relation "measure (\<lambda>(page, s). BUDDY_MAX_ORDER - pp_order (pages s page))", simp, goal_cases)
  case (1 page s bs right buddy lhs s1 s2 s3 s4 s5)
  let ?o = "pp_order (pages s page)"
  have "pages s2 = pages s"
    using 1(11,12) by (simp add: klist_del_pages)
  moreover have "pp_order (pages s lhs) = ?o"
    using 1(8,10) by simp
  ultimately have "pp_order (pages s3 lhs) = ?o"
    unfolding 1(13) by (simp add: pages_pp_upd)
  then have "pp_order (pages s5 lhs) = (?o + 1) mod 128"
    unfolding 1(15) 1(14) by (simp add: pages_pp_upd)
  with 1(3,4) show ?case
    by (simp add: BUDDY_MAX_ORDER_def)
qed

declare buddy_split.simps [simp del] buddy_merge.simps [simp del]


text \<open>The loop of \<^verbatim>\<open>buddy_find\<close> over the larger orders.\<close>

function buddy_find_from ::
  "nat \<Rightarrow> nat \<Rightarrow> 'z kmem_scheme \<Rightarrow> (nat option \<times> 'z kmem_scheme) res" where
  "buddy_find_from order req_order s =
     (if order < BUDDY_MAX_ORDER then
        if list_is_empty (BuddyHead order) (lh s) then buddy_find_from (order + 1) req_order s
        else rbind (page_pop order s) (\<lambda>(page, s).
          case page of None \<Rightarrow> Inl KUndef
          | Some p \<Rightarrow> rbind (buddy_split p req_order s) (\<lambda>(q, s). Inr (Some q, s)))
      else Inr (None, s))"
  by pat_completeness auto
termination
  by (relation "measure (\<lambda>(order, req, s). BUDDY_MAX_ORDER - order)") auto

declare buddy_find_from.simps [simp del]

definition buddy_find :: "nat \<Rightarrow> 'z kmem_scheme \<Rightarrow> (nat option \<times> 'z kmem_scheme) res" where
  "buddy_find req_order s =
     kdefined (req_order < BUDDY_MAX_ORDER)
      (if \<not> list_is_empty (BuddyHead req_order) (lh s) then page_pop req_order s
       else buddy_find_from (req_order + 1) req_order s)"

text \<open>
  \<^verbatim>\<open>page_alloc\<close>: the assertion on the result of \<open>buddy_find\<close> stands before the test for the null
  pointer, so the function never returns null; \<^verbatim>\<open>ALLOC_HUGE\<close> is not looked at. \<^verbatim>\<open>page2kva\<close> panics
  on a page outside the array.
\<close>

definition page_alloc :: "nat \<Rightarrow> 'z kmem_scheme \<Rightarrow> (nat option \<times> 'z kmem_scheme) res" where
  "page_alloc alloc_flags s =
     rbind (lock_buddy s) (\<lambda>s.
     rbind (buddy_find 0 s) (\<lambda>(page, s).
     case page of None \<Rightarrow> Inl KPanic
     | Some p \<Rightarrow>
       kassert (pp_free (pages s p))
       (kassert (p < npages s)
         (let s1 = (if alloc_flags AND ALLOC_ZERO \<noteq> 0 \<and> pp_zero (pages s p) = 0
                    then s\<lparr>pmem := (pmem s)(p := (\<lambda>_. 0))\<rparr> else s);
              s2 = pp_upd p (\<lambda>q. q\<lparr>pp_free := False\<rparr>) s1
          in rbind (klist_del (PpNode p) s2) (\<lambda>s3.
             rbind (unlock_buddy s3) (\<lambda>s4. Inr (Some p, s4)))))))"

definition page_free :: "nat \<Rightarrow> 'z kmem_scheme \<Rightarrow> 'z kmem_scheme res" where
  "page_free pp s =
     kdefined (pp < npages s)
     (kassert (pp_ref (pages s pp) = 0)
      (rbind (lock_buddy s) (\<lambda>s.
       rbind (remove_swap_page pp s) (\<lambda>s.
       let s1 = pp_upd pp (\<lambda>p. p\<lparr>pp_free := True\<rparr>) s in
       rbind (if pp_order (pages s1 pp) \<noteq> BUDDY_MAX_ORDER - 1 then buddy_merge pp s1
              else Inr (Some pp, s1)) (\<lambda>(page, s2).
       case page of None \<Rightarrow> unlock_buddy s2
       | Some q \<Rightarrow>
         kdefined (pp_order (pages s2 q) < BUDDY_MAX_ORDER)
          (let s3 = klist_add (BuddyHead (pp_order (pages s2 q))) (PpNode q) s2;
               s4 = pp_upd q (\<lambda>p. p\<lparr>pp_zero := 0\<rparr>) s3;
               s5 = klist_add ZeroHead (ZeroNode q) s4
           in unlock_buddy s5))))))"

definition page_decref :: "nat \<Rightarrow> 'z kmem_scheme \<Rightarrow> 'z kmem_scheme res" where
  "page_decref pp s =
     kdefined (pp < npages s)
     (let s = pp_upd pp (\<lambda>p. p\<lparr>pp_ref := pp_ref p - 1\<rparr>) s in
      if pp_ref (pages s pp) = 0 then page_free pp s else Inr s)"

end
