(* ===== verification/Buddy_Inv.thy ===== *)
theory Buddy_Inv
  imports Buddy
begin

text \<open>
  The invariant of the page allocator and the contracts of its operations. The metadata part
  (\<open>pages_ok\<close>) says that the blocks of pages marked free are aligned, inside the array and
  disjoint; the link part says that the rings at \<^verbatim>\<open>buddy_free_list[]\<close> hold exactly the free pages
  of each order, except the pages in hand that an operation has taken off its list.
\<close>

section \<open>The metadata invariant\<close>

definition blk :: "(nat \<Rightarrow> page_info) \<Rightarrow> nat \<Rightarrow> nat set" where
  "blk P i = {i..<i + 2 ^ pp_order (P i)}"

definition freeset :: "nat \<Rightarrow> (nat \<Rightarrow> page_info) \<Rightarrow> nat set" where
  "freeset n P = {i. i < n \<and> pp_free (P i)}"

definition frames :: "nat \<Rightarrow> (nat \<Rightarrow> page_info) \<Rightarrow> nat set" where
  "frames n P = (\<Union>i\<in>freeset n P. blk P i)"

definition pages_ok :: "nat \<Rightarrow> (nat \<Rightarrow> page_info) \<Rightarrow> bool" where
  "pages_ok n P \<longleftrightarrow> 512 dvd n \<and>
     (\<forall>i\<in>freeset n P. pp_order (P i) < BUDDY_MAX_ORDER \<and> 2 ^ pp_order (P i) dvd i \<and>
        i + 2 ^ pp_order (P i) \<le> n) \<and>
     (\<forall>i\<in>freeset n P. \<forall>j\<in>freeset n P. i \<noteq> j \<longrightarrow> blk P i \<inter> blk P j = {})"

lemma in_blk [simp]: "i \<in> blk P i"
  by (simp add: blk_def)

lemma pages_okD:
  assumes "pages_ok n P" and "i \<in> freeset n P"
  shows "pp_order (P i) < BUDDY_MAX_ORDER" and "2 ^ pp_order (P i) dvd i"
    and "i + 2 ^ pp_order (P i) \<le> n" and "i < n"
    and "j \<in> freeset n P \<Longrightarrow> i \<noteq> j \<Longrightarrow> blk P i \<inter> blk P j = {}"
  using assms by (auto simp: pages_ok_def freeset_def)

lemma frames_bound: "pages_ok n P \<Longrightarrow> frames n P \<subseteq> {..<n}"
  by (force simp: frames_def blk_def dest: pages_okD(3))

lemma freeset_blk: "pages_ok n P \<Longrightarrow> i \<in> freeset n P \<Longrightarrow> j \<in> freeset n P \<Longrightarrow> j \<in> blk P i \<Longrightarrow> j = i"
  using pages_okD(5) [of n P i j] in_blk [of j P] by blast

text \<open>
  A change of the metadata that only touches pages whose blocks, before and after, cover the
  same frames keeps the invariant.
\<close>

lemma pages_ok_change:
  assumes ok: "pages_ok n P" and A: "A \<subseteq> freeset n P" and B: "B \<subseteq> {..<n}"
    and free: "freeset n P' = freeset n P - A \<union> B"
    and same: "\<And>i. i \<in> freeset n P - A \<Longrightarrow> i \<notin> B \<Longrightarrow> pp_order (P' i) = pp_order (P i)"
    and cover: "(\<Union>i\<in>B. blk P' i) = (\<Union>i\<in>A. blk P i)"
    and good: "\<And>i. i \<in> B \<Longrightarrow> pp_order (P' i) < BUDDY_MAX_ORDER \<and> 2 ^ pp_order (P' i) dvd i \<and>
        i + 2 ^ pp_order (P' i) \<le> n"
    and disj: "\<And>i j. i \<in> B \<Longrightarrow> j \<in> B \<Longrightarrow> i \<noteq> j \<Longrightarrow> blk P' i \<inter> blk P' j = {}"
  shows "pages_ok n P'" and "frames n P' = frames n P"
proof -
  have old: "i \<notin> B" if "i \<in> freeset n P - A" for i
  proof
    assume "i \<in> B"
    then have "i \<in> (\<Union>i\<in>A. blk P i)" using cover in_blk [of i P'] by blast
    then obtain a where "a \<in> A" "i \<in> blk P a" by blast
    with freeset_blk [OF ok, of a i] A that show False by blast
  qed
  have eq: "blk P' i = blk P i" if "i \<in> freeset n P - A" for i
    using same that old by (simp add: blk_def)
  have far: "blk P' i \<inter> blk P' j = {}" if "i \<in> freeset n P - A" "j \<in> B" for i j
  proof -
    have "blk P' j \<subseteq> (\<Union>i\<in>A. blk P i)" using cover that(2) by blast
    moreover have "blk P i \<inter> (\<Union>i\<in>A. blk P i) = {}"
      using pages_okD(5) [OF ok, of i] that(1) A by blast
    ultimately show ?thesis using eq [OF that(1)] by blast
  qed
  have "blk P' i \<inter> blk P' j = {}"
    if ij: "i \<in> freeset n P'" "j \<in> freeset n P'" "i \<noteq> j" for i j
  proof (cases "i \<in> B")
    case True
    then show ?thesis
      using disj far [of j i] ij free by (cases "j \<in> B") blast+
  next
    case False
    with ij free have i: "i \<in> freeset n P - A" by blast
    show ?thesis
    proof (cases "j \<in> B")
      case True
      with far i show ?thesis by blast
    next
      case False
      with ij free have j: "j \<in> freeset n P - A" by blast
      with i pages_okD(5) [OF ok] ij(3) show ?thesis by (simp add: eq)
    qed
  qed
  moreover have "pp_order (P' i) < BUDDY_MAX_ORDER \<and> 2 ^ pp_order (P' i) dvd i \<and>
        i + 2 ^ pp_order (P' i) \<le> n" if "i \<in> freeset n P'" for i
    using that good [of i] free same [of i] pages_okD(1-3) [OF ok, of i]
    by (cases "i \<in> B") auto
  ultimately show "pages_ok n P'"
    using ok by (simp add: pages_ok_def)
  have "frames n P' = (\<Union>i\<in>freeset n P - A. blk P' i) \<union> (\<Union>i\<in>B. blk P' i)"
    using free by (auto simp: frames_def)
  also have "\<dots> = (\<Union>i\<in>freeset n P - A. blk P i) \<union> (\<Union>i\<in>A. blk P i)"
    using cover eq by simp
  also have "\<dots> = frames n P"
    using A by (auto simp: frames_def)
  finally show "frames n P' = frames n P" .
qed

lemma pages_ok_split:
  assumes ok: "pages_ok n P" and p: "p \<in> freeset n P" and k: "pp_order (P p) = Suc k"
    and b: "b = p + 2 ^ k"
    and P': "P' = P(p := (P p)\<lparr>pp_order := k\<rparr>, b := (P b)\<lparr>pp_order := k, pp_free := True\<rparr>)"
  shows "pages_ok n P'" and "frames n P' = frames n P" and "b \<notin> freeset n P"
    and "b < n" and "freeset n P' = insert b (freeset n P)"
proof -
  note p_ok = pages_okD(1-4) [OF ok p, unfolded k]
  have ne: "b \<noteq> p" using b by simp
  have "(2::nat) ^ k < 2 ^ Suc k" by simp
  with p_ok(3) b show bn: "b < n" by linarith
  have "b \<in> blk P p" using b k by (simp add: blk_def)
  with freeset_blk [OF ok p] ne show nb: "b \<notin> freeset n P" by blast
  show F: "freeset n P' = insert b (freeset n P)"
    using bn p P' ne by (auto simp: freeset_def)
  have b1: "blk P' p = {p..<p + 2 ^ k}" "blk P' b = {p + 2 ^ k..<p + 2 ^ Suc k}"
    using P' b ne by (auto simp: blk_def)
  have o: "pp_order (P' i) = k" if "i \<in> {p, b}" for i using that P' by auto
  have "2 ^ k dvd p" using p_ok(2) by (metis dvd_trans le_imp_power_dvd lessI less_imp_le_nat)
  then have good: "pp_order (P' i) < BUDDY_MAX_ORDER \<and> 2 ^ pp_order (P' i) dvd i \<and>
      i + 2 ^ pp_order (P' i) \<le> n" if "i \<in> {p, b}" for i
    unfolding o [OF that] using that p_ok b by (auto intro: dvd_add)
  have cover: "(\<Union>i\<in>{p, b}. blk P' i) = (\<Union>i\<in>{p}. blk P i)"
    using k by (auto simp: b1) (auto simp: blk_def)
  have rest: "freeset n P' = freeset n P - {p} \<union> {p, b}" "{p} \<subseteq> freeset n P" "{p, b} \<subseteq> {..<n}"
    using F p p_ok(4) bn by auto
  have disj: "blk P' i \<inter> blk P' j = {}" if "i \<in> {p, b}" "j \<in> {p, b}" "i \<noteq> j" for i j
    using that by (auto simp: b1)
  have same: "pp_order (P' i) = pp_order (P i)" if "i \<in> freeset n P - {p}" "i \<notin> {p, b}" for i
    using that P' by simp
  show "pages_ok n P'" "frames n P' = frames n P"
    by (rule pages_ok_change [OF ok rest(2,3,1) same cover good disj]; assumption)+
qed

lemma pages_ok_merge:
  assumes ok: "pages_ok n P" and l: "l \<in> freeset n P" and r: "r \<in> freeset n P"
    and lr: "r = l + 2 ^ k" and k: "pp_order (P l) = k" "pp_order (P r) = k"
    and small: "Suc k < BUDDY_MAX_ORDER" and al: "2 ^ Suc k dvd l"
    and P': "P' = P(r := (P r)\<lparr>pp_free := False\<rparr>, l := (P l)\<lparr>pp_order := Suc k\<rparr>)"
  shows "pages_ok n P'" and "frames n P' = frames n P" and "freeset n P' = freeset n P - {r}"
proof -
  have ne: "l \<noteq> r" using lr by simp
  show F: "freeset n P' = freeset n P - {r}"
    using l r ne P' by (auto simp: freeset_def)
  have cover: "(\<Union>i\<in>{l}. blk P' i) = (\<Union>i\<in>{l, r}. blk P i)"
    using lr k ne P' by (auto simp: blk_def)
  have good: "pp_order (P' i) < BUDDY_MAX_ORDER \<and> 2 ^ pp_order (P' i) dvd i \<and>
      i + 2 ^ pp_order (P' i) \<le> n" if "i \<in> {l}" for i
    using that al small P' pages_okD(3) [OF ok r] lr k by simp
  have rest: "freeset n P' = freeset n P - {l, r} \<union> {l}" "{l, r} \<subseteq> freeset n P" "{l} \<subseteq> {..<n}"
    using F l r ne pages_okD(4) [OF ok l] by auto
  have same: "pp_order (P' i) = pp_order (P i)" if "i \<in> freeset n P - {l, r}" "i \<notin> {l}" for i
    using that P' by simp
  have disj: "blk P' i \<inter> blk P' j = {}" if "i \<in> {l}" "j \<in> {l}" "i \<noteq> j" for i j
    using that by simp
  show "pages_ok n P'" "frames n P' = frames n P"
    by (rule pages_ok_change [OF ok rest(2,3,1) same cover good disj]; assumption)+
qed

lemma pages_ok_alloc:
  assumes ok: "pages_ok n P" and p: "p \<in> freeset n P"
    and P': "P' = P(p := (P p)\<lparr>pp_free := False\<rparr>)"
  shows "pages_ok n P'" and "frames n P' = frames n P - blk P p" and "freeset n P' = freeset n P - {p}"
proof -
  show F: "freeset n P' = freeset n P - {p}"
    using P' by (auto simp: freeset_def)
  have b: "blk P' i = blk P i" "pp_order (P' i) = pp_order (P i)" for i
    using P' by (auto simp: blk_def)
  show "pages_ok n P'"
    using ok unfolding pages_ok_def F b by blast
  have "blk P i \<inter> blk P p = {}" if "i \<in> freeset n P - {p}" for i
    using pages_okD(5) [OF ok _ p] that by blast
  then show "frames n P' = frames n P - blk P p"
    unfolding frames_def F b using p by blast
qed

lemma pages_ok_free:
  assumes ok: "pages_ok n P" and p: "p < n" and new: "blk P p \<inter> frames n P = {}"
    and good: "pp_order (P p) < BUDDY_MAX_ORDER" "2 ^ pp_order (P p) dvd p" "p + 2 ^ pp_order (P p) \<le> n"
    and P': "P' = P(p := (P p)\<lparr>pp_free := True\<rparr>)"
  shows "pages_ok n P'" and "frames n P' = frames n P \<union> blk P p"
    and "freeset n P' = insert p (freeset n P)"
proof -
  show F: "freeset n P' = insert p (freeset n P)"
    using P' p by (auto simp: freeset_def)
  have b: "blk P' i = blk P i" "pp_order (P' i) = pp_order (P i)" for i
    using P' by (auto simp: blk_def)
  have "blk P i \<inter> blk P p = {}" if "i \<in> freeset n P" for i
    using new that by (auto simp: frames_def)
  with ok good show "pages_ok n P'"
    unfolding pages_ok_def F b by (simp add: Int_commute)
  show "frames n P' = frames n P \<union> blk P p"
    unfolding frames_def F b by blast
qed

section \<open>The link invariant\<close>

text \<open>
  \<open>klinks h L\<close>: the rings \<open>L\<close> of the store, and the state of the list at \<^verbatim>\<open>zero_list\<close>. No code
  initialises that head, so it is not a ring: its \<open>next\<close> is null until the first page is freed, and
  the first insertion writes through the null pointer. All that holds of it, and all the other
  operations need, is that insertions there stay off the rings.
\<close>

definition zero_area :: "anchor set" where
  "zero_area = {Null, ZeroHead} \<union> range ZeroNode"

definition klinks :: "lheap \<Rightarrow> (anchor \<rightharpoonup> anchor list) \<Rightarrow> bool" where
  "klinks h L \<longleftrightarrow> ring_family is_list h L \<and> ring_nodes L \<inter> zero_area = {} \<and> nx h ZeroHead \<in> zero_area"

lemma klinks_family: "klinks h L \<Longrightarrow> ring_family is_list h L"
  by (simp add: klinks_def)

lemma klinks_add:
  assumes "klinks h L" and "L p = Some xs" and "L n = Some []" and "p \<noteq> n"
  shows "klinks (list_add p n h) (L(p \<mapsto> n # xs, n := None))"
proof -
  have z: "ZeroHead \<notin> ring_nodes L" using assms(1) by (auto simp: klinks_def zero_area_def)
  have "nx (list_add p n h) ZeroHead = nx h ZeroHead"
    using family_add_outside [OF klinks_family [OF assms(1)] assms(2,3) z] by simp
  moreover have "ring_nodes (L(p \<mapsto> n # xs, n := None)) \<subseteq> ring_nodes L"
    by (rule ring_nodes_add [of L, OF assms(2-4)])
  ultimately show ?thesis
    using assms(1) rings.family_add [OF klinks_family [OF assms(1)] assms(2-4)]
    unfolding klinks_def by auto
qed

lemma klinks_del:
  assumes "klinks h L" and "L p = Some xs" and "n \<in> set xs"
  shows "rok (list_del n h) (\<lambda>h'. klinks h' (L(p \<mapsto> remove1 n xs, n \<mapsto> [])))"
proof -
  have z: "ZeroHead \<notin> ring_nodes L" using assms(1) by (auto simp: klinks_def zero_area_def)
  obtain h' where h': "list_del n h = Inr h'"
    and fam: "ring_family is_list h' (L(p \<mapsto> remove1 n xs, n \<mapsto> []))"
    using rings.family_del [OF klinks_family [OF assms(1)] assms(2,3)] by (auto simp: rok_iff)
  have "nx h' ZeroHead = nx h ZeroHead"
    using family_del_outside [OF klinks_family [OF assms(1)] assms(2,3) z h'] by simp
  moreover have "ring_nodes (L(p \<mapsto> remove1 n xs, n \<mapsto> [])) \<subseteq> ring_nodes L"
    by (rule ring_nodes_del [of L, OF assms(2,3)])
  ultimately show ?thesis
    using assms(1) fam h' unfolding klinks_def by auto
qed

lemma klinks_zero_add:
  assumes "klinks h L"
  shows "klinks (list_add ZeroHead (ZeroNode q) h) L"
proof -
  have "nx (list_add ZeroHead (ZeroNode q) h) x = nx h x \<and> pv (list_add ZeroHead (ZeroNode q) h) x = pv h x"
    if "x \<in> ring_nodes L" for x
  proof -
    have "x \<notin> zero_area" using assms that by (auto simp: klinks_def)
    moreover have "nx h ZeroHead \<in> zero_area" using assms by (simp add: klinks_def)
    ultimately show ?thesis by (auto simp: list_defs Let_def zero_area_def)
  qed
  then have "ring_family is_list (list_add ZeroHead (ZeroNode q) h) L"
    by (rule family_frame [OF klinks_family [OF assms]])
  with assms show ?thesis by (simp add: klinks_def) (simp add: list_defs Let_def zero_area_def)
qed

text \<open>
  \<open>buddy_rel s L H\<close>: the metadata invariant, and the ring at \<^verbatim>\<open>buddy_free_list[k]\<close> holds the free
  pages of order \<open>k\<close> except those in \<open>H\<close>, which an operation has in hand; every other page has a
  \<open>pp_node\<close> linked to itself.
\<close>

definition buddy_rel :: "'z kmem_scheme \<Rightarrow> (anchor \<rightharpoonup> anchor list) \<Rightarrow> nat set \<Rightarrow> bool" where
  "buddy_rel s L H \<longleftrightarrow> pages_ok (npages s) (pages s) \<and> klinks (lh s) L \<and>
     (\<forall>k<BUDDY_MAX_ORDER. \<exists>xs. L (BuddyHead k) = Some (map PpNode xs) \<and>
        set xs = {i \<in> freeset (npages s) (pages s) - H. pp_order (pages s i) = k}) \<and>
     (\<forall>i<npages s. i \<notin> freeset (npages s) (pages s) - H \<longrightarrow> L (PpNode i) = Some [])"

lemma buddy_relD:
  assumes "buddy_rel s L H"
  shows "pages_ok (npages s) (pages s)" and "klinks (lh s) L"
    and "i < npages s \<Longrightarrow> i \<notin> freeset (npages s) (pages s) - H \<Longrightarrow> L (PpNode i) = Some []"
  using assms by (auto simp: buddy_rel_def)

lemma buddy_rel_list:
  assumes "buddy_rel s L H" and "k < BUDDY_MAX_ORDER"
  obtains xs where "L (BuddyHead k) = Some (map PpNode xs)" and "distinct xs"
    and "set xs = {i \<in> freeset (npages s) (pages s) - H. pp_order (pages s i) = k}"
proof -
  from assms obtain xs where xs: "L (BuddyHead k) = Some (map PpNode xs)"
    and s: "set xs = {i \<in> freeset (npages s) (pages s) - H. pp_order (pages s i) = k}"
    unfolding buddy_rel_def by blast
  have "is_list (lh s) (BuddyHead k) (map PpNode xs)"
    by (rule rings.family_rep [OF klinks_family [OF buddy_relD(2) [OF assms(1)]] xs])
  then have "distinct xs" by (simp add: is_list_def distinct_map)
  with xs s that show ?thesis by blast
qed

definition buddy_anchor :: "anchor \<Rightarrow> bool" where
  "buddy_anchor a \<longleftrightarrow> (case a of BuddyHead _ \<Rightarrow> True | PpNode _ \<Rightarrow> True | _ \<Rightarrow> False)"

text \<open>What an operation on the free lists leaves alone.\<close>

definition buddy_frame ::
  "'z kmem_scheme \<Rightarrow> (anchor \<rightharpoonup> anchor list) \<Rightarrow> 'z kmem_scheme \<Rightarrow> (anchor \<rightharpoonup> anchor list) \<Rightarrow> bool" where
  "buddy_frame s L s' L' \<longleftrightarrow>
     s' = s\<lparr>lh := lh s', pages := pages s'\<rparr> \<and>
     (\<forall>i. pp_ref (pages s' i) = pp_ref (pages s i) \<and> pp_zero (pages s' i) = pp_zero (pages s i) \<and>
          pp_rmap (pages s' i) = pp_rmap (pages s i)) \<and>
     (\<forall>a. \<not> buddy_anchor a \<longrightarrow> L' a = L a)"

lemma buddy_frame_refl [simp]: "buddy_frame s L s L"
  by (simp add: buddy_frame_def)

lemma buddy_frame_trans:
  assumes "buddy_frame s L t M" and "buddy_frame t M u N"
  shows "buddy_frame s L u N"
proof -
  have t: "t = s\<lparr>lh := lh t, pages := pages t\<rparr>" and u: "u = t\<lparr>lh := lh u, pages := pages u\<rparr>"
    using assms unfolding buddy_frame_def by blast+
  have "u = s\<lparr>lh := lh u, pages := pages u\<rparr>"
    by (subst u, subst t) simp
  with assms show ?thesis unfolding buddy_frame_def by simp
qed

lemma buddy_frame_npages: "buddy_frame s L s' L' \<Longrightarrow> npages s' = npages s"
  unfolding buddy_frame_def by (metis kmem.select_convs(3) kmem.surjective kmem.update_convs(1,2))

section \<open>Taking a page off its list and putting it back\<close>

text \<open>An operation that changes a single ring keeps the relation when the ring's pages are right.\<close>

lemma buddy_rel_link:
  assumes rel: "buddy_rel s L H" and p: "p \<in> freeset (npages s) (pages s)" "p \<in> H"
    and k: "k = pp_order (pages s p)"
  shows "\<exists>L'. buddy_rel (klist_add (BuddyHead k) (PpNode p) s) L' (H - {p}) \<and>
      buddy_frame s L (klist_add (BuddyHead k) (PpNode p) s) L'"
proof -
  let ?F = "freeset (npages s) (pages s)"
  have k10: "k < BUDDY_MAX_ORDER" using pages_okD(1) [OF buddy_relD(1) [OF rel] p(1)] k by simp
  obtain xs where xs: "L (BuddyHead k) = Some (map PpNode xs)"
    "set xs = {i \<in> ?F - H. pp_order (pages s i) = k}"
    using buddy_rel_list [OF rel k10] by metis
  have n: "L (PpNode p) = Some []"
    using buddy_relD(3) [OF rel, of p] p by (auto simp: freeset_def)
  let ?L = "L(BuddyHead k \<mapsto> PpNode p # map PpNode xs, PpNode p := None)"
  let ?s = "klist_add (BuddyHead k) (PpNode p) s"
  have s: "lh ?s = list_add (BuddyHead k) (PpNode p) (lh s)" "npages ?s = npages s" "pages ?s = pages s"
    by (simp_all add: klist_add_def)
  have kl: "klinks (lh ?s) ?L"
    unfolding s by (rule klinks_add [OF buddy_relD(2) [OF rel] xs(1) n]) simp
  have lists: "\<exists>ys. ?L (BuddyHead j) = Some (map PpNode ys) \<and>
      set ys = {i \<in> ?F - (H - {p}). pp_order (pages s i) = j}" if j: "j < BUDDY_MAX_ORDER" for j
  proof (cases "j = k")
    case True
    have "set (p # xs) = {i \<in> ?F - (H - {p}). pp_order (pages s i) = j}"
      using xs(2) p k True by auto
    with True show ?thesis by (intro exI [of _ "p # xs"]) simp
  next
    case False
    obtain ys where ys: "L (BuddyHead j) = Some (map PpNode ys)"
        "set ys = {i \<in> ?F - H. pp_order (pages s i) = j}"
      using buddy_rel_list [OF rel j] by metis
    then have "set ys = {i \<in> ?F - (H - {p}). pp_order (pages s i) = j}"
      using False k by auto
    with ys False show ?thesis by (intro exI [of _ ys]) simp
  qed
  have single: "?L (PpNode i) = Some []" if "i < npages s" "i \<notin> ?F - (H - {p})" for i
    using buddy_relD(3) [OF rel that(1)] that p by auto
  have "buddy_rel ?s ?L (H - {p})"
    unfolding buddy_rel_def s(2,3) using kl buddy_relD(1) [OF rel] lists single by blast
  moreover have "buddy_frame s L ?s ?L"
    by (auto simp: buddy_frame_def buddy_anchor_def klist_add_def)
  ultimately show ?thesis by blast
qed

lemma buddy_rel_unlink:
  assumes rel: "buddy_rel s L H" and p: "p \<in> freeset (npages s) (pages s)"
  shows "rok (klist_del (PpNode p) s)
    (\<lambda>s'. pages s' = pages s \<and> (\<exists>L'. buddy_rel s' L' (insert p H) \<and> buddy_frame s L s' L'))"
proof (cases "p \<in> H")
  case True
  then have "L (PpNode p) = Some []"
    using buddy_relD(3) [OF rel, of p] p by (auto simp: freeset_def)
  then have "list_del (PpNode p) (lh s) = Inr (lh s)"
    by (rule rings.family_del_single [OF klinks_family [OF buddy_relD(2) [OF rel]]])
  then show ?thesis
    using rel True by (auto simp: klist_del_def insert_absorb intro!: exI [of _ L])
next
  case False
  let ?F = "freeset (npages s) (pages s)" and ?k = "pp_order (pages s p)"
  have k10: "?k < BUDDY_MAX_ORDER" using pages_okD(1) [OF buddy_relD(1) [OF rel] p] .
  obtain xs where xs: "L (BuddyHead ?k) = Some (map PpNode xs)"
    "set xs = {i \<in> ?F - H. pp_order (pages s i) = ?k}" "distinct xs"
    using buddy_rel_list [OF rel k10] by metis
  have pn: "PpNode p \<in> set (map PpNode xs)" using xs(2) p False by auto
  have rm: "remove1 (PpNode p) (map PpNode xs) = map PpNode (remove1 p xs)"
    by (simp add: map_remove1_inj inj_def)
  let ?L = "L(BuddyHead ?k \<mapsto> map PpNode (remove1 p xs), PpNode p \<mapsto> [])"
  obtain h' where h': "list_del (PpNode p) (lh s) = Inr h'" and kl: "klinks h' ?L"
    using klinks_del [OF buddy_relD(2) [OF rel] xs(1) pn] unfolding rok_iff rm by blast
  have lists: "\<exists>ys. ?L (BuddyHead j) = Some (map PpNode ys) \<and>
      set ys = {i \<in> ?F - insert p H. pp_order (pages s i) = j}" if j: "j < BUDDY_MAX_ORDER" for j
  proof (cases "j = ?k")
    case True
    have "set (remove1 p xs) = {i \<in> ?F - insert p H. pp_order (pages s i) = j}"
      using xs True by (auto simp: set_remove1_eq)
    with True show ?thesis by (intro exI [of _ "remove1 p xs"]) simp
  next
    case False
    obtain ys where ys: "L (BuddyHead j) = Some (map PpNode ys)"
        "set ys = {i \<in> ?F - H. pp_order (pages s i) = j}"
      using buddy_rel_list [OF rel j] by metis
    then have "set ys = {i \<in> ?F - insert p H. pp_order (pages s i) = j}"
      using False by auto
    with ys False show ?thesis by (intro exI [of _ ys]) simp
  qed
  have single: "?L (PpNode i) = Some []" if "i < npages s" "i \<notin> ?F - insert p H" for i
    using buddy_relD(3) [OF rel that(1)] that by auto
  have "buddy_rel (s\<lparr>lh := h'\<rparr>) ?L (insert p H)"
    unfolding buddy_rel_def using kl buddy_relD(1) [OF rel] lists single by simp
  moreover have "buddy_frame s L (s\<lparr>lh := h'\<rparr>) ?L"
    by (auto simp: buddy_frame_def buddy_anchor_def)
  ultimately show ?thesis
    using h' by (auto simp: klist_del_def)
qed

text \<open>A change of the metadata of pages in hand.\<close>

lemma buddy_rel_pages:
  assumes rel: "buddy_rel s L H" and ok: "pages_ok (npages s) P'"
    and free: "freeset (npages s) P' - H' = freeset (npages s) (pages s) - H"
    and same: "\<And>i. i \<in> freeset (npages s) (pages s) - H \<Longrightarrow> pp_order (P' i) = pp_order (pages s i)"
  shows "buddy_rel (s\<lparr>pages := P'\<rparr>) L H'"
proof -
  have "{i \<in> freeset (npages s) P' - H'. pp_order (P' i) = k} =
      {i \<in> freeset (npages s) (pages s) - H. pp_order (pages s i) = k}" for k
    unfolding free using same by auto
  then show ?thesis
    using rel ok by (simp add: buddy_rel_def free)
qed

section \<open>Splitting\<close>

definition split_pages :: "nat \<Rightarrow> nat \<Rightarrow> (nat \<Rightarrow> page_info) \<Rightarrow> nat \<Rightarrow> page_info" where
  "split_pages p k P = P(p := (P p)\<lparr>pp_order := k\<rparr>,
     p + 2 ^ k := (P (p + 2 ^ k))\<lparr>pp_order := k, pp_free := True\<rparr>)"

definition split_state :: "nat \<Rightarrow> nat \<Rightarrow> 'z kmem_scheme \<Rightarrow> 'z kmem_scheme" where
  "split_state p k s = klist_add (BuddyHead k) (PpNode (p + 2 ^ k))
     (klist_add (BuddyHead k) (PpNode p) (s\<lparr>pages := split_pages p k (pages s)\<rparr>))"

text \<open>
  The free frames together with the orders of the pages outside them: what splitting and merging
  leave as it is.
\<close>

definition fsig :: "nat \<Rightarrow> (nat \<Rightarrow> page_info) \<Rightarrow> nat set \<times> (nat \<Rightarrow> nat)" where
  "fsig n P = (frames n P, \<lambda>i. if i \<in> frames n P then 0 else pp_order (P i))"

lemma fsig_frames: "fsig n P = fsig m Q \<Longrightarrow> frames n P = frames m Q"
  by (simp add: fsig_def)

lemma fsig_order: "fsig n P = fsig m Q \<Longrightarrow> i \<notin> frames m Q \<Longrightarrow> pp_order (P i) = pp_order (Q i)"
  by (auto simp: fsig_def fun_eq_iff split: if_splits)

lemma fsig_eq:
  assumes "frames n P = frames n Q" and "\<And>i. i \<notin> frames n Q \<Longrightarrow> pp_order (P i) = pp_order (Q i)"
  shows "fsig n P = fsig n Q"
  using assms by (auto simp: fsig_def)

lemma freeset_frames: "i \<in> freeset n P \<Longrightarrow> i \<in> frames n P"
  unfolding frames_def using in_blk by blast

text \<open>
  The relation of two states of the allocator that hold the same free frames, with the pages
  in hand afterwards.
\<close>

definition same_frames ::
  "'z kmem_scheme \<Rightarrow> (anchor \<rightharpoonup> anchor list) \<Rightarrow> 'z kmem_scheme \<Rightarrow> nat set \<Rightarrow> bool" where
  "same_frames s L s' H' \<longleftrightarrow> (\<exists>L'. buddy_rel s' L' H' \<and> buddy_frame s L s' L') \<and>
     fsig (npages s') (pages s') = fsig (npages s) (pages s)"

lemma same_frames_trans:
  assumes "buddy_rel s L H" and "buddy_frame s0 L0 s L" and "fsig (npages s) (pages s) = fsig (npages s0) (pages s0)"
    and "same_frames s L s' H'"
  shows "same_frames s0 L0 s' H'"
  using assms buddy_frame_trans unfolding same_frames_def by metis

lemma buddy_split_step:
  assumes rel: "buddy_rel s1 L1 {p}" and p: "p \<in> freeset (npages s1) (pages s1)"
    and k: "pp_order (pages s1 p) = Suc k"
  shows "same_frames s1 L1 (split_state p k s1) {}" and "p + 2 ^ k < npages s1"
    and "p \<in> freeset (npages s1) (pages (split_state p k s1))"
    and "npages (split_state p k s1) = npages s1" and "pages (split_state p k s1) = split_pages p k (pages s1)"
proof -
  let ?b = "p + 2 ^ k" and ?P = "split_pages p k (pages s1)"
  note split = pages_ok_split [OF buddy_relD(1) [OF rel] p k refl split_pages_def]
  let ?s2 = "s1\<lparr>pages := ?P\<rparr>"
  let ?s3 = "klist_add (BuddyHead k) (PpNode p) ?s2"
  have rel2: "buddy_rel ?s2 L1 {p, ?b}"
  proof (rule buddy_rel_pages [OF rel split(1)])
    show "freeset (npages s1) ?P - {p, ?b} = freeset (npages s1) (pages s1) - {p}"
      unfolding split(5) using split(3) by blast
    fix i assume "i \<in> freeset (npages s1) (pages s1) - {p}"
    with split(3) show "pp_order (?P i) = pp_order (pages s1 i)" by (auto simp: split_pages_def)
  qed
  have fr2: "buddy_frame s1 L1 ?s2 L1" by (simp add: buddy_frame_def split_pages_def)
  have pf: "p \<in> freeset (npages ?s2) (pages ?s2)" "?b \<in> freeset (npages ?s2) (pages ?s2)"
    using split(5) p by auto
  have o: "k = pp_order (pages ?s2 p)" "k = pp_order (pages ?s2 ?b)"
    by (simp_all add: split_pages_def)
  obtain L3 where rel3: "buddy_rel ?s3 L3 ({p, ?b} - {p})" and fr3: "buddy_frame ?s2 L1 ?s3 L3"
    using buddy_rel_link [OF rel2 pf(1) _ o(1)] by blast
  have s3: "npages ?s3 = npages ?s2" "pages ?s3 = pages ?s2" by (simp_all add: klist_add_def)
  obtain L4 where rel4: "buddy_rel (split_state p k s1) L4 ({p, ?b} - {p} - {?b})"
    and fr4: "buddy_frame ?s3 L3 (split_state p k s1) L4"
    using buddy_rel_link [OF rel3, unfolded s3, OF pf(2) _ o(2)] unfolding split_state_def by auto
  have e: "{p, ?b} - {p} - {?b} = {}" by blast
  show n: "npages (split_state p k s1) = npages s1"
    and pg: "pages (split_state p k s1) = split_pages p k (pages s1)"
    by (simp_all add: split_state_def klist_add_def)
  have "?b \<in> frames (npages s1) ?P" "p \<in> frames (npages s1) ?P"
    by (rule freeset_frames, simp add: split(5) p)+
  then have "?b \<in> frames (npages s1) (pages s1)" "p \<in> frames (npages s1) (pages s1)"
    unfolding split(2) by simp_all
  then have "i \<notin> frames (npages s1) (pages s1) \<Longrightarrow> i \<noteq> p \<and> i \<noteq> ?b" for i by blast
  then have "i \<notin> frames (npages s1) (pages s1) \<Longrightarrow> pp_order (?P i) = pp_order (pages s1 i)" for i
    unfolding split_pages_def by simp
  then have "fsig (npages s1) ?P = fsig (npages s1) (pages s1)"
    by (rule fsig_eq [OF split(2)])
  then show "same_frames s1 L1 (split_state p k s1) {}"
    unfolding same_frames_def n pg
    using rel4 [unfolded e] buddy_frame_trans [OF buddy_frame_trans [OF fr2 fr3] fr4] by blast
  show "?b < npages s1" by (rule split(4))
  show "p \<in> freeset (npages s1) (pages (split_state p k s1))"
    using pf(1) by (simp add: pg)
qed

lemma buddy_split_unfold:
  assumes "pp_order (pages s p) = Suc k" and "Suc k < BUDDY_MAX_ORDER" and "req \<le> k"
    and "p + 2 ^ k < npages s" and "klist_del (PpNode p) s = Inr s1" and "npages s1 = npages s"
  shows "buddy_split p req s = buddy_split p req (split_state p k s1)"
proof -
  have "pp_upd (p + 2 ^ k) (\<lambda>q. q\<lparr>pp_free := True\<rparr>) (pp_upd (p + 2 ^ k) (\<lambda>q. q\<lparr>pp_order := k\<rparr>)
      (pp_upd p (\<lambda>q. q\<lparr>pp_order := (pp_order q + 127) mod 128\<rparr>) s1))
    = s1\<lparr>pages := split_pages p k (pages s1)\<rparr>"
    using assms(1,2) klist_del_pages [OF assms(5)]
    by (simp add: pp_upd_def split_pages_def BUDDY_MAX_ORDER_def)
  moreover have "(pp_order (pages s1 p) + 127) mod 128 = k"
    using assms(1,2) klist_del_pages [OF assms(5)] by (simp add: BUDDY_MAX_ORDER_def)
  ultimately show ?thesis
    using assms by (subst buddy_split.simps) (simp add: Let_def pages_pp_upd split_state_def BUDDY_MAX_ORDER_def)
qed

lemma buddy_split_spec:
  assumes "buddy_rel s L H" and "H \<subseteq> {p}" and "p \<in> freeset (npages s) (pages s)"
    and "req \<le> pp_order (pages s p)"
  shows "rok (buddy_split p req s) (\<lambda>(q, s'). q = p \<and> (\<exists>H'\<subseteq>{p}. same_frames s L s' H') \<and>
      p \<in> freeset (npages s') (pages s') \<and> pp_order (pages s' p) = req)"
  using assms
proof (induction "pp_order (pages s p)" arbitrary: s L H rule: less_induct)
  case less
  show ?case
  proof (cases "pp_order (pages s p) = req")
    case True
    then have "buddy_split p req s = Inr (p, s)" by (subst buddy_split.simps) simp
    moreover have "same_frames s L s H" using less.prems by (auto simp: same_frames_def intro!: exI [of _ L])
    ultimately show ?thesis using less.prems True by auto
  next
    case False
    with less.prems(4) obtain k where k: "pp_order (pages s p) = Suc k" "req \<le> k"
      by (cases "pp_order (pages s p)") auto
    obtain s1 L1 where s1: "klist_del (PpNode p) s = Inr s1" "pages s1 = pages s"
      and rel1: "buddy_rel s1 L1 (insert p H)" and fr1: "buddy_frame s L s1 L1"
      using buddy_rel_unlink [OF less.prems(1,3)] by (auto simp: rok_iff)
    note n1 = buddy_frame_npages [OF fr1]
    have H1: "insert p H = {p}" using less.prems(2) by blast
    have p1: "p \<in> freeset (npages s1) (pages s1)" "pp_order (pages s1 p) = Suc k"
      using less.prems(3) s1 n1 k by simp_all
    let ?t = "split_state p k s1"
    note step = buddy_split_step [OF rel1 [unfolded H1] p1]
    have small: "Suc k < BUDDY_MAX_ORDER"
      using pages_okD(1) [OF buddy_relD(1) [OF less.prems(1)] less.prems(3)] k by simp
    obtain L2 where rel2: "buddy_rel ?t L2 {}" and fr2: "buddy_frame s1 L1 ?t L2"
      and fm2: "fsig (npages ?t) (pages ?t) = fsig (npages s) (pages s)"
      using step(1) s1 n1 unfolding same_frames_def by auto
    have o: "pp_order (pages ?t p) = k" by (simp add: step(5) split_pages_def)
    have "rok (buddy_split p req ?t) (\<lambda>(q, s'). q = p \<and> (\<exists>H'\<subseteq>{p}. same_frames ?t L2 s' H') \<and>
        p \<in> freeset (npages s') (pages s') \<and> pp_order (pages s' p) = req)"
      by (rule less.hyps [OF _ rel2]) (use o k step(3,4) in auto)
    moreover have "buddy_split p req s = buddy_split p req ?t"
      by (rule buddy_split_unfold) (use k small step(2) s1 n1 in auto)
    ultimately show ?thesis
      using same_frames_trans [OF rel2 buddy_frame_trans [OF fr1 fr2] fm2]
      by (auto elim!: rok_mono)
  qed
qed

section \<open>Merging\<close>

text \<open>The two halves of the block of order \<open>k + 1\<close> a page of order \<open>k\<close> belongs to.\<close>

definition left_half :: "nat \<Rightarrow> nat \<Rightarrow> nat" where
  "left_half k p = (if p mod (2 ^ k * 2) = 0 then p else p - 2 ^ k)"

definition buddy_of :: "nat \<Rightarrow> nat \<Rightarrow> nat" where
  "buddy_of k p = (if p mod (2 ^ k * 2) = 0 then p + 2 ^ k else p - 2 ^ k)"

lemma buddy_index:
  assumes n: "512 dvd n" and p: "p < n" "2 ^ k dvd p" and k: "Suc k < BUDDY_MAX_ORDER"
  shows "2 ^ Suc k dvd left_half k p" and "left_half k p + 2 ^ k < n"
    and "p mod (2 ^ k * 2) = 0 \<or> 2 ^ k \<le> p"
    and "{p, buddy_of k p} = {left_half k p, left_half k p + 2 ^ k}"
    and "buddy_of k p \<noteq> p"
proof -
  let ?m = "2 ^ k :: nat"
  have "2 ^ Suc k dvd (2 ^ 9 :: nat)" using k by (intro le_imp_power_dvd) (simp add: BUDDY_MAX_ORDER_def)
  moreover have "(2 ^ 9 :: nat) = 512" by simp
  ultimately have dn: "?m * 2 dvd n" using n by (metis dvd_trans power_Suc2)
  obtain q where q: "p = ?m * q" using p(2) by (auto elim: dvdE)
  have mz: "p mod (?m * 2) = 0 \<longleftrightarrow> even q" by (simp add: q mod_eq_0_iff_dvd)
  have l: "?m * 2 dvd left_half k p \<and> (even q \<longrightarrow> left_half k p = p) \<and>
      (odd q \<longrightarrow> left_half k p + ?m = p \<and> ?m \<le> p)"
  proof (cases "even q")
    case True
    with mz show ?thesis by (simp add: left_half_def mod_eq_0_iff_dvd)
  next
    case False
    then obtain j where "q = Suc (2 * j)" by (auto elim: oddE)
    then have p: "p = ?m * 2 * j + ?m" using q by simp
    with False mz show ?thesis by (simp add: left_half_def)
  qed
  then show "2 ^ Suc k dvd left_half k p" by (simp add: mult.commute)
  show "left_half k p + ?m < n"
  proof (cases "even q")
    case True
    have "left_half k p < n" using l True p by simp
    moreover obtain a b where ab: "left_half k p = ?m * 2 * a" "n = ?m * 2 * b"
      using l dn by (metis dvd_def)
    ultimately have "Suc a \<le> b" by (simp add: Suc_le_eq)
    then have "?m * 2 * Suc a \<le> ?m * 2 * b" by (rule mult_le_mono2)
    then have "left_half k p + ?m * 2 \<le> n" using ab by simp
    moreover have "0 < ?m" by simp
    ultimately show ?thesis by linarith
  next
    case False
    with l p show ?thesis by simp
  qed
  show "p mod (?m * 2) = 0 \<or> ?m \<le> p" using mz l by blast
  show "{p, buddy_of k p} = {left_half k p, left_half k p + 2 ^ k}"
    using l mz by (cases "even q") (auto simp: buddy_of_def left_half_def)
  show "buddy_of k p \<noteq> p"
  proof (cases "even q")
    case True
    with mz show ?thesis by (simp add: buddy_of_def)
  next
    case False
    with mz l have "buddy_of k p = p - ?m" "?m \<le> p" by (simp_all add: buddy_of_def)
    moreover have "0 < ?m" by simp
    ultimately show ?thesis by linarith
  qed
qed

definition merge_pages :: "nat \<Rightarrow> nat \<Rightarrow> (nat \<Rightarrow> page_info) \<Rightarrow> nat \<Rightarrow> page_info" where
  "merge_pages l k P = P(l + 2 ^ k := (P (l + 2 ^ k))\<lparr>pp_free := False\<rparr>, l := (P l)\<lparr>pp_order := Suc k\<rparr>)"

definition merge_state :: "nat \<Rightarrow> nat \<Rightarrow> 'z kmem_scheme \<Rightarrow> 'z kmem_scheme" where
  "merge_state l k s =
     klist_add (BuddyHead (Suc k)) (PpNode l) (s\<lparr>pages := merge_pages l k (pages s)\<rparr>)"

lemma buddy_merge_step:
  assumes rel: "buddy_rel s L {l, r}" and l: "l \<in> freeset (npages s) (pages s)"
    and r: "r \<in> freeset (npages s) (pages s)" "r = l + 2 ^ k"
    and k: "pp_order (pages s l) = k" "pp_order (pages s r) = k"
    and small: "Suc k < BUDDY_MAX_ORDER" and al: "2 ^ Suc k dvd l"
  shows "same_frames s L (merge_state l k s) {}"
    and "l \<in> freeset (npages s) (pages (merge_state l k s))"
    and "npages (merge_state l k s) = npages s" and "pp_order (pages (merge_state l k s) l) = Suc k"
proof -
  let ?P = "merge_pages l k (pages s)" and ?s1 = "s\<lparr>pages := merge_pages l k (pages s)\<rparr>"
  have P: "?P = (pages s)(r := (pages s r)\<lparr>pp_free := False\<rparr>, l := (pages s l)\<lparr>pp_order := Suc k\<rparr>)"
    by (simp add: merge_pages_def r(2))
  note merge = pages_ok_merge [OF buddy_relD(1) [OF rel] l r k small al P]
  have ne: "l \<noteq> r" using r(2) by simp
  have rel1: "buddy_rel ?s1 L {l}"
    by (rule buddy_rel_pages [OF rel merge(1)]) (use merge(3) in \<open>auto simp: P\<close>)
  have fr1: "buddy_frame s L ?s1 L" by (simp add: buddy_frame_def P)
  have l1: "l \<in> freeset (npages s) ?P" using merge(3) l ne by blast
  have o: "pp_order (?P l) = Suc k" by (simp add: P)
  obtain L2 where rel2: "buddy_rel (merge_state l k s) L2 {}" and fr2: "buddy_frame ?s1 L (merge_state l k s) L2"
    using buddy_rel_link [OF rel1, of l "Suc k"] l1 o unfolding merge_state_def by auto
  show n: "npages (merge_state l k s) = npages s" by (simp add: merge_state_def klist_add_def)
  have pg: "pages (merge_state l k s) = ?P" by (simp add: merge_state_def)
  show "l \<in> freeset (npages s) (pages (merge_state l k s))" "pp_order (pages (merge_state l k s) l) = Suc k"
    using l1 o by (simp_all add: pg)
  have "fsig (npages s) ?P = fsig (npages s) (pages s)"
    by (rule fsig_eq [OF merge(2)]) (use freeset_frames [OF l] in \<open>auto simp: P\<close>)
  then show "same_frames s L (merge_state l k s) {}"
    unfolding same_frames_def n pg using rel2 buddy_frame_trans [OF fr1 fr2] by blast
qed

lemma buddy_merge_unfold:
  assumes p: "p < npages s" and k: "pp_order (pages s p) = k" "Suc k < BUDDY_MAX_ORDER"
    and idx: "2 ^ k dvd p" "512 dvd npages s"
    and free: "pp_free (pages s p)"
    and ne: "\<not> list_is_empty (BuddyHead k) (lh s)"
    and del: "klist_del (PpNode (buddy_of k p)) s = Inr s1" "klist_del (PpNode p) s1 = Inr s2"
    and b: "pp_free (pages s (buddy_of k p))" "pp_order (pages s (buddy_of k p)) = k"
  shows "buddy_merge p s =
    rbind (buddy_merge (left_half k p) (merge_state (left_half k p) k s2)) (\<lambda>(_, s). Inr (None, s))"
proof -
  note bi = buddy_index [OF idx(2) p idx(1) k(2)]
  have pg: "pages s2 = pages s" using klist_del_pages [OF del(1)] klist_del_pages [OF del(2)] by simp
  let ?l = "left_half k p" and ?b = "buddy_of k p"
  have "?b \<in> {?l, ?l + 2 ^ k}" using bi(4) by blast
  then have bn: "?b < npages s" using bi(2) by auto
  have o: "pp_order (pages s ?l) = k" using bi(4) k b by (metis insertI1 insertE singletonD)
  have up: "pp_upd ?l (\<lambda>q. q\<lparr>pp_order := (pp_order q + 1) mod 128\<rparr>)
      (if ?b = ?l then pp_upd p (\<lambda>p. p\<lparr>pp_free := False\<rparr>) s2
       else pp_upd ?b (\<lambda>p. p\<lparr>pp_free := False\<rparr>) s2) = s2\<lparr>pages := merge_pages ?l k (pages s2)\<rparr>"
    using bi(4,5) o k(2) pg
    by (auto simp: pp_upd_def merge_pages_def doubleton_eq_iff BUDDY_MAX_ORDER_def)
  have od: "pp_order (merge_pages ?l k (pages s2) ?l) = Suc k" by (simp add: merge_pages_def)
  show ?thesis
  proof (cases "p mod (2 ^ k * 2) = 0")
    case True
    then have e: "?l = p" "?b = p + 2 ^ k" by (simp_all add: left_half_def buddy_of_def)
    show ?thesis
      using p k ne bn free b del up od True unfolding e
      by (subst buddy_merge.simps) (simp add: Let_def merge_state_def BUDDY_MAX_ORDER_def)
  next
    case False
    then have e: "?l = p - 2 ^ k" "?b = p - 2 ^ k" by (simp_all add: left_half_def buddy_of_def)
    show ?thesis
      using p k ne bi(3) bn free b del up od False unfolding e
      by (subst buddy_merge.simps) (simp add: Let_def merge_state_def BUDDY_MAX_ORDER_def)
  qed
qed

text \<open>
  \<^verbatim>\<open>buddy_merge\<close> is called on a free page that is in hand, or, from the recursion, on a free page
  that is on its list. Null means that the page is on a list; otherwise nothing has changed.
\<close>

lemma buddy_merge_spec:
  assumes "buddy_rel s L H" and "H \<subseteq> {p}" and "p \<in> freeset (npages s) (pages s)"
    and "pp_order (pages s p) = BUDDY_MAX_ORDER - 1 \<longrightarrow> H = {}"
  shows "rok (buddy_merge p s) (\<lambda>(q, s'). case q of None \<Rightarrow> same_frames s L s' {} | Some q \<Rightarrow> q = p \<and> s' = s)"
  using assms
proof (induction "BUDDY_MAX_ORDER - pp_order (pages s p)" arbitrary: p s L H rule: less_induct)
  case less
  let ?k = "pp_order (pages s p)" and ?F = "freeset (npages s) (pages s)"
  note ok = buddy_relD(1) [OF less.prems(1)]
  note p = pages_okD(1,2,4) [OF ok less.prems(3)]
  have n: "512 dvd npages s" using ok by (simp add: pages_ok_def)
  show ?case
  proof (cases "Suc ?k < BUDDY_MAX_ORDER")
    case False
    with p(1) have "?k = BUDDY_MAX_ORDER - 1" by simp
    moreover from this have "buddy_merge p s = Inr (None, s)"
      using p(3) by (subst buddy_merge.simps) (simp add: BUDDY_MAX_ORDER_def)
    ultimately show ?thesis
      using less.prems by (auto simp: same_frames_def intro!: exI [of _ L])
  next
    case small: True
    let ?b = "buddy_of ?k p" and ?l = "left_half ?k p"
    note bi = buddy_index [OF n p(3,2) small]
    show ?thesis
    proof (cases "\<not> list_is_empty (BuddyHead ?k) (lh s) \<and> pp_free (pages s ?b) \<and> pp_order (pages s ?b) = ?k")
      case False
      have "?b \<in> {?l, ?l + 2 ^ ?k}" using bi(4) by blast
      then have "?b < npages s" using bi(2) by auto
      with False p(3) small less.prems(3) bi(3) have "buddy_merge p s = Inr (Some p, s)"
        by (subst buddy_merge.simps) (auto simp: Let_def BUDDY_MAX_ORDER_def buddy_of_def freeset_def)
      then show ?thesis by simp
    next
      case True
      have "?b \<in> {?l, ?l + 2 ^ ?k}" using bi(4) by blast
      then have bF: "?b \<in> ?F" using bi(2) True by (auto simp: freeset_def)
      obtain s1 L1 where s1: "klist_del (PpNode ?b) s = Inr s1" "pages s1 = pages s"
        and rel1: "buddy_rel s1 L1 (insert ?b H)" and fr1: "buddy_frame s L s1 L1"
        using buddy_rel_unlink [OF less.prems(1) bF] by (auto simp: rok_iff)
      note n1 = buddy_frame_npages [OF fr1]
      obtain s2 L2 where s2: "klist_del (PpNode p) s1 = Inr s2" "pages s2 = pages s"
        and rel2: "buddy_rel s2 L2 (insert p (insert ?b H))" and fr2: "buddy_frame s1 L1 s2 L2"
        using buddy_rel_unlink [OF rel1, of p] less.prems(3) s1(2) n1 by (auto simp: rok_iff)
      note n2 = buddy_frame_npages [OF fr2]
      have H2: "insert p (insert ?b H) = {?l, ?l + 2 ^ ?k}" using less.prems(2) bi(4) by blast
      have lr: "?l \<in> freeset (npages s2) (pages s2)" "?l + 2 ^ ?k \<in> freeset (npages s2) (pages s2)"
        "pp_order (pages s2 ?l) = ?k" "pp_order (pages s2 (?l + 2 ^ ?k)) = ?k"
        using bi(4) bF less.prems(3) True s2(2) n1 n2 by (metis insertCI insertE singletonD)+
      let ?t = "merge_state ?l ?k s2"
      note step = buddy_merge_step [OF rel2 [unfolded H2] lr(1,2) refl lr(3,4) small bi(1)]
      obtain L3 where rel3: "buddy_rel ?t L3 {}" and fr3: "buddy_frame s2 L2 ?t L3"
        and fm: "fsig (npages ?t) (pages ?t) = fsig (npages s) (pages s)"
        using step(1) s2 n1 n2 unfolding same_frames_def by auto
      have "rok (buddy_merge ?l ?t) (\<lambda>(q, s'). case q of None \<Rightarrow> same_frames ?t L3 s' {} | Some q \<Rightarrow> q = ?l \<and> s' = ?t)"
        by (rule less.hyps [OF _ rel3]) (use small step(2-4) in auto)
      then have "rok (buddy_merge ?l ?t) (\<lambda>(q, s'). same_frames ?t L3 s' {})"
        by (rule rok_mono) (use rel3 in \<open>auto simp: same_frames_def split: option.splits intro!: exI [of _ L3]\<close>)
      then have "rok (buddy_merge ?l ?t) (\<lambda>(q, s'). same_frames s L s' {})"
        by (rule rok_mono)
          (use same_frames_trans [OF rel3 buddy_frame_trans [OF buddy_frame_trans [OF fr1 fr2] fr3] fm] in auto)
      moreover have "buddy_merge p s = rbind (buddy_merge ?l ?t) (\<lambda>(_, s). Inr (None, s))"
        by (rule buddy_merge_unfold) (use p n small True s1 s2 less.prems(3) in \<open>auto simp: freeset_def\<close>)
      ultimately show ?thesis
        by (auto simp: rok_rbind split: prod.splits elim!: rok_mono)
    qed
  qed
qed

section \<open>Finding a page\<close>

lemma page_pop_spec:
  assumes rel: "buddy_rel s L {}" and k: "k < BUDDY_MAX_ORDER"
    and ne: "\<not> list_is_empty (BuddyHead k) (lh s)"
  shows "rok (page_pop k s) (\<lambda>(q, s'). \<exists>p. q = Some p \<and> p \<in> freeset (npages s') (pages s') \<and>
      pp_order (pages s' p) = k \<and> same_frames s L s' {p})"
proof -
  obtain xs where xs: "L (BuddyHead k) = Some (map PpNode xs)"
    "set xs = {i \<in> freeset (npages s) (pages s) - {}. pp_order (pages s i) = k}"
    using buddy_rel_list [OF rel k] by metis
  note rep = rings.family_rep [OF klinks_family [OF buddy_relD(2) [OF rel]] xs(1)]
  have nxs: "xs \<noteq> []" using ne is_list_empty_iff [OF rep] by simp
  let ?p = "last xs"
  have p: "?p \<in> freeset (npages s) (pages s)" "pp_order (pages s ?p) = k"
    using last_in_set [OF nxs] xs(2) by auto
  have eq: "page_pop k s = rbind (klist_del (PpNode ?p) s) (\<lambda>s. Inr (Some ?p, s))"
    using nxs by (simp add: page_pop_def rings.rep_pop [OF rep] last_map klist_del_def rbind_assoc page_of_node_def)
  show ?thesis
    unfolding eq rok_rbind rok_Inr
    by (rule rok_mono [OF buddy_rel_unlink [OF rel p(1)]])
      (use p in \<open>auto simp: same_frames_def dest: buddy_frame_npages\<close>)
qed

lemma buddy_empty_order:
  assumes rel: "buddy_rel s L {}" and k: "k < BUDDY_MAX_ORDER"
    and e: "list_is_empty (BuddyHead k) (lh s)" and i: "i \<in> freeset (npages s) (pages s)"
  shows "pp_order (pages s i) \<noteq> k"
proof -
  obtain xs where xs: "L (BuddyHead k) = Some (map PpNode xs)"
    "set xs = {i \<in> freeset (npages s) (pages s) - {}. pp_order (pages s i) = k}"
    using buddy_rel_list [OF rel k] by metis
  have "xs = []"
    using e is_list_empty_iff [OF rings.family_rep [OF klinks_family [OF buddy_relD(2) [OF rel]] xs(1)]] by simp
  with xs(2) i show ?thesis by auto
qed

definition find_post ::
  "'z kmem_scheme \<Rightarrow> (anchor \<rightharpoonup> anchor list) \<Rightarrow> nat \<Rightarrow> nat option \<Rightarrow> 'z kmem_scheme \<Rightarrow> bool" where
  "find_post s L req q s' \<longleftrightarrow> (case q of
     None \<Rightarrow> s' = s \<and> (\<forall>i\<in>freeset (npages s) (pages s). pp_order (pages s i) < req)
   | Some p \<Rightarrow> (\<exists>H\<subseteq>{p}. same_frames s L s' H) \<and> p \<in> freeset (npages s') (pages s') \<and>
       pp_order (pages s' p) = req)"

lemma buddy_find_from_spec:
  assumes "buddy_rel s L {}" and "req < order" and "order \<le> BUDDY_MAX_ORDER"
    and "\<forall>i\<in>freeset (npages s) (pages s). req \<le> pp_order (pages s i) \<longrightarrow> order \<le> pp_order (pages s i)"
  shows "rok (buddy_find_from order req s) (\<lambda>(q, s'). find_post s L req q s')"
  using assms
proof (induction order req s rule: buddy_find_from.induct)
  case (1 order req s)
  show ?case
  proof (cases "order < BUDDY_MAX_ORDER")
    case False
    with "1.prems" pages_okD(1) [OF buddy_relD(1) [OF "1.prems"(1)]]
    have "\<forall>i\<in>freeset (npages s) (pages s). pp_order (pages s i) < req"
      by (meson not_less less_le_trans)
    then show ?thesis
      using False by (subst buddy_find_from.simps) (simp add: find_post_def)
  next
    case True
    show ?thesis
    proof (cases "list_is_empty (BuddyHead order) (lh s)")
      case e: True
      have "\<forall>i\<in>freeset (npages s) (pages s). req \<le> pp_order (pages s i) \<longrightarrow> order + 1 \<le> pp_order (pages s i)"
        using buddy_empty_order [OF "1.prems"(1) True e] "1.prems"(4) by (metis Suc_eq_plus1 Suc_leI le_neq_implies_less)
      with "1.IH" [OF True e "1.prems"(1)] "1.prems"(2) True
      have "rok (buddy_find_from (order + 1) req s) (\<lambda>(q, s'). find_post s L req q s')" by simp
      then show ?thesis using True e by (subst buddy_find_from.simps) simp
    next
      case ne: False
      have "rok (page_pop order s) (\<lambda>(page, s1). rok (case page of None \<Rightarrow> Inl KUndef
          | Some p \<Rightarrow> rbind (buddy_split p req s1) (\<lambda>(q, s). Inr (Some q, s))) (\<lambda>(q, s'). find_post s L req q s'))"
      proof (rule rok_mono [OF page_pop_spec [OF "1.prems"(1) True ne]], clarsimp simp: rok_rbind)
        fix s1 p
        assume p: "p \<in> freeset (npages s1) (pages s1)" "order = pp_order (pages s1 p)"
          and sf: "same_frames s L s1 {p}"
        then obtain L1 where L1: "buddy_rel s1 L1 {p}" "buddy_frame s L s1 L1"
          "fsig (npages s1) (pages s1) = fsig (npages s) (pages s)"
          by (auto simp: same_frames_def)
        have "rok (buddy_split p req s1) (\<lambda>(q, s'). q = p \<and> (\<exists>H'\<subseteq>{p}. same_frames s1 L1 s' H') \<and>
            p \<in> freeset (npages s') (pages s') \<and> pp_order (pages s' p) = req)"
          by (rule buddy_split_spec [OF L1(1)]) (use p "1.prems"(2) in auto)
        then show "rok (buddy_split p req s1) (\<lambda>x. rok (case x of (q, s) \<Rightarrow> Inr (Some q, s))
            (\<lambda>(q, s'). find_post s L req q s'))"
          by (rule rok_mono) (use same_frames_trans [OF L1] in \<open>auto simp: find_post_def, blast\<close>)
      qed
      then show ?thesis
        using True ne by (subst buddy_find_from.simps) (auto simp: rok_rbind elim!: rok_mono)
    qed
  qed
qed

lemma buddy_find_spec:
  assumes rel: "buddy_rel s L {}" and req: "req < BUDDY_MAX_ORDER"
  shows "rok (buddy_find req s) (\<lambda>(q, s'). find_post s L req q s')"
proof (cases "list_is_empty (BuddyHead req) (lh s)")
  case True
  have "rok (buddy_find_from (req + 1) req s) (\<lambda>(q, s'). find_post s L req q s')"
    by (rule buddy_find_from_spec [OF rel])
      (use req buddy_empty_order [OF rel req True] in \<open>auto simp: Suc_le_eq le_less\<close>)
  with True req show ?thesis by (simp add: buddy_find_def)
next
  case False
  have "rok (page_pop req s) (\<lambda>(q, s'). find_post s L req q s')"
    by (rule rok_mono [OF page_pop_spec [OF rel req False]]) (auto simp: find_post_def, blast)
  with False req show ?thesis by (simp add: buddy_find_def)
qed

end
