(* ===== verification/Buddy_Spec.thy ===== *)
theory Buddy_Spec
  imports Buddy_Inv
begin

text \<open>
  The contracts of \<^verbatim>\<open>page_alloc\<close>, \<^verbatim>\<open>page_free\<close> and \<^verbatim>\<open>page_decref\<close> as a caller sees them, over the
  set of free page frames: what is returned, what joins and leaves the set, and what stays
  unchanged. The operations are total on states that satisfy the invariant.
\<close>

section \<open>The allocator's contract\<close>

definition free_frames :: "'z kmem_scheme \<Rightarrow> nat set" where
  "free_frames s = frames (npages s) (pages s)"

text \<open>Between calls no page is in hand and no CPU holds the lock.\<close>

definition buddy_inv :: "'z kmem_scheme \<Rightarrow> (anchor \<rightharpoonup> anchor list) \<Rightarrow> bool" where
  "buddy_inv s L \<longleftrightarrow> buddy_rel s L {} \<and> lock_free (buddy_lock s)"

lemma buddy_rel_lock [simp]: "buddy_rel (s\<lparr>buddy_lock := l\<rparr>) L H = buddy_rel s L H"
  by (simp add: buddy_rel_def)

lemma buddy_rel_pmem [simp]: "buddy_rel (s\<lparr>pmem := m\<rparr>) L H = buddy_rel s L H"
  by (simp add: buddy_rel_def)

lemma lock_buddy_spec:
  "lock_free (buddy_lock s) \<Longrightarrow> rok (lock_buddy s) (\<lambda>s'. \<exists>l. s' = s\<lparr>buddy_lock := l\<rparr> \<and> holding l (this_cpu s))"
  unfolding lock_buddy_def rok_rbind by (rule rok_mono [OF spin_lock_free]) auto

lemma unlock_buddy_spec:
  "holding (buddy_lock s) (this_cpu s) \<Longrightarrow> rok (unlock_buddy s) (\<lambda>s'. \<exists>l. s' = s\<lparr>buddy_lock := l\<rparr> \<and> lock_free l)"
  unfolding unlock_buddy_def rok_rbind by (rule rok_mono [OF spin_unlock_holding]) auto

lemma buddy_frame_state:
  assumes "buddy_frame s L s' L'"
  shows "npages s' = npages s" and "pmem s' = pmem s" and "buddy_lock s' = buddy_lock s"
    and "this_cpu s' = this_cpu s" and "kmem.more s' = kmem.more s"
proof -
  have e: "s' = s\<lparr>lh := lh s', pages := pages s'\<rparr>" using assms by (simp add: buddy_frame_def)
  show "npages s' = npages s" "pmem s' = pmem s" "buddy_lock s' = buddy_lock s"
      "this_cpu s' = this_cpu s" "kmem.more s' = kmem.more s"
    using arg_cong [OF e, of npages] arg_cong [OF e, of pmem] arg_cong [OF e, of buddy_lock]
      arg_cong [OF e, of this_cpu] arg_cong [OF e, of kmem.more] by simp_all
qed

text \<open>The parts of the state that neither allocation nor freeing changes.\<close>

definition alloc_frame :: "'z kmem_scheme \<Rightarrow> (anchor \<rightharpoonup> anchor list) \<Rightarrow> 'z kmem_scheme \<Rightarrow> (anchor \<rightharpoonup> anchor list) \<Rightarrow> bool" where
  "alloc_frame s L s' L' \<longleftrightarrow> npages s' = npages s \<and> this_cpu s' = this_cpu s \<and> kmem.more s' = kmem.more s \<and>
     (\<forall>i. pp_ref (pages s' i) = pp_ref (pages s i) \<and> pp_rmap (pages s' i) = pp_rmap (pages s i)) \<and>
     (\<forall>a. \<not> buddy_anchor a \<longrightarrow> L' a = L a)"

lemma free_frames_find:
  assumes "buddy_rel s L {}" and "free_frames s \<noteq> {}"
  shows "\<exists>i\<in>freeset (npages s) (pages s). \<not> pp_order (pages s i) < 0"
  using assms by (auto simp: free_frames_def frames_def)

lemma page_alloc_tail:
  assumes rel: "buddy_rel s L H" and H: "H \<subseteq> {p}" and p: "p \<in> freeset (npages s) (pages s)"
    and o: "pp_order (pages s p) = 0" and hold: "holding (buddy_lock s) (this_cpu s)"
  shows "rok (klist_del (PpNode p) (pp_upd p (\<lambda>q. q\<lparr>pp_free := False\<rparr>) s))
    (\<lambda>s3. rok (unlock_buddy s3) (\<lambda>s'. \<exists>L'. buddy_inv s' L' \<and> free_frames s' = free_frames s - {p} \<and>
        \<not> pp_free (pages s' p) \<and> pp_order (pages s' p) = 0 \<and> pmem s' = pmem s \<and> (\<forall>i. pp_zero (pages s' i) = pp_zero (pages s i)) \<and> alloc_frame s L s' L' \<and> (\<forall>i. pp_order (pages s' i) = pp_order (pages s i))))"
proof -
  let ?u = "\<lambda>s. pp_upd p (\<lambda>q. q\<lparr>pp_free := False\<rparr>) s"
  have comm: "klist_del (PpNode p) (?u s) = rbind (klist_del (PpNode p) s) (\<lambda>t. Inr (?u t))"
    by (cases "list_del (PpNode p) (lh s)") (simp_all add: klist_del_def pp_upd_def)
  show ?thesis
    unfolding comm rok_rbind rok_Inr
  proof (rule rok_mono [OF buddy_rel_unlink [OF rel p]], elim conjE exE)
    fix s1 L1
    assume s1: "pages s1 = pages s" and rel1: "buddy_rel s1 L1 (insert p H)" and fr: "buddy_frame s L s1 L1"
    note st = buddy_frame_state [OF fr]
    have H1: "insert p H = {p}" using H by blast
    have p1: "p \<in> freeset (npages s1) (pages s1)" using p s1 st by simp
    note al = pages_ok_alloc [OF buddy_relD(1) [OF rel1] p1 refl]
    have rel2: "buddy_rel (?u s1) L1 {}"
      unfolding pp_upd_def by (rule buddy_rel_pages [OF rel1 [unfolded H1] al(1)]) (use al(3) in auto)
    have b: "blk (pages s1) p = {p}" using o s1 by (auto simp: blk_def)
    have "rok (unlock_buddy (?u s1)) (\<lambda>s'. \<exists>l. s' = (?u s1)\<lparr>buddy_lock := l\<rparr> \<and> lock_free l)"
      by (rule unlock_buddy_spec) (use hold st in \<open>simp add: pp_upd_def\<close>)
    then show "rok (unlock_buddy (?u s1)) (\<lambda>s'. \<exists>L'. buddy_inv s' L' \<and> free_frames s' = free_frames s - {p} \<and>
        \<not> pp_free (pages s' p) \<and> pp_order (pages s' p) = 0 \<and> pmem s' = pmem s \<and> (\<forall>i. pp_zero (pages s' i) = pp_zero (pages s i)) \<and> alloc_frame s L s' L' \<and> (\<forall>i. pp_order (pages s' i) = pp_order (pages s i)))"
    proof (rule rok_mono, elim exE conjE)
      fix s' l assume s': "s' = (?u s1)\<lparr>buddy_lock := l\<rparr>" and l: "lock_free l"
      have "buddy_inv s' L1" using rel2 l s' by (simp add: buddy_inv_def)
      moreover have "free_frames s' = free_frames s - {p}"
        using al(2) b s1 st s' by (simp add: free_frames_def pp_upd_def)
      moreover have "alloc_frame s L s' L1" "\<forall>i. pp_zero (pages s' i) = pp_zero (pages s i)"
        using fr s1 st s' by (auto simp: alloc_frame_def buddy_frame_def pp_upd_def)
      ultimately show "\<exists>L'. buddy_inv s' L' \<and> free_frames s' = free_frames s - {p} \<and>
        \<not> pp_free (pages s' p) \<and> pp_order (pages s' p) = 0 \<and> pmem s' = pmem s \<and> (\<forall>i. pp_zero (pages s' i) = pp_zero (pages s i)) \<and> alloc_frame s L s' L' \<and> (\<forall>i. pp_order (pages s' i) = pp_order (pages s i))"
        using s' s1 st o by (intro exI [of _ L1]) (simp add: pp_upd_def)
    qed
  qed
qed

lemma alloc_frame_before:
  assumes "buddy_frame (s\<lparr>buddy_lock := l\<rparr>) L t M" and "alloc_frame (t\<lparr>pmem := m\<rparr>) M s' L'"
  shows "alloc_frame s L s' L'"
  using assms buddy_frame_state [OF assms(1)] by (simp add: alloc_frame_def buddy_frame_def)

lemma page_alloc_found:
  assumes fp: "find_post (s\<lparr>buddy_lock := l\<rparr>) L 0 (Some p) t" and hold: "holding l (this_cpu s)"
    and m: "m = (if fl AND ALLOC_ZERO \<noteq> 0 \<and> pp_zero (pages t p) = 0 then (pmem t)(p := (\<lambda>_. 0)) else pmem t)"
  shows "p \<in> free_frames s" and "pp_free (pages t p)" and "p < npages t"
    and "pp_zero (pages t i) = pp_zero (pages s i)" and "pmem t = pmem s"
    and "rok (klist_del (PpNode p) (pp_upd p (\<lambda>q. q\<lparr>pp_free := False\<rparr>) (t\<lparr>pmem := m\<rparr>)))
      (\<lambda>s3. rok (unlock_buddy s3) (\<lambda>s'. \<exists>L'. buddy_inv s' L' \<and> free_frames s' = free_frames s - {p} \<and>
        \<not> pp_free (pages s' p) \<and> pp_order (pages s' p) = 0 \<and> pmem s' = m \<and> (\<forall>i. pp_zero (pages s' i) = pp_zero (pages s i)) \<and> alloc_frame s L s' L' \<and> (\<forall>i. i \<notin> free_frames s \<longrightarrow> pp_order (pages s' i) = pp_order (pages s i))))"
proof -
  obtain H M where H: "H \<subseteq> {p}" "buddy_rel t M H" "buddy_frame (s\<lparr>buddy_lock := l\<rparr>) L t M"
    and ff: "free_frames t = free_frames s" and p: "p \<in> freeset (npages t) (pages t)" "pp_order (pages t p) = 0"
    using fp by (auto simp: find_post_def same_frames_def free_frames_def dest: fsig_frames)
  note st = buddy_frame_state [OF H(3)]
  have ord: "pp_order (pages t i) = pp_order (pages s i)" if "i \<notin> free_frames s" for i
    using fp that by (auto simp: find_post_def same_frames_def free_frames_def dest: fsig_order)
  show "p \<in> free_frames s"
    unfolding ff [symmetric] using p by (auto simp: free_frames_def frames_def intro!: bexI [of _ p])
  show "pp_free (pages t p)" "p < npages t" using p by (auto simp: freeset_def)
  show zero: "pp_zero (pages t i) = pp_zero (pages s i)" for i
    using H(3) by (simp add: buddy_frame_def)
  show "pmem t = pmem s"
    using H(3) st by (simp_all add: buddy_frame_def)
  have "rok (klist_del (PpNode p) (pp_upd p (\<lambda>q. q\<lparr>pp_free := False\<rparr>) (t\<lparr>pmem := m\<rparr>)))
      (\<lambda>s3. rok (unlock_buddy s3) (\<lambda>s'. \<exists>L'. buddy_inv s' L' \<and> free_frames s' = free_frames (t\<lparr>pmem := m\<rparr>) - {p} \<and>
        \<not> pp_free (pages s' p) \<and> pp_order (pages s' p) = 0 \<and> pmem s' = pmem (t\<lparr>pmem := m\<rparr>) \<and>
        (\<forall>i. pp_zero (pages s' i) = pp_zero (pages (t\<lparr>pmem := m\<rparr>) i)) \<and> alloc_frame (t\<lparr>pmem := m\<rparr>) M s' L' \<and> (\<forall>i. pp_order (pages s' i) = pp_order (pages (t\<lparr>pmem := m\<rparr>) i))))"
    by (rule page_alloc_tail [OF _ H(1)]) (use H p hold st in auto)
  moreover have "free_frames (t\<lparr>pmem := m\<rparr>) = free_frames s" using ff by (simp add: free_frames_def)
  ultimately show "rok (klist_del (PpNode p) (pp_upd p (\<lambda>q. q\<lparr>pp_free := False\<rparr>) (t\<lparr>pmem := m\<rparr>)))
      (\<lambda>s3. rok (unlock_buddy s3) (\<lambda>s'. \<exists>L'. buddy_inv s' L' \<and> free_frames s' = free_frames s - {p} \<and>
        \<not> pp_free (pages s' p) \<and> pp_order (pages s' p) = 0 \<and> pmem s' = m \<and> (\<forall>i. pp_zero (pages s' i) = pp_zero (pages s i)) \<and> alloc_frame s L s' L' \<and> (\<forall>i. i \<notin> free_frames s \<longrightarrow> pp_order (pages s' i) = pp_order (pages s i))))"
    using alloc_frame_before [OF H(3)] zero ord by (auto elim!: rok_mono)
qed

definition alloc_post ::
  "nat \<Rightarrow> 'z kmem_scheme \<Rightarrow> (anchor \<rightharpoonup> anchor list) \<Rightarrow> nat \<Rightarrow> 'z kmem_scheme \<Rightarrow> (anchor \<rightharpoonup> anchor list) \<Rightarrow> bool" where
  "alloc_post fl s L p s' L' \<longleftrightarrow> p \<in> free_frames s \<and> buddy_inv s' L' \<and>
     free_frames s' = free_frames s - {p} \<and> \<not> pp_free (pages s' p) \<and> pp_order (pages s' p) = 0 \<and>
     pmem s' = (if fl AND ALLOC_ZERO \<noteq> 0 \<and> pp_zero (pages s p) = 0 then (pmem s)(p := (\<lambda>_. 0)) else pmem s) \<and>
     (\<forall>i. pp_zero (pages s' i) = pp_zero (pages s i)) \<and> alloc_frame s L s' L' \<and>
     (\<forall>i. i \<notin> free_frames s \<longrightarrow> pp_order (pages s' i) = pp_order (pages s i))"

lemma page_alloc_spec:
  assumes inv: "buddy_inv s L"
  shows "free_frames s \<noteq> {} \<Longrightarrow>
      rok (page_alloc fl s) (\<lambda>(q, s'). \<exists>p L'. q = Some p \<and> alloc_post fl s L p s' L')"
    and "free_frames s = {} \<Longrightarrow> page_alloc fl s = Inl KPanic"
proof -
  obtain l where l: "lock_buddy s = Inr (s\<lparr>buddy_lock := l\<rparr>)" "holding l (this_cpu s)"
    using lock_buddy_spec [of s] inv by (auto simp: buddy_inv_def rok_iff)
  have "buddy_rel (s\<lparr>buddy_lock := l\<rparr>) L {}" using inv by (simp add: buddy_inv_def)
  then obtain q t where qt: "buddy_find 0 (s\<lparr>buddy_lock := l\<rparr>) = Inr (q, t)"
    and fp: "find_post (s\<lparr>buddy_lock := l\<rparr>) L 0 q t"
    using buddy_find_spec [of "s\<lparr>buddy_lock := l\<rparr>" L 0] by (auto simp: rok_iff BUDDY_MAX_ORDER_def)
  show "page_alloc fl s = Inl KPanic" if "free_frames s = {}"
  proof (cases q)
    case None
    with l(1) qt show ?thesis by (simp add: page_alloc_def)
  next
    case (Some p)
    with page_alloc_found(1) [OF fp [unfolded Some] l(2) refl] that show ?thesis by simp
  qed
  show "rok (page_alloc fl s) (\<lambda>(q, s'). \<exists>p L'. q = Some p \<and> alloc_post fl s L p s' L')"
    if ne: "free_frames s \<noteq> {}"
  proof (cases q)
    case None
    with fp ne show ?thesis by (auto simp: find_post_def free_frames_def frames_def)
  next
    case (Some p)
    define m where "m = (if fl AND ALLOC_ZERO \<noteq> 0 \<and> pp_zero (pages t p) = 0 then (pmem t)(p := (\<lambda>_. 0)) else pmem t)"
    note found = page_alloc_found [OF fp [unfolded Some] l(2) m_def]
    have m': "m = (if fl AND ALLOC_ZERO \<noteq> 0 \<and> pp_zero (pages s p) = 0 then (pmem s)(p := (\<lambda>_. 0)) else pmem s)"
      using found(4,5) by (simp add: m_def)
    have "page_alloc fl s = rbind (klist_del (PpNode p) (pp_upd p (\<lambda>q. q\<lparr>pp_free := False\<rparr>) (t\<lparr>pmem := m\<rparr>)))
        (\<lambda>s3. rbind (unlock_buddy s3) (\<lambda>s4. Inr (Some p, s4)))"
      using l(1) qt Some found(2,3) by (simp add: page_alloc_def Let_def m_def)
    then show ?thesis
      using found(6) found(1) m' by (auto simp: rok_rbind alloc_post_def elim!: rok_mono)
  qed
qed

section \<open>Freeing\<close>

text \<open>The page replacement list: a page is on it or its \<open>swap_node\<close> is linked to itself.\<close>

definition swap_linked :: "(anchor \<rightharpoonup> anchor list) \<Rightarrow> nat \<Rightarrow> bool" where
  "swap_linked L p \<longleftrightarrow> (\<exists>xs. L SwapHead = Some xs \<and> SwapNode p \<in> set xs)"

definition swap_known :: "(anchor \<rightharpoonup> anchor list) \<Rightarrow> nat \<Rightarrow> bool" where
  "swap_known L p \<longleftrightarrow> L (SwapNode p) = Some [] \<or> swap_linked L p"

definition swap_removed :: "nat \<Rightarrow> (anchor \<rightharpoonup> anchor list) \<Rightarrow> (anchor \<rightharpoonup> anchor list)" where
  "swap_removed p L = (if L (SwapNode p) = Some [] then L
     else L(SwapHead \<mapsto> remove1 (SwapNode p) (the (L SwapHead)), SwapNode p \<mapsto> []))"

lemma remove_swap_page_links:
  assumes kl: "klinks (lh s) L" and known: "swap_known L p"
  shows "rok (remove_swap_page p s) (\<lambda>s'. \<exists>h. s' = s\<lparr>lh := h\<rparr> \<and> klinks h (swap_removed p L))"
proof (cases "L (SwapNode p) = Some []")
  case True
  then have "list_is_empty (SwapNode p) (lh s)"
    using rings.family_isempty [OF klinks_family [OF kl] True] by simp
  with True kl show ?thesis
    by (auto simp: remove_swap_page_def swap_removed_def intro!: exI [of _ "lh s"])
next
  case False
  with known obtain xs where xs: "L SwapHead = Some xs" "SwapNode p \<in> set xs"
    by (auto simp: swap_known_def swap_linked_def)
  have "\<not> list_is_empty (SwapNode p) (lh s)"
    using is_list_in_nodes(1) [OF rings.family_rep [OF klinks_family [OF kl] xs(1)] xs(2)]
    by (simp add: list_is_empty_def)
  with False klinks_del [OF kl xs] xs(1) show ?thesis
    by (auto simp: remove_swap_page_def klist_del_def rok_rbind swap_removed_def elim!: rok_mono)
qed

lemma buddy_rel_links:
  assumes "buddy_rel s L H" and "klinks h L'" and "\<And>a. buddy_anchor a \<Longrightarrow> L' a = L a"
  shows "buddy_rel (s\<lparr>lh := h\<rparr>) L' H"
  using assms by (simp add: buddy_rel_def buddy_anchor_def)

definition freeable :: "'z kmem_scheme \<Rightarrow> nat \<Rightarrow> bool" where
  "freeable s p \<longleftrightarrow> p + 2 ^ pp_order (pages s p) \<le> npages s \<and> pp_order (pages s p) < BUDDY_MAX_ORDER \<and>
     2 ^ pp_order (pages s p) dvd p \<and> blk (pages s) p \<inter> free_frames s = {}"

definition free_post ::
  "'z kmem_scheme \<Rightarrow> (anchor \<rightharpoonup> anchor list) \<Rightarrow> nat \<Rightarrow> 'z kmem_scheme \<Rightarrow> (anchor \<rightharpoonup> anchor list) \<Rightarrow> bool" where
  "free_post s L p s' L' \<longleftrightarrow> buddy_inv s' L' \<and> free_frames s' = free_frames s \<union> blk (pages s) p \<and>
     pmem s' = pmem s \<and> alloc_frame s (swap_removed p L) s' L' \<and>
     (\<forall>i. i \<notin> free_frames s' \<longrightarrow> pp_order (pages s' i) = pp_order (pages s i))"

lemma buddy_rel_mark_free:
  assumes rel: "buddy_rel s L {}" and f: "freeable s p"
  shows "buddy_rel (pp_upd p (\<lambda>q. q\<lparr>pp_free := True\<rparr>) s) L {p}"
    and "free_frames (pp_upd p (\<lambda>q. q\<lparr>pp_free := True\<rparr>) s) = free_frames s \<union> blk (pages s) p"
    and "p \<in> freeset (npages s) (pages (pp_upd p (\<lambda>q. q\<lparr>pp_free := True\<rparr>) s))"
proof -
  have "(0::nat) < 2 ^ pp_order (pages s p)" by simp
  with f have pn: "p < npages s" unfolding freeable_def by linarith
  note free = pages_ok_free [OF buddy_relD(1) [OF rel] pn _ _ _ _ refl]
  have f': "blk (pages s) p \<inter> frames (npages s) (pages s) = {}" "pp_order (pages s p) < BUDDY_MAX_ORDER"
    "2 ^ pp_order (pages s p) dvd p" "p + 2 ^ pp_order (pages s p) \<le> npages s"
    using f by (auto simp: freeable_def free_frames_def)
  have np: "p \<notin> freeset (npages s) (pages s)"
    using f'(1) in_blk [of p "pages s"] unfolding frames_def by blast
  show "buddy_rel (pp_upd p (\<lambda>q. q\<lparr>pp_free := True\<rparr>) s) L {p}"
    unfolding pp_upd_def
    by (rule buddy_rel_pages [OF rel free(1) [OF f']]) (use free(3) [OF f'] np in auto)
  show "free_frames (pp_upd p (\<lambda>q. q\<lparr>pp_free := True\<rparr>) s) = free_frames s \<union> blk (pages s) p"
    using free(2) [OF f'] by (simp add: free_frames_def pp_upd_def)
  show "p \<in> freeset (npages s) (pages (pp_upd p (\<lambda>q. q\<lparr>pp_free := True\<rparr>) s))"
    using free(3) [OF f'] by (simp add: pages_pp_upd)
qed

text \<open>The end of \<^verbatim>\<open>page_free\<close> when no merge took place: the page goes on its list and on \<^verbatim>\<open>zero_list\<close>.\<close>

lemma page_free_link:
  assumes rel: "buddy_rel s L {p}" and p: "p \<in> freeset (npages s) (pages s)"
    and t: "t = klist_add ZeroHead (ZeroNode p) (pp_upd p (\<lambda>q. q\<lparr>pp_zero := 0\<rparr>)
        (klist_add (BuddyHead (pp_order (pages s p))) (PpNode p) s))"
  shows "\<exists>L'. buddy_rel t L' {} \<and> free_frames t = free_frames s \<and> pmem t = pmem s \<and>
      buddy_lock t = buddy_lock s \<and> alloc_frame s L t L' \<and> (\<forall>i. pp_order (pages t i) = pp_order (pages s i))"
proof -
  let ?s1 = "klist_add (BuddyHead (pp_order (pages s p))) (PpNode p) s"
  let ?P = "(pages s)(p := (pages s p)\<lparr>pp_zero := 0\<rparr>)"
  obtain L1 where rel1: "buddy_rel ?s1 L1 {}" and fr1: "buddy_frame s L ?s1 L1"
    using buddy_rel_link [OF rel p _ refl] by auto
  have same: "freeset n ?P = freeset n (pages s)" "blk ?P i = blk (pages s) i" "pp_order (?P i) = pp_order (pages s i)" for n i
    by (auto simp: freeset_def blk_def)
  have ok: "pages_ok (npages s) ?P" "frames (npages s) ?P = frames (npages s) (pages s)"
    using buddy_relD(1) [OF rel] unfolding pages_ok_def frames_def same by blast+
  have "buddy_rel (?s1\<lparr>pages := ?P\<rparr>) L1 {}"
    by (rule buddy_rel_pages [OF rel1]) (use ok same in \<open>auto simp: klist_add_def\<close>)
  then have "buddy_rel ((?s1\<lparr>pages := ?P\<rparr>)\<lparr>lh := list_add ZeroHead (ZeroNode p) (lh ?s1)\<rparr>) L1 {}"
    by (rule buddy_rel_links) (use klinks_zero_add [OF buddy_relD(2) [OF rel1]] in auto)
  moreover have t': "t = (?s1\<lparr>pages := ?P\<rparr>)\<lparr>lh := list_add ZeroHead (ZeroNode p) (lh ?s1)\<rparr>"
    unfolding t by (simp add: klist_add_def pp_upd_def)
  moreover have "alloc_frame s L t L1"
    using fr1 unfolding t' by (simp add: alloc_frame_def buddy_frame_def klist_add_def)
  ultimately show ?thesis
    using ok(2) by (intro exI [of _ L1]) (simp add: free_frames_def klist_add_def)
qed

lemma free_unlock:
  assumes "buddy_rel t L' {}" and "free_frames t = free_frames s \<union> blk (pages s) p" and "pmem t = pmem s"
    and "alloc_frame s (swap_removed p L) t L'"
    and "\<forall>i. i \<notin> free_frames t \<longrightarrow> pp_order (pages t i) = pp_order (pages s i)"
    and "holding (buddy_lock t) (this_cpu t)"
  shows "rok (unlock_buddy t) (\<lambda>s'. \<exists>L'. free_post s L p s' L')"
  by (rule rok_mono [OF unlock_buddy_spec [OF assms(6)]], elim exE conjE)
    (use assms(1-5) in \<open>auto simp: free_post_def buddy_inv_def free_frames_def alloc_frame_def intro!: exI [of _ L']\<close>)

lemma page_free_spec:
  assumes inv: "buddy_inv s L" and f: "freeable s p" and ref: "pp_ref (pages s p) = 0"
    and known: "swap_known L p"
  shows "rok (page_free p s) (\<lambda>s'. \<exists>L'. free_post s L p s' L')"
proof -
  obtain l where l: "lock_buddy s = Inr (s\<lparr>buddy_lock := l\<rparr>)" "holding l (this_cpu s)"
    using lock_buddy_spec [of s] inv by (auto simp: buddy_inv_def rok_iff)
  let ?L = "swap_removed p L"
  have rel0: "buddy_rel (s\<lparr>buddy_lock := l\<rparr>) L {}" using inv by (simp add: buddy_inv_def)
  obtain h where h: "remove_swap_page p (s\<lparr>buddy_lock := l\<rparr>) = Inr (s\<lparr>buddy_lock := l, lh := h\<rparr>)"
    and kl: "klinks h ?L"
    using remove_swap_page_links [OF buddy_relD(2) [OF rel0] known] by (auto simp: rok_iff)
  define t where "t = s\<lparr>buddy_lock := l, lh := h\<rparr>"
  have rel: "buddy_rel t ?L {}"
    unfolding t_def by (rule buddy_rel_links [OF rel0 kl]) (auto simp: swap_removed_def buddy_anchor_def)
  have ft: "freeable t p" using f by (simp add: freeable_def free_frames_def t_def)
  let ?u = "pp_upd p (\<lambda>q. q\<lparr>pp_free := True\<rparr>) t"
  note mark = buddy_rel_mark_free [OF rel ft]
  have ff: "free_frames ?u = free_frames s \<union> blk (pages s) p"
    using mark(2) by (simp add: free_frames_def t_def)
  have pF: "p \<in> freeset (npages ?u) (pages ?u)" using mark(3) by (simp add: pp_upd_def)
  have pn: "p < npages s" "pp_order (pages s p) < BUDDY_MAX_ORDER"
    using pF f by (simp_all add: freeset_def freeable_def pp_upd_def t_def)
  have u: "holding (buddy_lock ?u) (this_cpu ?u)" "alloc_frame s ?L ?u ?L" "pmem ?u = pmem s"
    "pp_order (pages ?u p) = pp_order (pages s p)" "pp_order (pages ?u i) = pp_order (pages s i)" for i
    using l by (simp_all add: pp_upd_def t_def alloc_frame_def)
  let ?v = "klist_add ZeroHead (ZeroNode p) (pp_upd p (\<lambda>q. q\<lparr>pp_zero := 0\<rparr>)
        (klist_add (BuddyHead (pp_order (pages ?u p))) (PpNode p) ?u))"
  have nomerge: "rok (unlock_buddy ?v) (\<lambda>s'. \<exists>L'. free_post s L p s' L')"
  proof -
    obtain L' where L': "buddy_rel ?v L' {}" "free_frames ?v = free_frames ?u" "pmem ?v = pmem ?u"
        "buddy_lock ?v = buddy_lock ?u" "alloc_frame ?u ?L ?v L'"
        "\<forall>i. pp_order (pages ?v i) = pp_order (pages ?u i)"
      using page_free_link [OF mark(1) pF refl] by blast
    show ?thesis
      by (rule free_unlock [OF L'(1)]) (use L' u ff in \<open>simp_all add: alloc_frame_def\<close>)
  qed
  have merged: "rok (unlock_buddy v) (\<lambda>s'. \<exists>L'. free_post s L p s' L')" if sf: "same_frames ?u ?L v {}" for v
  proof -
    obtain L' where L': "buddy_rel v L' {}" "buddy_frame ?u ?L v L'" "free_frames v = free_frames ?u"
      and ord: "\<And>i. i \<notin> free_frames ?u \<Longrightarrow> pp_order (pages v i) = pp_order (pages ?u i)"
      using sf by (auto simp: same_frames_def free_frames_def dest: fsig_frames fsig_order)
    note st = buddy_frame_state [OF L'(2)]
    show ?thesis
      by (rule free_unlock [OF L'(1)]) (use L' st u ff ord in \<open>simp_all add: alloc_frame_def buddy_frame_def\<close>)
  qed
  have eq: "page_free p s = rbind (if pp_order (pages ?u p) \<noteq> BUDDY_MAX_ORDER - 1 then buddy_merge p ?u else Inr (Some p, ?u))
      (\<lambda>(page, s2). case page of None \<Rightarrow> unlock_buddy s2
       | Some q \<Rightarrow> kdefined (pp_order (pages s2 q) < BUDDY_MAX_ORDER)
          (unlock_buddy (klist_add ZeroHead (ZeroNode q) (pp_upd q (\<lambda>p. p\<lparr>pp_zero := 0\<rparr>)
            (klist_add (BuddyHead (pp_order (pages s2 q))) (PpNode q) s2)))))"
    unfolding page_free_def Let_def using pn(1) ref l(1) h by (simp add: t_def)
  show ?thesis
  proof (cases "pp_order (pages ?u p) = BUDDY_MAX_ORDER - 1")
    case True
    with nomerge pn(2) u(4) show ?thesis unfolding eq by simp
  next
    case False
    have "rok (buddy_merge p ?u) (\<lambda>(q, s'). case q of None \<Rightarrow> same_frames ?u ?L s' {} | Some q \<Rightarrow> q = p \<and> s' = ?u)"
      by (rule buddy_merge_spec [OF mark(1) _ pF]) (use False in auto)
    then show ?thesis
      unfolding eq rok_rbind if_P [OF False]
      by (rule rok_mono) (use nomerge merged pn(2) u(4) in \<open>auto split: option.splits\<close>)
  qed
qed

section \<open>Counting\<close>

lemma card_frames:
  assumes ok: "pages_ok n P"
  shows "card (frames n P) = (\<Sum>k<BUDDY_MAX_ORDER. card {i \<in> freeset n P. pp_order (P i) = k} * 2 ^ k)"
proof -
  have fin: "finite (freeset n P)" by (rule finite_subset [of _ "{..<n}"]) (auto simp: freeset_def)
  have "card (frames n P) = (\<Sum>i\<in>freeset n P. card (blk P i))"
    unfolding frames_def
    by (rule card_UN_disjoint [OF fin]) (use pages_okD(5) [OF ok] in \<open>auto simp: blk_def\<close>)
  also have "\<dots> = (\<Sum>i\<in>freeset n P. 2 ^ pp_order (P i))" by (simp add: blk_def)
  also have "\<dots> = (\<Sum>k<BUDDY_MAX_ORDER. \<Sum>i\<in>{i \<in> freeset n P. pp_order (P i) = k}. 2 ^ pp_order (P i))"
    by (rule sum.group [symmetric]) (use fin pages_okD(1) [OF ok] in auto)
  also have "\<dots> = (\<Sum>k<BUDDY_MAX_ORDER. card {i \<in> freeset n P. pp_order (P i) = k} * 2 ^ k)"
    by (rule sum.cong) auto
  finally show ?thesis .
qed

lemma count_free_pages_rel:
  assumes rel: "buddy_rel s L {}" and k: "k < BUDDY_MAX_ORDER"
  shows "count_free_pages k s = Some (card {i \<in> freeset (npages s) (pages s). pp_order (pages s i) = k})"
proof -
  obtain xs where xs: "L (BuddyHead k) = Some (map PpNode xs)" "distinct xs"
    "set xs = {i \<in> freeset (npages s) (pages s) - {}. pp_order (pages s i) = k}"
    using buddy_rel_list [OF rel k] by metis
  have "list_foreach (BuddyHead k) (lh s) = Some (map PpNode xs)"
    by (rule list_foreach_is_list [OF rings.family_rep [OF klinks_family [OF buddy_relD(2) [OF rel]] xs(1)]])
  with k xs(2,3) show ?thesis by (simp add: count_free_pages_def distinct_card [symmetric])
qed

lemma count_from_rel:
  assumes rel: "buddy_rel s L {}" and m: "m \<le> BUDDY_MAX_ORDER"
  shows "count_from m acc s = Some (acc + (\<Sum>k=BUDDY_MAX_ORDER - m..<BUDDY_MAX_ORDER.
      card {i \<in> freeset (npages s) (pages s). pp_order (pages s i) = k} * 2 ^ k))"
  using m
proof (induction m arbitrary: acc)
  case (Suc m)
  then have "BUDDY_MAX_ORDER - Suc m < BUDDY_MAX_ORDER" "BUDDY_MAX_ORDER - m = Suc (BUDDY_MAX_ORDER - Suc m)" by auto
  with Suc show ?case
    by (simp add: Let_def count_free_pages_rel [OF rel] sum.atLeast_Suc_lessThan)
qed simp

lemma swap_removed_unlinked:
  assumes kl: "klinks h L" and known: "swap_known L p" and xs: "swap_removed p L SwapHead = Some xs"
  shows "SwapNode p \<notin> set xs"
proof (cases "L (SwapNode p) = Some []")
  case True
  with xs have "L SwapHead = Some xs" by (simp add: swap_removed_def)
  from rings.family_disjoint [OF klinks_family [OF kl] this True] show ?thesis by auto
next
  case False
  with known obtain ys where ys: "L SwapHead = Some ys" by (auto simp: swap_known_def swap_linked_def)
  then have "distinct ys"
    using rings.rep_distinct [OF rings.family_rep [OF klinks_family [OF kl] ys]] by simp
  with xs ys False show ?thesis by (auto simp: swap_removed_def set_remove1_eq)
qed

section \<open>A concrete state\<close>

text \<open>
  A machine of 1024 page frames in which the first 512 are one free block of the largest order
  and the others are allocated pages of order 0 that nobody references.
\<close>

definition demo_links :: "anchor \<rightharpoonup> anchor list" where
  "demo_links a = (case a of
     BuddyHead k \<Rightarrow> if k = 9 then Some [PpNode 0] else if k < 9 then Some [] else None
   | PpNode i \<Rightarrow> if 0 < i \<and> i < 1024 then Some [] else None
   | SwapHead \<Rightarrow> Some []
   | SwapNode i \<Rightarrow> if i < 1024 then Some [] else None
   | _ \<Rightarrow> None)"

definition demo_kmem :: kmem where
  "demo_kmem =
     \<lparr>lh = \<lparr>nx = (\<lambda>a. a)(BuddyHead 9 := PpNode 0, PpNode 0 := BuddyHead 9, ZeroHead := Null),
            pv = (\<lambda>a. a)(BuddyHead 9 := PpNode 0, PpNode 0 := BuddyHead 9, ZeroHead := Null)\<rparr>,
      pages = (\<lambda>i. \<lparr>pp_ref = 0, pp_order = (if i = 0 then 9 else 0), pp_free = (i = 0),
                   pp_zero = 0, pp_rmap = None\<rparr>),
      npages = 1024, pmem = (\<lambda>_ _. 7),
      buddy_lock = \<lparr>locked = 0, lock_name = ''buddy_lock'', lock_cpu = None, lock_file = None, lock_line = 0\<rparr>,
      this_cpu = 0\<rparr>"

lemma demo_freeset: "freeset (npages demo_kmem) (pages demo_kmem) = {0}"
  by (auto simp: freeset_def demo_kmem_def)

lemma demo_frames: "free_frames demo_kmem = {..<512}"
  by (auto simp: free_frames_def frames_def demo_freeset) (auto simp: blk_def demo_kmem_def)

lemma demo_pages: "pages demo_kmem i = \<lparr>pp_ref = 0, pp_order = (if i = 0 then 9 else 0), pp_free = (i = 0),
    pp_zero = 0, pp_rmap = None\<rparr>" "npages demo_kmem = 1024" "pmem demo_kmem = (\<lambda>_ _. 7)"
  by (simp_all add: demo_kmem_def)

lemma demo_ne: "free_frames demo_kmem \<noteq> {}"
  by (simp add: demo_frames lessThan_empty_iff)

lemma demo_links_cases:
  "demo_links p = Some xs \<Longrightarrow> p = BuddyHead 9 \<and> xs = [PpNode 0] \<or>
   xs = [] \<and> ((\<exists>k<9. p = BuddyHead k) \<or> (\<exists>i>0. p = PpNode i) \<or> p = SwapHead \<or> (\<exists>i. p = SwapNode i))"
  by (cases p) (auto simp: demo_links_def split: if_splits)

lemma demo_family: "ring_family is_list (lh demo_kmem) demo_links"
proof -
  have sets: "is_list (lh demo_kmem) p xs \<and>
      set (p # xs) = (if p = BuddyHead 9 then {BuddyHead 9, PpNode 0} else {p}) \<and> p \<noteq> PpNode 0"
    if "demo_links p = Some xs" for p xs
    using demo_links_cases [OF that] by (auto simp: is_list_def demo_kmem_def)
  have "set (p # xs) \<inter> set (q # ys) = {}"
    if "demo_links p = Some xs" "demo_links q = Some ys" "p \<noteq> q" for p q xs ys
    using sets [OF that(1)] sets [OF that(2)] that(3) by auto
  with sets show ?thesis unfolding ring_family_def by blast
qed

lemma demo_inv: "buddy_inv demo_kmem demo_links"
proof -
  have ok: "pages_ok (npages demo_kmem) (pages demo_kmem)"
    unfolding pages_ok_def demo_freeset by (simp add: demo_pages BUDDY_MAX_ORDER_def)
  have "ring_nodes demo_links \<inter> zero_area = {}"
    by (auto simp: ring_nodes_def zero_area_def dest!: demo_links_cases)
  moreover have "nx (lh demo_kmem) ZeroHead \<in> zero_area" by (simp add: demo_kmem_def zero_area_def)
  ultimately have kl: "klinks (lh demo_kmem) demo_links" using demo_family by (simp add: klinks_def)
  have lists: "\<exists>xs. demo_links (BuddyHead k) = Some (map PpNode xs) \<and>
      set xs = {i \<in> {0} - {}. pp_order (pages demo_kmem i) = k}" if "k < BUDDY_MAX_ORDER" for k
    using that by (intro exI [of _ "if k = 9 then [0] else []"])
      (auto simp: demo_links_def demo_pages BUDDY_MAX_ORDER_def)
  have single: "demo_links (PpNode i) = Some []" if "i < npages demo_kmem" "i \<notin> {0} - {}" for i
    using that by (simp add: demo_links_def demo_pages)
  show ?thesis
    unfolding buddy_inv_def buddy_rel_def demo_freeset
    using ok kl lists single by (simp add: lock_free_def demo_kmem_def)
qed

lemma demo_freeable: "freeable demo_kmem 600" "swap_known demo_links 600"
  by (auto simp: freeable_def demo_frames demo_pages blk_def BUDDY_MAX_ORDER_def swap_known_def demo_links_def)

text \<open>A state in which every list is empty and no page is free, as at the start of \<^verbatim>\<open>page_init\<close>.\<close>

definition idle_anchors :: "nat \<Rightarrow> anchor set" where
  "idle_anchors n = BuddyHead ` {..<BUDDY_MAX_ORDER} \<union> PpNode ` {..<n} \<union> SwapNode ` {..<n} \<union> {SwapHead}"

definition idle_links :: "nat \<Rightarrow> anchor \<rightharpoonup> anchor list" where
  "idle_links n a = (if a \<in> idle_anchors n then Some [] else None)"

lemma idle_inv:
  assumes n: "512 dvd npages s" and free: "\<And>i. i < npages s \<Longrightarrow> \<not> pp_free (pages s i)"
    and self: "\<And>a. a \<in> idle_anchors (npages s) \<Longrightarrow> nx (lh s) a = a \<and> pv (lh s) a = a"
    and zero: "nx (lh s) ZeroHead \<in> zero_area" and lock: "lock_free (buddy_lock s)"
  shows "buddy_inv s (idle_links (npages s))" and "free_frames s = {}"
proof -
  have F: "freeset (npages s) (pages s) = {}" using free by (auto simp: freeset_def)
  then show "free_frames s = {}" by (simp add: free_frames_def frames_def)
  have dis: "idle_anchors (npages s) \<inter> zero_area = {}" by (auto simp: idle_anchors_def zero_area_def)
  have "ring_family is_list (lh s) (idle_links (npages s))"
    using self dis by (auto simp: ring_family_def idle_links_def is_list_def zero_area_def split: if_splits)
  moreover have "ring_nodes (idle_links (npages s)) \<inter> zero_area = {}"
    using dis by (auto simp: ring_nodes_def idle_links_def split: if_splits)
  ultimately have "klinks (lh s) (idle_links (npages s))" using zero by (simp add: klinks_def)
  moreover have "pages_ok (npages s) (pages s)" using n F by (simp add: pages_ok_def)
  ultimately show "buddy_inv s (idle_links (npages s))"
    using F lock by (simp add: buddy_inv_def buddy_rel_def idle_links_def idle_anchors_def)
qed

definition demo_full :: kmem where
  "demo_full = demo_kmem\<lparr>lh := \<lparr>nx = (\<lambda>a. a), pv = (\<lambda>a. a)\<rparr>,
     pages := (\<lambda>i. (pages demo_kmem i)\<lparr>pp_free := False\<rparr>)\<rparr>"

lemma demo_full_inv: "buddy_inv demo_full (idle_links 1024)" "free_frames demo_full = {}"
  using idle_inv [of demo_full]
  by (simp_all add: demo_full_def demo_kmem_def lock_free_def zero_area_def)

section \<open>Properties of the allocator\<close>

text \<open>
  C1: On a machine with a free frame, \<^verbatim>\<open>page_alloc\<close> returns a page of order 0 that was free, the set of
  free frames loses exactly this frame, reference counts and the other lists are unchanged, the
  invariant (aligned, disjoint blocks; lists holding exactly the free pages; lock free) holds again.
\<close>

theorem page_alloc_takes_one_frame:
  assumes "buddy_inv s L" and "free_frames s \<noteq> {}"
  shows "rok (page_alloc fl s) (\<lambda>(q, s'). \<exists>p L'. q = Some p \<and> p \<in> free_frames s \<and>
      free_frames s' = free_frames s - {p} \<and> pp_order (pages s' p) = 0 \<and> \<not> pp_free (pages s' p) \<and>
      (\<forall>i. pp_ref (pages s' i) = pp_ref (pages s i)) \<and> (\<forall>a. \<not> buddy_anchor a \<longrightarrow> L' a = L a) \<and>
      buddy_inv s' L')"
  using page_alloc_spec(1) [OF assms, of fl]
  by (rule rok_mono) (auto simp: alloc_post_def alloc_frame_def)

theorem page_alloc_takes_one_frame_witness:
  "rok (page_alloc ALLOC_ZERO demo_kmem) (\<lambda>(q, s'). \<exists>p L'. q = Some p \<and> p < 512 \<and>
      free_frames s' = {..<512} - {p} \<and> buddy_inv s' L')"
  by (rule rok_mono [OF page_alloc_takes_one_frame [OF demo_inv demo_ne, of ALLOC_ZERO]])
    (auto simp: demo_frames)

text \<open>
  With \<^verbatim>\<open>ALLOC_ZERO\<close> the returned frame holds only zeros, provided that \<open>pp_zero\<close> is set only on frames
  that do; no other frame of physical memory changes, and without the flag none does.
\<close>

theorem page_alloc_zeroes:
  assumes "buddy_inv s L" and "free_frames s \<noteq> {}"
    and "\<forall>i\<in>free_frames s. pp_zero (pages s i) \<noteq> 0 \<longrightarrow> pmem s i = (\<lambda>_. 0)"
  shows "rok (page_alloc fl s) (\<lambda>(q, s'). \<exists>p. q = Some p \<and> (\<forall>i. i \<noteq> p \<longrightarrow> pmem s' i = pmem s i) \<and>
      (if fl AND ALLOC_ZERO \<noteq> 0 then pmem s' p = (\<lambda>_. 0) else pmem s' p = pmem s p))"
  using page_alloc_spec(1) [OF assms(1,2), of fl] by (rule rok_mono) (use assms(3) in \<open>auto simp: alloc_post_def\<close>)

theorem page_alloc_zeroes_witness:
  "rok (page_alloc ALLOC_ZERO demo_kmem) (\<lambda>(q, s'). \<exists>p. q = Some p \<and> pmem s' p = (\<lambda>_. 0))"
  by (rule rok_mono [OF page_alloc_zeroes [OF demo_inv demo_ne, of ALLOC_ZERO]])
    (auto simp: demo_frames demo_pages ALLOC_ZERO_def)

text \<open>
  C18: With no free frame left, \<^verbatim>\<open>page_alloc\<close> does not return null: the assertion on the page found stands
  before the test for null, and the kernel panics.
\<close>

theorem page_alloc_exhausted:
  assumes "buddy_inv s L" and "free_frames s = {}"
  shows "page_alloc fl s = Inl KPanic"
  using assms by (rule page_alloc_spec(2))

theorem page_alloc_exhausted_witness: "page_alloc ALLOC_ZERO demo_full = Inl KPanic"
  by (rule page_alloc_exhausted [OF demo_full_inv])

text \<open>
  C2: Freeing an unreferenced page adds the frames of its block, and nothing else, to the free set,
  whatever merging took place; the page leaves the replacement list; the invariant is kept.
\<close>

theorem page_free_returns_block:
  assumes "buddy_inv s L" and "freeable s p" and "pp_ref (pages s p) = 0" and "swap_known L p"
  shows "rok (page_free p s) (\<lambda>s'. \<exists>L'. buddy_inv s' L' \<and>
      free_frames s' = free_frames s \<union> {p..<p + 2 ^ pp_order (pages s p)} \<and> pmem s' = pmem s \<and>
      (\<forall>i. pp_ref (pages s' i) = pp_ref (pages s i)) \<and> \<not> swap_linked L' p)"
proof (rule rok_mono [OF page_free_spec [OF assms]], elim exE)
  fix s' L'
  assume f: "free_post s L p s' L'"
  have "\<not> swap_linked L' p"
  proof -
    have "L' SwapHead = swap_removed p L SwapHead"
      using f by (simp add: free_post_def alloc_frame_def buddy_anchor_def)
    moreover have kl: "klinks (lh s) L" using assms(1) by (auto simp: buddy_inv_def dest: buddy_relD(2))
    have "SwapNode p \<notin> set xs" if "swap_removed p L SwapHead = Some xs" for xs
      by (rule swap_removed_unlinked [OF kl assms(4) that])
    ultimately show ?thesis by (auto simp: swap_linked_def)
  qed
  with f show "\<exists>L'. buddy_inv s' L' \<and>
      free_frames s' = free_frames s \<union> {p..<p + 2 ^ pp_order (pages s p)} \<and> pmem s' = pmem s \<and>
      (\<forall>i. pp_ref (pages s' i) = pp_ref (pages s i)) \<and> \<not> swap_linked L' p"
    by (intro exI [of _ L']) (auto simp: free_post_def alloc_frame_def blk_def)
qed

theorem page_free_returns_block_witness:
  "rok (page_free 600 demo_kmem) (\<lambda>s'. free_frames s' = {..<512} \<union> {600})"
  by (rule rok_mono [OF page_free_returns_block [OF demo_inv demo_freeable(1) _ demo_freeable(2)]])
    (auto simp: demo_frames demo_pages)

text \<open>
  Allocating a page and freeing it again gives back the same set of free frames, although blocks may
  have been split and merged in between; neither call can panic or wait.
\<close>

theorem alloc_free_roundtrip:
  assumes "buddy_inv s L" and "free_frames s \<noteq> {}"
    and "\<forall>i\<in>free_frames s. pp_ref (pages s i) = 0 \<and> L (SwapNode i) = Some []"
  shows "rok (rbind (page_alloc fl s) (\<lambda>(q, s). page_free (the q) s))
      (\<lambda>s'. \<exists>L'. buddy_inv s' L' \<and> free_frames s' = free_frames s)"
proof (rule rok_seq [OF page_alloc_spec(1) [OF assms(1,2), of fl]], clarsimp)
  fix p s1 L1
  assume a: "alloc_post fl s L p s1 L1"
  have p: "p \<in> free_frames s" "p < npages s1" and o: "pp_order (pages s1 p) = 0" "L1 (SwapNode p) = L (SwapNode p)"
    using a frames_bound [OF buddy_relD(1), of s L "{}"] assms(1)
    by (auto simp: alloc_post_def alloc_frame_def free_frames_def buddy_inv_def buddy_anchor_def)
  have b: "blk (pages s1) p = {p}" using o(1) by (auto simp: blk_def)
  have "freeable s1 p" using a p o(1) b by (auto simp: freeable_def alloc_post_def BUDDY_MAX_ORDER_def)
  moreover have "pp_ref (pages s1 p) = 0" "swap_known L1 p"
    using a p o(2) assms(3) by (auto simp: alloc_post_def alloc_frame_def swap_known_def)
  ultimately have "rok (page_free p s1) (\<lambda>s'. \<exists>L'. free_post s1 L1 p s' L')"
    using a page_free_spec [of s1 L1 p] by (simp add: alloc_post_def)
  then show "rok (page_free p s1) (\<lambda>s'. (\<exists>L'. buddy_inv s' L') \<and> free_frames s' = free_frames s)"
    by (rule rok_mono) (use a p b in \<open>auto simp: free_post_def alloc_post_def\<close>)
qed

theorem alloc_free_roundtrip_witness:
  "rok (rbind (page_alloc 0 demo_kmem) (\<lambda>(q, s). page_free (the q) s)) (\<lambda>s'. free_frames s' = {..<512})"
  by (rule rok_mono [OF alloc_free_roundtrip [OF demo_inv demo_ne, of 0]])
    (auto simp: demo_frames demo_pages demo_links_def)

text \<open>
  \<^verbatim>\<open>count_total_free_pages\<close> returns (its walks over the free lists end) and the value is the number of
  free page frames.
\<close>

theorem count_total_free_pages_correct:
  assumes "buddy_inv s L"
  shows "count_total_free_pages s = Some (card (free_frames s))"
proof -
  have rel: "buddy_rel s L {}" using assms by (simp add: buddy_inv_def)
  then show ?thesis
    unfolding count_total_free_pages_def free_frames_def card_frames [OF buddy_relD(1) [OF rel]]
    by (simp add: count_from_rel atLeast0LessThan)
qed

theorem count_total_free_pages_correct_witness: "count_total_free_pages demo_kmem = Some 512"
  using count_total_free_pages_correct [OF demo_inv] by (simp add: demo_frames)

lemma page_decref_spec:
  assumes "buddy_inv s L" and "freeable s p" and "swap_known L p"
  shows "rok (page_decref p s) (\<lambda>s'. \<exists>L'. buddy_inv s' L' \<and> pmem s' = pmem s \<and>
      pp_ref (pages s' p) = pp_ref (pages s p) - 1 \<and>
      free_frames s' = (if pp_ref (pages s p) = 1 then free_frames s \<union> {p..<p + 2 ^ pp_order (pages s p)}
                        else free_frames s) \<and> npages s' = npages s \<and> kmem.more s' = kmem.more s)"
proof -
  let ?s = "pp_upd p (\<lambda>q. q\<lparr>pp_ref := pp_ref q - 1\<rparr>) s"
  have same: "freeset n (pages ?s) = freeset n (pages s)" "blk (pages ?s) i = blk (pages s) i"
    "pp_order (pages ?s i) = pp_order (pages s i)" for n i
    by (auto simp: freeset_def blk_def pp_upd_def)
  have ff: "free_frames ?s = free_frames s"
    unfolding free_frames_def frames_def same by (simp add: pp_upd_def)
  have ok: "pages_ok (npages s) (pages ?s)"
    using buddy_relD(1) [of s L "{}"] assms(1) unfolding buddy_inv_def pages_ok_def same by blast
  have "buddy_rel ?s L {}"
    unfolding pp_upd_def
    by (rule buddy_rel_pages) (use assms(1) ok same in \<open>auto simp: buddy_inv_def pp_upd_def\<close>)
  then have inv: "buddy_inv ?s L" using assms(1) by (simp add: buddy_inv_def pp_upd_def)
  have fr: "freeable ?s p" using assms(2) unfolding freeable_def ff same by (simp add: pp_upd_def)
  have pn: "p < npages s"
    using assms(2) zero_less_power [of "2::nat" "pp_order (pages s p)"] unfolding freeable_def by linarith
  have ref: "pp_ref (pages ?s p) = pp_ref (pages s p) - 1" by (simp add: pp_upd_def)
  show ?thesis
  proof (cases "pp_ref (pages s p) = 1")
    case True
    with ref have "pp_ref (pages ?s p) = 0" by simp
    from page_free_spec [OF inv fr this assms(3)] show ?thesis
      using pn ref True unfolding page_decref_def Let_def
      by (auto simp: free_post_def alloc_frame_def ff same blk_def elim!: rok_mono)
        (auto simp: pp_upd_def intro!: exI)
  next
    case False
    then have "pp_ref (pages ?s p) \<noteq> 0" using ref by simp
    with pn inv ref ff False show ?thesis
      unfolding page_decref_def Let_def by (auto simp: pp_upd_def intro!: exI [of _ L])
  qed
qed

text \<open>
  \<^verbatim>\<open>page_decref\<close> on a page with one reference frees its block; with more references it only lowers the
  count; on a count of 0 it wraps around to 65535.
\<close>

theorem page_decref_frees_last:
  assumes "buddy_inv s L" and "freeable s p" and "swap_known L p"
  shows "rok (page_decref p s) (\<lambda>s'. \<exists>L'. buddy_inv s' L' \<and> pmem s' = pmem s \<and>
      pp_ref (pages s' p) = pp_ref (pages s p) - 1 \<and>
      free_frames s' = (if pp_ref (pages s p) = 1 then free_frames s \<union> {p..<p + 2 ^ pp_order (pages s p)}
                        else free_frames s))"
  by (rule rok_mono [OF page_decref_spec [OF assms]]) auto

theorem page_decref_frees_last_witness:
  "rok (page_decref 600 demo_kmem) (\<lambda>s'. pp_ref (pages s' 600) = 65535 \<and> free_frames s' = {..<512})"
  by (rule rok_mono [OF page_decref_frees_last [OF demo_inv demo_freeable]])
    (auto simp: demo_frames demo_pages)

end
