(* ===== verification/Paging.thy ===== *)
theory Paging
  imports Buddy_Spec
begin

text \<open>
  Page table entries and address arithmetic: the macros of include/x86-64/paging.h and
  include/types.h on 64-bit words, the conversions between page numbers, physical addresses
  and entries of include/kernel/mem/buddy.h, and access to a page table as one of the 512-word
  frames of physical memory. The state adds what the paging code touches beside the allocator.
\<close>

section \<open>Constants and address arithmetic\<close>

definition PAGE_SIZE :: u64 where "PAGE_SIZE = 4096"
definition PAGE_PRESENT :: u64 where "PAGE_PRESENT = 1"
definition PAGE_WRITE :: u64 where "PAGE_WRITE = 2"
definition PAGE_USER :: u64 where "PAGE_USER = 4"
definition PAGE_WRITE_THROUGH :: u64 where "PAGE_WRITE_THROUGH = 8"
definition PAGE_NO_CACHE :: u64 where "PAGE_NO_CACHE = 16"
definition PAGE_HUGE :: u64 where "PAGE_HUGE = 128"
definition PAGE_NO_EXEC :: u64 where "PAGE_NO_EXEC = 0x8000000000000000"
definition PAGE_MASK :: u64 where "PAGE_MASK = 0xFFFF000000000FFF"
definition USER_LIM :: u64 where "USER_LIM = 0x800000000000"
definition KERNEL_VMA :: u64 where "KERNEL_VMA = 0xFFFF800000000000"
definition KERNEL_LIM :: u64 where "KERNEL_LIM = 0xFFFFFFFFFFFFFFFF"
definition BOOT_MAP_LIM :: u64 where "BOOT_MAP_LIM = 0x800000"
definition KPAGES :: u64 where "KPAGES = 0xFFFFFF8000000000"
definition PDPT_SPAN :: u64 where "PDPT_SPAN = 0x8000000000"
definition MMIO_LIM :: u64 where "MMIO_LIM = KPAGES"
definition MMIO_BASE :: u64 where "MMIO_BASE = MMIO_LIM - PDPT_SPAN"

lemmas paging_consts [flag_defs] =
  PAGE_SIZE_def PAGE_PRESENT_def PAGE_WRITE_def PAGE_USER_def PAGE_WRITE_THROUGH_def
  PAGE_NO_CACHE_def PAGE_HUGE_def PAGE_NO_EXEC_def PAGE_MASK_def USER_LIM_def KERNEL_VMA_def
  KERNEL_LIM_def BOOT_MAP_LIM_def KPAGES_def PDPT_SPAN_def MMIO_LIM_def MMIO_BASE_def

definition ROUNDDOWN :: "u64 \<Rightarrow> u64 \<Rightarrow> u64" where
  "ROUNDDOWN a n = a - a mod n"

definition ROUNDUP :: "u64 \<Rightarrow> u64 \<Rightarrow> u64" where
  "ROUNDUP a n = ROUNDDOWN (a + n - 1) n"

definition PAGE_INDEX :: "u64 \<Rightarrow> nat" where
  "PAGE_INDEX x = unat (drop_bit 12 x)"

definition PAGE_TABLE_INDEX :: "u64 \<Rightarrow> nat" where
  "PAGE_TABLE_INDEX x = unat (drop_bit 12 x AND 511)"

definition PAGE_DIR_INDEX :: "u64 \<Rightarrow> nat" where
  "PAGE_DIR_INDEX x = unat (drop_bit 21 x AND 511)"

definition PDPT_INDEX :: "u64 \<Rightarrow> nat" where
  "PDPT_INDEX x = unat (drop_bit 30 x AND 511)"

definition PML4_INDEX :: "u64 \<Rightarrow> nat" where
  "PML4_INDEX x = unat (drop_bit 39 x AND 511)"

definition PAGE_ADDR :: "u64 \<Rightarrow> u64" where
  "PAGE_ADDR x = x AND NOT PAGE_MASK"

definition page_aligned :: "u64 \<Rightarrow> bool" where
  "page_aligned p \<longleftrightarrow> p AND (PAGE_SIZE - 1) = 0"

definition present :: "u64 \<Rightarrow> bool" where
  "present e \<longleftrightarrow> e AND PAGE_PRESENT \<noteq> 0"

section \<open>State\<close>

text \<open>
  \<open>cr3\<close> is the physical address of the page table in use, \<open>tlb_log\<close> the addresses passed to
  \<^verbatim>\<open>invlpg\<close>, newest first. Tasks are numbered by the address of their structure.
\<close>

record kvm = kmem +
  cr3 :: u64
  tlb_log :: "u64 list"
  swap_lock :: spinlock
  cur_task :: "nat option"

text \<open>A pointer to an entry of a page table: the frame that holds the table, and the index.\<close>

type_synonym pte = "nat \<times> nat"

definition rd :: "pte \<Rightarrow> 'z kmem_scheme \<Rightarrow> u64" where
  "rd e s = pmem s (fst e) (snd e)"

definition wr :: "pte \<Rightarrow> u64 \<Rightarrow> 'z kmem_scheme \<Rightarrow> 'z kmem_scheme" where
  "wr e v s = s\<lparr>pmem := (pmem s)(fst e := (pmem s (fst e))(snd e := v))\<rparr>"

definition page2pa :: "nat \<Rightarrow> u64" where
  "page2pa p = push_bit 12 (of_nat p)"

text \<open>\<^verbatim>\<open>pa2page\<close> and \<^verbatim>\<open>KADDR\<close> panic on an address outside physical memory; both name a frame.\<close>

definition pa2page :: "u64 \<Rightarrow> 'z kmem_scheme \<Rightarrow> nat res" where
  "pa2page pa s = kassert (PAGE_INDEX pa < npages s) (Inr (PAGE_INDEX pa))"

definition KADDR :: "u64 \<Rightarrow> 'z kmem_scheme \<Rightarrow> nat res" where
  "KADDR pa s = kassert (PAGE_INDEX pa < npages s) (Inr (PAGE_INDEX pa))"

definition PADDR :: "u64 \<Rightarrow> u64 res" where
  "PADDR kva = kassert (\<not> kva < KERNEL_VMA) (Inr (kva - KERNEL_VMA))"

definition kva_of :: "nat \<Rightarrow> u64" where
  "kva_of f = page2pa f + KERNEL_VMA"

definition tlb_invalidate :: "nat \<Rightarrow> u64 \<Rightarrow> 'z kvm_scheme \<Rightarrow> 'z kvm_scheme" where
  "tlb_invalidate pml4 va s =
     (if cr3 s = page2pa pml4 then s\<lparr>tlb_log := va # tlb_log s\<rparr> else s)"

section \<open>Lemmas on addresses\<close>

lemma page_aligned_mod: "page_aligned p \<longleftrightarrow> p mod 4096 = 0"
proof -
  have "p mod 4096 = p AND mask 12" using word_mod_2p_is_mask [of 12 p] by simp
  moreover have "(mask 12 :: u64) = 4095" by (simp add: mask_eq_exp_minus_1)
  ultimately show ?thesis by (simp add: page_aligned_def PAGE_SIZE_def)
qed

lemma ROUNDDOWN_aligned: "page_aligned p \<Longrightarrow> ROUNDDOWN p PAGE_SIZE = p"
  by (simp add: ROUNDDOWN_def page_aligned_mod PAGE_SIZE_def)

lemma aligned_plus:
  assumes "page_aligned p" and "x \<le> 4095"
  shows "p + x = p OR x" and "p \<le> p + x" and "(p + x) mod 4096 = x"
proof -
  have m: "(mask 12 :: u64) = 4095" by (simp add: mask_eq_exp_minus_1)
  have "x < 4096" by (rule le_less_trans [OF assms(2)]) simp
  then have x: "x AND mask 12 = x" by (intro less_mask_eq) simp
  have z: "p AND mask 12 = 0" using assms(1) m by (simp add: page_aligned_def PAGE_SIZE_def)
  have "p AND (x AND mask 12) = (p AND mask 12) AND x" by (simp add: ac_simps)
  then have "p AND x = 0" by (simp add: x z)
  then show o: "p + x = p OR x" by (rule disjunctive_add_eq_or)
  then show "p \<le> p + x" by (simp add: le_word_or2)
  have "(p OR x) AND mask 12 = x"
    using x z by (simp add: word_ao_dist)
  moreover have "(p + x) mod 4096 = (p + x) AND mask 12" using word_mod_2p_is_mask [of 12 "p + x"] by simp
  ultimately show "(p + x) mod 4096 = x" using o by simp
qed

lemma ROUNDUP_aligned: "page_aligned p \<Longrightarrow> ROUNDUP p PAGE_SIZE = p"
  using aligned_plus(3) [of p 4095]
  by (simp add: ROUNDUP_def ROUNDDOWN_def PAGE_SIZE_def add.commute)

lemma page_aligned_next: "page_aligned p \<Longrightarrow> page_aligned (p + PAGE_SIZE)"
proof -
  assume "page_aligned p"
  then have "p AND mask 12 = 0" by (simp add: page_aligned_def PAGE_SIZE_def mask_eq_exp_minus_1)
  moreover have "(p + 4096) AND mask 12 = ((p AND mask 12) + 4096) AND mask 12" by (simp only: mask_eqs)
  ultimately have "(p + 4096) AND mask 12 = 0" by (simp add: mask_eq_exp_minus_1)
  then show ?thesis by (simp add: page_aligned_def PAGE_SIZE_def mask_eq_exp_minus_1)
qed

lemma NOT_PAGE_MASK: "NOT PAGE_MASK = push_bit 12 (mask 36)"
  by (simp add: PAGE_MASK_def mask_eq_exp_minus_1)

lemma below_mask: "n \<le> 63 \<Longrightarrow> p < 2 ^ n \<Longrightarrow> (of_nat p :: u64) AND mask n = of_nat p"
proof (rule less_mask_eq)
  assume n: "n \<le> 63" and p: "p < 2 ^ n"
  have "(2::nat) ^ n < 2 ^ 64" by (rule power_strict_increasing) (use n in simp_all)
  with p n have "(of_nat p :: u64) < of_nat (2 ^ n)"
    unfolding word_of_nat_less_iff by (simp add: take_bit_nat_eq_self)
  then show "(of_nat p :: u64) < 2 ^ n" by simp
qed

lemma page2pa_addr:
  assumes "p < 2 ^ 36"
  shows "PAGE_ADDR (page2pa p) = page2pa p" and "PAGE_INDEX (page2pa p) = p"
proof -
  let ?w = "of_nat p :: u64"
  have w: "?w AND mask 36 = ?w" by (rule below_mask) (use assms in simp_all)
  then show "PAGE_ADDR (page2pa p) = page2pa p"
    by (simp add: PAGE_ADDR_def NOT_PAGE_MASK page2pa_def flip: push_bit_and)
  have "bit (?w AND mask 36) i \<Longrightarrow> i < 52" for i by (simp add: bit_and_iff bit_mask_iff)
  then have "bit ?w i \<Longrightarrow> i < 52" for i unfolding w .
  then have "drop_bit 12 (push_bit 12 ?w) = ?w"
    by (intro bit_word_eqI) (auto simp: bit_drop_bit_eq bit_push_bit_iff)
  moreover have "unat ?w = p" using assms by (simp add: unat_of_nat)
  ultimately show "PAGE_INDEX (page2pa p) = p" by (simp add: PAGE_INDEX_def page2pa_def)
qed

text \<open>An entry made of a frame address and flag bits names its frame.\<close>

lemma entry_addr:
  assumes "p < 2 ^ 36" and "PAGE_ADDR fl = 0"
  shows "PAGE_ADDR (page2pa p OR fl) = page2pa p"
  using assms page2pa_addr(1) [OF assms(1)] by (simp add: PAGE_ADDR_def word_ao_dist)

lemma PAGE_ADDR_or: "PAGE_ADDR (a OR b) = PAGE_ADDR a OR PAGE_ADDR b"
  by (simp add: PAGE_ADDR_def word_ao_dist)

lemma present_bit: "present e \<longleftrightarrow> bit e 0"
  by (simp add: present_def PAGE_PRESENT_def and_one_eq bit_0 odd_iff_mod_2_eq_one)

lemma present_or: "present (a OR b) \<longleftrightarrow> present a \<or> present b"
  by (simp add: present_bit bit_or_iff)

lemma page2pa_aligned: "page_aligned (page2pa p)"
proof -
  have "push_bit 12 (of_nat p :: u64) AND mask 12 = 0"
    by (rule bit_word_eqI) (auto simp: bit_and_iff bit_push_bit_iff bit_mask_iff)
  then show ?thesis by (simp add: page_aligned_def PAGE_SIZE_def page2pa_def mask_eq_exp_minus_1)
qed

lemma not_present_page2pa: "\<not> present (page2pa p)"
  by (simp add: present_bit page2pa_def bit_push_bit_iff)

end
