(* ===== verification/Page_Walk.thy ===== *)
theory Page_Walk
  imports Paging
begin

text \<open>
  The page table walker of kernel/mem/walk.c: four nested loops over the levels of the table,
  each of which calls the callbacks of a \<^verbatim>\<open>struct page_walker\<close>. The loop is shared
  (\<open>walk_loop\<close>); the four functions supply its body. The user data of a walker is the first
  component of the state the callbacks transform.
\<close>

section \<open>Boundaries\<close>

definition sign_extend :: "u64 \<Rightarrow> u64" where
  "sign_extend addr = (if addr < USER_LIM then addr else 0xFFFF000000000000 OR addr)"

definition ptbl_end :: "u64 \<Rightarrow> u64" where "ptbl_end addr = addr OR (PAGE_SIZE - 1)"
definition pdir_end :: "u64 \<Rightarrow> u64" where "pdir_end addr = addr OR (2 ^ 21 - 1)"
definition pdpt_end :: "u64 \<Rightarrow> u64" where "pdpt_end addr = addr OR (2 ^ 30 - 1)"
definition pml4_end :: "u64 \<Rightarrow> u64" where "pml4_end addr = addr OR (2 ^ 39 - 1)"

datatype level = PTBL | PDIR | PDPT | PML4

fun level_end :: "level \<Rightarrow> u64 \<Rightarrow> u64" where
  "level_end PTBL = ptbl_end"
| "level_end PDIR = pdir_end"
| "level_end PDPT = pdpt_end"
| "level_end PML4 = pml4_end"

fun level_mask :: "level \<Rightarrow> u64" where
  "level_mask PTBL = 0xFFF"
| "level_mask PDIR = 0x1FFFFF"
| "level_mask PDPT = 0x3FFFFFFF"
| "level_mask PML4 = 0x7FFFFFFFFF"

lemma level_end_mask: "level_end l addr = addr OR level_mask l"
  by (cases l) (simp_all add: ptbl_end_def pdir_end_def pdpt_end_def pml4_end_def PAGE_SIZE_def)

text \<open>The next boundary, cut off at the end of the range and where the address wraps around.\<close>

definition next_addr :: "level \<Rightarrow> u64 \<Rightarrow> u64 \<Rightarrow> u64" where
  "next_addr l end addr =
     (let next = sign_extend (level_end l addr + 1)
      in if next > end \<or> next < addr then end else next)"

lemma sign_extend_ge: "x \<le> sign_extend x"
  by (simp add: sign_extend_def le_word_or1)

lemma next_addr_cases: "next_addr l end addr = end \<or> addr < next_addr l end addr \<and> next_addr l end addr < end"
proof -
  define x where "x = addr OR level_mask l"
  have ge: "addr \<le> x" by (simp add: x_def le_word_or2)
  have "addr < sign_extend (x + 1)" if "\<not> sign_extend (x + 1) < addr"
  proof (cases "x = - 1")
    case True
    then have "sign_extend (x + 1) = 0" by (simp add: sign_extend_def USER_LIM_def)
    moreover from this that have "addr = 0" by (simp add: word_gt_0)
    ultimately show ?thesis using True by (cases l) (simp_all add: x_def)
  next
    case False
    then have "1 + x \<noteq> 0" by (simp add: add_eq_0_iff)
    then have "x < x + 1" by (simp add: word_less_nat_alt unatSuc add.commute)
    with ge sign_extend_ge [of "x + 1"] show ?thesis by simp
  qed
  then show ?thesis
    by (auto simp: next_addr_def Let_def level_end_mask x_def)
qed

section \<open>The loop\<close>

text \<open>\<open>ok_then m f\<close>: go on with \<open>f\<close> unless \<open>m\<close> returned a negative value.\<close>

definition ok_then :: "(int \<times> 's) res \<Rightarrow> ('s \<Rightarrow> (int \<times> 's) res) \<Rightarrow> (int \<times> 's) res" where
  "ok_then m f = rbind m (\<lambda>(ret, s). if ret < 0 then Inr (ret, s) else f s)"

lemma ok_then_cong [fundef_cong]:
  "m = m' \<Longrightarrow> (\<And>ret s. m' = Inr (ret, s) \<Longrightarrow> \<not> ret < 0 \<Longrightarrow> f s = g s) \<Longrightarrow> ok_then m f = ok_then m' g"
  by (cases m') (auto simp: ok_then_def)

lemma ok_then_simps [simp]:
  "ok_then (Inl e) f = Inl e"
  "ok_then (Inr (ret, s)) f = (if ret < 0 then Inr (ret, s) else f s)"
  by (simp_all add: ok_then_def)

lemma rok_ok_then: "rok (ok_then m f) Q \<longleftrightarrow> rok m (\<lambda>(ret, s). if ret < 0 then Q (ret, s) else rok (f s) Q)"
  by (cases m) (auto simp: ok_then_def)

function walk_loop ::
  "level \<Rightarrow> (u64 \<Rightarrow> u64 \<Rightarrow> 's \<Rightarrow> (int \<times> 's) res) \<Rightarrow> u64 \<Rightarrow> u64 \<Rightarrow> u64 \<Rightarrow> 's \<Rightarrow> (int \<times> 's) res" where
  "walk_loop l body end next addr s =
     (if next < end then
        let next' = next_addr l end addr
        in ok_then (body addr (next' - 1) s) (\<lambda>s. walk_loop l body end next' next' s)
      else Inr (0, s))"
  by pat_completeness auto

termination walk_loop
proof (relation "measure (\<lambda>(l, body, end, next, addr, s). if next < end then Suc (unat end - unat addr) else 0)",
    simp, goal_cases)
  case (1 l body "end" "next" addr s next' ret s')
  then show ?case
    using next_addr_cases [of l "end" addr] by (auto simp: word_less_nat_alt)
qed

declare walk_loop.simps [simp del]

section \<open>The walker\<close>

text \<open>\<^verbatim>\<open>struct page_walker\<close>: a missing callback is \<open>None\<close>. A callback returns an int.\<close>

type_synonym ('u, 'z) walk_state = "'u \<times> 'z kvm_scheme"

type_synonym ('u, 'z) map_pte =
  "pte \<Rightarrow> u64 \<Rightarrow> u64 \<Rightarrow> ('u, 'z) walk_state \<Rightarrow> (int \<times> ('u, 'z) walk_state) res"

type_synonym ('u, 'z) map_hole =
  "u64 \<Rightarrow> u64 \<Rightarrow> ('u, 'z) walk_state \<Rightarrow> (int \<times> ('u, 'z) walk_state) res"

record ('u, 'z) page_walker =
  pte_callback :: "('u, 'z) map_pte option"
  pde_callback :: "('u, 'z) map_pte option"
  pdpte_callback :: "('u, 'z) map_pte option"
  pml4e_callback :: "('u, 'z) map_pte option"
  pte_unmap :: "('u, 'z) map_pte option"
  pde_unmap :: "('u, 'z) map_pte option"
  pdpte_unmap :: "('u, 'z) map_pte option"
  pml4e_unmap :: "('u, 'z) map_pte option"
  pt_hole_callback :: "('u, 'z) map_hole option"

definition no_walker :: "('u, 'z) page_walker" where
  "no_walker = \<lparr>pte_callback = None, pde_callback = None, pdpte_callback = None, pml4e_callback = None,
     pte_unmap = None, pde_unmap = None, pdpte_unmap = None, pml4e_unmap = None, pt_hole_callback = None\<rparr>"

definition call_pte :: "('u, 'z) map_pte option \<Rightarrow> ('u, 'z) map_pte" where
  "call_pte cb e addr fin s = (case cb of None \<Rightarrow> Inr (0, s) | Some f \<Rightarrow> f e addr fin s)"

definition call_hole :: "('u, 'z) map_hole option \<Rightarrow> ('u, 'z) map_hole" where
  "call_hole cb addr fin s = (case cb of None \<Rightarrow> Inr (0, s) | Some f \<Rightarrow> f addr fin s)"

lemma call_simps [simp]:
  "call_pte None e a b s = Inr (0, s)" "call_pte (Some f) e a b s = f e a b s"
  "call_hole None a b s = Inr (0, s)" "call_hole (Some g) a b s = g a b s"
  by (simp_all add: call_pte_def call_hole_def)

lemma call_none [simp]:
  "call_pte None e a b = (\<lambda>s. Inr (0, s))" "call_hole None a b = (\<lambda>s. Inr (0, s))"
  by (simp_all add: fun_eq_iff)

definition is_huge :: "u64 \<Rightarrow> bool" where
  "is_huge e \<longleftrightarrow> e AND PAGE_HUGE \<noteq> 0"

definition ptbl_body :: "('u, 'z) page_walker \<Rightarrow> nat \<Rightarrow> ('u, 'z) map_hole" where
  "ptbl_body w ptbl addr fin s =
     (let entry = (ptbl, PAGE_TABLE_INDEX addr)
      in ok_then (call_pte (pte_callback w) entry addr fin s) (\<lambda>s.
         if present (rd entry (snd s)) then call_pte (pte_unmap w) entry addr fin s
         else call_hole (pt_hole_callback w) addr fin s))"

definition ptbl_walk_range ::
  "nat \<Rightarrow> u64 \<Rightarrow> u64 \<Rightarrow> ('u, 'z) page_walker \<Rightarrow> ('u, 'z) walk_state \<Rightarrow> (int \<times> ('u, 'z) walk_state) res" where
  "ptbl_walk_range ptbl base end w s =
     walk_loop PTBL (ptbl_body w ptbl) end base (sign_extend base) s"

definition pdir_body :: "('u, 'z) page_walker \<Rightarrow> nat \<Rightarrow> ('u, 'z) map_hole" where
  "pdir_body w pdir addr fin s =
     (let entry = (pdir, PAGE_DIR_INDEX addr)
      in ok_then (call_pte (pde_callback w) entry addr fin s) (\<lambda>s.
         if present (rd entry (snd s)) then
           if \<not> is_huge (rd entry (snd s)) then
             rbind (KADDR (PAGE_ADDR (rd entry (snd s))) (snd s)) (\<lambda>ptbl.
             ok_then (ptbl_walk_range ptbl addr fin w s) (\<lambda>s.
             call_pte (pde_unmap w) entry addr fin s))
           else Inr (0, s)
         else call_hole (pt_hole_callback w) addr fin s))"

definition pdir_walk_range ::
  "nat \<Rightarrow> u64 \<Rightarrow> u64 \<Rightarrow> ('u, 'z) page_walker \<Rightarrow> ('u, 'z) walk_state \<Rightarrow> (int \<times> ('u, 'z) walk_state) res" where
  "pdir_walk_range pdir base end w s =
     walk_loop PDIR (pdir_body w pdir) end base (sign_extend base) s"

definition pdpt_body :: "('u, 'z) page_walker \<Rightarrow> nat \<Rightarrow> ('u, 'z) map_hole" where
  "pdpt_body w pdpt addr fin s =
     (let entry = (pdpt, PDPT_INDEX addr)
      in ok_then (call_pte (pdpte_callback w) entry addr fin s) (\<lambda>s.
         if present (rd entry (snd s)) then
           if \<not> is_huge (rd entry (snd s)) then
             rbind (KADDR (PAGE_ADDR (rd entry (snd s))) (snd s)) (\<lambda>pdir.
             ok_then (pdir_walk_range pdir addr fin w s) (\<lambda>s.
             call_pte (pdpte_unmap w) entry addr fin s))
           else Inr (0, s)
         else call_hole (pt_hole_callback w) addr fin s))"

definition pdpt_walk_range ::
  "nat \<Rightarrow> u64 \<Rightarrow> u64 \<Rightarrow> ('u, 'z) page_walker \<Rightarrow> ('u, 'z) walk_state \<Rightarrow> (int \<times> ('u, 'z) walk_state) res" where
  "pdpt_walk_range pdpt base end w s =
     walk_loop PDPT (pdpt_body w pdpt) end base (sign_extend base) s"

definition pml4_body :: "('u, 'z) page_walker \<Rightarrow> nat \<Rightarrow> ('u, 'z) map_hole" where
  "pml4_body w pml4 addr fin s =
     (let entry = (pml4, PML4_INDEX addr)
      in ok_then (call_pte (pml4e_callback w) entry addr fin s) (\<lambda>s.
         if present (rd entry (snd s)) then
           rbind (KADDR (PAGE_ADDR (rd entry (snd s))) (snd s)) (\<lambda>pdpt.
           ok_then (pdpt_walk_range pdpt addr fin w s) (\<lambda>s.
           call_pte (pml4e_unmap w) entry addr fin s))
         else call_hole (pt_hole_callback w) addr fin s))"

definition pml4_walk_range ::
  "nat \<Rightarrow> u64 \<Rightarrow> u64 \<Rightarrow> ('u, 'z) page_walker \<Rightarrow> ('u, 'z) walk_state \<Rightarrow> (int \<times> ('u, 'z) walk_state) res" where
  "pml4_walk_range pml4 base end w s =
     walk_loop PML4 (pml4_body w pml4) end base (sign_extend base) s"

definition walk_page_range ::
  "nat \<Rightarrow> u64 \<Rightarrow> u64 \<Rightarrow> ('u, 'z) page_walker \<Rightarrow> ('u, 'z) walk_state \<Rightarrow> (int \<times> ('u, 'z) walk_state) res" where
  "walk_page_range pml4 base end w s =
     pml4_walk_range pml4 (ROUNDDOWN base PAGE_SIZE) (ROUNDUP end PAGE_SIZE - 1) w s"

definition walk_all_pages ::
  "nat \<Rightarrow> ('u, 'z) page_walker \<Rightarrow> ('u, 'z) walk_state \<Rightarrow> (int \<times> ('u, 'z) walk_state) res" where
  "walk_all_pages pml4 w s = pml4_walk_range pml4 0 KERNEL_LIM w s"

definition walk_user_pages ::
  "nat \<Rightarrow> ('u, 'z) page_walker \<Rightarrow> ('u, 'z) walk_state \<Rightarrow> (int \<times> ('u, 'z) walk_state) res" where
  "walk_user_pages pml4 w s = pml4_walk_range pml4 0 USER_LIM w s"

definition walk_kernel_pages ::
  "nat \<Rightarrow> ('u, 'z) page_walker \<Rightarrow> ('u, 'z) walk_state \<Rightarrow> (int \<times> ('u, 'z) walk_state) res" where
  "walk_kernel_pages pml4 w s = pml4_walk_range pml4 KERNEL_VMA KERNEL_LIM w s"

section \<open>The walk over one page\<close>

text \<open>
  On a range inside one entry of a level the loop runs exactly once. \<open>ret0\<close> is the value the
  loop returns for the value of its body.
\<close>

definition ret0 :: "(int \<times> 's) res \<Rightarrow> (int \<times> 's) res" where
  "ret0 m = ok_then m (\<lambda>s. Inr (0, s))"

definition canonical :: "u64 \<Rightarrow> bool" where
  "canonical va \<longleftrightarrow> sign_extend va = va"

lemma next_addr_end:
  assumes "va < end" and "end \<le> va OR level_mask l"
  shows "next_addr l end va = end"
proof -
  define x where "x = va OR level_mask l"
  have "sign_extend (x + 1) > end \<or> sign_extend (x + 1) < va"
  proof (cases "x = - 1")
    case True
    have "va \<noteq> 0" using True by (cases l) (auto simp: x_def)
    with True show ?thesis by (simp add: sign_extend_def USER_LIM_def word_gt_0)
  next
    case False
    then have "1 + x \<noteq> 0" by (simp add: add_eq_0_iff)
    then have "x < x + 1" by (simp add: word_less_nat_alt unatSuc add.commute)
    moreover have "end \<le> x" using assms(2) by (simp add: x_def)
    ultimately show ?thesis using sign_extend_ge [of "x + 1"] by (meson le_less_trans less_le_trans)
  qed
  then show ?thesis by (auto simp: next_addr_def Let_def level_end_mask x_def)
qed

lemma walk_loop_once:
  assumes "canonical va" and "va < end" and "end \<le> va OR level_mask l"
  shows "walk_loop l body end va (sign_extend va) s = ret0 (body va (end - 1) s)"
proof -
  have "walk_loop l body end end end = (\<lambda>s. Inr (0, s))"
    by (rule ext) (subst walk_loop.simps, simp)
  then show ?thesis
    using assms by (subst walk_loop.simps) (simp add: canonical_def next_addr_end ret0_def Let_def)
qed

lemma page_in_level:
  assumes "page_aligned va" and "x \<le> 4095"
  shows "va + x \<le> va OR level_mask l"
proof -
  have "va OR level_mask l = (va OR x) OR level_mask l"
  proof -
    have m: "(mask 12 :: u64) = 4095" by (simp add: mask_eq_exp_minus_1)
    have "x < 4096" by (rule le_less_trans [OF assms(2)]) simp
    then have x: "x AND 4095 = x" using less_mask_eq [of x 12] by (simp add: m)
    have l: "4095 OR level_mask l = level_mask l" by (cases l) simp_all
    have "(x AND 4095) OR (4095 OR level_mask l) = ((x AND 4095) OR 4095) OR level_mask l"
      by (simp only: or.assoc)
    also have "(x AND 4095) OR 4095 = 4095" by (rule word_ao_absorbs)
    finally have "x OR level_mask l = level_mask l" unfolding x l .
    then show ?thesis by (simp add: or.assoc)
  qed
  then show ?thesis
    using aligned_plus(1) [OF assms] le_word_or2 [of "va OR x" "level_mask l"] by simp
qed

lemma page_walk_bounds:
  assumes "page_aligned va" and "1 \<le> x" and "x \<le> 4095"
  shows "va < va + x" and "va + x \<le> va OR level_mask l"
proof -
  have "va \<noteq> va + x" using assms(2) by auto
  with aligned_plus(2) [OF assms(1,3)] show "va < va + x" by (simp add: order_less_le)
  show "va + x \<le> va OR level_mask l" by (rule page_in_level [OF assms(1,3)])
qed

text \<open>The four levels of the walk over the page at \<open>va\<close>.\<close>

definition one_pte :: "('u, 'z) page_walker \<Rightarrow> u64 \<Rightarrow> nat \<Rightarrow> ('u, 'z) walk_state \<Rightarrow> (int \<times> ('u, 'z) walk_state) res" where
  "one_pte w va ptbl s = ret0 (ptbl_body w ptbl va (va + 4091) s)"

definition one_pde :: "('u, 'z) page_walker \<Rightarrow> u64 \<Rightarrow> nat \<Rightarrow> ('u, 'z) walk_state \<Rightarrow> (int \<times> ('u, 'z) walk_state) res" where
  "one_pde w va pdir s = ret0 (pdir_body w pdir va (va + 4092) s)"

definition one_pdpte :: "('u, 'z) page_walker \<Rightarrow> u64 \<Rightarrow> nat \<Rightarrow> ('u, 'z) walk_state \<Rightarrow> (int \<times> ('u, 'z) walk_state) res" where
  "one_pdpte w va pdpt s = ret0 (pdpt_body w pdpt va (va + 4093) s)"

lemma walk_one_levels:
  assumes "page_aligned va" and "canonical va"
  shows "ptbl_walk_range ptbl va (va + 4092) w s = one_pte w va ptbl s"
    and "pdir_walk_range pdir va (va + 4093) w s = one_pde w va pdir s"
    and "pdpt_walk_range pdpt va (va + 4094) w s = one_pdpte w va pdpt s"
  unfolding ptbl_walk_range_def pdir_walk_range_def pdpt_walk_range_def one_pte_def one_pde_def one_pdpte_def
  by (subst walk_loop_once [OF assms(2) page_walk_bounds [OF assms(1)]], simp, simp, simp add: add.commute)+

lemma walk_one_page:
  assumes "page_aligned va" and "canonical va"
  shows "walk_page_range pml4 va (va + PAGE_SIZE) w s = ret0 (pml4_body w pml4 va (va + 4094) s)"
proof -
  have e: "va + PAGE_SIZE - 1 = va + 4095" by (simp add: PAGE_SIZE_def)
  have "walk_page_range pml4 va (va + PAGE_SIZE) w s = pml4_walk_range pml4 va (va + 4095) w s"
    unfolding walk_page_range_def ROUNDDOWN_aligned [OF assms(1)]
        ROUNDUP_aligned [OF page_aligned_next [OF assms(1)]] e ..
  also have "\<dots> = ret0 (pml4_body w pml4 va (va + 4094) s)"
    unfolding pml4_walk_range_def
    by (subst walk_loop_once [OF assms(2) page_walk_bounds [OF assms(1)]], simp, simp, simp add: add.commute)
  finally show ?thesis .
qed

end
