(* ===== verification/Page_Table.thy ===== *)
theory Page_Table
  imports Page_Walk
begin

text \<open>
  The operations on page tables built on the walker: kernel/mem/ptbl.c, insert.c, lookup.c,
  remove.c, protect.c, populate.c, user.c and map.c. Each source file is a section; each
  \<^verbatim>\<open>struct ..._info\<close> of a walker is the user data of its callbacks.
\<close>

section \<open>kernel/mem/ptbl.c\<close>

definition ptbl_alloc :: "('u, 'z) map_pte" where
  "ptbl_alloc entry base end us =
     (case us of (u, s) \<Rightarrow>
      if present (rd entry s) then Inr (0, u, s)
      else rbind (page_alloc ALLOC_ZERO s) (\<lambda>(page, s).
       case page of None \<Rightarrow> Inr (-1, u, s)
       | Some p \<Rightarrow>
         (let s = pp_upd p (\<lambda>q. q\<lparr>pp_ref := pp_ref q + 1\<rparr>) s;
              s = wr entry 0 s;
              s = wr entry (page2pa p) s;
              s = wr entry (rd entry s OR (PAGE_PRESENT OR PAGE_WRITE OR PAGE_USER)) s
          in Inr (0, u, s))))"

text \<open>The two functions for huge pages are empty in the source.\<close>

definition ptbl_split :: "('u, 'z) map_pte" where
  "ptbl_split entry base end us = Inr (0, us)"

definition ptbl_merge :: "('u, 'z) map_pte" where
  "ptbl_merge entry base end us = Inr (0, us)"

definition ptbl_free :: "('u, 'z) map_pte" where
  "ptbl_free entry base end us =
     (case us of (u, s) \<Rightarrow>
      if \<not> present (rd entry s) then Inr (0, u, s)
      else rbind (KADDR (PAGE_ADDR (rd entry s)) s) (\<lambda>pt.
       if (\<exists>i\<in>{..<512}. present (rd (pt, i) s)) then Inr (0, u, s)
       else rbind (pa2page (PAGE_ADDR (rd entry s)) s) (\<lambda>page.
        let s = pp_upd page (\<lambda>q. q\<lparr>pp_ref := pp_ref q - 1\<rparr>) s;
            s = pp_upd page (\<lambda>q. q\<lparr>pp_free := True\<rparr>) s;
            s = tlb_invalidate pt (kva_of pt) s;
            s = wr entry 0 s
        in rbind (page_free page s) (\<lambda>s. Inr (0, u, s)))))"

section \<open>kernel/mem/insert.c\<close>

text \<open>
  \<^verbatim>\<open>task_find_vma(cur_task, base)\<close> is an argument of the definitions below: it gives the \<open>rmap\<close>
  member of the area of the current task at an address, or \<open>None\<close> when there is no area.
\<close>

type_synonym 'z find_vma = "'z kvm_scheme \<Rightarrow> u64 \<Rightarrow> nat option option"

definition swap_locked :: "('z kvm_scheme \<Rightarrow> 'z kvm_scheme) \<Rightarrow> 'z kvm_scheme \<Rightarrow> 'z kvm_scheme res" where
  "swap_locked f s =
     rbind (spin_lock (swap_lock s) (this_cpu s) [] 0) (\<lambda>l.
     let s = f (s\<lparr>swap_lock := l\<rparr>) in
     rbind (spin_unlock (swap_lock s) (this_cpu s)) (\<lambda>l. Inr (s\<lparr>swap_lock := l\<rparr>)))"

definition attach_vma :: "'z find_vma \<Rightarrow> u64 \<Rightarrow> nat \<Rightarrow> 'z kvm_scheme \<Rightarrow> 'z kvm_scheme res" where
  "attach_vma fv base page s =
     (case fv s base of
        None \<Rightarrow> Inl KPanic
      | Some r \<Rightarrow> swap_locked (add_swap_page page) (pp_upd page (\<lambda>q. q\<lparr>pp_rmap := r\<rparr>) s))"

record insert_info =
  ins_pml4 :: nat
  ins_page :: nat
  ins_flags :: u64

definition insert_pte :: "'z find_vma \<Rightarrow> (insert_info, 'z) map_pte" where
  "insert_pte fv entry base end us =
     (case us of (info, s) \<Rightarrow>
      let page = ins_page info in
      kdefined (page < npages s)
      (rbind
        (if present (rd entry s)
         then rbind (pa2page (PAGE_ADDR (rd entry s)) s) (\<lambda>old_page.
              rbind (page_decref old_page s) (\<lambda>s. Inr (tlb_invalidate (ins_pml4 info) base s)))
         else Inr s) (\<lambda>s.
       rbind
        (if ins_flags info AND PAGE_USER \<noteq> 0
         then kassert (cur_task s \<noteq> None) (kassert (base < USER_LIM) (attach_vma fv base page s))
         else Inr (pp_upd page (\<lambda>q. q\<lparr>pp_rmap := None\<rparr>) s)) (\<lambda>s.
       let s = pp_upd page (\<lambda>q. q\<lparr>pp_ref := pp_ref q + 1\<rparr>) s;
           s = wr entry 0 s;
           s = wr entry (page2pa page) s;
           s = wr entry (rd entry s OR ins_flags info) s;
           s = wr entry (rd entry s OR PAGE_PRESENT) s
       in Inr (0, info, s)))))"

text \<open>The value \<^verbatim>\<open>ptbl_alloc\<close> returns is dropped by its three callers.\<close>

definition insert_pde :: "(insert_info, 'z) map_pte" where
  "insert_pde entry base end us = rbind (ptbl_alloc entry base end us) (\<lambda>(_, us). Inr (0, us))"

definition insert_pdpte :: "(insert_info, 'z) map_pte" where
  "insert_pdpte entry base end us = rbind (ptbl_alloc entry base end us) (\<lambda>(_, us). Inr (0, us))"

definition insert_pml4e :: "(insert_info, 'z) map_pte" where
  "insert_pml4e entry base end us = rbind (ptbl_alloc entry base end us) (\<lambda>(_, us). Inr (0, us))"

definition insert_walker :: "'z find_vma \<Rightarrow> (insert_info, 'z) page_walker" where
  "insert_walker fv = no_walker\<lparr>pte_callback := Some (insert_pte fv), pde_callback := Some insert_pde,
     pdpte_callback := Some insert_pdpte, pml4e_callback := Some insert_pml4e\<rparr>"

definition page_insert ::
  "'z find_vma \<Rightarrow> nat \<Rightarrow> nat \<Rightarrow> u64 \<Rightarrow> u64 \<Rightarrow> 'z kvm_scheme \<Rightarrow> (int \<times> 'z kvm_scheme) res" where
  "page_insert fv pml4 page va flags s =
     rbind (walk_page_range pml4 va (va + PAGE_SIZE) (insert_walker fv)
             (\<lparr>ins_pml4 = pml4, ins_page = page, ins_flags = flags\<rparr>, s))
       (\<lambda>(ret, _, s). Inr (ret, s))"

section \<open>kernel/mem/lookup.c\<close>

definition lookup_pte :: "(pte option, 'z) map_pte" where
  "lookup_pte entry base end us =
     (case us of (info, s) \<Rightarrow> Inr (0, if present (rd entry s) then Some entry else info, s))"

definition lookup_pde :: "(pte option, 'z) map_pte" where
  "lookup_pde entry base end us = Inr (0, us)"

definition lookup_walker :: "(pte option, 'z) page_walker" where
  "lookup_walker = no_walker\<lparr>pte_callback := Some lookup_pte, pde_callback := Some lookup_pde\<rparr>"

text \<open>
  \<open>entry_store\<close> is \<open>None\<close> for a null argument, \<open>Some None\<close> for a pointer to a null pointer. The
  new contents of \<^verbatim>\<open>*entry_store\<close> are returned.
\<close>

definition page_lookup ::
  "nat \<Rightarrow> u64 \<Rightarrow> pte option option \<Rightarrow> 'z kvm_scheme \<Rightarrow> (nat option \<times> pte option option) res" where
  "page_lookup pml4 va entry_store s =
     rbind (walk_page_range pml4 va (va + PAGE_SIZE) lookup_walker (None, s)) (\<lambda>(ret, info, s).
     if ret < 0 then Inr (None, entry_store)
     else case info of
       None \<Rightarrow> Inr (None, entry_store)
     | Some entry \<Rightarrow>
         if entry_store = None \<or> entry_store = Some None then
           (let pa = sign_extend (PAGE_ADDR (rd entry s)) in
            rbind (if pa \<ge> KERNEL_VMA then PADDR pa else Inr pa) (\<lambda>pa.
            rbind (pa2page pa s) (\<lambda>page. Inr (Some page, entry_store))))
         else
           (let pa = sign_extend (PAGE_ADDR (rd entry s)) in
            rbind (pa2page pa s) (\<lambda>page. Inr (Some page, Some (Some entry)))))"

section \<open>kernel/mem/remove.c\<close>

text \<open>The guard of \<^verbatim>\<open>remove_pte\<close> multiplies the entry by \<^verbatim>\<open>PAGE_PRESENT\<close>.\<close>

definition remove_pte :: "(nat, 'z) map_pte" where
  "remove_pte entry base end us =
     (case us of (pml4, s) \<Rightarrow>
      if rd entry s * PAGE_PRESENT = 0 then Inr (0, pml4, s)
      else rbind (pa2page (PAGE_ADDR (rd entry s)) s) (\<lambda>page.
       rbind (page_decref page s) (\<lambda>s.
       let s = wr entry 0 s in Inr (0, pml4, tlb_invalidate pml4 base s))))"

definition remove_pde :: "(nat, 'z) map_pte" where
  "remove_pde entry base end us = Inr (0, us)"

definition remove_walker :: "(nat, 'z) page_walker" where
  "remove_walker = no_walker\<lparr>pte_callback := Some remove_pte, pde_callback := Some remove_pde,
     pte_unmap := Some ptbl_free, pde_unmap := Some ptbl_free, pdpte_unmap := Some ptbl_free,
     pml4e_unmap := Some ptbl_free\<rparr>"

definition unmap_page_range :: "nat \<Rightarrow> u64 \<Rightarrow> u64 \<Rightarrow> 'z kvm_scheme \<Rightarrow> 'z kvm_scheme res" where
  "unmap_page_range pml4 va sz s =
     rbind (walk_page_range pml4 va (va + sz) remove_walker (pml4, s)) (\<lambda>(_, _, s). Inr s)"

definition unmap_user_pages :: "nat \<Rightarrow> 'z kvm_scheme \<Rightarrow> 'z kvm_scheme res" where
  "unmap_user_pages pml4 s = unmap_page_range pml4 0 USER_LIM s"

definition page_remove :: "nat \<Rightarrow> u64 \<Rightarrow> 'z kvm_scheme \<Rightarrow> 'z kvm_scheme res" where
  "page_remove pml4 va s = unmap_page_range pml4 va PAGE_SIZE s"

section \<open>kernel/mem/protect.c\<close>

record protect_info =
  prot_pml4 :: nat
  prot_flags :: u64

definition protect_pte :: "(protect_info, 'z) map_pte" where
  "protect_pte entry base end us =
     (case us of (info, s) \<Rightarrow>
      let flags = PAGE_PRESENT OR PAGE_WRITE OR PAGE_USER OR PAGE_NO_EXEC in
      if rd entry s AND flags \<noteq> prot_flags info then
        (let s = wr entry (rd entry s AND NOT flags) s;
             s = wr entry (rd entry s OR prot_flags info) s;
             s = wr entry (rd entry s OR PAGE_PRESENT) s
         in Inr (0, info, tlb_invalidate (prot_pml4 info) base s))
      else Inr (0, info, s))"

definition protect_pde :: "(protect_info, 'z) map_pte" where
  "protect_pde entry base end us = Inr (0, us)"

definition protect_walker :: "(protect_info, 'z) page_walker" where
  "protect_walker = no_walker\<lparr>pte_callback := Some protect_pte, pde_callback := Some protect_pde\<rparr>"

definition protect_region :: "nat \<Rightarrow> u64 \<Rightarrow> u64 \<Rightarrow> u64 \<Rightarrow> 'z kvm_scheme \<Rightarrow> 'z kvm_scheme res" where
  "protect_region pml4 va sz flags s =
     rbind (walk_page_range pml4 va (va + sz) protect_walker (\<lparr>prot_pml4 = pml4, prot_flags = flags\<rparr>, s))
       (\<lambda>(_, _, s). Inr s)"

section \<open>kernel/mem/populate.c\<close>

text \<open>
  The information of the walker is the flags and \<^verbatim>\<open>kernel_pml4\<close>, which the callback passes to
  \<^verbatim>\<open>tlb_invalidate\<close>.
\<close>

record populate_info =
  pop_flags :: u64
  pop_kernel_pml4 :: nat

definition populate_pte :: "'z find_vma \<Rightarrow> (populate_info, 'z) map_pte" where
  "populate_pte fv entry base end us =
     (case us of (info, s) \<Rightarrow>
      kassert (\<not> present (rd entry s))
      (rbind (page_alloc ALLOC_ZERO s) (\<lambda>(page, s).
       case page of None \<Rightarrow> Inr (-1, info, s)
       | Some p \<Rightarrow>
         rbind
          (if pop_flags info AND PAGE_USER \<noteq> 0
           then kassert (cur_task s \<noteq> None) (attach_vma fv base p s)
           else Inr (pp_upd p (\<lambda>q. q\<lparr>pp_rmap := None\<rparr>) s)) (\<lambda>s.
         let s = pp_upd p (\<lambda>q. q\<lparr>pp_ref := pp_ref q + 1\<rparr>) s;
             s = wr entry 0 s;
             s = wr entry (page2pa p) s;
             s = wr entry (rd entry s OR pop_flags info) s;
             s = wr entry (rd entry s OR PAGE_PRESENT) s
         in Inr (0, info, tlb_invalidate (pop_kernel_pml4 info) base s)))))"

definition populate_walker :: "'z find_vma \<Rightarrow> (populate_info, 'z) page_walker" where
  "populate_walker fv = no_walker\<lparr>pte_callback := Some (populate_pte fv), pde_callback := Some ptbl_alloc,
     pdpte_callback := Some ptbl_alloc, pml4e_callback := Some ptbl_alloc\<rparr>"

definition populate_region ::
  "'z find_vma \<Rightarrow> nat \<Rightarrow> nat \<Rightarrow> u64 \<Rightarrow> u64 \<Rightarrow> u64 \<Rightarrow> 'z kvm_scheme \<Rightarrow> 'z kvm_scheme res" where
  "populate_region fv kernel_pml4 pml4 va sz flags s =
     rbind (walk_page_range pml4 va (va + sz) (populate_walker fv)
             (\<lparr>pop_flags = flags, pop_kernel_pml4 = kernel_pml4\<rparr>, s)) (\<lambda>(_, _, s). Inr s)"

section \<open>kernel/mem/user.c\<close>

record user_info =
  ui_va :: u64
  ui_flags :: u64

definition check_user_hole :: "(user_info, 'z) map_hole" where
  "check_user_hole base end us = (case us of (info, s) \<Rightarrow> Inr (-1, info\<lparr>ui_va := base\<rparr>, s))"

definition check_user_pte :: "(user_info, 'z) map_pte" where
  "check_user_pte entry base end us =
     (case us of (info, s) \<Rightarrow>
      if rd entry s AND ui_flags info \<noteq> ui_flags info then Inr (-1, info\<lparr>ui_va := base\<rparr>, s)
      else Inr (0, info, s))"

definition check_user_pde :: "(user_info, 'z) map_pte" where
  "check_user_pde entry base end us =
     (case us of (info, s) \<Rightarrow>
      if rd entry s AND ui_flags info \<noteq> ui_flags info then Inr (-1, info\<lparr>ui_va := base\<rparr>, s)
      else Inr (0, info, s))"

definition user_walker :: "(user_info, 'z) page_walker" where
  "user_walker = no_walker\<lparr>pt_hole_callback := Some check_user_hole, pte_callback := Some check_user_pte,
     pde_callback := Some check_user_pde\<rparr>"

text \<open>The result and the value stored through \<^verbatim>\<open>fault_va\<close>.\<close>

definition check_user_mem :: "nat \<Rightarrow> u64 \<Rightarrow> u64 \<Rightarrow> u64 \<Rightarrow> 'z kvm_scheme \<Rightarrow> (int \<times> u64) res" where
  "check_user_mem pml4 va sz flags s =
     rbind (walk_page_range pml4 va (va + sz) user_walker
             (\<lparr>ui_va = 0, ui_flags = flags OR PAGE_PRESENT OR PAGE_USER\<rparr>, s))
       (\<lambda>(ret, info, _). Inr (ret, ui_va info))"

section \<open>kernel/mem/map.c\<close>

record boot_map_info =
  bm_flags :: u64
  bm_pa :: u64

definition boot_map_pte :: "(boot_map_info, 'z) map_pte" where
  "boot_map_pte entry base end us =
     (case us of (info, s) \<Rightarrow>
      let s = wr entry 0 s;
          s = wr entry (bm_pa info) s;
          s = wr entry (rd entry s OR bm_flags info) s;
          s = wr entry (rd entry s OR PAGE_PRESENT) s
      in Inr (0, info\<lparr>bm_pa := bm_pa info + PAGE_SIZE\<rparr>, s))"

definition boot_map_pde :: "(boot_map_info, 'z) map_pte" where
  "boot_map_pde entry base end us = ptbl_alloc entry base end us"

definition boot_map_pdpte :: "(boot_map_info, 'z) map_pte" where
  "boot_map_pdpte entry base end us = ptbl_alloc entry base end us"

definition boot_map_pml4e :: "(boot_map_info, 'z) map_pte" where
  "boot_map_pml4e entry base end us = ptbl_alloc entry base end us"

definition boot_map_walker :: "(boot_map_info, 'z) page_walker" where
  "boot_map_walker = no_walker\<lparr>pte_callback := Some boot_map_pte, pde_callback := Some boot_map_pde,
     pdpte_callback := Some boot_map_pdpte, pml4e_callback := Some boot_map_pml4e\<rparr>"

definition boot_map_region :: "nat \<Rightarrow> u64 \<Rightarrow> u64 \<Rightarrow> u64 \<Rightarrow> u64 \<Rightarrow> 'z kvm_scheme \<Rightarrow> 'z kvm_scheme res" where
  "boot_map_region pml4 va sz pa flags s =
     rbind (walk_page_range pml4 va (va + sz) boot_map_walker (\<lparr>bm_flags = flags, bm_pa = pa\<rparr>, s))
       (\<lambda>(_, _, s). Inr s)"

text \<open>The static variable \<^verbatim>\<open>base\<close> of \<^verbatim>\<open>mmio_map_region\<close> is passed and returned.\<close>

definition mmio_map_region :: "nat \<Rightarrow> u64 \<Rightarrow> u64 \<Rightarrow> u64 \<Rightarrow> 'z kvm_scheme \<Rightarrow> (u64 \<times> u64 \<times> 'z kvm_scheme) res" where
  "mmio_map_region kernel_pml4 base pa sz s =
     (let sz = ROUNDUP sz PAGE_SIZE in
      kassert (base + sz < MMIO_LIM)
      (rbind (boot_map_region kernel_pml4 base sz pa
               (PAGE_PRESENT OR PAGE_WRITE OR PAGE_NO_EXEC OR PAGE_WRITE_THROUGH OR PAGE_NO_CACHE) s)
        (\<lambda>s. Inr (base, base + sz, s))))"

definition VM_READ :: u32 where "VM_READ = 1"
definition VM_WRITE :: u32 where "VM_WRITE = 2"
definition VM_EXEC :: u32 where "VM_EXEC = 4"
definition VM_DIRTY :: u32 where "VM_DIRTY = 16"

definition convert_flags_from_pages_to_vma :: "u64 \<Rightarrow> u32" where
  "convert_flags_from_pages_to_vma page_flags =
     (let f = 0;
          f = (if page_flags AND PAGE_PRESENT \<noteq> 0 then f OR VM_READ else f);
          f = (if page_flags AND PAGE_WRITE \<noteq> 0 then f OR VM_WRITE else f);
          f = (if page_flags AND PAGE_NO_EXEC = 0 then f OR VM_EXEC else f)
      in f)"

definition convert_flags_from_vma_to_pages :: "u32 \<Rightarrow> u64" where
  "convert_flags_from_vma_to_pages vma_flags =
     (let f = 0;
          f = (if vma_flags AND VM_READ \<noteq> 0 then f OR PAGE_PRESENT else f);
          f = (if vma_flags AND VM_WRITE \<noteq> 0 then f OR PAGE_WRITE else f);
          f = (if vma_flags AND VM_EXEC = 0 then f OR PAGE_NO_EXEC else f)
      in f)"

record elf_proghdr =
  p_type :: u32
  p_flags :: u32
  p_offset :: u64
  p_va :: u64
  p_pa :: u64
  p_filesz :: u64
  p_memsz :: u64

definition ELF_PROG_FLAG_EXEC :: u32 where "ELF_PROG_FLAG_EXEC = 1"
definition ELF_PROG_FLAG_WRITE :: u32 where "ELF_PROG_FLAG_WRITE = 2"

definition convert_flags_from_elf_to_pages :: "elf_proghdr \<Rightarrow> u64" where
  "convert_flags_from_elf_to_pages hdr =
     (let f = PAGE_PRESENT;
          f = (if p_flags hdr AND ELF_PROG_FLAG_WRITE \<noteq> 0 then f OR PAGE_WRITE else f);
          f = (if p_flags hdr AND ELF_PROG_FLAG_EXEC = 0 then f OR PAGE_NO_EXEC else f)
      in f)"

fun map_prog_hdrs :: "nat \<Rightarrow> elf_proghdr list \<Rightarrow> 'z kvm_scheme \<Rightarrow> 'z kvm_scheme res" where
  "map_prog_hdrs pml4 [] s = Inr s"
| "map_prog_hdrs pml4 (hdr # hdrs) s =
     rbind (if p_va hdr > KERNEL_VMA
            then boot_map_region pml4 (p_va hdr) (p_memsz hdr) (p_pa hdr) (convert_flags_from_elf_to_pages hdr) s
            else Inr s) (map_prog_hdrs pml4 hdrs)"

definition boot_map_kernel :: "nat \<Rightarrow> elf_proghdr list \<Rightarrow> 'z kvm_scheme \<Rightarrow> 'z kvm_scheme res" where
  "boot_map_kernel pml4 prog_hdrs s =
     rbind (boot_map_region pml4 KERNEL_VMA BOOT_MAP_LIM 0 (PAGE_PRESENT OR PAGE_WRITE OR PAGE_NO_EXEC) s)
       (map_prog_hdrs pml4 prog_hdrs)"

end
