(* ===== verification/Page_Table_Spec.thy ===== *)
theory Page_Table_Spec
  imports Page_Table
begin

text \<open>
  What the page table operations mean: the translation that the hardware performs is a descent
  through four tables (\<open>leaf\<close>), looking a page up computes this translation, and inserting a page
  makes the translation lead to it, allocating the missing tables on the way.
\<close>

section \<open>Translation\<close>

text \<open>The index of an address at the \<open>k\<close>-th level from the top.\<close>

fun ix :: "nat \<Rightarrow> u64 \<Rightarrow> nat" where
  "ix 0 va = PML4_INDEX va"
| "ix (Suc 0) va = PDPT_INDEX va"
| "ix (Suc (Suc 0)) va = PAGE_DIR_INDEX va"
| "ix k va = PAGE_TABLE_INDEX va"

lemma ix_num [simp]: "ix 1 va = PDPT_INDEX va" "ix 2 va = PAGE_DIR_INDEX va" "ix 3 va = PAGE_TABLE_INDEX va"
  by (simp_all add: numeral_2_eq_2 numeral_3_eq_3)

definition entry_frame :: "u64 \<Rightarrow> nat" where
  "entry_frame x = PAGE_INDEX (PAGE_ADDR x)"

text \<open>The table below the entry for \<open>va\<close> in a table of level \<open>k\<close>; huge pages have no table.\<close>

definition link :: "'z kmem_scheme \<Rightarrow> nat \<Rightarrow> nat \<Rightarrow> u64 \<Rightarrow> nat option" where
  "link s t k va =
     (let x = rd (t, ix k va) s
      in if present x \<and> (k = 0 \<or> \<not> is_huge x) then Some (entry_frame x) else None)"

definition leaf :: "'z kmem_scheme \<Rightarrow> nat \<Rightarrow> u64 \<Rightarrow> pte option" where
  "leaf s pml4 va =
     Option.bind (link s pml4 0 va) (\<lambda>pdpt.
     Option.bind (link s pdpt 1 va) (\<lambda>pdir.
     Option.bind (link s pdir 2 va) (\<lambda>ptbl. Some (ptbl, ix 3 va))))"

definition mapped :: "'z kmem_scheme \<Rightarrow> nat \<Rightarrow> u64 \<Rightarrow> pte option" where
  "mapped s pml4 va = (case leaf s pml4 va of None \<Rightarrow> None
     | Some e \<Rightarrow> if present (rd e s) then Some e else None)"

definition translate :: "'z kmem_scheme \<Rightarrow> nat \<Rightarrow> u64 \<Rightarrow> nat option" where
  "translate s pml4 va = map_option (\<lambda>e. entry_frame (rd e s)) (mapped s pml4 va)"

text \<open>The tables on the way lie in physical memory.\<close>

definition path_in_memory :: "'z kmem_scheme \<Rightarrow> nat \<Rightarrow> u64 \<Rightarrow> bool" where
  "path_in_memory s pml4 va \<longleftrightarrow>
     (\<forall>t3. link s pml4 0 va = Some t3 \<longrightarrow> t3 < npages s \<and>
      (\<forall>t2. link s t3 1 va = Some t2 \<longrightarrow> t2 < npages s \<and>
       (\<forall>t1. link s t2 2 va = Some t1 \<longrightarrow> t1 < npages s)))"

section \<open>Lookup\<close>

lemma walker_fields [simp]:
  "pte_callback lookup_walker = Some lookup_pte" "pde_callback lookup_walker = Some lookup_pde"
  "pdpte_callback lookup_walker = None" "pml4e_callback lookup_walker = None"
  "pte_unmap lookup_walker = None" "pde_unmap lookup_walker = None" "pdpte_unmap lookup_walker = None"
  "pml4e_unmap lookup_walker = None" "pt_hole_callback lookup_walker = None"
  by (simp_all add: lookup_walker_def no_walker_def)

lemma link_unfold:
  "link s t 0 va = (if present (rd (t, PML4_INDEX va) s) then Some (entry_frame (rd (t, PML4_INDEX va) s)) else None)"
  "link s t (Suc 0) va = (if present (rd (t, PDPT_INDEX va) s) \<and> \<not> is_huge (rd (t, PDPT_INDEX va) s)
     then Some (entry_frame (rd (t, PDPT_INDEX va) s)) else None)"
  "link s t 2 va = (if present (rd (t, PAGE_DIR_INDEX va) s) \<and> \<not> is_huge (rd (t, PAGE_DIR_INDEX va) s)
     then Some (entry_frame (rd (t, PAGE_DIR_INDEX va) s)) else None)"
  by (simp_all add: link_def Let_def)

lemma linkD:
  "link s t 0 va = Some u \<Longrightarrow> present (rd (t, PML4_INDEX va) s) \<and> PAGE_INDEX (PAGE_ADDR (rd (t, PML4_INDEX va) s)) = u"
  "link s t 1 va = Some u \<Longrightarrow> present (rd (t, PDPT_INDEX va) s) \<and> \<not> is_huge (rd (t, PDPT_INDEX va) s) \<and>
     PAGE_INDEX (PAGE_ADDR (rd (t, PDPT_INDEX va) s)) = u"
  by (auto simp: link_unfold entry_frame_def split: if_splits)

lemma lookup_pte_level:
  "one_pte lookup_walker va ptbl (u, s) =
     Inr (0, (if present (rd (ptbl, PAGE_TABLE_INDEX va) s) then Some (ptbl, PAGE_TABLE_INDEX va) else u), s)"
  by (simp add: one_pte_def ptbl_body_def Let_def lookup_pte_def ret0_def)

lemma lookup_pde_level:
  assumes "page_aligned va" and "canonical va" and "\<And>t. link s pdir 2 va = Some t \<Longrightarrow> t < npages s"
  shows "one_pde lookup_walker va pdir (None, s) =
     Inr (0, Option.bind (link s pdir 2 va) (\<lambda>t. if present (rd (t, PAGE_TABLE_INDEX va) s) then Some (t, PAGE_TABLE_INDEX va) else None), s)"
  using assms(3)
  by (auto simp: one_pde_def pdir_body_def Let_def lookup_pde_def ret0_def link_unfold KADDR_def entry_frame_def
      walk_one_levels(1) [OF assms(1,2)] lookup_pte_level)

lemma lookup_pdpte_level:
  assumes "page_aligned va" and "canonical va"
    and "\<And>t. link s pdpt 1 va = Some t \<Longrightarrow> t < npages s \<and> (\<forall>u. link s t 2 va = Some u \<longrightarrow> u < npages s)"
  shows "one_pdpte lookup_walker va pdpt (None, s) =
     Inr (0, Option.bind (link s pdpt 1 va) (\<lambda>t. Option.bind (link s t 2 va) (\<lambda>t.
       if present (rd (t, PAGE_TABLE_INDEX va) s) then Some (t, PAGE_TABLE_INDEX va) else None)), s)"
proof (cases "link s pdpt 1 va")
  case None
  then show ?thesis
    by (auto simp: one_pdpte_def pdpt_body_def Let_def ret0_def link_unfold(2) split: if_splits)
next
  case (Some t)
  with assms(3) have t: "t < npages s" "\<And>u. link s t 2 va = Some u \<Longrightarrow> u < npages s" by auto
  note e = linkD(2) [OF Some]
  show ?thesis
    using t(1) by (simp add: one_pdpte_def pdpt_body_def Let_def ret0_def KADDR_def e Some [simplified]
        walk_one_levels(2) [OF assms(1,2)] lookup_pde_level [OF assms(1,2) t(2)])
qed

lemma lookup_walk:
  assumes "page_aligned va" and "canonical va" and "path_in_memory s pml4 va"
  shows "walk_page_range pml4 va (va + PAGE_SIZE) lookup_walker (None, s) = Inr (0, mapped s pml4 va, s)"
proof (cases "link s pml4 0 va")
  case None
  then show ?thesis
    unfolding walk_one_page [OF assms(1,2)]
    by (auto simp: pml4_body_def Let_def ret0_def link_unfold(1) mapped_def leaf_def split: if_splits)
next
  case (Some t)
  with assms(3) have t: "t < npages s"
    "\<And>u. link s t 1 va = Some u \<Longrightarrow> u < npages s \<and> (\<forall>v. link s u 2 va = Some v \<longrightarrow> v < npages s)"
    by (auto simp: path_in_memory_def)
  note e = linkD(1) [OF Some]
  note v = lookup_pdpte_level [OF assms(1,2), of s t]
  have "walk_page_range pml4 va (va + PAGE_SIZE) lookup_walker (None, s) =
      ok_then (one_pdpte lookup_walker va t (None, s)) (\<lambda>s. Inr (0, s))"
    unfolding walk_one_page [OF assms(1,2)] using t(1) v t(2)
    by (simp add: pml4_body_def Let_def ret0_def KADDR_def e walk_one_levels(3) [OF assms(1,2)])
  with v t(2) Some show ?thesis by (simp add: mapped_def leaf_def split: bind_splits)
qed

lemma low_address:
  assumes "PAGE_INDEX a < 2 ^ 35"
  shows "a < USER_LIM" and "sign_extend a = a" and "\<not> a \<ge> KERNEL_VMA"
proof -
  have "unat a div 4096 < 2 ^ 35"
    using assms by (simp add: PAGE_INDEX_def drop_bit_eq_div unat_div)
  then have "unat a < 0x800000000000" by simp
  then show l: "a < USER_LIM" by (simp add: word_less_nat_alt USER_LIM_def)
  then show "sign_extend a = a" by (simp add: sign_extend_def)
  have "USER_LIM \<le> KERNEL_VMA" by (simp add: USER_LIM_def KERNEL_VMA_def)
  with l show "\<not> a \<ge> KERNEL_VMA" by simp
qed

lemma page_lookup_spec:
  assumes "page_aligned va" and "canonical va" and "path_in_memory s pml4 va"
    and "npages s \<le> 2 ^ 35" and "\<And>p. translate s pml4 va = Some p \<Longrightarrow> p < npages s"
  shows "page_lookup pml4 va None s = Inr (translate s pml4 va, None)"
    and "page_lookup pml4 va (Some (Some e)) s =
      Inr (translate s pml4 va, if mapped s pml4 va = None then Some (Some e) else Some (mapped s pml4 va))"
proof -
  note w = lookup_walk [OF assms(1-3)]
  have "page_lookup pml4 va None s = Inr (translate s pml4 va, None) \<and>
    page_lookup pml4 va (Some (Some e)) s =
      Inr (translate s pml4 va, if mapped s pml4 va = None then Some (Some e) else Some (mapped s pml4 va))"
  proof (cases "mapped s pml4 va")
    case None
    then show ?thesis by (simp add: page_lookup_def w translate_def)
  next
    case (Some f)
    let ?a = "PAGE_ADDR (rd f s)"
    have p: "PAGE_INDEX ?a < npages s" using assms(5) Some by (simp add: translate_def entry_frame_def)
    with assms(4) have "PAGE_INDEX ?a < 2 ^ 35" by simp
    note low = low_address [OF this]
    show ?thesis
      using Some p low by (simp add: page_lookup_def w translate_def entry_frame_def pa2page_def)
  qed
  then show "page_lookup pml4 va None s = Inr (translate s pml4 va, None)"
    and "page_lookup pml4 va (Some (Some e)) s =
      Inr (translate s pml4 va, if mapped s pml4 va = None then Some (Some e) else Some (mapped s pml4 va))"
    by blast+
qed

section \<open>Allocating the tables of a path\<close>

text \<open>
  \<open>vm_ok\<close>: the allocator's invariant, the page replacement list is a ring, zeroed frames marked as such really are zero, and physical
  memory is below the limit above which the address of a frame would be sign extended.
\<close>

definition swap_rings :: "nat \<Rightarrow> (anchor \<rightharpoonup> anchor list) \<Rightarrow> bool" where
  "swap_rings n L \<longleftrightarrow> L SwapHead \<noteq> None \<and> (\<forall>i<n. swap_known L i)"

definition vm_ok :: "'z kmem_scheme \<Rightarrow> bool" where
  "vm_ok s \<longleftrightarrow> (\<exists>L. buddy_inv s L \<and> swap_rings (npages s) L) \<and> npages s \<le> 2 ^ 35 \<and>
     (\<forall>i\<in>free_frames s. pp_zero (pages s i) \<noteq> 0 \<longrightarrow> pmem s i = (\<lambda>_. 0))"

definition table_flags :: u64 where
  "table_flags = PAGE_PRESENT OR PAGE_WRITE OR PAGE_USER"

lemma table_flags_simps:
  "PAGE_ADDR table_flags = 0" "present table_flags" "\<not> is_huge table_flags"
  by (simp_all add: table_flags_def flag_defs PAGE_ADDR_def present_def is_huge_def)

lemma table_entry:
  assumes "p < 2 ^ 35"
  shows "present (page2pa p OR table_flags)" "\<not> is_huge (page2pa p OR table_flags)"
    "entry_frame (page2pa p OR table_flags) = p"
proof -
  have p: "p < 2 ^ 36" using assms by simp
  show "present (page2pa p OR table_flags)" by (simp add: present_or table_flags_simps)
  have h: "is_huge x \<longleftrightarrow> bit x 7" for x
    using and_exp_eq_0_iff_not_bit [of x 7] by (simp add: is_huge_def PAGE_HUGE_def)
  have "\<not> bit (page2pa p) 7" by (simp add: page2pa_def bit_push_bit_iff)
  then show "\<not> is_huge (page2pa p OR table_flags)"
    using table_flags_simps(3) by (simp add: h bit_or_iff)
  show "entry_frame (page2pa p OR table_flags) = p"
    by (simp add: entry_frame_def entry_addr [OF p table_flags_simps(1)] page2pa_addr [OF p])
qed

definition ref_inc :: "nat \<Rightarrow> 'z kmem_scheme \<Rightarrow> 'z kmem_scheme" where
  "ref_inc p s = pp_upd p (\<lambda>q. q\<lparr>pp_ref := pp_ref q + 1\<rparr>) s"

text \<open>What \<^verbatim>\<open>ptbl_alloc\<close> does to an empty entry: a frame leaves the free set and becomes an empty table.\<close>

definition new_table :: "pte \<Rightarrow> nat \<Rightarrow> 'z kvm_scheme \<Rightarrow> 'z kvm_scheme \<Rightarrow> bool" where
  "new_table e t s s' \<longleftrightarrow> t \<in> free_frames s \<and> free_frames s' = free_frames s - {t} \<and>
     npages s' = npages s \<and> kmem.more s' = kmem.more s \<and>
     (\<forall>i. pp_ref (pages s' i) = (if i = t then pp_ref (pages s i) + 1 else pp_ref (pages s i))) \<and>
     (\<forall>x. rd x s' = (if x = e then page2pa t OR table_flags else if fst x = t then 0 else rd x s))"

lemma swap_rings_same:
  assumes "swap_rings n L" and "\<And>a. \<not> buddy_anchor a \<Longrightarrow> L' a = L a"
  shows "swap_rings n L'"
  using assms by (simp add: swap_rings_def swap_known_def swap_linked_def buddy_anchor_def)

lemma vm_ok_change:
  assumes inv: "buddy_inv s L" and n: "npages s' = npages s" and lh: "lh s' = lh s" and lock: "buddy_lock s' = buddy_lock s"
    and pg: "\<And>i. pp_order (pages s' i) = pp_order (pages s i) \<and> pp_free (pages s' i) = pp_free (pages s i)"
  shows "buddy_inv s' L" and "free_frames s' = free_frames s"
proof -
  have same: "freeset n (pages s') = freeset n (pages s)" "blk (pages s') i = blk (pages s) i" for n i
    using pg by (auto simp: freeset_def blk_def)
  show "free_frames s' = free_frames s" by (simp add: free_frames_def frames_def same n)
  show "buddy_inv s' L"
    using inv pg unfolding buddy_inv_def buddy_rel_def pages_ok_def same n lh lock by simp
qed

lemma wr_rd [simp]: "rd e (wr e v s) = v" "wr e w (wr e v s) = wr e w s"
  by (simp_all add: rd_def wr_def)

lemma rd_wr: "rd x (wr e v s) = (if x = e then v else rd x s)"
  by (cases x, cases e) (auto simp: rd_def wr_def)

lemma wr_simps [simp]: "npages (wr e v s) = npages s" "pages (wr e v s) = pages s" "lh (wr e v s) = lh s"
  "buddy_lock (wr e v s) = buddy_lock s" "kmem.more (wr e v s) = kmem.more s" "this_cpu (wr e v s) = this_cpu s"
  by (simp_all add: wr_def)

lemma ptbl_alloc_new:
  assumes ok: "vm_ok s" and e: "fst e \<notin> free_frames s" and np: "\<not> present (rd e s)"
    and ne: "free_frames s \<noteq> {}"
  shows "rok (ptbl_alloc e b en (u, s)) (\<lambda>(ret, u', s'). ret = 0 \<and> u' = u \<and> vm_ok s' \<and> (\<exists>t. new_table e t s s'))"
proof -
  obtain L where inv: "buddy_inv s L" and sw: "swap_rings (npages s) L" using ok by (auto simp: vm_ok_def)
  have "rok (page_alloc ALLOC_ZERO s) (\<lambda>(q, s1). \<exists>t L'. q = Some t \<and> alloc_post ALLOC_ZERO s L t s1 L')"
    by (rule page_alloc_spec(1) [OF inv ne])
  then obtain t s1 L1 where al: "page_alloc ALLOC_ZERO s = Inr (Some t, s1)"
    and post: "alloc_post ALLOC_ZERO s L t s1 L1" by (auto simp: rok_iff)
  have t: "t \<in> free_frames s" and z: "pmem s1 = (pmem s)(t := (\<lambda>_. 0))"
    using post ok by (auto simp: alloc_post_def vm_ok_def ALLOC_ZERO_def fun_upd_idem)
  let ?s' = "wr e (page2pa t OR table_flags) (ref_inc t s1)"
  have eq: "ptbl_alloc e b en (u, s) = Inr (0, u, ?s')"
    using al np by (simp add: ptbl_alloc_def Let_def table_flags_def ref_inc_def)
  have inv1: "buddy_inv s1 L1" and ff1: "free_frames s1 = free_frames s - {t}"
    using post by (auto simp: alloc_post_def)
  have same: "buddy_inv ?s' L1" "free_frames ?s' = free_frames s1"
    by (rule vm_ok_change [OF inv1]; simp add: ref_inc_def pp_upd_def)+
  have et: "fst e \<noteq> t" using e t by auto
  have rds: "rd x ?s' = (if x = e then page2pa t OR table_flags else if fst x = t then 0 else rd x s)" for x
    using z et by (auto simp: rd_wr) (auto simp: rd_def ref_inc_def pp_upd_def)
  have fr: "npages s1 = npages s" "kmem.more s1 = kmem.more s" "\<And>i. pp_ref (pages s1 i) = pp_ref (pages s i)"
    using post by (auto simp: alloc_post_def alloc_frame_def)
  have "new_table e t s ?s'"
    unfolding new_table_def using t same(2) ff1 rds fr by (auto simp: ref_inc_def pp_upd_def)
  moreover have "vm_ok ?s'"
  proof -
    have "pmem ?s' i = (\<lambda>_. 0)" if i: "i \<in> free_frames s - {t}" and "pp_zero (pages ?s' i) \<noteq> 0" for i
    proof -
      have "pp_zero (pages s i) \<noteq> 0"
        using that(2) post by (auto simp: ref_inc_def pp_upd_def alloc_post_def split: if_splits)
      then have "pmem s i = (\<lambda>_. 0)" using ok i by (auto simp: vm_ok_def)
      moreover have "i \<noteq> fst e" "i \<noteq> t" using i e by auto
      ultimately show ?thesis using z by (simp add: wr_def ref_inc_def pp_upd_def)
    qed
    moreover have "swap_rings (npages s) L1"
      by (rule swap_rings_same [OF sw]) (use post in \<open>auto simp: alloc_post_def alloc_frame_def\<close>)
    ultimately show ?thesis using same ff1 fr(1) ok by (auto simp: vm_ok_def ref_inc_def pp_upd_def)
  qed
  ultimately show ?thesis unfolding eq by auto
qed

section \<open>Descending with allocation\<close>

text \<open>
  \<open>chain s va ts\<close>: the tables \<open>ts\<close> (the current one first) lead from the top of the page table to
  the current one. \<open>good_from n s va ts\<close>: the tables reached, and the existing tables below them
  over \<open>n\<close> more levels, are distinct allocated frames of physical memory, and the last entry is free.
\<close>

fun chain :: "'z kmem_scheme \<Rightarrow> u64 \<Rightarrow> nat list \<Rightarrow> bool" where
  "chain s va [] \<longleftrightarrow> False"
| "chain s va [t] \<longleftrightarrow> True"
| "chain s va (t # u # us) \<longleftrightarrow> link s u (length us) va = Some t \<and> chain s va (u # us)"

definition visited_ok :: "'z kmem_scheme \<Rightarrow> nat list \<Rightarrow> bool" where
  "visited_ok s ts \<longleftrightarrow> distinct ts \<and> set ts \<inter> free_frames s = {} \<and> (\<forall>t\<in>set ts. t < npages s)"

definition cur_entry :: "u64 \<Rightarrow> nat list \<Rightarrow> pte" where
  "cur_entry va ts = (hd ts, ix (length ts - 1) va)"

fun good_from :: "nat \<Rightarrow> 'z kmem_scheme \<Rightarrow> u64 \<Rightarrow> nat list \<Rightarrow> bool" where
  "good_from 0 s va ts \<longleftrightarrow> visited_ok s ts \<and> \<not> present (rd (cur_entry va ts) s)"
| "good_from (Suc n) s va ts \<longleftrightarrow> visited_ok s ts \<and>
     (present (rd (cur_entry va ts) s) \<longrightarrow>
       (\<exists>t. link s (hd ts) (length ts - 1) va = Some t \<and> good_from n s va (t # ts)))"

lemma good_from_visited: "good_from n s va ts \<Longrightarrow> visited_ok s ts"
  by (cases n) auto

text \<open>
  \<open>grow n s s'\<close>: up to \<open>n\<close> frames have left the free set; every present entry of an allocated
  frame, and every reference count of one, is what it was.
\<close>

definition grow :: "nat \<Rightarrow> 'z kvm_scheme \<Rightarrow> 'z kvm_scheme \<Rightarrow> bool" where
  "grow n s s' \<longleftrightarrow> npages s' = npages s \<and> kmem.more s' = kmem.more s \<and>
     free_frames s' \<subseteq> free_frames s \<and> card (free_frames s) \<le> n + card (free_frames s') \<and>
     (\<forall>i. i \<notin> free_frames s \<longrightarrow> pp_ref (pages s' i) = pp_ref (pages s i)) \<and>
     (\<forall>x. fst x \<notin> free_frames s \<longrightarrow> present (rd x s) \<longrightarrow> rd x s' = rd x s)"

lemma grow_refl: "grow 0 s s"
  by (simp add: grow_def)

lemma grow_trans: "grow m s t \<Longrightarrow> grow n t u \<Longrightarrow> grow (m + n) s u"
  unfolding grow_def by (auto simp: subset_iff)

lemma finite_free_frames: "finite (free_frames s)"
  by (auto simp: free_frames_def frames_def freeset_def blk_def)

lemma new_table_grow:
  assumes "new_table e t s s'" and "\<not> present (rd e s)"
  shows "grow 1 s s'"
  unfolding grow_def
proof (intro conjI allI impI)
  note nt = assms(1) [unfolded new_table_def]
  show "npages s' = npages s" "kmem.more s' = kmem.more s" "free_frames s' \<subseteq> free_frames s"
    using nt by auto
  show "card (free_frames s) \<le> 1 + card (free_frames s')"
    using nt finite_free_frames [of s] by (simp add: card_Diff_singleton)
  show "pp_ref (pages s' i) = pp_ref (pages s i)" if "i \<notin> free_frames s" for i
    using nt that by auto
  have r: "rd x s' = (if x = e then page2pa t OR table_flags else if fst x = t then 0 else rd x s)" for x
    using nt by blast
  show "rd x s' = rd x s" if "fst x \<notin> free_frames s" "present (rd x s)" for x
    unfolding r using nt that assms(2) by auto
qed

lemma link_same: "rd (t, ix k va) s' = rd (t, ix k va) s \<Longrightarrow> link s' t k va = link s t k va"
  by (simp add: link_def)

lemma link_table:
  assumes "rd (t, ix k va) s = page2pa u OR table_flags" and "u < 2 ^ 35"
  shows "link s t k va = Some u"
  using assms by (simp add: link_def table_entry)

lemma chain_same:
  assumes "chain s va ts" and "\<And>t k. t \<in> set (tl ts) \<Longrightarrow> rd (t, ix k va) s' = rd (t, ix k va) s"
  shows "chain s' va ts"
  using assms
proof (induction ts)
  case (Cons t us)
  show ?case
  proof (cases us)
    case (Cons u vs)
    with Cons.prems(2) [of u] have "link s' u (length vs) va = link s u (length vs) va"
      by (intro link_same) simp
    with Cons.IH Cons.prems Cons show ?thesis by (simp add: list.set_sel(2))
  qed simp
qed simp

lemma new_table_visited:
  assumes nt: "new_table e t s s'" and v: "visited_ok s ts" and ok: "vm_ok s"
  shows "visited_ok s' (t # ts)"
proof -
  have "t < npages s"
    using nt frames_bound ok
    by (auto simp: new_table_def free_frames_def vm_ok_def buddy_inv_def dest!: buddy_relD(1) dest: frames_bound)
  with nt v show ?thesis by (auto simp: visited_ok_def new_table_def)
qed

lemma new_table_empty:
  assumes nt: "new_table e t s s'" and "visited_ok s' (t # ts)" and "fst e \<noteq> t"
  shows "good_from n s' va (t # ts)"
proof -
  have "rd (cur_entry va (t # ts)) s' = 0"
    using nt assms(3) by (auto simp: new_table_def cur_entry_def)
  with assms(2) show ?thesis by (cases n) (auto simp: present_def)
qed

lemma alloc_step:
  assumes ok: "vm_ok s" and ch: "chain s va ts" and good: "good_from (Suc n) s va ts"
    and room: "0 < card (free_frames s)"
  shows "rok (ptbl_alloc (cur_entry va ts) b en (u, s)) (\<lambda>(ret, u', s'). ret = 0 \<and> u' = u \<and> vm_ok s' \<and> grow 1 s s' \<and>
     (\<exists>t. link s' (hd ts) (length ts - 1) va = Some t \<and> chain s' va (t # ts) \<and> good_from n s' va (t # ts)))"
proof (cases "present (rd (cur_entry va ts) s)")
  case True
  with good obtain t where t: "link s (hd ts) (length ts - 1) va = Some t" "good_from n s va (t # ts)" by auto
  have "chain s va (t # ts)" using ch t(1) by (cases ts) auto
  with True t ok show ?thesis
    by (auto simp: ptbl_alloc_def grow_def)
next
  case False
  from ch obtain h us where ts: "ts = h # us" by (cases ts) auto
  have v: "visited_ok s ts" using good by simp
  then have "h \<notin> free_frames s" by (auto simp: ts visited_ok_def)
  then have e: "fst (cur_entry va ts) \<notin> free_frames s" by (simp add: cur_entry_def ts)
  have ne: "free_frames s \<noteq> {}" using room by auto
  show ?thesis
  proof (rule rok_mono [OF ptbl_alloc_new [OF ok e False ne]], clarify, intro conjI)
    fix s' t
    assume ok': "vm_ok s'" and nt: "new_table (cur_entry va ts) t s s'"
    show "vm_ok s'" by (rule ok')
    show "grow 1 s s'" by (rule new_table_grow [OF nt False])
    have v': "visited_ok s' (t # ts)" by (rule new_table_visited [OF nt v ok])
    have "t < npages s'" "npages s' \<le> 2 ^ 35" using v' ok' by (auto simp: visited_ok_def vm_ok_def)
    then have t35: "t < 2 ^ 35" by simp
    have "rd (h, ix (length us) va) s' = page2pa t OR table_flags"
      using nt by (simp add: new_table_def cur_entry_def ts)
    then have l: "link s' h (length us) va = Some t" by (rule link_table [OF _ t35])
    have "chain s' va ts"
      by (rule chain_same [OF ch]) (use nt v' in \<open>auto simp: ts new_table_def cur_entry_def visited_ok_def\<close>)
    moreover have "fst (cur_entry va ts) \<noteq> t" using nt e by (auto simp: new_table_def)
    ultimately show "\<exists>t. link s' (hd ts) (length ts - 1) va = Some t \<and> chain s' va (t # ts) \<and> good_from n s' va (t # ts)"
      using l new_table_empty [OF nt v'] by (intro exI [of _ t]) (simp add: ts)
  qed simp_all
qed
text \<open>Walkers whose upper callbacks allocate missing tables, with or without looking at the result.\<close>

definition alloc_cb :: "('u, 'z) map_pte option \<Rightarrow> bool" where
  "alloc_cb cb \<longleftrightarrow> (\<exists>f. cb = Some f \<and> (\<forall>e b en us. f e b en us = ptbl_alloc e b en us \<or>
     f e b en us = rbind (ptbl_alloc e b en us) (\<lambda>(_, us). Inr (0, us))))"

definition alloc_walker :: "('u, 'z) page_walker \<Rightarrow> bool" where
  "alloc_walker w \<longleftrightarrow> alloc_cb (pde_callback w) \<and> alloc_cb (pdpte_callback w) \<and> alloc_cb (pml4e_callback w) \<and>
     pde_unmap w = None \<and> pdpte_unmap w = None \<and> pml4e_unmap w = None"

lemma alloc_walkers: "alloc_walker (insert_walker fv)" "alloc_walker (populate_walker fv)" "alloc_walker boot_map_walker"
  by (auto simp: alloc_walker_def alloc_cb_def insert_walker_def populate_walker_def boot_map_walker_def no_walker_def
      insert_pde_def insert_pdpte_def insert_pml4e_def boot_map_pde_def boot_map_pdpte_def boot_map_pml4e_def)

lemma alloc_cb_rok:
  assumes "alloc_cb cb" and "rok (ptbl_alloc e b en (u, s)) (\<lambda>(ret, u', s'). ret = 0 \<and> P u' s')"
  shows "rok (call_pte cb e b en (u, s)) (\<lambda>(ret, u', s'). ret = 0 \<and> P u' s')"
proof -
  obtain f where f: "cb = Some f" "f e b en (u, s) = ptbl_alloc e b en (u, s) \<or>
      f e b en (u, s) = rbind (ptbl_alloc e b en (u, s)) (\<lambda>(_, us). Inr (0, us))"
    using assms(1) unfolding alloc_cb_def by blast
  have "rok (rbind (ptbl_alloc e b en (u, s)) (\<lambda>(_, us). Inr (0, us))) (\<lambda>(ret, u', s'). ret = 0 \<and> P u' s')"
    unfolding rok_rbind by (rule rok_mono [OF assms(2)]) auto
  with f assms(2) show ?thesis by auto
qed

definition desc :: "nat \<Rightarrow> 'z kvm_scheme \<Rightarrow> u64 \<Rightarrow> nat \<Rightarrow> 'z kvm_scheme \<Rightarrow> nat list \<Rightarrow> bool" where
  "desc k s0 va pml4 s ts \<longleftrightarrow> vm_ok s \<and> chain s va ts \<and> last ts = pml4 \<and> length ts = Suc k \<and>
     good_from (3 - k) s va ts \<and> grow k s0 s"

lemma desc_step:
  assumes d: "desc k s0 va pml4 s ts" and k: "k < 3" and room: "3 \<le> card (free_frames s0)" and cb: "alloc_cb cb"
  shows "rok (call_pte cb (hd ts, ix k va) b en (u, s)) (\<lambda>(ret, u', s'). ret = 0 \<and> u' = u \<and>
     (\<exists>t. link s' (hd ts) k va = Some t \<and> t < npages s' \<and> desc (Suc k) s0 va pml4 s' (t # ts)))"
proof -
  have len: "length ts = Suc k" and n: "3 - k = Suc (3 - Suc k)" using d k by (auto simp: desc_def)
  have "0 < card (free_frames s)" using d room k by (auto simp: desc_def grow_def)
  then have A: "rok (ptbl_alloc (cur_entry va ts) b en (u, s)) (\<lambda>(ret, u', s'). ret = 0 \<and> u' = u \<and> vm_ok s' \<and> grow 1 s s' \<and>
     (\<exists>t. link s' (hd ts) (length ts - 1) va = Some t \<and> chain s' va (t # ts) \<and> good_from (3 - Suc k) s' va (t # ts)))"
    by (intro alloc_step) (use d n in \<open>auto simp: desc_def\<close>)
  have ce: "cur_entry va ts = (hd ts, ix k va)" using len by (simp add: cur_entry_def)
  have "rok (ptbl_alloc (hd ts, ix k va) b en (u, s)) (\<lambda>(ret, u', s'). ret = 0 \<and> u' = u \<and>
     (\<exists>t. link s' (hd ts) k va = Some t \<and> t < npages s' \<and> desc (Suc k) s0 va pml4 s' (t # ts)))"
  proof (rule rok_mono [OF A [unfolded ce]], clarify, intro conjI refl)
    fix s' t
    assume st: "vm_ok s'" "grow 1 s s'" "link s' (hd ts) (length ts - 1) va = Some t" "chain s' va (t # ts)"
      "good_from (3 - Suc k) s' va (t # ts)"
    have "grow (Suc k) s0 s'" using d grow_trans [of k s0 s 1 s'] st(2) by (simp add: desc_def)
    moreover have "t < npages s'" using good_from_visited [OF st(5)] by (simp add: visited_ok_def)
    ultimately show "\<exists>t. link s' (hd ts) k va = Some t \<and> t < npages s' \<and> desc (Suc k) s0 va pml4 s' (t # ts)"
      using d st len by (intro exI [of _ t]) (auto simp: desc_def)
  qed
  with cb show ?thesis by (rule alloc_cb_rok)
qed

lemma rok_ret0: "rok m (\<lambda>(ret, us). ret = 0 \<and> P us) \<Longrightarrow> rok (ok_then m (\<lambda>s. Inr (0, s))) (\<lambda>(ret, us). ret = 0 \<and> P us)"
  by (auto simp: rok_ok_then elim!: rok_mono)

text \<open>The three levels above the last one: each finds or makes its table and goes on below it.\<close>

lemma desc_pde:
  assumes va: "page_aligned va" "canonical va" and w: "alloc_walker w" and d: "desc 2 s0 va pml4 s ts"
    and room: "3 \<le> card (free_frames s0)"
    and below: "\<And>s ts. desc 3 s0 va pml4 s ts \<Longrightarrow> rok (one_pte w va (hd ts) (u, s)) (\<lambda>(ret, us). ret = 0 \<and> P us)"
  shows "rok (one_pde w va (hd ts) (u, s)) (\<lambda>(ret, us). ret = 0 \<and> P us)"
proof -
  have w': "alloc_cb (pde_callback w)" "pde_unmap w = None" using w by (auto simp: alloc_walker_def)
  have "rok (call_pte (pde_callback w) (hd ts, ix 2 va) va (va + 4092) (u, s)) (\<lambda>(ret, u', s'). ret = 0 \<and> u' = u \<and>
     (\<exists>t. link s' (hd ts) 2 va = Some t \<and> t < npages s' \<and> desc (Suc 2) s0 va pml4 s' (t # ts)))"
    by (rule desc_step [OF d _ room w'(1)]) simp
  then obtain s' t where cb: "call_pte (pde_callback w) (hd ts, PAGE_DIR_INDEX va) va (va + 4092) (u, s) = Inr (0, u, s')"
    and l: "link s' (hd ts) 2 va = Some t" and t: "t < npages s'" and d': "desc 3 s0 va pml4 s' (t # ts)"
    by (auto simp: rok_iff numeral_3_eq_3 numeral_2_eq_2)
  have "present (rd (hd ts, PAGE_DIR_INDEX va) s')" "\<not> is_huge (rd (hd ts, PAGE_DIR_INDEX va) s')"
      "PAGE_INDEX (PAGE_ADDR (rd (hd ts, PAGE_DIR_INDEX va) s')) = t"
    using l by (auto simp: link_unfold entry_frame_def split: if_splits)
  with cb t w'(2) have "one_pde w va (hd ts) (u, s) =
      ok_then (ok_then (one_pte w va t (u, s')) (\<lambda>s. Inr (0, s))) (\<lambda>s. Inr (0, s))"
    by (simp add: one_pde_def pdir_body_def ret0_def KADDR_def walk_one_levels(1) [OF va])
  with below [OF d'] show ?thesis by (simp add: rok_ret0)
qed

lemma desc_pdpte:
  assumes va: "page_aligned va" "canonical va" and w: "alloc_walker w" and d: "desc 1 s0 va pml4 s ts"
    and room: "3 \<le> card (free_frames s0)"
    and below: "\<And>s ts. desc 3 s0 va pml4 s ts \<Longrightarrow> rok (one_pte w va (hd ts) (u, s)) (\<lambda>(ret, us). ret = 0 \<and> P us)"
  shows "rok (one_pdpte w va (hd ts) (u, s)) (\<lambda>(ret, us). ret = 0 \<and> P us)"
proof -
  have w': "alloc_cb (pdpte_callback w)" "pdpte_unmap w = None" using w by (auto simp: alloc_walker_def)
  have "rok (call_pte (pdpte_callback w) (hd ts, ix 1 va) va (va + 4093) (u, s)) (\<lambda>(ret, u', s'). ret = 0 \<and> u' = u \<and>
     (\<exists>t. link s' (hd ts) 1 va = Some t \<and> t < npages s' \<and> desc (Suc 1) s0 va pml4 s' (t # ts)))"
    by (rule desc_step [OF d _ room w'(1)]) simp
  then obtain s' t where cb: "call_pte (pdpte_callback w) (hd ts, PDPT_INDEX va) va (va + 4093) (u, s) = Inr (0, u, s')"
    and l: "link s' (hd ts) 1 va = Some t" and t: "t < npages s'" and d': "desc 2 s0 va pml4 s' (t # ts)"
    by (auto simp: rok_iff numeral_2_eq_2)
  have "present (rd (hd ts, PDPT_INDEX va) s')" "\<not> is_huge (rd (hd ts, PDPT_INDEX va) s')"
      "PAGE_INDEX (PAGE_ADDR (rd (hd ts, PDPT_INDEX va) s')) = t"
    using linkD(2) [OF l] by auto
  with cb t w'(2) have "one_pdpte w va (hd ts) (u, s) =
      ok_then (ok_then (one_pde w va t (u, s')) (\<lambda>s. Inr (0, s))) (\<lambda>s. Inr (0, s))"
    by (simp add: one_pdpte_def pdpt_body_def ret0_def KADDR_def walk_one_levels(2) [OF va])
  with desc_pde [OF va w d' room below] show ?thesis by (simp add: rok_ret0)
qed

lemma desc_walk:
  assumes va: "page_aligned va" "canonical va" and w: "alloc_walker w" and d: "desc 0 s va pml4 s [pml4]"
    and room: "3 \<le> card (free_frames s)"
    and below: "\<And>s' ts. desc 3 s va pml4 s' ts \<Longrightarrow> rok (one_pte w va (hd ts) (u, s')) (\<lambda>(ret, us). ret = 0 \<and> P us)"
  shows "rok (walk_page_range pml4 va (va + PAGE_SIZE) w (u, s)) (\<lambda>(ret, us). ret = 0 \<and> P us)"
proof -
  have w': "alloc_cb (pml4e_callback w)" "pml4e_unmap w = None" using w by (auto simp: alloc_walker_def)
  have "rok (call_pte (pml4e_callback w) (hd [pml4], ix 0 va) va (va + 4094) (u, s)) (\<lambda>(ret, u', s'). ret = 0 \<and> u' = u \<and>
     (\<exists>t. link s' (hd [pml4]) 0 va = Some t \<and> t < npages s' \<and> desc (Suc 0) s va pml4 s' (t # [pml4])))"
    by (rule desc_step [OF d _ room w'(1)]) simp
  then obtain s' t where cb: "call_pte (pml4e_callback w) (pml4, PML4_INDEX va) va (va + 4094) (u, s) = Inr (0, u, s')"
    and l: "link s' pml4 0 va = Some t" and t: "t < npages s'" and d': "desc 1 s va pml4 s' [t, pml4]"
    by (auto simp: rok_iff)
  have "present (rd (pml4, PML4_INDEX va) s')" "PAGE_INDEX (PAGE_ADDR (rd (pml4, PML4_INDEX va) s')) = t"
    using linkD(1) [OF l] by auto
  with cb t w'(2) have "walk_page_range pml4 va (va + PAGE_SIZE) w (u, s) =
      ok_then (ok_then (one_pdpte w va t (u, s')) (\<lambda>s. Inr (0, s))) (\<lambda>s. Inr (0, s))"
    unfolding walk_one_page [OF va] by (simp add: pml4_body_def ret0_def KADDR_def walk_one_levels(3) [OF va])
  with desc_pdpte [OF va w d' room below] show ?thesis by (simp add: rok_ret0)
qed

section \<open>Inserting a page\<close>

lemma present_PRESENT: "present PAGE_PRESENT"
  by (simp add: present_def PAGE_PRESENT_def)

lemma free_frames_same:
  assumes "npages s' = npages s"
    and "\<And>i. pp_order (pages s' i) = pp_order (pages s i) \<and> pp_free (pages s' i) = pp_free (pages s i)"
  shows "free_frames s' = free_frames s"
proof -
  have "freeset n (pages s') = freeset n (pages s)" "blk (pages s') i = blk (pages s) i" for n i
    using assms(2) by (auto simp: freeset_def blk_def)
  then show ?thesis by (simp add: free_frames_def frames_def assms(1))
qed

lemma add_swap_links:
  assumes kl: "klinks (lh s) L" and sw: "swap_rings n L" and p: "p < n"
  shows "\<exists>h L'. add_swap_page p s = s\<lparr>lh := h\<rparr> \<and> klinks h L' \<and> swap_rings n L' \<and>
     (\<forall>a. buddy_anchor a \<longrightarrow> L' a = L a) \<and> swap_linked L' p"
proof (cases "L (SwapNode p) = Some []")
  case True
  obtain xs where xs: "L SwapHead = Some xs" using sw by (auto simp: swap_rings_def)
  have e: "list_is_empty (SwapNode p) (lh s)"
    using rings.family_isempty [OF klinks_family [OF kl] True] by simp
  let ?L = "L(SwapHead \<mapsto> SwapNode p # xs, SwapNode p := None)"
  have "klinks (list_add SwapHead (SwapNode p) (lh s)) ?L"
    by (rule klinks_add [OF kl xs True]) simp
  moreover have "swap_rings n ?L"
    using sw xs by (auto simp: swap_rings_def swap_known_def swap_linked_def)
  ultimately show ?thesis
    using e by (intro exI [of _ "list_add SwapHead (SwapNode p) (lh s)"] exI [of _ ?L])
      (auto simp: add_swap_page_def klist_add_def buddy_anchor_def swap_linked_def)
next
  case False
  with sw p obtain xs where xs: "L SwapHead = Some xs" "SwapNode p \<in> set xs"
    by (auto simp: swap_rings_def swap_known_def swap_linked_def)
  have "\<not> list_is_empty (SwapNode p) (lh s)"
    using is_list_in_nodes(1) [OF rings.family_rep [OF klinks_family [OF kl] xs(1)] xs(2)]
    by (simp add: list_is_empty_def)
  then show ?thesis
    using kl sw xs by (intro exI [of _ "lh s"] exI [of _ L]) (auto simp: add_swap_page_def swap_linked_def)
qed

text \<open>The effect of the middle part of \<^verbatim>\<open>insert_pte\<close> and \<^verbatim>\<open>populate_pte\<close>: only the \<open>rmap\<close> of the page, the
  replacement list and its lock.\<close>

definition rmap_set :: "nat \<Rightarrow> nat option \<Rightarrow> 'z kvm_scheme \<Rightarrow> 'z kvm_scheme \<Rightarrow> bool" where
  "rmap_set p r s s' \<longleftrightarrow> vm_ok s' \<and>
     (\<exists>h l. s' = (pp_upd p (\<lambda>q. q\<lparr>pp_rmap := r\<rparr>) s)\<lparr>lh := h, swap_lock := l\<rparr> \<and> lock_free l)"

lemma attach_vma_spec:
  assumes ok: "vm_ok s" and p: "p < npages s" and fv: "fv s base = Some r" and lock: "lock_free (swap_lock s)"
  shows "rok (attach_vma fv base p s) (\<lambda>s'. rmap_set p r s s')"
proof -
  obtain L where inv: "buddy_inv s L" and sw: "swap_rings (npages s) L" using ok by (auto simp: vm_ok_def)
  let ?t = "pp_upd p (\<lambda>q. q\<lparr>pp_rmap := r\<rparr>) s"
  obtain l where l: "spin_lock (swap_lock s) (this_cpu s) [] 0 = Inr l" "holding l (this_cpu s)"
    using spin_lock_free [OF lock, of "this_cpu s" "[]" 0] by (auto simp: rok_iff)
  obtain l' where l': "spin_unlock l (this_cpu s) = Inr l'" "lock_free l'"
    using spin_unlock_holding [OF l(2)] by (auto simp: rok_iff)
  let ?u = "?t\<lparr>swap_lock := l\<rparr>"
  have kl: "klinks (lh ?u) L"
    using inv by (auto simp: buddy_inv_def pp_upd_def dest: buddy_relD(2))
  obtain h L' where h: "add_swap_page p ?u = ?u\<lparr>lh := h\<rparr>" and kl': "klinks h L'" and sw': "swap_rings (npages s) L'"
    and ba: "\<And>a. buddy_anchor a \<Longrightarrow> L' a = L a"
    using add_swap_links [OF kl sw p] by blast
  let ?v = "?t\<lparr>lh := h, swap_lock := l'\<rparr>"
  have eq: "attach_vma fv base p s = Inr ?v"
    using fv l(1) l'(1) h by (simp add: attach_vma_def swap_locked_def pp_upd_def)
  have inv1: "buddy_inv ?t L" "free_frames ?t = free_frames s"
    by (rule vm_ok_change [OF inv]; simp add: pp_upd_def)+
  have "buddy_inv (?t\<lparr>lh := h\<rparr>) L'"
    using buddy_rel_links [of ?t L "{}" h L'] inv1(1) kl' ba by (simp add: buddy_inv_def)
  then have "buddy_inv ?v L'" by (rule vm_ok_change) simp_all
  moreover have ff: "free_frames ?v = free_frames s"
    using inv1(2) by (simp add: free_frames_def pp_upd_def)
  moreover have "pmem ?v i = (\<lambda>_. 0)" if "i \<in> free_frames s" "pp_zero (pages ?v i) \<noteq> 0" for i
    using that ok by (auto simp: vm_ok_def pp_upd_def split: if_splits)
  ultimately have "vm_ok ?v"
    using sw' ok by (auto simp: vm_ok_def pp_upd_def)
  then show ?thesis unfolding eq using l'(2) by (auto simp: rmap_set_def)
qed

lemma rmap_none:
  assumes ok: "vm_ok s" and lock: "lock_free (swap_lock s)"
  shows "rmap_set p None s (pp_upd p (\<lambda>q. q\<lparr>pp_rmap := None\<rparr>) s)"
proof -
  obtain L where inv: "buddy_inv s L" and sw: "swap_rings (npages s) L" using ok by (auto simp: vm_ok_def)
  let ?t = "pp_upd p (\<lambda>q. q\<lparr>pp_rmap := None\<rparr>) s"
  have inv1: "buddy_inv ?t L" "free_frames ?t = free_frames s"
    by (rule vm_ok_change [OF inv]; simp add: pp_upd_def)+
  have "pmem ?t i = (\<lambda>_. 0)" if "i \<in> free_frames s" "pp_zero (pages ?t i) \<noteq> 0" for i
    using that ok by (auto simp: vm_ok_def pp_upd_def split: if_splits)
  then have "vm_ok ?t" using inv1 sw ok by (auto simp: vm_ok_def pp_upd_def)
  moreover have "?t = ?t\<lparr>lh := lh s, swap_lock := swap_lock s\<rparr>" by (simp add: pp_upd_def)
  ultimately show ?thesis using lock by (auto simp: rmap_set_def)
qed

text \<open>
  The state after the last level: the entry names the page with the flags, the page has one
  reference more, nothing else that was mapped has changed.
\<close>

definition map_post ::
  "'z kvm_scheme \<Rightarrow> nat \<Rightarrow> u64 \<Rightarrow> nat \<Rightarrow> u64 \<Rightarrow> 'z kvm_scheme \<Rightarrow> bool" where
  "map_post s pml4 va p flags s' \<longleftrightarrow> vm_ok s' \<and> npages s' = npages s \<and> lock_free (swap_lock s') \<and>
     cr3 s' = cr3 s \<and> cur_task s' = cur_task s \<and> kvm.more s' = kvm.more s \<and>
     (\<exists>e. mapped s' pml4 va = Some e \<and> rd e s' = page2pa p OR flags OR PAGE_PRESENT) \<and>
     free_frames s' \<subseteq> free_frames s \<and> card (free_frames s) \<le> 3 + card (free_frames s') \<and>
     pp_ref (pages s' p) = pp_ref (pages s p) + 1 \<and>
     (\<forall>i. i \<notin> free_frames s \<longrightarrow> i \<noteq> p \<longrightarrow> pp_ref (pages s' i) = pp_ref (pages s i)) \<and>
     (\<forall>x. fst x \<notin> free_frames s \<longrightarrow> present (rd x s) \<longrightarrow> rd x s' = rd x s)"

lemma desc_leaf:
  assumes "desc 3 s0 va pml4 s ts"
  shows "leaf s pml4 va = Some (hd ts, ix 3 va)" and "\<not> present (rd (hd ts, ix 3 va) s)"
    and "hd ts \<notin> free_frames s" and "hd ts \<notin> set (tl ts)"
proof -
  have len: "length ts = 4" and g: "good_from 0 s va ts" and ch: "chain s va ts" and la: "last ts = pml4"
    using assms by (auto simp: desc_def)
  then obtain a b c d where ts: "ts = [a, b, c, d]"
    by (auto simp: numeral_eq_Suc length_Suc_conv)
  show "leaf s pml4 va = Some (hd ts, ix 3 va)"
    using ch la by (simp add: ts leaf_def numeral_2_eq_2)
  show "\<not> present (rd (hd ts, ix 3 va) s)" "hd ts \<notin> free_frames s" "hd ts \<notin> set (tl ts)"
    using g by (auto simp: ts cur_entry_def visited_ok_def)
qed

lemma leaf_chain:
  assumes "chain s va ts" and "length ts = 4" and "last ts = pml4"
  shows "leaf s pml4 va = Some (hd ts, ix 3 va)"
proof -
  obtain a b c d where ts: "ts = [a, b, c, d]"
    using assms(2) by (auto simp: numeral_eq_Suc length_Suc_conv)
  show ?thesis using assms by (simp add: ts leaf_def numeral_2_eq_2)
qed

lemma kvm_more: "kmem.more s = kmem.more t \<Longrightarrow> cr3 s = cr3 t \<and> swap_lock s = swap_lock t \<and> cur_task s = cur_task t \<and>
    tlb_log s = tlb_log t \<and> kvm.more s = kvm.more t"
  by (cases s; cases t) simp

lemma insert_leaf:
  assumes d: "desc 3 s0 va pml4 s ts" and r: "rmap_set p r s s1" and p: "p \<notin> free_frames s0"
    and e: "e = (hd ts, ix 3 va)" and v: "v = page2pa p OR flags OR PAGE_PRESENT"
  shows "map_post s0 pml4 va p flags (wr e v (ref_inc p s1))"
proof -
  let ?s = "wr e v (ref_inc p s1)"
  obtain h l where s1: "s1 = (pp_upd p (\<lambda>q. q\<lparr>pp_rmap := r\<rparr>) s)\<lparr>lh := h, swap_lock := l\<rparr>"
    and l: "lock_free l" and ok1: "vm_ok s1" using r by (auto simp: rmap_set_def)
  note leaf = desc_leaf [OF d]
  have g: "grow 3 s0 s" using d by (simp add: desc_def)
  have rd1: "rd x ?s = (if x = e then v else rd x s)" for x
    by (simp add: rd_wr) (simp add: rd_def s1 ref_inc_def pp_upd_def)
  have pg: "pages (ref_inc p s1) = (pages s)(p := (pages s p)\<lparr>pp_rmap := r, pp_ref := pp_ref (pages s p) + 1\<rparr>)"
    by (simp add: s1 ref_inc_def pp_upd_def)
  obtain L where inv1: "buddy_inv s1 L" and sw: "swap_rings (npages s1) L" using ok1 by (auto simp: vm_ok_def)
  have inv: "buddy_inv ?s L" and ff1: "free_frames ?s = free_frames s1"
    by (rule vm_ok_change [OF inv1]; simp add: ref_inc_def pp_upd_def)+
  have ff: "free_frames s1 = free_frames s"
    by (rule free_frames_same) (simp_all add: s1 pp_upd_def)
  have "pmem ?s i = (\<lambda>_. 0)" if i: "i \<in> free_frames s" "pp_zero (pages ?s i) \<noteq> 0" for i
  proof -
    have "pp_zero (pages s1 i) \<noteq> 0" using i(2) by (auto simp: ref_inc_def pp_upd_def split: if_splits)
    then have "pmem s1 i = (\<lambda>_. 0)" using ok1 i(1) ff by (auto simp: vm_ok_def)
    moreover have "i \<noteq> fst e" using i(1) leaf(3) e by auto
    ultimately show ?thesis by (simp add: wr_def ref_inc_def pp_upd_def)
  qed
  then have ok: "vm_ok ?s" using inv ff1 ff sw ok1 by (auto simp: vm_ok_def ref_inc_def pp_upd_def)
  have "chain ?s va ts"
    by (rule chain_same [of s]) (use d leaf(4) rd1 e in \<open>auto simp: desc_def\<close>)
  then have "leaf ?s pml4 va = Some e" using d e leaf_chain [of ?s va ts pml4] by (simp add: desc_def)
  moreover have "present v" by (simp add: v present_or present_PRESENT)
  ultimately have m: "mapped ?s pml4 va = Some e" by (simp add: mapped_def rd1)
  have present: "rd x ?s = rd x s0" if "fst x \<notin> free_frames s0" "present (rd x s0)" for x
  proof -
    have "rd x s = rd x s0" using g that unfolding grow_def by blast
    moreover from this have "x \<noteq> e" using leaf(2) that(2) e by auto
    ultimately show ?thesis by (simp add: rd1)
  qed
  have k: "kmem.more s = kmem.more s0" using g by (simp add: grow_def)
  show ?thesis
    unfolding map_post_def
  proof (intro conjI exI [of _ e])
    show "pp_ref (pages ?s p) = pp_ref (pages s0 p) + 1" using g p by (simp add: pg grow_def)
    show "\<forall>i. i \<notin> free_frames s0 \<longrightarrow> i \<noteq> p \<longrightarrow> pp_ref (pages ?s i) = pp_ref (pages s0 i)"
      using g by (simp add: pg grow_def)
    show "free_frames ?s \<subseteq> free_frames s0" "card (free_frames s0) \<le> 3 + card (free_frames ?s)" "npages ?s = npages s0"
      using g ff ff1 by (simp_all add: grow_def s1 ref_inc_def pp_upd_def)
    show "lock_free (swap_lock ?s)" using l by (simp add: s1 ref_inc_def pp_upd_def wr_def)
    show "cr3 ?s = cr3 s0" "cur_task ?s = cur_task s0" "kvm.more ?s = kvm.more s0"
      using kvm_more [OF k] by (simp_all add: s1 ref_inc_def pp_upd_def wr_def)
    show "vm_ok ?s" by (rule ok)
    show "mapped ?s pml4 va = Some e" by (rule m)
    show "rd e ?s = page2pa p OR flags OR PAGE_PRESENT" by (simp add: v)
    show "\<forall>x. fst x \<notin> free_frames s0 \<longrightarrow> present (rd x s0) \<longrightarrow> rd x ?s = rd x s0" using present by blast
  qed
qed

lemma insert_pte_leaf:
  assumes d: "desc 3 s0 va pml4 s ts" and p: "p < npages s0" "p \<notin> free_frames s0" and lock: "lock_free (swap_lock s0)"
    and u: "flags AND PAGE_USER \<noteq> 0 \<Longrightarrow> cur_task s0 \<noteq> None \<and> va < USER_LIM \<and> (\<exists>r. \<forall>t. kmem.more t = kmem.more s0 \<longrightarrow> fv t va = Some r)"
  shows "rok (one_pte (insert_walker fv) va (hd ts) (\<lparr>ins_pml4 = pml4, ins_page = p, ins_flags = flags\<rparr>, s))
     (\<lambda>(ret, us). ret = 0 \<and> map_post s0 pml4 va p flags (snd us))"
proof -
  note leaf = desc_leaf [OF d]
  have ok: "vm_ok s" and k: "kmem.more s = kmem.more s0" and n: "npages s = npages s0"
    using d by (auto simp: desc_def grow_def)
  note st = kvm_more [OF k]
  let ?e = "(hd ts, PAGE_TABLE_INDEX va)"
  let ?m = "if flags AND PAGE_USER \<noteq> 0 then kassert (cur_task s \<noteq> None) (kassert (va < USER_LIM) (attach_vma fv va p s))
      else Inr (pp_upd p (\<lambda>q. q\<lparr>pp_rmap := None\<rparr>) s)"
  have "rok ?m (\<lambda>s1. \<exists>r. rmap_set p r s s1)"
  proof (cases "flags AND PAGE_USER = 0")
    case True
    with rmap_none [OF ok] lock st show ?thesis by auto
  next
    case False
    with u k obtain r where r: "fv s va = Some r" and c: "cur_task s0 \<noteq> None" "va < USER_LIM" by blast
    with False st lock p n attach_vma_spec [OF ok, of p fv va r] show ?thesis
      by (auto simp: rok_kassert elim!: rok_mono)
  qed
  then obtain s1 r where s1: "?m = Inr s1" "rmap_set p r s s1" by (auto simp: rok_iff)
  let ?s = "wr ?e (page2pa p OR flags OR PAGE_PRESENT) (ref_inc p s1)"
  have "insert_pte fv ?e va (va + 4091) (\<lparr>ins_pml4 = pml4, ins_page = p, ins_flags = flags\<rparr>, s)
      = Inr (0, \<lparr>ins_pml4 = pml4, ins_page = p, ins_flags = flags\<rparr>, ?s)"
    using leaf(2) s1(1) p(1) n
    by (cases "flags AND PAGE_USER = 0") (simp_all add: insert_pte_def Let_def ref_inc_def or.assoc)
  then have "one_pte (insert_walker fv) va (hd ts) (\<lparr>ins_pml4 = pml4, ins_page = p, ins_flags = flags\<rparr>, s)
      = Inr (0, \<lparr>ins_pml4 = pml4, ins_page = p, ins_flags = flags\<rparr>, ?s)"
    by (simp add: one_pte_def ptbl_body_def Let_def ret0_def insert_walker_def no_walker_def)
  moreover have "map_post s0 pml4 va p flags ?s"
    by (rule insert_leaf [OF d s1(2) p(2)]) simp_all
  ultimately show ?thesis by simp
qed

lemma page_insert_spec:
  assumes va: "page_aligned va" "canonical va" and ok: "vm_ok s" and good: "good_from 3 s va [pml4]"
    and room: "3 \<le> card (free_frames s)" and p: "p < npages s" "p \<notin> free_frames s" and lock: "lock_free (swap_lock s)"
    and u: "flags AND PAGE_USER \<noteq> 0 \<Longrightarrow> cur_task s \<noteq> None \<and> va < USER_LIM \<and> (\<exists>r. \<forall>t. kmem.more t = kmem.more s \<longrightarrow> fv t va = Some r)"
  shows "rok (page_insert fv pml4 p va flags s) (\<lambda>(ret, s'). ret = 0 \<and> map_post s pml4 va p flags s')"
proof -
  have d: "desc 0 s va pml4 s [pml4]" using ok good by (simp add: desc_def grow_refl)
  have "rok (walk_page_range pml4 va (va + PAGE_SIZE) (insert_walker fv)
      (\<lparr>ins_pml4 = pml4, ins_page = p, ins_flags = flags\<rparr>, s))
      (\<lambda>(ret, us). ret = 0 \<and> map_post s pml4 va p flags (snd us))"
  proof (rule desc_walk [OF va alloc_walkers(1) d room])
    fix s' ts
    assume "desc 3 s va pml4 s' ts"
    then show "rok (one_pte (insert_walker fv) va (hd ts) (\<lparr>ins_pml4 = pml4, ins_page = p, ins_flags = flags\<rparr>, s'))
        (\<lambda>(ret, us). ret = 0 \<and> map_post s pml4 va p flags (snd us))"
      using u by (rule insert_pte_leaf [OF _ p lock]) auto
  qed
  then show ?thesis
    unfolding page_insert_def rok_rbind by (rule rok_mono) auto
qed

end
