(* ===== verification/Boot.thy ===== *)
theory Boot
  imports Page_Table_Spec
begin

text \<open>
  Memory initialisation: the boot allocator and the alignment of the boot loader's memory map
  (kernel/mem/boot.c), the set-up of the page metadata and the hand-over of all usable frames to
  the buddy allocator (kernel/mem/init.c), and the metadata chunks for the memory above the boot
  limit (\<^verbatim>\<open>buddy_map_chunk\<close> of kernel/mem/buddy.c).
\<close>

section \<open>Data\<close>

definition KERNEL_LMA :: u64 where "KERNEL_LMA = 0x100000"
definition MMAP_FREE :: u32 where "MMAP_FREE = 1"

record mmap_entry =
  me_addr :: u64
  me_len :: u64
  me_type :: u32

text \<open>
  \<^verbatim>\<open>struct boot_info\<close>: \<open>bi_mmap\<close> is the array of entries at \<open>bi_mmap_addr\<close>, \<open>bi_self\<close> the
  address of the structure itself, \<open>bi_hdrs\<close> the program headers of the ELF header.
\<close>

record boot_info =
  bi_self :: u64
  bi_mmap_addr :: u32
  bi_mmap :: "mmap_entry list"
  bi_elf_hdr :: u64
  bi_hdrs :: "elf_proghdr list"

text \<open>
  \<open>next_free\<close> is the static variable of \<^verbatim>\<open>boot_alloc\<close>, \<open>kernel_end\<close> the linker's symbol
  \<^verbatim>\<open>end\<close>, \<open>kernel_pml4\<close> the frame of the kernel's root table.
\<close>

record kboot = kvm +
  next_free :: u64
  kernel_end :: u64
  kernel_pml4 :: nat

section \<open>kernel/mem/boot.c\<close>

text \<open>\<^verbatim>\<open>ROUNDUP(n, PAGE_SIZE)\<close> has the type of \<open>n\<close>, here 32 bits.\<close>

definition ROUNDUP32 :: "u32 \<Rightarrow> u64 \<Rightarrow> u32" where
  "ROUNDUP32 a n = ucast (ROUNDUP (ucast a) n)"

definition boot_alloc :: "u32 \<Rightarrow> 'z kboot_scheme \<Rightarrow> (u64 \<times> 'z kboot_scheme) res" where
  "boot_alloc n s =
     (let nf = (if next_free s = 0 then ROUNDUP (kernel_end s) PAGE_SIZE else next_free s);
          result = nf;
          nf' = (if n > 0 then nf + ucast (ROUNDUP32 n PAGE_SIZE) else nf);
          s' = s\<lparr>next_free := nf'\<rparr>
      in if sint nf' > sint BOOT_MAP_LIM then Inl KPanic else Inr (result, s'))"

definition align_entry :: "mmap_entry \<Rightarrow> mmap_entry" where
  "align_entry e =
     (if me_type e = MMAP_FREE then
        let base = ROUNDUP (me_addr e) PAGE_SIZE;
            end = me_len e - (base - me_addr e);
            end = ROUNDDOWN (base + end) PAGE_SIZE
        in e\<lparr>me_addr := base, me_len := end - base\<rparr>
      else
        let base = ROUNDDOWN (me_addr e) PAGE_SIZE;
            end = me_len e + (me_addr e - base);
            end = ROUNDUP (base + end) PAGE_SIZE
        in e\<lparr>me_addr := base, me_len := end - base\<rparr>)"

definition align_boot_info :: "boot_info \<Rightarrow> boot_info" where
  "align_boot_info bi = bi\<lparr>bi_mmap := map align_entry (bi_mmap bi)\<rparr>"

section \<open>kernel/mem/init.c\<close>

definition init_page_info :: "nat \<Rightarrow> 'z kmem_scheme \<Rightarrow> 'z kmem_scheme" where
  "init_page_info i s =
     pp_upd i (\<lambda>p. p\<lparr>pp_ref := 0, pp_free := False, pp_order := 0\<rparr>)
       (s\<lparr>lh := list_init (SwapNode i) (list_init (PpNode i) (lh s))\<rparr>)"

text \<open>
  The loop over the pages of a region. An address that wraps around starts again below the end
  of the region, so the loop of the source never ends then.
\<close>

function page_loop :: "(u64 \<Rightarrow> 's \<Rightarrow> 's res) \<Rightarrow> u64 \<Rightarrow> u64 \<Rightarrow> 's \<Rightarrow> 's res" where
  "page_loop body j p_end s =
     (if j < p_end then
        rbind (body j s) (\<lambda>s.
          if j + PAGE_SIZE < j then Inl KDiverge else page_loop body (j + PAGE_SIZE) p_end s)
      else Inr s)"
  by pat_completeness auto
termination
proof (relation "measure (\<lambda>(body, j, p_end, s). 2 ^ 64 - unat j)", simp, goal_cases)
  case (1 body j p_end s s')
  then have "j < j + PAGE_SIZE" by (simp add: PAGE_SIZE_def not_less order_less_le)
  moreover have "unat j < 2 ^ 64" using unsigned_less [of j] by simp
  ultimately show ?case by (simp add: word_less_nat_alt)
qed

declare page_loop.simps [simp del]

fun free_entries :: "(u64 \<Rightarrow> 's \<Rightarrow> 's res) \<Rightarrow> mmap_entry list \<Rightarrow> 's \<Rightarrow> 's res" where
  "free_entries body [] s = Inr s"
| "free_entries body (e # es) s =
     rbind (if me_type e = MMAP_FREE then
              let p_start = me_addr e; p_end = p_start + me_len e in page_loop body p_start p_end s
            else Inr s) (free_entries body es)"

definition page_init_body :: "boot_info \<Rightarrow> u64 \<Rightarrow> u64 \<Rightarrow> 'z kmem_scheme \<Rightarrow> 'z kmem_scheme res" where
  "page_init_body bi end j s =
     (if j < BOOT_MAP_LIM \<and> j \<noteq> 0 then
        rbind (PADDR (bi_self bi)) (\<lambda>pbi.
          if j \<noteq> PAGE_ADDR pbi \<and> j \<noteq> bi_elf_hdr bi \<and> (j < KERNEL_LMA \<or> j \<ge> end)
          then page_free (PAGE_INDEX j) s else Inr s)
      else Inr s)"

definition page_init :: "boot_info \<Rightarrow> 'z kboot_scheme \<Rightarrow> 'z kboot_scheme res" where
  "page_init bi s =
     (let s = fold init_page_info [0..<npages s] s in
      rbind (KADDR (ucast (bi_mmap_addr bi)) s) (\<lambda>_.
      rbind (boot_alloc 0 s) (\<lambda>(nf, s).
      rbind (PADDR nf) (\<lambda>end. free_entries (page_init_body bi end) (bi_mmap bi) s))))"

text \<open>The highest address: the end of the last free entry of the map.\<close>

definition highest_addr :: "mmap_entry list \<Rightarrow> u64" where
  "highest_addr es = fold (\<lambda>e h. if me_type e \<noteq> MMAP_FREE then h else me_addr e + me_len e) es 0"

definition SIZEOF_PAGE_INFO :: nat where "SIZEOF_PAGE_INFO = 72"

text \<open>\<^verbatim>\<open>mem_init\<close> up to the call of \<^verbatim>\<open>page_init\<close>.\<close>

definition mem_init_pages :: "boot_info \<Rightarrow> 'z kboot_scheme \<Rightarrow> 'z kboot_scheme res" where
  "mem_init_pages bi s =
     (let bi = align_boot_info bi;
          s = s\<lparr>lh := fold (\<lambda>i. list_init (BuddyHead i)) [0..<BUDDY_MAX_ORDER] (lh s)\<rparr>;
          s = s\<lparr>npages := unat (min BOOT_MAP_LIM (highest_addr (bi_mmap bi)) div PAGE_SIZE)\<rparr>
      in rbind (boot_alloc (of_nat (npages s * SIZEOF_PAGE_INFO)) s) (\<lambda>(_, s). page_init bi s))"

text \<open>
  \<^verbatim>\<open>buddy_map_chunk\<close>: the metadata of 512 more frames, in freshly allocated zeroed pages that are
  mapped behind the metadata array at \<^verbatim>\<open>KPAGES\<close>.
\<close>

definition nblocks :: nat where "nblocks = 512"
definition nalloc :: nat where "nalloc = nblocks * SIZEOF_PAGE_INFO div 4096"

definition zero_page_info :: page_info where
  "zero_page_info = \<lparr>pp_ref = 0, pp_order = 0, pp_free = False, pp_zero = 0, pp_rmap = None\<rparr>"

fun map_chunk_pages ::
  "'z find_vma \<Rightarrow> nat \<Rightarrow> u64 \<Rightarrow> nat list \<Rightarrow> 'z kvm_scheme \<Rightarrow> (int \<times> 'z kvm_scheme) res" where
  "map_chunk_pages fv pml4 base [] s = Inr (0, s)"
| "map_chunk_pages fv pml4 base (i # is) s =
     rbind (page_alloc ALLOC_ZERO s) (\<lambda>(page, s).
       case page of None \<Rightarrow> Inr (- 1, s)
       | Some p \<Rightarrow>
         rbind (page_insert fv pml4 p (base + of_nat i * PAGE_SIZE)
                  (PAGE_PRESENT OR PAGE_WRITE OR PAGE_NO_EXEC) s) (\<lambda>(ret, s).
           if ret < 0 then Inr (- 1, s) else map_chunk_pages fv pml4 base is s))"

definition init_chunk_page :: "nat \<Rightarrow> 'z kmem_scheme \<Rightarrow> 'z kmem_scheme" where
  "init_chunk_page i s =
     pp_upd i (\<lambda>_. zero_page_info) (s\<lparr>lh := list_init (SwapNode i) (list_init (PpNode i) (lh s))\<rparr>)"

definition buddy_map_chunk :: "'z find_vma \<Rightarrow> nat \<Rightarrow> nat \<Rightarrow> 'z kvm_scheme \<Rightarrow> (int \<times> 'z kvm_scheme) res" where
  "buddy_map_chunk fv pml4 index s =
     (let index = index - index mod nblocks;
          base = KPAGES + of_nat (index * SIZEOF_PAGE_INFO)
      in rbind (map_chunk_pages fv pml4 base [0..<nalloc] s) (\<lambda>(ret, s).
         if ret < 0 then Inr (- 1, s)
         else let s = fold init_chunk_page [index..<index + nblocks] s
              in Inr (0, s\<lparr>npages := index + nblocks\<rparr>)))"

definition page_init_ext_body :: "'z find_vma \<Rightarrow> nat \<Rightarrow> u64 \<Rightarrow> 'z kvm_scheme \<Rightarrow> 'z kvm_scheme res" where
  "page_init_ext_body fv pml4 j s =
     (if j < BOOT_MAP_LIM then Inr s
      else let index = PAGE_INDEX j in
        rbind (if index \<ge> npages s then
                 rbind (buddy_map_chunk fv pml4 index s) (\<lambda>(ret, s).
                   if ret < 0 then Inl KPanic
                   else boot_map_region pml4 (KERNEL_VMA + j) (512 * PAGE_SIZE) j
                          (PAGE_PRESENT OR PAGE_WRITE OR PAGE_NO_EXEC) s)
               else Inr s) (page_free index))"

definition page_init_ext :: "_ find_vma \<Rightarrow> boot_info \<Rightarrow> 'z kboot_scheme \<Rightarrow> 'z kboot_scheme res" where
  "page_init_ext fv bi s =
     rbind (KADDR (ucast (bi_mmap_addr bi)) s) (\<lambda>_.
     rbind (boot_alloc 0 s) (\<lambda>(nf, s).
     rbind (PADDR nf) (\<lambda>_.
       free_entries (page_init_ext_body fv (kernel_pml4 s)) (bi_mmap bi) s)))"

end
