(* ===== verification/Slab.thy ===== *)
theory Slab
  imports Boot
begin

text \<open>
  The slab allocator of kernel/mem/slab.c and the size classes of kernel/mem/kmem.c. A chunk is
  one page: objects of a fixed size from its start, and a \<^verbatim>\<open>struct slab_info\<close> behind them.
  Objects and chunk footers are named by their physical address (the kernel maps all memory at
  \<^verbatim>\<open>KERNEL_VMA\<close>), slabs by the CPU that owns them and their size class. The words of an
  object's header and of the footer are kept beside \<open>pmem\<close>, which holds the objects' data.
\<close>

section \<open>State\<close>

definition SLAB_ALIGN :: nat where "SLAB_ALIGN = 32"
definition SIZEOF_SLAB_OBJ :: nat where "SIZEOF_SLAB_OBJ = 24"
definition SIZEOF_SLAB_INFO :: nat where "SIZEOF_SLAB_INFO = 48"

record slab =
  info_off :: nat
  obj_size :: nat
  count :: nat

record slab_info =
  si_slab :: nat
  free_count :: nat

record kslab = kboot +
  slabs :: "nat \<Rightarrow> slab"
  sinfo :: "nat \<Rightarrow> slab_info"
  obj_info :: "nat \<Rightarrow> nat"
  nslabs :: "nat \<Rightarrow> nat"

text \<open>\<^verbatim>\<open>this_cpu->kmem._slabs + i\<close>.\<close>

definition slab_ptr :: "nat \<Rightarrow> nat \<Rightarrow> nat" where
  "slab_ptr cpu i = cpu * 32 + i"

definition klist_init :: "anchor \<Rightarrow> 'z kmem_scheme \<Rightarrow> 'z kmem_scheme" where
  "klist_init n s = s\<lparr>lh := list_init n (lh s)\<rparr>"

definition info_upd :: "nat \<Rightarrow> (slab_info \<Rightarrow> slab_info) \<Rightarrow> 'z kslab_scheme \<Rightarrow> 'z kslab_scheme" where
  "info_upd a f s = s\<lparr>sinfo := (sinfo s)(a := f (sinfo s a))\<rparr>"

section \<open>kernel/mem/slab.c\<close>

definition chunk_obj :: "nat \<Rightarrow> nat \<Rightarrow> nat \<Rightarrow> nat \<Rightarrow> 'z kslab_scheme \<Rightarrow> 'z kslab_scheme" where
  "chunk_obj x va info i s =
     (let obj = va + i * obj_size (slabs s x);
          s = klist_init (ObjNode obj) s;
          s = s\<lparr>obj_info := (obj_info s)(obj := info)\<rparr>;
          s = klist_add (InfoFree info) (ObjNode obj) s
      in info_upd info (\<lambda>f. f\<lparr>free_count := (free_count f + 1) mod 2 ^ 64\<rparr>) s)"

definition slab_alloc_chunk :: "nat \<Rightarrow> 'z kslab_scheme \<Rightarrow> (int \<times> 'z kslab_scheme) res" where
  "slab_alloc_chunk x s =
     rbind (page_alloc ALLOC_ZERO s) (\<lambda>(page, s).
     case page of None \<Rightarrow> Inr (- 1, s)
     | Some p \<Rightarrow>
       kassert (pp_ref (pages s p) = 0)
       (rbind (KADDR (page2pa p) s) (\<lambda>_.
        let va = 4096 * p;
            info = va + info_off (slabs s x);
            s = info_upd info (\<lambda>f. f\<lparr>si_slab := x\<rparr>) s;
            s = klist_init (InfoNode info) s;
            s = klist_add (SlabPartial x) (InfoNode info) s;
            s = klist_init (InfoFree info) s;
            s = info_upd info (\<lambda>f. f\<lparr>free_count := 0\<rparr>) s;
            s = fold (chunk_obj x va info) [0..<count (slabs s x)] s
        in kassert (free_count (sinfo s info) = count (slabs s x)) (Inr (0, s)))))"

definition slab_free_chunk :: "nat \<Rightarrow> nat \<Rightarrow> 'z kslab_scheme \<Rightarrow> 'z kslab_scheme res" where
  "slab_free_chunk x info s =
     rbind (klist_del (InfoNode info) s) (\<lambda>s.
     rbind (page_lookup (kernel_pml4 s) (KERNEL_VMA + of_nat (info - info_off (slabs s x))) None s) (\<lambda>(page, _).
     case page of None \<Rightarrow> Inl KPanic | Some p \<Rightarrow> page_free p s))"

definition roundup_nat :: "nat \<Rightarrow> nat \<Rightarrow> nat" where
  "roundup_nat a n = (a + n - 1) - (a + n - 1) mod n"

definition slab_setup :: "nat \<Rightarrow> nat \<Rightarrow> 'z kslab_scheme \<Rightarrow> 'z kslab_scheme" where
  "slab_setup x obj_sz s =
     (let obj_sz = roundup_nat (obj_sz + SIZEOF_SLAB_OBJ) 32;
          cnt = (4096 - SIZEOF_SLAB_INFO) div obj_sz;
          s = s\<lparr>slabs := (slabs s)(x := \<lparr>info_off = obj_sz * cnt, obj_size = obj_sz, count = cnt\<rparr>)\<rparr>;
          s = klist_init (SlabFull x) s
      in klist_init (SlabPartial x) s)"

text \<open>The part of \<^verbatim>\<open>slab_alloc\<close> behind the allocation of a chunk.\<close>

definition slab_take :: "nat \<Rightarrow> 'z kslab_scheme \<Rightarrow> (nat option \<times> 'z kslab_scheme) res" where
  "slab_take x s =
     (case nx (lh s) (SlabPartial x) of InfoNode info \<Rightarrow>
        (case nx (lh s) (InfoFree info) of ObjNode obj \<Rightarrow>
           rbind (klist_del (ObjNode obj) s) (\<lambda>s.
           let s = info_upd info (\<lambda>f. f\<lparr>free_count := (free_count f + (2 ^ 64 - 1)) mod 2 ^ 64\<rparr>) s
           in rbind (if list_is_empty (InfoFree info) (lh s)
                     then rbind (klist_del (InfoNode info) s) (\<lambda>s. Inr (klist_add (SlabFull x) (InfoNode info) s))
                     else Inr s)
                (\<lambda>s. Inr (Some (obj + SIZEOF_SLAB_OBJ), s)))
         | _ \<Rightarrow> Inl KUndef)
      | _ \<Rightarrow> Inl KUndef)"

definition slab_alloc :: "nat \<Rightarrow> 'z kslab_scheme \<Rightarrow> (nat option \<times> 'z kslab_scheme) res" where
  "slab_alloc x s =
     (if list_is_empty (SlabPartial x) (lh s)
      then rbind (slab_alloc_chunk x s) (\<lambda>(ret, s). if ret < 0 then Inr (None, s) else slab_take x s)
      else slab_take x s)"

text \<open>\<^verbatim>\<open>memset(p, 0, n)\<close> on 8-byte words inside one page.\<close>

definition clear_words :: "nat \<Rightarrow> nat \<Rightarrow> 'z kmem_scheme \<Rightarrow> 'z kmem_scheme" where
  "clear_words p n s =
     s\<lparr>pmem := (pmem s)(p div 4096 := (\<lambda>w. if p mod 4096 \<le> 8 * w \<and> 8 * w < p mod 4096 + n then 0
        else pmem s (p div 4096) w))\<rparr>"

definition slab_free :: "nat \<Rightarrow> 'z kslab_scheme \<Rightarrow> 'z kslab_scheme res" where
  "slab_free p s =
     (let obj = p - SIZEOF_SLAB_OBJ;
          info = obj_info s obj;
          x = si_slab (sinfo s info);
          s = clear_words p (obj_size (slabs s x) - SIZEOF_SLAB_OBJ) s
      in rbind (if list_is_empty (InfoFree info) (lh s)
                then rbind (klist_del (InfoNode info) s) (\<lambda>s. Inr (klist_add (SlabPartial x) (InfoNode info) s))
                else Inr s) (\<lambda>s.
         let s = klist_add (InfoFree info) (ObjNode obj) s;
             s = info_upd info (\<lambda>f. f\<lparr>free_count := (free_count f + 1) mod 2 ^ 64\<rparr>) s
         in if free_count (sinfo s info) \<ge> count (slabs s x) then slab_free_chunk x info s else Inr s))"

section \<open>kernel/mem/kmem.c\<close>

definition kmem_init :: "'z kslab_scheme \<Rightarrow> 'z kslab_scheme" where
  "kmem_init s =
     (let s = s\<lparr>nslabs := (nslabs s)(this_cpu s := 32)\<rparr>
      in fold (\<lambda>i s. slab_setup (slab_ptr (this_cpu s) i) ((i + 1) * SLAB_ALIGN) s) [0..<nslabs s (this_cpu s)] s)"

definition kmem_init_mp :: "'z kslab_scheme \<Rightarrow> 'z kslab_scheme" where
  "kmem_init_mp s = kmem_init s"

definition kmalloc :: "u64 \<Rightarrow> 'z kslab_scheme \<Rightarrow> (nat option \<times> 'z kslab_scheme) res" where
  "kmalloc sz s =
     (if sz = 0 then Inr (None, s)
      else let sz = ROUNDUP sz 32;
               index = sz div 32 - 1
           in if index \<ge> of_nat (nslabs s (this_cpu s)) then Inr (None, s)
              else slab_alloc (slab_ptr (this_cpu s) (unat index)) s)"

definition kfree :: "nat \<Rightarrow> 'z kslab_scheme \<Rightarrow> 'z kslab_scheme res" where
  "kfree p s = slab_free p s"

end
