(* ===== verification/RBTree.thy ===== *)
theory RBTree
  imports Prelude "HOL-Library.Tree"
begin

text \<open>
  The red-black trees of lib/rbtree.c on an explicit store of nodes. A node is named by the
  address of the object that embeds it (so \<^verbatim>\<open>container_of\<close> is the identity), 0 is the null pointer,
  and following the null pointer is undefined. Loops are partial functions; a loop that does not
  end is \<open>KDiverge\<close>.
\<close>

section \<open>Nodes and trees\<close>

datatype rb_color = RB_BLACK | RB_RED

record rb_node =
  parent :: nat
  child :: "bool \<Rightarrow> nat"
  color :: rb_color

abbreviation RB_LEFT :: bool where "RB_LEFT \<equiv> False"
abbreviation RB_RIGHT :: bool where "RB_RIGHT \<equiv> True"

text \<open>The nodes and the root of one tree.\<close>

record rb_tree =
  nd :: "nat \<Rightarrow> rb_node"
  root :: nat

definition zero_node :: rb_node where
  "zero_node = \<lparr>parent = 0, child = (\<lambda>_. 0), color = RB_BLACK\<rparr>"

definition nd_upd :: "nat \<Rightarrow> (rb_node \<Rightarrow> rb_node) \<Rightarrow> rb_tree \<Rightarrow> rb_tree" where
  "nd_upd p f T = T\<lparr>nd := (nd T)(p := f (nd T p))\<rparr>"

definition set_child :: "nat \<Rightarrow> bool \<Rightarrow> nat \<Rightarrow> rb_tree \<Rightarrow> rb_tree" where
  "set_child p d c T = nd_upd p (\<lambda>n. n\<lparr>child := (child n)(d := c)\<rparr>) T"

definition set_parent :: "nat \<Rightarrow> nat \<Rightarrow> rb_tree \<Rightarrow> rb_tree" where
  "set_parent p q T = nd_upd p (\<lambda>n. n\<lparr>parent := q\<rparr>) T"

definition set_color :: "nat \<Rightarrow> rb_color \<Rightarrow> rb_tree \<Rightarrow> rb_tree" where
  "set_color p c T = nd_upd p (\<lambda>n. n\<lparr>color := c\<rparr>) T"

definition total :: "'a res option \<Rightarrow> 'a res" where
  "total r = (case r of None \<Rightarrow> Inl KDiverge | Some x \<Rightarrow> x)"

lemma total_simps [simp]: "total None = Inl KDiverge" "total (Some x) = x"
  by (simp_all add: total_def)

section \<open>Operations\<close>

definition rb_init :: "rb_tree \<Rightarrow> rb_tree" where
  "rb_init T = T\<lparr>root := 0\<rparr>"

definition rb_node_init :: "nat \<Rightarrow> rb_tree \<Rightarrow> rb_tree" where
  "rb_node_init p T = nd_upd p (\<lambda>_. zero_node) T"

definition rotate_node :: "nat \<Rightarrow> bool \<Rightarrow> rb_tree \<Rightarrow> rb_tree res" where
  "rotate_node node dir T =
     kdefined (node \<noteq> 0)
     (let par = parent (nd T node);
          ch = child (nd T node) (\<not> dir)
      in kdefined (ch \<noteq> 0)
      (let inner = child (nd T ch) dir;
           T = set_child node (\<not> dir) inner T;
           T = (if inner \<noteq> 0 then set_parent inner node T else T);
           T = set_child ch dir node T;
           T = set_parent ch par T;
           T = (if par \<noteq> 0 then set_child par (child (nd T par) RB_RIGHT = node) ch T
                else T\<lparr>root := ch\<rparr>)
       in Inr (set_parent node ch T)))"

partial_function (option) outermost_loop :: "nat \<Rightarrow> bool \<Rightarrow> rb_tree \<Rightarrow> nat option" where
  "outermost_loop node dir T =
     (if child (nd T node) dir \<noteq> 0 then outermost_loop (child (nd T node) dir) dir T else Some node)"

definition get_outermost :: "nat \<Rightarrow> bool \<Rightarrow> rb_tree \<Rightarrow> nat res" where
  "get_outermost node dir T =
     (if node = 0 then Inr 0 else total (map_option Inr (outermost_loop node dir T)))"

partial_function (option) closest_loop :: "nat \<Rightarrow> bool \<Rightarrow> rb_tree \<Rightarrow> nat option" where
  "closest_loop node dir T =
     (let par = parent (nd T node)
      in if par \<noteq> 0 \<and> child (nd T par) dir = node then closest_loop par dir T else Some par)"

definition get_closest :: "nat \<Rightarrow> bool \<Rightarrow> rb_tree \<Rightarrow> nat res" where
  "get_closest node dir T =
     (if node = 0 then Inr 0
      else if child (nd T node) dir \<noteq> 0 then get_outermost (child (nd T node) dir) (\<not> dir) T
      else total (map_option Inr (closest_loop node dir T)))"

definition rb_first :: "rb_tree \<Rightarrow> nat res" where
  "rb_first T = get_outermost (root T) RB_LEFT T"

definition rb_last :: "rb_tree \<Rightarrow> nat res" where
  "rb_last T = get_outermost (root T) RB_RIGHT T"

definition rb_next :: "nat \<Rightarrow> rb_tree \<Rightarrow> nat res" where
  "rb_next node T = get_closest node RB_RIGHT T"

definition rb_prev :: "nat \<Rightarrow> rb_tree \<Rightarrow> nat res" where
  "rb_prev node T = get_closest node RB_LEFT T"

text \<open>One turn of the loop of \<^verbatim>\<open>rb_balance\<close>, with the node to go on with.\<close>

definition balance_step :: "nat \<Rightarrow> rb_tree \<Rightarrow> (nat \<times> rb_tree) res" where
  "balance_step node T =
     (let par = parent (nd T node);
          gp = parent (nd T par)
      in kdefined (gp \<noteq> 0)
      (let dir = (child (nd T gp) RB_LEFT = par);
           uncle = child (nd T gp) dir
       in if uncle \<noteq> 0 \<and> color (nd T uncle) = RB_RED
          then Inr (gp, set_color gp RB_RED (set_color uncle RB_BLACK (set_color par RB_BLACK T)))
          else
            rbind (if child (nd T par) dir = node
                   then rbind (rotate_node par (\<not> dir) T) (\<lambda>T. Inr (par, parent (nd T par), T))
                   else Inr (node, par, T)) (\<lambda>(node, par, T).
            kdefined (par \<noteq> 0)
            (let T = set_color par RB_BLACK T;
                 T = set_color gp RB_RED T
             in rbind (rotate_node gp dir T) (\<lambda>T. Inr (node, T))))))"

partial_function (option) balance_loop :: "nat \<Rightarrow> rb_tree \<Rightarrow> rb_tree res option" where
  "balance_loop node T =
     (let par = parent (nd T node) in
      if par \<noteq> 0 \<and> color (nd T par) = RB_RED
      then (case balance_step node T of Inl e \<Rightarrow> Some (Inl e) | Inr (node, T) \<Rightarrow> balance_loop node T)
      else Some (Inr T))"

definition rb_balance :: "nat \<Rightarrow> rb_tree \<Rightarrow> (int \<times> rb_tree) res" where
  "rb_balance node T =
     (if node = 0 then Inr (- 1, T)
      else rbind (total (balance_loop node (set_color node RB_RED T))) (\<lambda>T.
           kdefined (root T \<noteq> 0) (Inr (0, set_color (root T) RB_BLACK T))))"

text \<open>
  \<^verbatim>\<open>do_remove\<close> calls itself on the rightmost node of the left subtree, which has no right child; so
  the recursion goes one level deep and the inner call is \<open>unlink_node\<close>, the branch for a node
  with at most one child.
\<close>

definition unlink_with :: "nat \<Rightarrow> nat \<Rightarrow> nat \<Rightarrow> rb_tree \<Rightarrow> rb_tree" where
  "unlink_with node par ch T =
     (let T = (if par \<noteq> 0 then set_child par (child (nd T par) RB_RIGHT = node) ch T
               else T\<lparr>root := ch\<rparr>);
          T = (if ch \<noteq> 0 then set_parent ch par T else T)
      in rb_node_init node T)"

definition unlink_node :: "nat \<Rightarrow> rb_tree \<Rightarrow> rb_tree" where
  "unlink_node node T =
     unlink_with node (parent (nd T node)) (child (nd T node) (child (nd T node) RB_LEFT = 0)) T"

definition do_remove :: "nat \<Rightarrow> rb_tree \<Rightarrow> (int \<times> rb_tree) res" where
  "do_remove node T =
     (if node = 0 then Inr (- 1, T)
      else if child (nd T node) RB_LEFT \<noteq> 0 \<and> child (nd T node) RB_RIGHT \<noteq> 0 then
        (let par = parent (nd T node) in
         rbind (get_outermost (child (nd T node) RB_LEFT) RB_RIGHT T) (\<lambda>ch.
         let T = unlink_node ch T;
             T = set_child ch RB_LEFT (child (nd T node) RB_LEFT) T;
             T = (if child (nd T node) RB_LEFT \<noteq> 0 then set_parent (child (nd T node) RB_LEFT) ch T else T);
             T = set_child ch RB_RIGHT (child (nd T node) RB_RIGHT) T;
             T = (if child (nd T node) RB_RIGHT \<noteq> 0 then set_parent (child (nd T node) RB_RIGHT) ch T else T)
         in Inr (0, unlink_with node par ch T)))
      else Inr (0, unlink_node node T))"

text \<open>
  One turn of the loop of \<^verbatim>\<open>rb_remove\<close>: the next node and whether the loop goes on (a missing sibling
  breaks it). Every dereference of a null pointer is undefined.
\<close>

definition is_black :: "rb_tree \<Rightarrow> nat \<Rightarrow> bool" where
  "is_black T p \<longleftrightarrow> p = 0 \<or> color (nd T p) = RB_BLACK"

definition remove_step :: "nat \<Rightarrow> rb_tree \<Rightarrow> (bool \<times> nat \<times> rb_tree) res" where
  "remove_step node T =
     (let par = parent (nd T node);
          dir = (child (nd T par) RB_LEFT = node);
          sibling = child (nd T par) dir
      in if sibling = 0 then Inr (False, node, T)
         else
           rbind (if color (nd T sibling) = RB_RED
                  then rbind (rotate_node par (\<not> dir) (set_color sibling RB_BLACK (set_color par RB_RED T)))
                         (\<lambda>T. Inr (child (nd T (parent (nd T node))) dir, T))
                  else Inr (sibling, T)) (\<lambda>(sibling, T).
           kdefined (sibling \<noteq> 0)
           (if is_black T (child (nd T sibling) (\<not> dir)) \<and> is_black T (child (nd T sibling) dir)
            then let T = set_color sibling RB_RED T in Inr (True, parent (nd T node), T)
            else
              rbind (if is_black T (child (nd T sibling) dir)
                     then kdefined (child (nd T sibling) (\<not> dir) \<noteq> 0)
                       (let T = set_color sibling RB_RED T;
                            T = set_color (child (nd T sibling) (\<not> dir)) RB_BLACK T
                        in rbind (rotate_node (parent (nd T node)) dir T)
                             (\<lambda>T. Inr (child (nd T (parent (nd T node))) dir, T)))
                     else Inr (sibling, T)) (\<lambda>(sibling, T).
              kdefined (sibling \<noteq> 0)
              (let T = set_color sibling (color (nd T (parent (nd T node)))) T;
                   T = set_color (parent (nd T node)) RB_BLACK T
               in kdefined (child (nd T sibling) dir \<noteq> 0)
               (let T = set_color (child (nd T sibling) dir) RB_BLACK T
                in rbind (rotate_node (parent (nd T node)) (\<not> dir) T) (\<lambda>T. Inr (True, root T, T))))))))"

partial_function (option) remove_loop :: "nat \<Rightarrow> rb_tree \<Rightarrow> (nat \<times> rb_tree) res option" where
  "remove_loop node T =
     (if node = 0 then Some (Inl KUndef)
      else if parent (nd T node) \<noteq> 0 then
        (case remove_step node T of Inl e \<Rightarrow> Some (Inl e)
         | Inr (go, node, T) \<Rightarrow> if go then remove_loop node T else Some (Inr (node, T)))
      else Some (Inr (node, T)))"

text \<open>\<^verbatim>\<open>rb_remove\<close> looks at the colour of the removed node after \<^verbatim>\<open>do_remove\<close> has cleared it.\<close>

definition rb_remove :: "nat \<Rightarrow> rb_tree \<Rightarrow> (int \<times> rb_tree) res" where
  "rb_remove node T =
     (if node = 0 then Inr (- 1, T)
      else
        let child_dir = (child (nd T node) RB_LEFT = 0);
            ch = child (nd T node) child_dir;
            other = child (nd T node) (\<not> child_dir)
        in rbind (do_remove node T) (\<lambda>(_, T).
           if ch = 0 \<and> other = 0 then Inr (0, T)
           else if color (nd T node) = RB_RED then Inr (0, T)
           else kdefined (ch \<noteq> 0)
             (if color (nd T ch) = RB_RED then Inr (0, set_color ch RB_BLACK T)
              else rbind (total (remove_loop ch T)) (\<lambda>(node, T).
                   Inr (0, if node \<noteq> 0 then set_color node RB_BLACK T else T)))))"

definition rb_replace :: "nat \<Rightarrow> nat \<Rightarrow> rb_tree \<Rightarrow> (int \<times> rb_tree) res" where
  "rb_replace node new_node T =
     (if node = 0 \<or> new_node = 0 then Inr (- 1, T)
      else
        let par = parent (nd T node);
            T = (if par \<noteq> 0 then set_child par (child (nd T par) RB_RIGHT = node) new_node T
                 else T\<lparr>root := new_node\<rparr>);
            T = (if child (nd T node) RB_LEFT \<noteq> 0 then set_parent (child (nd T node) RB_LEFT) new_node T else T);
            T = (if child (nd T node) RB_RIGHT \<noteq> 0 then set_parent (child (nd T node) RB_RIGHT) new_node T else T)
        in Inr (0, nd_upd new_node (\<lambda>_. nd T node) T))"

end
