(* ===== verification/VMA.thy ===== *)
theory VMA
  imports Slab RBTree Page_Table_Spec
begin

text \<open>
  Virtual memory areas: the red-black tree and the sorted list of areas of a task
  (kernel/vma/find.c, insert.c, merge.c, split.c, remove.c, walk.c, protect.c). Areas, tasks and
  reverse mappings are named by their address, 0 being the null pointer. The fields of an object
  that come from \<^verbatim>\<open>kmalloc\<close> and are not assigned are zero, because slab memory is cleared.
\<close>

section \<open>State\<close>

record vma =
  vm_name :: nat
  vm_task :: nat
  vm_rmap :: nat
  vm_base :: u64
  vm_end :: u64
  vm_src :: u64
  vm_len :: u64
  vm_flags :: u32

text \<open>\<open>rbn\<close> holds the members \<^verbatim>\<open>vm_rb\<close>, \<open>task_rb\<close> the roots and \<open>task_pml4\<close> the page tables of the tasks.\<close>

record kvma = kslab +
  vmas :: "nat \<Rightarrow> vma"
  rbn :: "nat \<Rightarrow> rb_node"
  task_rb :: "nat \<Rightarrow> nat"
  task_pml4 :: "nat \<Rightarrow> nat"
  rmap_lock :: "nat \<Rightarrow> spinlock"

definition zero_vma :: vma where
  "zero_vma = \<lparr>vm_name = 0, vm_task = 0, vm_rmap = 0, vm_base = 0, vm_end = 0, vm_src = 0, vm_len = 0, vm_flags = 0\<rparr>"

definition vma_upd :: "nat \<Rightarrow> (vma \<Rightarrow> vma) \<Rightarrow> 'z kvma_scheme \<Rightarrow> 'z kvma_scheme" where
  "vma_upd v f s = s\<lparr>vmas := (vmas s)(v := f (vmas s v))\<rparr>"

definition tree_of :: "nat \<Rightarrow> 'z kvma_scheme \<Rightarrow> rb_tree" where
  "tree_of t s = \<lparr>nd = rbn s, root = task_rb s t\<rparr>"

definition put_tree :: "nat \<Rightarrow> rb_tree \<Rightarrow> 'z kvma_scheme \<Rightarrow> 'z kvma_scheme" where
  "put_tree t T s = s\<lparr>rbn := nd T, task_rb := (task_rb s)(t := root T)\<rparr>"

definition vma_of :: "anchor \<Rightarrow> nat res" where
  "vma_of n = (case n of Null \<Rightarrow> Inr 0 | VmMmap v \<Rightarrow> Inr v | _ \<Rightarrow> Inl KUndef)"

section \<open>kernel/vma/find.c\<close>

text \<open>The loop of \<^verbatim>\<open>find_vma\<close>: the area found so far, the last node and the last direction.\<close>

partial_function (option) find_vma_loop ::
  "(nat \<Rightarrow> vma) \<Rightarrow> rb_tree \<Rightarrow> u64 \<Rightarrow> nat \<Rightarrow> nat \<times> nat \<times> bool \<Rightarrow> (nat \<times> nat \<times> bool) option" where
  "find_vma_loop V T addr node acc =
     (if node = 0 then Some acc
      else let dir = (addr \<ge> vm_end (V node));
               found = (if \<not> dir then node else fst acc)
           in if \<not> dir \<and> vm_base (V node) \<le> addr then Some (found, node, dir)
              else find_vma_loop V T addr (child (nd T node) dir) (found, node, dir))"

definition find_vma :: "(nat \<Rightarrow> vma) \<Rightarrow> rb_tree \<Rightarrow> u64 \<Rightarrow> (nat \<times> nat \<times> bool) res" where
  "find_vma V T addr = total (map_option Inr (find_vma_loop V T addr (root T) (0, 0, False)))"

definition task_find_vma :: "nat \<Rightarrow> u64 \<Rightarrow> 'z kvma_scheme \<Rightarrow> nat res" where
  "task_find_vma t addr s =
     rbind (find_vma (vmas s) (tree_of t s) addr) (\<lambda>(v, _, _).
       if v = 0 \<or> addr < vm_base (vmas s v) then Inr 0 else Inr v)"

text \<open>
  The lookup in the current task that \<^verbatim>\<open>insert_pte\<close> and \<^verbatim>\<open>populate_pte\<close> make: the \<open>rmap\<close> member of the
  area at the address, \<open>None\<close> when there is no area.
\<close>

definition cur_find_vma :: "'z kvma_scheme \<Rightarrow> u64 \<Rightarrow> nat option option" where
  "cur_find_vma s addr =
     (case cur_task s of None \<Rightarrow> None
      | Some t \<Rightarrow> (case task_find_vma t addr s of Inl _ \<Rightarrow> None
          | Inr v \<Rightarrow> if v = 0 then None else Some (if vm_rmap (vmas s v) = 0 then None else Some (vm_rmap (vmas s v)))))"

section \<open>kernel/vma/insert.c\<close>

text \<open>The descent of \<^verbatim>\<open>insert_vma\<close>: \<open>None\<close> inside is the overlap, otherwise the parent and the direction.\<close>

partial_function (option) insert_vma_loop ::
  "(nat \<Rightarrow> vma) \<Rightarrow> rb_tree \<Rightarrow> nat \<Rightarrow> nat \<Rightarrow> nat \<times> bool \<Rightarrow> (nat \<times> bool) option option" where
  "insert_vma_loop V T v node acc =
     (if node = 0 then Some (Some acc)
      else let dir = (vm_base (V v) \<ge> vm_end (V node))
           in if \<not> dir \<and> vm_end (V v) > vm_base (V node) then Some None
              else insert_vma_loop V T v (child (nd T node) dir) (node, dir))"

definition insert_vma :: "nat \<Rightarrow> nat \<Rightarrow> 'z kvma_scheme \<Rightarrow> (int \<times> 'z kvma_scheme) res" where
  "insert_vma t v s =
     (let T = tree_of t s in
      rbind (total (map_option Inr (insert_vma_loop (vmas s) T v (root T) (0, False)))) (\<lambda>pos.
      case pos of None \<Rightarrow> Inr (- 1, s)
      | Some (par, dir) \<Rightarrow>
        let T = (if par = 0 then T\<lparr>root := v\<rparr> else set_parent v par (set_child par dir v T))
        in rbind (rb_balance v T) (\<lambda>(ret, T).
           let s = put_tree t T s in
           if ret < 0 then Inr (- 1, s)
           else Inr (0, s\<lparr>lh := (if par = 0 then list_insert_after (TaskMmap t) (VmMmap v) (lh s)
                               else if dir then list_insert_after (VmMmap par) (VmMmap v) (lh s)
                               else list_insert_before (VmMmap par) (VmMmap v) (lh s))\<rparr>))))"

definition create_vma :: "nat \<Rightarrow> nat \<Rightarrow> u64 \<Rightarrow> u64 \<Rightarrow> u32 \<Rightarrow> 'z kvma_scheme \<Rightarrow> (nat \<times> 'z kvma_scheme) res" where
  "create_vma t name addr sz flags s =
     kassert (t \<noteq> 0)
     (rbind (kmalloc 128 s) (\<lambda>(v, s).
      case v of None \<Rightarrow> Inr (0, s)
      | Some v \<Rightarrow>
        let s = klist_init (VmMmap v) s;
            s = s\<lparr>rbn := (rbn s)(v := zero_node)\<rparr>;
            s = vma_upd v (\<lambda>_. zero_vma\<lparr>vm_name := name, vm_base := ROUNDDOWN addr PAGE_SIZE,
                  vm_end := ROUNDUP (addr + sz) PAGE_SIZE, vm_flags := flags, vm_task := t\<rparr>) s
        in rbind (kmalloc 56 s) (\<lambda>(r, s).
           case r of None \<Rightarrow> Inl KUndef
           | Some r \<Rightarrow>
             let s = klist_init (RmapVmas r) s;
                 s = s\<lparr>rmap_lock := (rmap_lock s)(r := spin_init (rmap_lock s r) ''rmap'')\<rparr>;
                 s = vma_upd v (\<lambda>a. a\<lparr>vm_rmap := r\<rparr>) s;
                 s = klist_add (RmapVmas r) (RmapNode v) s
             in rbind (insert_vma t v s) (\<lambda>(ret, s).
                if ret < 0 then rbind (kfree v s) (\<lambda>s. Inr (0, s)) else Inr (v, s)))))"

text \<open>\<^verbatim>\<open>struct vma_info\<close>; the name is the pointer whose string the code copies.\<close>

record vma_info =
  vi_name :: nat
  vi_base :: u64
  vi_end :: u64
  vi_prot :: u32
  vi_type :: nat
  vi_mapped :: nat

definition VMA_FREE :: nat where "VMA_FREE = 0"
definition VMA_ANONYMOUS :: nat where "VMA_ANONYMOUS = 1"
definition VMA_EXECUTABLE :: nat where "VMA_EXECUTABLE = 2"

definition clear_info :: vma_info where
  "clear_info = \<lparr>vi_name = 0, vi_base = 0, vi_end = 0, vi_prot = 0, vi_type = VMA_FREE, vi_mapped = 0\<rparr>"

text \<open>
  \<^verbatim>\<open>find_free_vma\<close>; \<open>junk\<close> is the value of the uninitialised variable \<^verbatim>\<open>entry\<close> whose address is passed to
  \<^verbatim>\<open>page_lookup\<close>. A result \<open>None\<close> is the return value -1.
\<close>

definition find_free_vma :: "pte option \<Rightarrow> nat \<Rightarrow> u64 \<Rightarrow> 'z kvma_scheme \<Rightarrow> vma_info option res" where
  "find_free_vma junk t addr s =
     (if addr \<ge> USER_LIM then Inr None
      else rbind (find_vma (vmas s) (tree_of t s) addr) (\<lambda>(v, _, _).
        if v = 0 then
          rbind (vma_of (list_tail (TaskMmap t) (lh s))) (\<lambda>p.
            Inr (Some (clear_info\<lparr>vi_end := USER_LIM, vi_base := (if p = 0 then 0 else vm_end (vmas s p))\<rparr>)))
        else if addr < vm_base (vmas s v) then
          rbind (vma_of (list_prev (TaskMmap t) (VmMmap v) (lh s))) (\<lambda>p.
            Inr (Some (clear_info\<lparr>vi_end := vm_base (vmas s v), vi_base := (if p = 0 then 0 else vm_end (vmas s p))\<rparr>)))
        else
          let a = vmas s v;
              info = clear_info\<lparr>vi_name := vm_name a, vi_base := vm_base a, vi_end := vm_end a, vi_prot := vm_flags a,
                vi_type := (if vm_src a \<noteq> 0 then VMA_EXECUTABLE else VMA_ANONYMOUS)\<rparr>
          in rbind (page_lookup (task_pml4 s t) addr (Some junk) s) (\<lambda>(page, entry).
             if page = None then Inr (Some info)
             else case entry of Some (Some e) \<Rightarrow>
                    Inr (Some (info\<lparr>vi_mapped := (if rd e s AND PAGE_HUGE \<noteq> 0 then 2 else 1)\<rparr>))
                  | _ \<Rightarrow> Inl KUndef)))"

text \<open>
  The two searches of \<^verbatim>\<open>add_vma\<close>: the address at which an area is free, 0 for none. \<open>stop0\<close> is the
  condition \<^verbatim>\<open>p > 0\<close> of the first loop; the second loop's \<^verbatim>\<open>p >= 0\<close> always holds.
\<close>

partial_function (option) free_search ::
  "pte option \<Rightarrow> bool \<Rightarrow> nat \<Rightarrow> u64 \<Rightarrow> 'z kvma_scheme \<Rightarrow> u64 option res option" where
  "free_search junk stop0 t p s =
     (if stop0 \<and> p = 0 then Some (Inr None)
      else case find_free_vma junk t p s of
        Inl e \<Rightarrow> Some (Inl e)
      | Inr None \<Rightarrow> Some (Inr None)
      | Inr (Some info) \<Rightarrow>
          if vi_type info = VMA_FREE then Some (Inr (Some p))
          else free_search junk stop0 t (vi_base info - 1) s)"

definition add_vma ::
  "pte option \<Rightarrow> nat \<Rightarrow> nat \<Rightarrow> u64 \<Rightarrow> u64 \<Rightarrow> u32 \<Rightarrow> 'z kvma_scheme \<Rightarrow> (nat \<times> 'z kvma_scheme) res" where
  "add_vma junk t name addr sz flags s =
     (let addr = (if addr = 0 then USER_LIM else addr) in
      rbind (total (free_search junk True t addr s)) (\<lambda>r.
      case r of Some p \<Rightarrow> create_vma t name p sz flags s
      | None \<Rightarrow>
        rbind (total (free_search junk False t (ROUNDDOWN (USER_LIM - sz - 1) PAGE_SIZE) s)) (\<lambda>r.
        case r of Some p \<Rightarrow> create_vma t name p sz flags s | None \<Rightarrow> Inr (0, s))))"

section \<open>kernel/vma/remove.c, first part\<close>

definition remove_vma :: "nat \<Rightarrow> nat \<Rightarrow> 'z kvma_scheme \<Rightarrow> 'z kvma_scheme res" where
  "remove_vma t v s =
     (if t = 0 \<or> v = 0 then Inr s
      else rbind (rb_remove v (tree_of t s)) (\<lambda>(_, T).
           klist_del (VmMmap v) (put_tree t (rb_node_init v T) s)))"

section \<open>kernel/vma/merge.c\<close>

definition merge_vma :: "nat \<Rightarrow> nat \<Rightarrow> nat \<Rightarrow> 'z kvma_scheme \<Rightarrow> (nat \<times> 'z kvma_scheme) res" where
  "merge_vma t lhs rhs s =
     (let l = vmas s lhs; r = vmas s rhs in
      if \<not> (vm_flags l = vm_flags r \<and> vm_end l = vm_base r \<and> vm_name l = vm_name r) then Inr (0, s)
      else rbind (remove_vma t rhs (vma_upd lhs (\<lambda>a. a\<lparr>vm_end := vm_end r\<rparr>) s)) (\<lambda>s. Inr (lhs, s)))"

definition merge_vmas :: "nat \<Rightarrow> nat \<Rightarrow> 'z kvma_scheme \<Rightarrow> (nat \<times> 'z kvma_scheme) res" where
  "merge_vmas t v s =
     rbind (rbind (vma_of (list_prev (TaskMmap t) (VmMmap v) (lh s))) (\<lambda>p.
              if p = 0 then Inr (v, s)
              else rbind (merge_vma t p v s) (\<lambda>(n, s). Inr (if n \<noteq> 0 then n else v, s)))) (\<lambda>(v, s).
     rbind (vma_of (list_next (TaskMmap t) (VmMmap v) (lh s))) (\<lambda>n.
       if n = 0 then Inr (v, s)
       else rbind (merge_vma t v n s) (\<lambda>(m, s). Inr (if m \<noteq> 0 then m else v, s))))"

definition add_executable_vma ::
  "pte option \<Rightarrow> nat \<Rightarrow> nat \<Rightarrow> u64 \<Rightarrow> u64 \<Rightarrow> u32 \<Rightarrow> u64 \<Rightarrow> u64 \<Rightarrow> 'z kvma_scheme \<Rightarrow> (nat \<times> 'z kvma_scheme) res" where
  "add_executable_vma junk t name addr sz flags src len s =
     rbind (add_vma junk t name addr sz flags s) (\<lambda>(v, s).
     if v = 0 then Inr (0, s)
     else
       kassert (vm_base (vmas s v) = ROUNDDOWN addr PAGE_SIZE \<and> vm_end (vmas s v) = ROUNDUP (addr + sz) PAGE_SIZE)
       (let offset = addr mod PAGE_SIZE;
            s = vma_upd v (\<lambda>a. a\<lparr>vm_src := src - offset, vm_len := len + offset\<rparr>) s
        in merge_vmas t v s))"

definition add_anonymous_vma ::
  "pte option \<Rightarrow> nat \<Rightarrow> nat \<Rightarrow> u64 \<Rightarrow> u64 \<Rightarrow> u32 \<Rightarrow> 'z kvma_scheme \<Rightarrow> (nat \<times> 'z kvma_scheme) res" where
  "add_anonymous_vma junk t name addr sz flags s = add_executable_vma junk t name addr sz flags 0 0 s"

section \<open>kernel/vma/split.c\<close>

definition split_vma :: "pte option \<Rightarrow> nat \<Rightarrow> nat \<Rightarrow> u64 \<Rightarrow> 'z kvma_scheme \<Rightarrow> (nat \<times> 'z kvma_scheme) res" where
  "split_vma junk t lhs addr s =
     (let sz = vm_end (vmas s lhs) - addr in
      if vm_base (vmas s lhs) = addr then Inr (lhs, s)
      else if vm_end (vmas s lhs) = addr then Inr (0, s)
      else let s = vma_upd lhs (\<lambda>a. a\<lparr>vm_end := addr\<rparr>) s
           in add_vma junk t (vm_name (vmas s lhs)) addr sz (vm_flags (vmas s lhs)) s)"

definition split_vmas :: "pte option \<Rightarrow> nat \<Rightarrow> nat \<Rightarrow> u64 \<Rightarrow> u64 \<Rightarrow> 'z kvma_scheme \<Rightarrow> (nat \<times> 'z kvma_scheme) res" where
  "split_vmas junk t v base sz s =
     rbind (split_vma junk t v base s) (\<lambda>(mid, s).
     if mid = 0 then Inr (0, s)
     else rbind (split_vma junk t mid (base + sz) s) (\<lambda>(_, s). Inr (mid, s)))"

section \<open>kernel/vma/walk.c\<close>

type_synonym 'z get_vma = "nat \<Rightarrow> u64 \<Rightarrow> u64 \<Rightarrow> nat \<Rightarrow> 'z kvma_scheme \<Rightarrow> (int \<times> 'z kvma_scheme) res"

partial_function (option) walk_vma_loop ::
  "(nat \<Rightarrow> 'z kvma_scheme \<Rightarrow> (int \<times> 'z kvma_scheme) res) \<Rightarrow> nat \<Rightarrow> u64 \<Rightarrow> nat \<Rightarrow> anchor \<Rightarrow> 'z kvma_scheme \<Rightarrow>
    (int \<times> 'z kvma_scheme) res option" where
  "walk_vma_loop get t lim v nxt s =
     (if v \<noteq> 0 \<and> vm_base (vmas s v) < lim then
        (case get v s of Inl e \<Rightarrow> Some (Inl e)
         | Inr (ret, s) \<Rightarrow>
           if ret < 0 then Some (Inr (ret, s))
           else if nxt = Null then Some (Inr (0, s))
           else (case vma_of nxt of Inl e \<Rightarrow> Some (Inl e)
                 | Inr v' \<Rightarrow> walk_vma_loop get t lim v' (list_next (TaskMmap t) nxt (lh s)) s))
      else Some (Inr (0, s)))"

definition walk_vma_range :: "'z get_vma \<Rightarrow> nat \<Rightarrow> u64 \<Rightarrow> u64 \<Rightarrow> 'z kvma_scheme \<Rightarrow> (int \<times> 'z kvma_scheme) res" where
  "walk_vma_range get t base sz s =
     (let lim = base + sz in
      rbind (find_vma (vmas s) (tree_of t s) base) (\<lambda>(v, _, _).
      if v = 0 \<or> lim \<le> vm_base (vmas s v) then Inr (- 1, s)
      else total (walk_vma_loop (get t base sz) t lim v (list_next (TaskMmap t) (VmMmap v) (lh s)) s)))"

section \<open>kernel/vma/remove.c\<close>

partial_function (option) free_vmas_loop :: "nat \<Rightarrow> anchor \<Rightarrow> 'z kvma_scheme \<Rightarrow> 'z kvma_scheme res option" where
  "free_vmas_loop t node s =
     (if node = Null then Some (Inr s)
      else case vma_of node of Inl e \<Rightarrow> Some (Inl e)
       | Inr v \<Rightarrow>
         (let nxt = list_next (TaskMmap t) node (lh s) in
          case remove_vma t v s of Inl e \<Rightarrow> Some (Inl e) | Inr s \<Rightarrow> free_vmas_loop t nxt s))"

definition free_vmas :: "nat \<Rightarrow> 'z kvma_scheme \<Rightarrow> 'z kvma_scheme res" where
  "free_vmas t s = total (free_vmas_loop t (list_head (TaskMmap t) (lh s)) s)"

definition do_remove_vma :: "pte option \<Rightarrow> 'z get_vma" where
  "do_remove_vma junk t base sz v s =
     (let base_aligned = ROUNDDOWN base PAGE_SIZE;
          size_aligned = ROUNDUP sz PAGE_SIZE;
          end_aligned = base_aligned + size_aligned
      in kassert (base_aligned \<ge> vm_base (vmas s v)) (kassert (end_aligned \<le> vm_end (vmas s v))
        (rbind (split_vmas junk t v base_aligned size_aligned s) (\<lambda>(r, s).
         if r = 0 then Inr (- 1, s)
         else rbind (unmap_page_range (task_pml4 s t) base_aligned size_aligned s) (\<lambda>s.
              rbind (remove_vma t r s) (\<lambda>s. Inr (0, s)))))))"

definition remove_vma_range :: "pte option \<Rightarrow> nat \<Rightarrow> u64 \<Rightarrow> u64 \<Rightarrow> 'z kvma_scheme \<Rightarrow> (int \<times> 'z kvma_scheme) res" where
  "remove_vma_range junk t base sz s = walk_vma_range (do_remove_vma junk) t base sz s"

definition PAGE_DIRTY :: u64 where "PAGE_DIRTY = 64"

text \<open>The loop of \<^verbatim>\<open>do_unmap_vma\<close>; \<open>entry\<close> starts uninitialised and keeps its value from turn to turn.\<close>

partial_function (option) unmap_vma_loop ::
  "nat \<Rightarrow> u64 \<Rightarrow> pte option \<Rightarrow> u64 \<Rightarrow> 'z kvma_scheme \<Rightarrow> (int \<times> 'z kvma_scheme) res option" where
  "unmap_vma_loop t lim entry base s =
     (if base < lim then
        (case page_lookup (task_pml4 s t) base (Some entry) s of
           Inl e \<Rightarrow> Some (Inl e)
         | Inr (None, _) \<Rightarrow> Some (Inr (- 1, s))
         | Inr (Some _, es) \<Rightarrow>
           (case es of Some (Some e) \<Rightarrow>
              (case (if rd e s AND PAGE_DIRTY = 0 then unmap_page_range (task_pml4 s t) base PAGE_SIZE s else Inr s) of
                 Inl err \<Rightarrow> Some (Inl err)
               | Inr s \<Rightarrow> unmap_vma_loop t lim (Some e) (base + PAGE_SIZE) s)
            | _ \<Rightarrow> Some (Inl KUndef)))
      else Some (Inr (0, s)))"

definition do_unmap_vma :: "pte option \<Rightarrow> 'z get_vma" where
  "do_unmap_vma junk t base sz v s = total (unmap_vma_loop t (base + sz) junk base s)"

definition unmap_vma_range :: "pte option \<Rightarrow> nat \<Rightarrow> u64 \<Rightarrow> u64 \<Rightarrow> 'z kvma_scheme \<Rightarrow> (int \<times> 'z kvma_scheme) res" where
  "unmap_vma_range junk t base sz s = walk_vma_range (do_unmap_vma junk) t base sz s"

section \<open>kernel/vma/protect.c\<close>

definition do_protect_vma :: "pte option \<Rightarrow> u32 \<Rightarrow> 'z get_vma" where
  "do_protect_vma junk flags t base sz v s =
     (if vm_flags (vmas s v) = flags then Inr (0, s)
      else rbind (split_vma junk t v base s) (\<lambda>(n, s).
        if n = 0 then Inr (- 1, s)
        else let s = vma_upd n (\<lambda>a. a\<lparr>vm_flags := flags\<rparr>) s in
          rbind (protect_region (task_pml4 s t) base sz (convert_flags_from_vma_to_pages (vm_flags (vmas s n))) s) (\<lambda>s.
          rbind (merge_vmas t n s) (\<lambda>(_, s). Inr (0, s)))))"

definition protect_vma_range :: "pte option \<Rightarrow> nat \<Rightarrow> u64 \<Rightarrow> u64 \<Rightarrow> u32 \<Rightarrow> 'z kvma_scheme \<Rightarrow> (int \<times> 'z kvma_scheme) res" where
  "protect_vma_range junk t base sz flags s = walk_vma_range (do_protect_vma junk flags) t base sz s"

end
