(* ===== verification/RBTree_Spec.thy ===== *)
theory RBTree_Spec
  imports RBTree
begin

text \<open>
  Correctness of the red-black trees. A tree in the store is described by an abstract tree of
  node addresses (\<open>represents\<close>), a position in it by the path up to the root (\<open>at_path\<close>). Rotations
  and the loop of \<^verbatim>\<open>rb_balance\<close> are shown to keep the order of the nodes and to restore the
  colour invariants; iteration follows the order; \<^verbatim>\<open>do_remove\<close> takes out exactly its node.
\<close>

section \<open>Trees in the store\<close>

text \<open>\<open>mk d u a v\<close>: the tree with root \<open>a\<close>, subtree \<open>u\<close> in direction \<open>d\<close> and \<open>v\<close> in the other.\<close>

definition mk :: "bool \<Rightarrow> nat tree \<Rightarrow> nat \<Rightarrow> nat tree \<Rightarrow> nat tree" where
  "mk d u a v = (if d then Node v a u else Node u a v)"

fun shape :: "rb_tree \<Rightarrow> nat \<Rightarrow> nat tree \<Rightarrow> nat \<Rightarrow> bool" where
  "shape T q Leaf p \<longleftrightarrow> p = 0"
| "shape T q (Node l a r) p \<longleftrightarrow> p = a \<and> a \<noteq> 0 \<and> parent (nd T a) = q \<and>
     shape T a l (child (nd T a) RB_LEFT) \<and> shape T a r (child (nd T a) RB_RIGHT)"

text \<open>A position in a tree: the turns from there up to the root, with the node and the other subtree.\<close>

type_synonym path = "(bool \<times> nat \<times> nat tree) list"

fun top :: "path \<Rightarrow> nat" where
  "top [] = 0"
| "top ((d, a, u) # c) = a"

fun ctx :: "rb_tree \<Rightarrow> path \<Rightarrow> nat \<Rightarrow> bool" where
  "ctx T [] p \<longleftrightarrow> root T = p"
| "ctx T ((d, a, u) # c) p \<longleftrightarrow> a \<noteq> 0 \<and> child (nd T a) d = p \<and> shape T a u (child (nd T a) (\<not> d)) \<and>
     parent (nd T a) = top c \<and> ctx T c a"

fun plug :: "path \<Rightarrow> nat tree \<Rightarrow> nat tree" where
  "plug [] t = t"
| "plug ((d, a, u) # c) t = plug c (mk d t a u)"

fun path_set :: "path \<Rightarrow> nat set" where
  "path_set [] = {}"
| "path_set ((d, a, u) # c) = insert a (set_tree u \<union> path_set c)"

definition represents :: "rb_tree \<Rightarrow> nat tree \<Rightarrow> bool" where
  "represents T t \<longleftrightarrow> shape T 0 t (root T) \<and> distinct (inorder t)"

definition at_path :: "rb_tree \<Rightarrow> path \<Rightarrow> nat tree \<Rightarrow> nat \<Rightarrow> bool" where
  "at_path T c t p \<longleftrightarrow> shape T (top c) t p \<and> ctx T c p \<and> distinct (inorder (plug c t))"

lemma shape_mk [simp]:
  "shape T q (mk d u a v) p \<longleftrightarrow> p = a \<and> a \<noteq> 0 \<and> parent (nd T a) = q \<and>
     shape T a u (child (nd T a) d) \<and> shape T a v (child (nd T a) (\<not> d))"
  by (auto simp: mk_def)

lemma set_tree_mk [simp]: "set_tree (mk d u a v) = insert a (set_tree u \<union> set_tree v)"
  by (auto simp: mk_def)

lemma distinct_mk:
  "distinct (inorder (mk d u a v)) \<longleftrightarrow> a \<notin> set_tree u \<and> a \<notin> set_tree v \<and> set_tree u \<inter> set_tree v = {} \<and>
     distinct (inorder u) \<and> distinct (inorder v)"
  by (auto simp: mk_def)

lemma mk_rotate: "inorder (mk d (mk d A x B) y C) = inorder (mk d A x (mk d B y C))"
  by (simp add: mk_def)

lemma mk_flip: "mk (\<not> d) v a u = mk d u a v"
  by (simp add: mk_def)

lemma shape_ptr: "shape T q t p \<Longrightarrow> p \<noteq> 0 \<Longrightarrow> p \<in> set_tree t"
  by (cases t) auto

lemma shape_nonzero: "shape T q t p \<Longrightarrow> 0 \<notin> set_tree t"
  by (induction t arbitrary: q p) auto

lemma shape_unique: "shape T q t p \<Longrightarrow> shape T q' t' p \<Longrightarrow> t = t'"
proof (induction t arbitrary: q q' p t')
  case Leaf
  then show ?case by (cases t') auto
next
  case (Node l a r)
  then show ?case by (cases t') auto
qed

lemma shape_cong:
  assumes "\<And>a. a \<in> set_tree t \<Longrightarrow> parent (nd T' a) = parent (nd T a) \<and> child (nd T' a) = child (nd T a)"
  shows "shape T' q t p = shape T q t p"
  using assms by (induction t arbitrary: q p) auto

lemma ctx_cong:
  assumes "\<And>a. a \<in> path_set c \<Longrightarrow> parent (nd T' a) = parent (nd T a) \<and> child (nd T' a) = child (nd T a)"
    and "root T' = root T"
  shows "ctx T' c p = ctx T c p"
  using assms
proof (induction c arbitrary: p)
  case (Cons f c)
  obtain d a u where f: "f = (d, a, u)" by (cases f) auto
  have "shape T' a u q = shape T a u q" for q by (rule shape_cong) (use Cons.prems f in simp)
  with Cons f show ?case by simp
qed simp

text \<open>Only the root of a subtree knows its parent.\<close>

lemma shape_reparent:
  assumes "shape T q t p" and "p \<noteq> 0 \<Longrightarrow> parent (nd T' p) = q'" and "\<And>a. a \<in> set_tree t \<Longrightarrow> child (nd T' a) = child (nd T a)"
    and "\<And>a. a \<in> set_tree t \<Longrightarrow> a \<noteq> p \<Longrightarrow> parent (nd T' a) = parent (nd T a)" and "distinct (inorder t)"
  shows "shape T' q' t p"
proof (cases t)
  case (Node l a r)
  have a: "a \<notin> set_tree l" "a \<notin> set_tree r" using assms(5) Node by auto
  have "shape T' a l x = shape T a l x" "shape T' a r x = shape T a r x" for x
    by (rule shape_cong; use assms Node a in fastforce)+
  with assms Node show ?thesis by simp
qed (use assms in simp)

lemma inorder_plug: "\<exists>xs ys. (\<forall>t. inorder (plug c t) = xs @ inorder t @ ys) \<and> set xs \<union> set ys = path_set c"
proof (induction c)
  case (Cons f c)
  obtain d a u where f: "f = (d, a, u)" by (cases f) auto
  from Cons obtain xs ys where c: "\<forall>t. inorder (plug c t) = xs @ inorder t @ ys" "set xs \<union> set ys = path_set c" by blast
  show ?case
  proof (cases d)
    case True
    then show ?thesis using c f by (intro exI [of _ "xs @ inorder u @ [a]"] exI [of _ ys]) (auto simp: mk_def)
  next
    case False
    then show ?thesis using c f by (intro exI [of _ xs] exI [of _ "a # inorder u @ ys"]) (auto simp: mk_def)
  qed
qed simp

lemma inorder_plug_eq: "inorder t = inorder t' \<Longrightarrow> inorder (plug c t) = inorder (plug c t')"
  using inorder_plug [of c] by metis

lemma distinct_plug:
  assumes "distinct (inorder (plug c t))"
  shows "distinct (inorder t)" and "set_tree t \<inter> path_set c = {}"
proof -
  obtain xs ys where c: "\<forall>t. inorder (plug c t) = xs @ inorder t @ ys" "set xs \<union> set ys = path_set c"
    using inorder_plug by blast
  with assms have d: "distinct (xs @ inorder t @ ys)" by simp
  then show "distinct (inorder t)" by simp
  from d have "set (inorder t) \<inter> (set xs \<union> set ys) = {}" by auto
  then show "set_tree t \<inter> path_set c = {}" unfolding c(2) by simp
qed

lemma set_tree_plug: "set_tree (plug c t) = set_tree t \<union> path_set c"
proof -
  obtain xs ys where c: "\<forall>t. inorder (plug c t) = xs @ inorder t @ ys" "set xs \<union> set ys = path_set c"
    using inorder_plug by blast
  have "set (inorder (plug c t)) = set (inorder t) \<union> (set xs \<union> set ys)" by (auto simp: c(1))
  then show ?thesis unfolding c(2) by simp
qed

lemma top_in_path: "c \<noteq> [] \<Longrightarrow> top c \<in> path_set c"
  by (cases c rule: path_set.cases) auto

lemma at_path_down:
  "at_path T c (mk d t a u) a \<longleftrightarrow> at_path T ((d, a, u) # c) t (child (nd T a) d) \<and> a \<noteq> 0"
  by (auto simp: at_path_def)

lemma at_path_root: "at_path T c t p \<Longrightarrow> represents T (plug c t)"
proof (induction c arbitrary: t p)
  case (Cons f c)
  obtain d a u where f: "f = (d, a, u)" by (cases f) auto
  with Cons.prems have "at_path T c (mk d t a u) a" by (auto simp: at_path_def)
  with Cons.IH f show ?case by simp
qed (simp add: at_path_def represents_def)

lemma represents_at_path: "represents T t \<longleftrightarrow> at_path T [] t (root T)"
  by (simp add: at_path_def represents_def)

section \<open>Rotation\<close>

lemmas store_defs = set_child_def set_parent_def set_color_def nd_upd_def

lemma set_color_store [simp]:
  "parent (nd (set_color p c T) a) = parent (nd T a)" "child (nd (set_color p c T) a) = child (nd T a)"
  "root (set_color p c T) = root T" "color (nd (set_color p c T) a) = (if a = p then c else color (nd T a))"
  by (simp_all add: store_defs)

lemma at_path_color [simp]: "at_path (set_color x k T) c t p = at_path T c t p"
proof -
  have "shape (set_color x k T) q t p = shape T q t p" for q t p by (rule shape_cong) simp
  moreover have "ctx (set_color x k T) c p = ctx T c p" by (rule ctx_cong) simp_all
  ultimately show ?thesis by (simp add: at_path_def)
qed

text \<open>The side on which a node hangs, computed by comparing pointers.\<close>

lemma path_side:
  assumes "at_path T ((d, a, u) # c) t p" and "p \<noteq> 0"
  shows "(child (nd T a) e = p) \<longleftrightarrow> e = d"
proof -
  have h: "shape T a t p" "shape T a u (child (nd T a) (\<not> d))" "child (nd T a) d = p" "distinct (inorder (mk d t a u))"
    using assms(1) distinct_plug(1) [of c] by (auto simp: at_path_def)
  have "child (nd T a) (\<not> d) \<noteq> p"
  proof
    assume "child (nd T a) (\<not> d) = p"
    with shape_ptr [OF h(1) assms(2)] shape_ptr [OF h(2)] assms(2) have "p \<in> set_tree t \<inter> set_tree u" by simp
    with h(4) show False by (auto simp: distinct_mk)
  qed
  with h(3) show ?thesis by (cases e; cases d) auto
qed

text \<open>The state after a rotation, spelled out.\<close>

definition rotated :: "nat \<Rightarrow> bool \<Rightarrow> nat \<Rightarrow> nat \<Rightarrow> nat \<Rightarrow> rb_tree \<Rightarrow> rb_tree" where
  "rotated x d y b q T =
     (let T = set_child x (\<not> d) b T;
          T = (if b \<noteq> 0 then set_parent b x T else T);
          T = set_child y d x T;
          T = set_parent y q T;
          T = (if q \<noteq> 0 then set_child q (child (nd T q) RB_RIGHT = x) y T else T\<lparr>root := y\<rparr>)
      in set_parent x y T)"

lemma rotate_node_eq:
  assumes "x \<noteq> 0" and "y = child (nd T x) (\<not> d)" and "y \<noteq> 0" and "b = child (nd T y) d" and "q = parent (nd T x)"
  shows "rotate_node x d T = Inr (rotated x d y b q T)"
  using assms(1,3) unfolding rotate_node_def rotated_def Let_def assms(2) [symmetric] assms(4) [symmetric] assms(5) [symmetric] by simp

lemma rotated_store:
  assumes "b \<noteq> x" "b \<noteq> y" "q \<noteq> x" "q \<noteq> y" "x \<noteq> y"
  shows "parent (nd (rotated x d y b q T) a) = (if a = x then y else if a = y then q else if a = b \<and> b \<noteq> 0 then x else parent (nd T a))"
    and "child (nd (rotated x d y b q T) a) = (if a = x then (child (nd T x))(\<not> d := b) else if a = y then (child (nd T y))(d := x)
        else if a = q \<and> q \<noteq> 0 then (child (nd T q))((child (nd T q) RB_RIGHT = x) := y) else child (nd T a))"
    and "root (rotated x d y b q T) = (if q = 0 then y else root T)"
    and "color (nd (rotated x d y b q T) a) = color (nd T a)"
  by (cases "q = 0"; cases "b = 0"; use assms in \<open>simp add: rotated_def Let_def store_defs\<close>)+

lemma rotate_at_path:
  assumes P: "at_path T c (mk d A x (mk d B y C)) x"
  shows "\<exists>T'. rotate_node x d T = Inr T' \<and> at_path T' c (mk d (mk d A x B) y C) y \<and>
    (\<forall>a. color (nd T' a) = color (nd T a))"
proof -
  let ?t = "mk d A x (mk d B y C)" and ?t' = "mk d (mk d A x B) y C"
  have sh: "shape T (top c) ?t x" "ctx T c x" and dis: "distinct (inorder (plug c ?t))"
    using P by (simp_all add: at_path_def)
  note dd = distinct_plug [OF dis]
  define b where "b = child (nd T y) d"
  have A: "shape T x A (child (nd T x) d)" and B: "shape T y B b" and C: "shape T y C (child (nd T y) (\<not> d))"
    and y: "y = child (nd T x) (\<not> d)" "y \<noteq> 0" "x \<noteq> 0" and q: "top c = parent (nd T x)"
    using sh(1) by (auto simp: b_def)
  have sets: "x \<noteq> y" "x \<notin> set_tree A" "x \<notin> set_tree B" "x \<notin> set_tree C" "y \<notin> set_tree A" "y \<notin> set_tree B" "y \<notin> set_tree C"
    "set_tree A \<inter> set_tree B = {}" "set_tree B \<inter> set_tree C = {}" "set_tree A \<inter> set_tree C = {}"
    "distinct (inorder A)" "distinct (inorder B)" "distinct (inorder C)"
    using dd(1) by (auto simp: distinct_mk)
  have path: "x \<notin> path_set c" "y \<notin> path_set c" "set_tree A \<inter> path_set c = {}" "set_tree B \<inter> path_set c = {}" "set_tree C \<inter> path_set c = {}"
    using dd(2) by auto
  have bB: "b \<noteq> 0 \<Longrightarrow> b \<in> set_tree B" using shape_ptr [OF B] by simp
  have tc: "top c \<noteq> 0 \<Longrightarrow> top c \<in> path_set c" using top_in_path [of c] by (cases c) auto
  have ne: "b \<noteq> x" "b \<noteq> y" "top c \<noteq> x" "top c \<noteq> y" "b = 0 \<or> b \<noteq> top c"
    using bB tc sets path y by auto
  define T' where "T' = rotated x d y b (top c) T"
  have T': "rotate_node x d T = Inr T'"
    unfolding T'_def by (rule rotate_node_eq [OF y(3) y(1,2) b_def q])
  note par = rotated_store(1) [OF ne(1-4) sets(1), of d T, folded T'_def]
  note ch = rotated_store(2) [OF ne(1-4) sets(1), of d T, folded T'_def]
  note rt = rotated_store(3) [OF ne(1-4) sets(1), of d T, folded T'_def]
  note col = rotated_store(4) [OF ne(1-4) sets(1), of d T, folded T'_def]
  have keep: "shape T' p' t p = shape T p' t p"
    if "x \<notin> set_tree t" "y \<notin> set_tree t" "b \<notin> set_tree t \<or> b = 0" "top c \<notin> set_tree t \<or> top c = 0" for t p' p
    by (rule shape_cong) (use that par ch in auto)
  have A': "shape T' x A (child (nd T' x) d)"
    using A sets bB tc path by (subst keep) (auto simp: ch)
  have C': "shape T' y C (child (nd T' y) (\<not> d))"
    using C sets bB tc path by (subst keep) (auto simp: ch)
  have B': "shape T' x B (child (nd T' x) (\<not> d))"
    by (rule shape_reparent [of T y B, unfolded ch]) (use B sets bB par ch path tc in \<open>auto simp: ch\<close>)
  have "shape T' (top c) ?t' y" using A' B' C' y sets(1) by (simp add: par ch)
  moreover have "ctx T' c y"
  proof (cases c)
    case Nil
    then show ?thesis by (simp add: rt)
  next
    case (Cons f c')
    obtain e a u where f: "f = (e, a, u)" by (cases f) auto
    have cc: "a \<noteq> 0" "child (nd T a) e = x" "shape T a u (child (nd T a) (\<not> e))" "parent (nd T a) = top c'" "ctx T c' a"
      using sh(2) Cons f by auto
    have "at_path T ((e, a, u) # c') ?t x" using P Cons f by simp
    note side = path_side [OF this y(3)]
    have "distinct (inorder (plug c' (mk e ?t a u)))" using dis Cons f by simp
    note du = distinct_plug [OF this]
    have aw: "a \<notin> set_tree u" "a \<notin> path_set c'"
      using du by (simp_all add: distinct_mk)
    have nb: "b \<noteq> 0 \<Longrightarrow> b \<noteq> a" "b \<noteq> 0 \<Longrightarrow> b \<notin> set_tree u" "b \<noteq> 0 \<Longrightarrow> b \<notin> path_set c'" using bB path Cons f by auto
    have na: "a \<noteq> x" "a \<noteq> y" "x \<notin> set_tree u" "y \<notin> set_tree u" "x \<notin> path_set c'" "y \<notin> path_set c'" "top c = a"
      using path Cons f by auto
    have cha: "child (nd T' a) = (child (nd T a))(e := y)"
      using ch [of a] na cc(1) side [of RB_RIGHT] by simp
    have "shape T' a u (child (nd T' a) (\<not> e))"
      using cc(3) na aw nb by (subst keep) (auto simp: cha)
    moreover have "ctx T' c' a = ctx T c' a"
      by (rule ctx_cong) (use na aw nb par ch rt cc(1) in auto)
    moreover have "parent (nd T' a) = top c'" using par [of a] na nb cc(4) by auto
    ultimately show ?thesis using Cons f cc by (simp add: cha)
  qed
  moreover have "distinct (inorder (plug c ?t'))" using dis inorder_plug_eq [OF mk_rotate] by metis
  ultimately show ?thesis using T' col by (auto simp: at_path_def)
qed

section \<open>The red-black invariants\<close>

fun rt_black :: "(nat \<Rightarrow> rb_color) \<Rightarrow> nat tree \<Rightarrow> bool" where
  "rt_black col Leaf \<longleftrightarrow> True"
| "rt_black col (Node l a r) \<longleftrightarrow> col a = RB_BLACK"

fun red_ok :: "(nat \<Rightarrow> rb_color) \<Rightarrow> nat tree \<Rightarrow> bool" where
  "red_ok col Leaf \<longleftrightarrow> True"
| "red_ok col (Node l a r) \<longleftrightarrow> red_ok col l \<and> red_ok col r \<and> (col a = RB_RED \<longrightarrow> rt_black col l \<and> rt_black col r)"

fun bh :: "(nat \<Rightarrow> rb_color) \<Rightarrow> nat tree \<Rightarrow> nat" where
  "bh col Leaf = 0"
| "bh col (Node l a r) = bh col l + (if col a = RB_BLACK then 1 else 0)"

fun bal :: "(nat \<Rightarrow> rb_color) \<Rightarrow> nat tree \<Rightarrow> bool" where
  "bal col Leaf \<longleftrightarrow> True"
| "bal col (Node l a r) \<longleftrightarrow> bal col l \<and> bal col r \<and> bh col l = bh col r"

text \<open>Along a path a red node has a black parent and its other subtree a black root.\<close>

fun path_ok :: "(nat \<Rightarrow> rb_color) \<Rightarrow> path \<Rightarrow> bool" where
  "path_ok col [] \<longleftrightarrow> True"
| "path_ok col ((d, a, u) # c) \<longleftrightarrow> red_ok col u \<and>
     (col a = RB_RED \<longrightarrow> rt_black col u \<and> c \<noteq> [] \<and> col (top c) = RB_BLACK) \<and> path_ok col c"

lemma not_black [simp]: "c \<noteq> RB_BLACK \<longleftrightarrow> c = RB_RED" "c \<noteq> RB_RED \<longleftrightarrow> c = RB_BLACK"
  by (cases c; simp)+

lemma inv_mk [simp]:
  "rt_black col (mk d u a v) \<longleftrightarrow> col a = RB_BLACK"
  "red_ok col (mk d u a v) \<longleftrightarrow> red_ok col u \<and> red_ok col v \<and> (col a = RB_RED \<longrightarrow> rt_black col u \<and> rt_black col v)"
  "bal col (mk d u a v) \<longleftrightarrow> bal col u \<and> bal col v \<and> bh col u = bh col v"
  "bal col (mk d u a v) \<Longrightarrow> bh col (mk d u a v) = bh col u + (if col a = RB_BLACK then 1 else 0)"
  by (auto simp: mk_def)

lemma inv_cong:
  assumes "\<And>a. a \<in> set_tree t \<Longrightarrow> col' a = col a"
  shows "rt_black col' t = rt_black col t" and "red_ok col' t = red_ok col t"
    and "bh col' t = bh col t" and "bal col' t = bal col t"
proof -
  have rt: "rt_black col' t = rt_black col t" if "\<And>a. a \<in> set_tree t \<Longrightarrow> col' a = col a" for t
    using that by (cases t) auto
  then show "rt_black col' t = rt_black col t" using assms by simp
  have b: "bh col' t = bh col t" if "\<And>a. a \<in> set_tree t \<Longrightarrow> col' a = col a" for t
    using that by (induction t) auto
  then show "bh col' t = bh col t" using assms by simp
  show "red_ok col' t = red_ok col t" using assms by (induction t) (auto simp: rt)
  show "bal col' t = bal col t" using assms by (induction t) (auto simp: b)
qed

lemma path_ok_cong: "(\<And>a. a \<in> path_set c \<Longrightarrow> col' a = col a) \<Longrightarrow> path_ok col' c = path_ok col c"
proof (induction c)
  case (Cons f c)
  obtain d a u where f: "f = (d, a, u)" by (cases f) auto
  have u: "rt_black col' u = rt_black col u" "red_ok col' u = red_ok col u" by (rule inv_cong; use Cons.prems f in simp)+
  have "c \<noteq> [] \<Longrightarrow> col' (top c) = col (top c)" using Cons.prems f top_in_path [of c] by simp
  with Cons f u show ?case by auto
qed simp

lemma bal_plug_sub: "bal col (plug c t) \<Longrightarrow> bal col t"
proof (induction c arbitrary: t rule: path_set.induct)
  case (2 d a u c)
  then have "bal col (mk d t a u)" by (metis plug.simps(2))
  then show ?case by simp
qed simp

lemma bal_plug_replace:
  assumes "bal col (plug c t)" and "bal col' t'" and "bh col' t' = bh col t" and "\<And>a. a \<in> path_set c \<Longrightarrow> col' a = col a"
  shows "bal col' (plug c t')"
  using assms
proof (induction c arbitrary: t t')
  case (Cons f c)
  obtain d a u where f: "f = (d, a, u)" by (cases f) auto
  have b: "bal col (mk d t a u)" by (rule bal_plug_sub [of col c]) (use Cons.prems(1) f in simp)
  have u: "bh col' u = bh col u" "bal col' u = bal col u" by (rule inv_cong; use Cons.prems f in simp)+
  have b': "bal col' (mk d t' a u)" using b u Cons.prems by simp
  have "bh col' (mk d t' a u) = bh col (mk d t a u)"
    using inv_mk(4) [OF b] inv_mk(4) [OF b'] Cons.prems f by simp
  with Cons.IH [of "mk d t a u" "mk d t' a u"] Cons.prems b' f show ?case by simp
qed simp

lemma red_ok_plug:
  assumes "path_ok col c" and "red_ok col t" and "c \<noteq> [] \<Longrightarrow> col (top c) = RB_RED \<Longrightarrow> rt_black col t"
  shows "red_ok col (plug c t)"
  using assms
proof (induction c arbitrary: t)
  case (Cons f c)
  obtain d a u where f: "f = (d, a, u)" by (cases f) auto
  have "red_ok col (plug c (mk d t a u))" by (rule Cons.IH) (use Cons.prems f in auto)
  with f show ?case by simp
qed simp

section \<open>Rebalancing\<close>

abbreviation colors :: "rb_tree \<Rightarrow> nat \<Rightarrow> rb_color" where
  "colors T a \<equiv> color (nd T a)"

text \<open>
  The loop invariant of \<^verbatim>\<open>rb_balance\<close>: \<open>xs\<close> is the order of the nodes, black heights agree
  everywhere, and two adjacent red nodes can only be the node in hand and its parent.
\<close>

definition fixing :: "rb_tree \<Rightarrow> path \<Rightarrow> nat \<Rightarrow> nat list \<Rightarrow> bool" where
  "fixing T c node xs \<longleftrightarrow> (\<exists>l r. at_path T c (Node l node r) node \<and> inorder (plug c (Node l node r)) = xs \<and>
     red_ok (colors T) (Node l node r) \<and> path_ok (colors T) c \<and> bal (colors T) (plug c (Node l node r)))
     \<and> colors T node = RB_RED"

text \<open>What holds when the loop has ended, up to the colour of the root.\<close>

definition fixed :: "rb_tree \<Rightarrow> nat list \<Rightarrow> bool" where
  "fixed T xs \<longleftrightarrow> (\<exists>t. represents T t \<and> inorder t = xs \<and> t \<noteq> Leaf \<and> bal (colors T) t \<and> red_ok (colors T) t)"

lemma fixing_done:
  assumes "fixing T c node xs" and "c \<noteq> [] \<Longrightarrow> colors T (top c) = RB_BLACK"
  shows "fixed T xs"
proof -
  obtain l r where P: "at_path T c (Node l node r) node" and xs: "inorder (plug c (Node l node r)) = xs"
    and ok: "red_ok (colors T) (Node l node r)" "path_ok (colors T) c" "bal (colors T) (plug c (Node l node r))"
    using assms(1) by (auto simp: fixing_def)
  have "red_ok (colors T) (plug c (Node l node r))" by (rule red_ok_plug [OF ok(2,1)]) (use assms(2) in simp)
  moreover have "plug c (Node l node r) \<noteq> Leaf"
    using set_tree_plug [of c "Node l node r"] by (cases "plug c (Node l node r)") auto
  ultimately show ?thesis using at_path_root [OF P] xs ok(3) unfolding fixed_def by blast
qed

lemma at_path_colors:
  "(\<And>a. parent (nd T' a) = parent (nd T a) \<and> child (nd T' a) = child (nd T a)) \<Longrightarrow> root T' = root T \<Longrightarrow>
    at_path T' c t p = at_path T c t p"
  using shape_cong [of t T' T] ctx_cong [of c T' T] by (auto simp: at_path_def)

text \<open>The uncle is red: the colours move up and the grandparent is the next node.\<close>

lemma recolor_inv:
  assumes dis: "distinct (inorder (plug c (mk d2 (mk d1 n p u1) g (Node l u r))))"
    and b: "bal col (plug c (mk d2 (mk d1 n p u1) g (Node l u r)))"
    and red: "col p = RB_RED" "col u = RB_RED" and n: "red_ok col n"
    and path: "path_ok col ((d1, p, u1) # (d2, g, Node l u r) # c)"
    and col': "col' = col(g := RB_RED, u := RB_BLACK, p := RB_BLACK)"
  shows "bal col' (plug c (mk d2 (mk d1 n p u1) g (Node l u r)))" and "path_ok col' c"
    and "red_ok col' (mk d2 (mk d1 n p u1) g (Node l u r))"
proof -
  let ?P = "mk d1 n p u1" and ?U = "Node l u r"
  let ?G = "mk d2 ?P g ?U"
  note dd = distinct_plug [OF dis]
  have ne: "g \<noteq> u" "g \<noteq> p" "u \<noteq> p" using dd(1) by (auto simp: distinct_mk)
  have out: "g \<notin> set_tree t \<and> u \<notin> set_tree t \<and> p \<notin> set_tree t" if "t \<in> {n, u1, l, r}" for t
    using that dd(1) by (auto simp: distinct_mk)
  have same: "red_ok col' t = red_ok col t" "bh col' t = bh col t" "bal col' t = bal col t"
    if "t \<in> {n, u1, l, r}" for t
    by (rule inv_cong; use out [OF that] col' in auto)+
  have g: "col g = RB_BLACK" using path red(1) by simp
  have bG: "bal col ?G" by (rule bal_plug_sub [OF b])
  have bP: "bal col ?P" and h: "bh col ?P = bh col ?U" and bU: "bal col ?U" using bG by (metis inv_mk(3))+
  have hP: "bh col ?P = bh col n" using inv_mk(4) [OF bP] red by simp
  have bP': "bal col' ?P" using bP same by simp
  have hP': "bh col' ?P = bh col n + 1" using inv_mk(4) [OF bP'] same col' by simp
  have bU': "bal col' ?U" "bh col' ?U = bh col ?U + 1" using bU same ne red by (simp_all add: col')
  have bG': "bal col' ?G" unfolding inv_mk(3) [of _ d2] using bP' bU' hP' hP h by simp
  have "bh col' ?G = bh col ?G"
    using inv_mk(4) [OF bG] inv_mk(4) [OF bG'] hP' hP g ne by (simp add: col')
  then show "bal col' (plug c ?G)"
    by (rule bal_plug_replace [OF b bG']) (use dd(2) in \<open>auto simp: col'\<close>)
  show "path_ok col' c"
    using path dd(2) by (subst path_ok_cong [of c _ col]) (auto simp: col')
  show "red_ok col' ?G"
    using n path same ne by (simp add: col')
qed

lemma recolor_step:
  assumes F: "fixing T ((d1, p, u1) # (d2, g, Node l u r) # c) node xs"
    and red: "colors T p = RB_RED" "colors T u = RB_RED"
    and T': "T' = set_color g RB_RED (set_color u RB_BLACK (set_color p RB_BLACK T))"
  shows "fixing T' c g xs"
proof -
  obtain ln rn where P: "at_path T ((d1, p, u1) # (d2, g, Node l u r) # c) (Node ln node rn) node"
    and xs: "inorder (plug ((d1, p, u1) # (d2, g, Node l u r) # c) (Node ln node rn)) = xs"
    and ok: "red_ok (colors T) (Node ln node rn)" "path_ok (colors T) ((d1, p, u1) # (d2, g, Node l u r) # c)"
    and b: "bal (colors T) (plug ((d1, p, u1) # (d2, g, Node l u r) # c) (Node ln node rn))"
    using F by (auto simp: fixing_def)
  let ?P = "mk d1 (Node ln node rn) p u1" and ?U = "Node l u r"
  let ?G = "mk d2 ?P g ?U"
  have P': "at_path T c ?G g" using P by (auto simp: at_path_def)
  then have dis: "distinct (inorder (plug c ?G))" by (simp add: at_path_def)
  have col': "colors T' = (colors T)(g := RB_RED, u := RB_BLACK, p := RB_BLACK)"
    using distinct_plug(1) [OF dis] by (auto simp: T' fun_eq_iff distinct_mk)
  note inv = recolor_inv [OF dis b [unfolded plug.simps] red ok(1,2) col']
  moreover have "at_path T' c ?G g" using P' by (subst at_path_colors [of T' T]) (simp_all add: T')
  moreover have "inorder (plug c ?G) = xs" using xs by simp
  moreover have "?G = Node (if d2 then ?U else ?P) g (if d2 then ?P else ?U)" by (simp add: mk_def)
  moreover have "colors T' g = RB_RED" by (simp add: T')
  ultimately show ?thesis unfolding fixing_def by metis
qed

text \<open>The uncle is black: a rotation at the grandparent ends the loop.\<close>

lemma rotate_inv:
  assumes dis: "distinct (inorder (plug c (mk e u g (mk e C p D))))"
    and b: "bal col (plug c (mk e u g (mk e C p D)))"
    and col: "col p = RB_RED" "col g = RB_BLACK"
    and ok: "red_ok col u" "rt_black col u" "red_ok col C" "rt_black col C" "red_ok col D" "path_ok col c"
    and col': "col' = col(p := RB_BLACK, g := RB_RED)"
  shows "bal col' (plug c (mk e (mk e u g C) p D))" and "red_ok col' (plug c (mk e (mk e u g C) p D))"
proof -
  let ?G = "mk e u g (mk e C p D)" and ?G' = "mk e (mk e u g C) p D"
  note dd = distinct_plug [OF dis]
  have ne: "g \<noteq> p" using dd(1) by (auto simp: distinct_mk)
  have out: "g \<notin> set_tree t \<and> p \<notin> set_tree t" if "t \<in> {u, C, D}" for t
    using that dd(1) by (auto simp: distinct_mk)
  have same: "rt_black col' t = rt_black col t" "red_ok col' t = red_ok col t" "bh col' t = bh col t" "bal col' t = bal col t"
    if "t \<in> {u, C, D}" for t
    by (rule inv_cong; use out [OF that] col' in auto)+
  have bG: "bal col ?G" by (rule bal_plug_sub [OF b])
  then have bs: "bal col u" "bal col C" "bal col D" "bh col C = bh col D" and bp: "bal col (mk e C p D)" "bh col u = bh col (mk e C p D)"
    by auto
  have hu: "bh col u = bh col C" using bp(2) inv_mk(4) [OF bp(1)] col(1) by simp
  have g': "bal col' (mk e u g C)" using bs hu same by simp
  have hg': "bh col' (mk e u g C) = bh col u" using inv_mk(4) [OF g'] same ne by (simp add: col')
  have bG': "bal col' ?G'" unfolding inv_mk(3) [of _ e "mk e u g C"] using g' hg' bs hu same by simp
  have "bh col' ?G' = bh col ?G"
    using inv_mk(4) [OF bG] inv_mk(4) [OF bG'] hg' col(2) ne by (simp add: col')
  then show "bal col' (plug c ?G')"
    by (rule bal_plug_replace [OF b bG']) (use dd(2) in \<open>auto simp: col'\<close>)
  have "path_ok col' c" using ok(6) dd(2) by (subst path_ok_cong [of c _ col]) (auto simp: col')
  then show "red_ok col' (plug c ?G')"
    by (rule red_ok_plug) (use ok same ne in \<open>simp_all add: col'\<close>)
qed

lemma rotate_step:
  assumes P: "at_path T c (mk e u g (mk e C p D)) g" and xs: "inorder (plug c (mk e u g (mk e C p D))) = xs"
    and b: "bal (colors T) (plug c (mk e u g (mk e C p D)))"
    and col: "colors T p = RB_RED" "colors T g = RB_BLACK"
    and ok: "red_ok (colors T) u" "rt_black (colors T) u" "red_ok (colors T) C" "rt_black (colors T) C" "red_ok (colors T) D" "path_ok (colors T) c"
    and D: "D = Node l node r"
  shows "\<exists>T'. rotate_node g e (set_color g RB_RED (set_color p RB_BLACK T)) = Inr T' \<and> fixed T' xs \<and>
     parent (nd T' node) = p \<and> colors T' p = RB_BLACK"
proof -
  let ?T = "set_color g RB_RED (set_color p RB_BLACK T)" and ?G' = "mk e (mk e u g C) p D"
  have "at_path ?T c (mk e u g (mk e C p D)) g" using P by simp
  from rotate_at_path [OF this] obtain T' where T': "rotate_node g e ?T = Inr T'" "at_path T' c ?G' p"
      "\<And>a. colors T' a = colors ?T a" by blast
  have dis: "distinct (inorder (plug c (mk e u g (mk e C p D))))" using P by (simp add: at_path_def)
  have ne: "g \<noteq> p" using distinct_plug(1) [OF dis] by (auto simp: distinct_mk)
  then have col': "colors T' = (colors T)(p := RB_BLACK, g := RB_RED)" by (auto simp: T'(3) fun_eq_iff)
  note inv = rotate_inv [OF dis b col ok col']
  have "plug c ?G' \<noteq> Leaf" using set_tree_plug [of c ?G'] by (cases "plug c ?G'") auto
  moreover have "inorder (plug c ?G') = xs" using inorder_plug_eq [OF mk_rotate] xs by metis
  ultimately have "fixed T' xs" using at_path_root [OF T'(2)] inv unfolding fixed_def by blast
  moreover have "parent (nd T' node) = p" using T'(2) D by (simp add: at_path_def)
  moreover have "colors T' p = RB_BLACK" using ne by (simp add: T'(3))
  ultimately show ?thesis using T'(1) by blast
qed

lemma balance_step_ok:
  assumes F: "fixing T ((d1, p, u1) # c1) node xs" and red: "colors T p = RB_RED"
  shows "\<exists>node' T'. balance_step node T = Inr (node', T') \<and>
    (fixing T' (tl c1) node' xs \<or> fixed T' xs \<and> (\<exists>q. parent (nd T' node') = q \<and> colors T' q = RB_BLACK))"
proof -
  obtain ln rn where P: "at_path T ((d1, p, u1) # c1) (Node ln node rn) node"
    and xs: "inorder (plug ((d1, p, u1) # c1) (Node ln node rn)) = xs"
    and ok: "red_ok (colors T) (Node ln node rn)" "path_ok (colors T) ((d1, p, u1) # c1)"
    and b: "bal (colors T) (plug ((d1, p, u1) # c1) (Node ln node rn))" and nred: "colors T node = RB_RED"
    using F by (auto simp: fixing_def)
  obtain d2 g u2 c where c1: "c1 = (d2, g, u2) # c" using ok(2) red by (cases c1 rule: top.cases) auto
  have g: "colors T g = RB_BLACK" using ok(2) red c1 by simp
  have n0: "node \<noteq> 0" "g \<noteq> 0" "p \<noteq> 0" "parent (nd T node) = p" "parent (nd T p) = g" "child (nd T g) (\<not> d2) = child (nd T g) (\<not> d2)"
    using P c1 by (auto simp: at_path_def)
  let ?N = "Node ln node rn"
  have Pp: "at_path T ((d2, g, u2) # c) (mk d1 ?N p u1) p" using P c1 n0 by (auto simp: at_path_def)
  have dir: "(child (nd T g) RB_LEFT = p) = (\<not> d2)" using path_side [OF Pp n0(3), of RB_LEFT] by auto
  have side: "(child (nd T p) (\<not> d2) = node) = (d1 = (\<not> d2))" using path_side [OF P n0(1), of "\<not> d2"] by auto
  have u2: "shape T g u2 (child (nd T g) (\<not> d2))" using P c1 by (simp add: at_path_def)
  show ?thesis
  proof (cases "child (nd T g) (\<not> d2) \<noteq> 0 \<and> colors T (child (nd T g) (\<not> d2)) = RB_RED")
    case True
    then obtain l u r where U: "u2 = Node l u r" "u = child (nd T g) (\<not> d2)" using u2 by (cases u2) auto
    let ?T = "set_color g RB_RED (set_color u RB_BLACK (set_color p RB_BLACK T))"
    have "fixing ?T c g xs" by (rule recolor_step [OF _ red _ refl]) (use F c1 U True in simp_all)
    moreover have "balance_step node T = Inr (g, ?T)"
      using True n0 dir U by (simp add: balance_step_def Let_def)
    ultimately show ?thesis using c1 by auto
  next
    case False
    then have ub: "rt_black (colors T) u2" using u2 by (cases u2) auto
    have ok': "red_ok (colors T) u1" "rt_black (colors T) u1" "red_ok (colors T) u2" "path_ok (colors T) c"
      "red_ok (colors T) ln" "red_ok (colors T) rn" "rt_black (colors T) ln" "rt_black (colors T) rn"
      using ok red nred c1 by auto
    have step: "balance_step node T = rbind (if d1 = (\<not> d2) then rbind (rotate_node p d2 T) (\<lambda>T. Inr (p, parent (nd T p), T)) else Inr (node, p, T))
        (\<lambda>(node, par, T). kdefined (par \<noteq> 0) (rbind (rotate_node g (\<not> d2) (set_color g RB_RED (set_color par RB_BLACK T))) (\<lambda>T. Inr (node, T))))"
      unfolding balance_step_def Let_def n0(4,5) dir side if_not_P [OF False] using n0(2) by simp
    show ?thesis
    proof (cases "d1 = (\<not> d2)")
      case outer: False
      then have d1: "d1 = d2" by auto
      let ?G = "mk (\<not> d2) u2 g (mk (\<not> d2) u1 p ?N)"
      have eq: "plug ((d1, p, u1) # c1) ?N = plug c ?G" by (simp add: c1 d1 mk_flip)
      have "at_path T c ?G g" using Pp n0(2) by (simp add: mk_flip d1 at_path_down at_path_def)
      from rotate_step [OF this _ _ red g ok'(3) ub ok'(1,2) ok(1) ok'(4) refl] obtain T' where
          "rotate_node g (\<not> d2) (set_color g RB_RED (set_color p RB_BLACK T)) = Inr T'" "fixed T' xs"
          "parent (nd T' node) = p" "colors T' p = RB_BLACK"
        using xs b unfolding eq by blast
      with step outer n0 show ?thesis by auto
    next
      case inner: True
      define B C where "B = (if d2 then rn else ln)" and "C = (if d2 then ln else rn)"
      have N: "?N = mk d2 B node C" by (simp add: mk_def B_def C_def)
      have okBC: "red_ok (colors T) B" "rt_black (colors T) B" "red_ok (colors T) C" "rt_black (colors T) C"
        using ok' by (simp_all add: B_def C_def)
      have "at_path T ((d2, g, u2) # c) (mk d2 u1 p (mk d2 B node C)) p"
        using Pp inner mk_flip [of d2 ?N p u1] N by simp
      from rotate_at_path [OF this] obtain T1 where T1: "rotate_node p d2 T = Inr T1"
          "at_path T1 ((d2, g, u2) # c) (mk d2 (mk d2 u1 p B) node C) node" "\<And>a. colors T1 a = colors T a" by blast
      have colT: "colors T1 = colors T" using T1(3) by auto
      have P1: "parent (nd T1 p) = node" using T1(2) by (simp add: at_path_def)
      let ?D = "mk d2 u1 p B"
      let ?G = "mk (\<not> d2) u2 g (mk (\<not> d2) C node ?D)"
      have Geq: "?G = mk d2 (mk d2 ?D node C) g u2" by (simp add: mk_flip)
      have D: "?D = Node (if d2 then B else u1) p (if d2 then u1 else B)" by (simp add: mk_def)
      have PG: "at_path T1 c ?G g" using T1(2) n0(2) unfolding Geq by (simp add: at_path_down at_path_def)
      have old: "plug ((d1, p, u1) # c1) ?N = plug ((d2, g, u2) # c) (mk d2 u1 p (mk d2 B node C))"
        using inner N mk_flip [of d2 ?N p u1] by (simp add: c1)
      have xs1: "inorder (plug c ?G) = xs"
        using xs inorder_plug_eq [OF mk_rotate [of d2 u1 p B node C], of "(d2, g, u2) # c"] unfolding old Geq by simp
      have b1: "bal (colors T1) (plug c ?G)"
      proof -
        have bo: "bal (colors T) (plug ((d2, g, u2) # c) (mk d2 u1 p (mk d2 B node C)))" using b unfolding old .
        have bs: "bal (colors T) (mk d2 u1 p (mk d2 B node C))" by (rule bal_plug_sub [OF bo])
        then have bn: "bal (colors T) (mk d2 B node C)" "bal (colors T) u1" "bh (colors T) u1 = bh (colors T) (mk d2 B node C)" by auto
        have h: "bh (colors T) u1 = bh (colors T) B" using bn(3) inv_mk(4) [OF bn(1)] nred by simp
        have bD: "bal (colors T) ?D" using bn h by simp
        have hD: "bh (colors T) ?D = bh (colors T) u1" using inv_mk(4) [OF bD] red by simp
        have b2: "bal (colors T) (mk d2 ?D node C)" unfolding inv_mk(3) [of _ d2 ?D] using bD hD h bn by simp
        have "bh (colors T) (mk d2 ?D node C) = bh (colors T) (mk d2 u1 p (mk d2 B node C))"
          using inv_mk(4) [OF b2] inv_mk(4) [OF bs] hD red nred by simp
        from bal_plug_replace [OF bo b2 this] show ?thesis unfolding Geq colT by simp
      qed
      have okD: "red_ok (colors T1) ?D" using ok' okBC by (simp add: colT)
      from rotate_step [OF PG xs1 b1 _ _ _ _ _ _ okD _ D] obtain T' where
          "rotate_node g (\<not> d2) (set_color g RB_RED (set_color node RB_BLACK T1)) = Inr T'" "fixed T' xs"
          "parent (nd T' p) = node" "colors T' node = RB_BLACK"
        using nred g ok' ub okBC unfolding colT T1(3) by blast
      with step inner n0 T1(1) P1 show ?thesis by auto
    qed
  qed
qed

lemma balance_loop_ok:
  assumes "fixing T c node xs"
  shows "\<exists>T'. balance_loop node T = Some (Inr T') \<and> fixed T' xs"
  using assms
proof (induction c arbitrary: T node rule: length_induct)
  case (1 c)
  have pn: "parent (nd T node) = top c" using 1(2) by (auto simp: fixing_def at_path_def)
  show ?case
  proof (cases "c \<noteq> [] \<and> colors T (top c) = RB_RED")
    case False
    then have "fixed T xs" by (intro fixing_done [OF 1(2)]) auto
    moreover have "balance_loop node T = Some (Inr T)" using False pn by (subst balance_loop.simps) auto
    ultimately show ?thesis by blast
  next
    case True
    then obtain d1 p u1 c1 where c: "c = (d1, p, u1) # c1" by (cases c rule: top.cases) auto
    then have red: "colors T p = RB_RED" "p \<noteq> 0" "parent (nd T node) = p"
      using True pn 1(2) by (auto simp: fixing_def at_path_def)
    obtain node' T' where s: "balance_step node T = Inr (node', T')"
      and post: "fixing T' (tl c1) node' xs \<or> fixed T' xs \<and> (\<exists>q. parent (nd T' node') = q \<and> colors T' q = RB_BLACK)"
      using balance_step_ok [of T d1 p u1 c1 node xs] 1(2) red c by blast
    have eq: "balance_loop node T = balance_loop node' T'"
      using red s by (subst balance_loop.simps) simp
    from post show ?thesis
    proof
      assume "fixing T' (tl c1) node' xs"
      moreover have "length (tl c1) < length c" using c by simp
      ultimately show ?thesis unfolding eq using 1(1) by blast
    next
      assume f: "fixed T' xs \<and> (\<exists>q. parent (nd T' node') = q \<and> colors T' q = RB_BLACK)"
      then have "balance_loop node' T' = Some (Inr T')" by (subst balance_loop.simps) auto
      with f eq show ?thesis by auto
    qed
  qed
qed

text \<open>A red-black tree: the root is black, no two red nodes are adjacent, black heights agree.\<close>

definition rb_ok :: "rb_tree \<Rightarrow> nat tree \<Rightarrow> bool" where
  "rb_ok T t \<longleftrightarrow> represents T t \<and> rt_black (colors T) t \<and> red_ok (colors T) t \<and> bal (colors T) t"

lemma fixed_root:
  assumes "fixed T xs"
  shows "root T \<noteq> 0 \<and> (\<exists>t. rb_ok (set_color (root T) RB_BLACK T) t \<and> inorder t = xs)"
proof -
  obtain l a r where t: "represents T (Node l a r)" "inorder (Node l a r) = xs"
      "bal (colors T) (Node l a r)" "red_ok (colors T) (Node l a r)"
    using assms unfolding fixed_def by (metis tree.exhaust)
  let ?T = "set_color (root T) RB_BLACK T"
  have a: "root T = a" "a \<noteq> 0" using t(1) by (auto simp: represents_def)
  have s: "a \<notin> set_tree l" "a \<notin> set_tree r" using t(1) by (auto simp: represents_def)
  have same: "rt_black (colors ?T) x = rt_black (colors T) x" "red_ok (colors ?T) x = red_ok (colors T) x"
      "bh (colors ?T) x = bh (colors T) x" "bal (colors ?T) x = bal (colors T) x" if "x \<in> {l, r}" for x
    by (rule inv_cong; use s a that in auto)+
  have "represents ?T (Node l a r)" using t(1) by (simp add: represents_at_path)
  then have "rb_ok ?T (Node l a r)" using t a same unfolding rb_ok_def by auto
  with a t(2) show ?thesis by blast
qed

text \<open>\<^verbatim>\<open>rb_balance\<close> on a node that has just been hung under a leaf position of a red-black tree.\<close>

lemma rb_balance_ok:
  assumes P: "at_path T c (Node Leaf node Leaf) node" and path: "path_ok (colors T) c"
    and b: "bal (colors T) (plug c Leaf)" and n: "node \<noteq> 0"
  shows "\<exists>T' t. rb_balance node T = Inr (0, T') \<and> rb_ok T' t \<and> inorder t = inorder (plug c (Node Leaf node Leaf))"
proof -
  let ?T = "set_color node RB_RED T" and ?N = "Node Leaf node Leaf"
  have nc: "node \<notin> path_set c" using P distinct_plug(2) [of c ?N] by (auto simp: at_path_def)
  have "path_ok (colors ?T) c" using path nc by (subst path_ok_cong [of c _ "colors T"]) auto
  moreover have "bal (colors ?T) (plug c ?N)"
    by (rule bal_plug_replace [OF b]) (use nc in auto)
  ultimately have "fixing ?T c node (inorder (plug c ?N))"
    unfolding fixing_def using P by (intro conjI exI [of _ Leaf]) auto
  from balance_loop_ok [OF this] obtain T1 where T1: "balance_loop node ?T = Some (Inr T1)" "fixed T1 (inorder (plug c ?N))" by blast
  with fixed_root [OF T1(2)] n show ?thesis by (auto simp: rb_balance_def)
qed

section \<open>Moving along the order\<close>

text \<open>The nodes before and behind a position.\<close>

fun pfx :: "path \<Rightarrow> nat list" where
  "pfx [] = []"
| "pfx ((d, a, u) # c) = (if d then pfx c @ inorder u @ [a] else pfx c)"

fun sfx :: "path \<Rightarrow> nat list" where
  "sfx [] = []"
| "sfx ((d, a, u) # c) = (if d then sfx c else a # inorder u @ sfx c)"

lemma inorder_plug_split: "inorder (plug c t) = pfx c @ inorder t @ sfx c"
  by (induction c t rule: plug.induct) (auto simp: mk_def)

lemma outermost_left: "shape T q t p \<Longrightarrow> t \<noteq> Leaf \<Longrightarrow> outermost_loop p RB_LEFT T = Some (hd (inorder t))"
proof (induction t arbitrary: q p)
  case (Node l a r)
  then show ?case by (cases l) (auto simp: outermost_loop.simps [of a] hd_append)
qed simp

lemma outermost_right: "shape T q t p \<Longrightarrow> t \<noteq> Leaf \<Longrightarrow> outermost_loop p RB_RIGHT T = Some (last (inorder t))"
proof (induction t arbitrary: q p)
  case (Node l a r)
  then show ?case by (cases r) (auto simp: outermost_loop.simps [of a])
qed simp

lemma get_outermost_eq:
  assumes "shape T q t p"
  shows "get_outermost p RB_LEFT T = Inr (if t = Leaf then 0 else hd (inorder t))"
    and "get_outermost p RB_RIGHT T = Inr (if t = Leaf then 0 else last (inorder t))"
  using assms outermost_left [OF assms] outermost_right [OF assms]
  by (cases t; auto simp: get_outermost_def)+

lemma closest_right:
  "at_path T c t p \<Longrightarrow> p \<noteq> 0 \<Longrightarrow> closest_loop p RB_RIGHT T = Some (if sfx c = [] then 0 else hd (sfx c))"
proof (induction c arbitrary: t p rule: sfx.induct)
  case 1
  then have "parent (nd T p) = 0" by (cases t) (auto simp: at_path_def)
  then show ?case by (subst closest_loop.simps) simp
next
  case (2 d a u c)
  have pa: "parent (nd T p) = a" "a \<noteq> 0" using "2.prems" by (cases t; auto simp: at_path_def)+
  have up: "at_path T c (mk d t a u) a" using "2.prems"(1) by (auto simp: at_path_def)
  note side = path_side [OF "2.prems", of RB_RIGHT]
  show ?case
    using 2(1) [OF _ up pa(2)] pa side by (subst closest_loop.simps) auto
qed

lemma closest_left:
  "at_path T c t p \<Longrightarrow> p \<noteq> 0 \<Longrightarrow> closest_loop p RB_LEFT T = Some (if pfx c = [] then 0 else last (pfx c))"
proof (induction c arbitrary: t p rule: pfx.induct)
  case 1
  then have "parent (nd T p) = 0" by (cases t) (auto simp: at_path_def)
  then show ?case by (subst closest_loop.simps) simp
next
  case (2 d a u c)
  have pa: "parent (nd T p) = a" "a \<noteq> 0" using "2.prems" by (cases t; auto simp: at_path_def)+
  have up: "at_path T c (mk d t a u) a" using "2.prems"(1) by (auto simp: at_path_def)
  note side = path_side [OF "2.prems", of RB_LEFT]
  show ?case
    using 2(1,2) [OF _ up pa(2)] pa side by (subst closest_loop.simps) auto
qed

text \<open>Every node of a tree is at some position.\<close>

lemma at_path_find:
  "at_path T c t p \<Longrightarrow> a \<in> set_tree t \<Longrightarrow>
    \<exists>c' l r. at_path T c' (Node l a r) a \<and> plug c' (Node l a r) = plug c t"
proof (induction t arbitrary: c p)
  case (Node l b r)
  have P: "at_path T c (Node l b r) b" using Node.prems(1) by (auto simp: at_path_def)
  have L: "at_path T ((RB_LEFT, b, r) # c) l (child (nd T b) RB_LEFT)" and R: "at_path T ((RB_RIGHT, b, l) # c) r (child (nd T b) RB_RIGHT)"
    using P by (auto simp: at_path_def mk_def)
  consider "a = b" | "a \<in> set_tree l" | "a \<in> set_tree r" using Node.prems(2) by auto
  then show ?case
  proof cases
    case 1
    then show ?thesis using P by blast
  next
    case 2
    from Node.IH(1) [OF L this] show ?thesis by (simp add: mk_def)
  next
    case 3
    from Node.IH(2) [OF R this] show ?thesis by (simp add: mk_def)
  qed
qed simp

lemma rb_neighbours:
  assumes R: "represents T t" and split: "inorder t = xs @ a # ys"
  shows "rb_next a T = Inr (if ys = [] then 0 else hd ys)" and "rb_prev a T = Inr (if xs = [] then 0 else last xs)"
proof -
  have "a \<in> set (inorder t)" by (simp add: split)
  then obtain c l r where P: "at_path T c (Node l a r) a" and t: "plug c (Node l a r) = t"
    using at_path_find [of T "[]" t "root T" a] R by (auto simp: represents_at_path)
  have d: "distinct (inorder t)" using R by (simp add: represents_def)
  have "inorder t = (pfx c @ inorder l) @ a # inorder r @ sfx c" using inorder_plug_split [of c "Node l a r"] t by simp
  then have e: "xs @ a # ys = (pfx c @ inorder l) @ a # (inorder r @ sfx c)" using split by simp
  have "a \<notin> set xs" "a \<notin> set ys" using d split by auto
  from append_Cons_eq_iff [OF this] e have eq: "xs = pfx c @ inorder l" "ys = inorder r @ sfx c" by blast+
  have a0: "a \<noteq> 0" and l: "shape T a l (child (nd T a) RB_LEFT)" and r: "shape T a r (child (nd T a) RB_RIGHT)"
    using P by (auto simp: at_path_def)
  show "rb_next a T = Inr (if ys = [] then 0 else hd ys)"
    unfolding rb_next_def get_closest_def eq
    using a0 get_outermost_eq(1) [OF r] closest_right [OF P a0] r by (cases r) (auto simp: hd_append)
  show "rb_prev a T = Inr (if xs = [] then 0 else last xs)"
    unfolding rb_prev_def get_closest_def eq
    using a0 get_outermost_eq(2) [OF l] closest_left [OF P a0] l by (cases l) auto
qed

section \<open>Unlinking a node\<close>

lemma rb_node_init_store [simp]:
  "nd (rb_node_init p T) a = (if a = p then zero_node else nd T a)" "root (rb_node_init p T) = root T"
  by (simp_all add: rb_node_init_def nd_upd_def)

text \<open>The subtree \<open>s\<close> takes the place of the node \<open>a\<close>.\<close>

lemma splice:
  assumes C: "ctx T c a" and a: "a \<noteq> 0" "a \<notin> path_set c" "a \<notin> set_tree s"
    and s: "shape T q s ch" and dis: "distinct (inorder (plug c s))"
    and side: "\<And>e b u c'. c = (e, b, u) # c' \<Longrightarrow> (child (nd T b) RB_RIGHT = a) = e"
  shows "at_path (unlink_with a (top c) ch T) c s ch"
proof -
  define T' where "T' = unlink_with a (top c) ch T"
  note dd = distinct_plug [OF dis]
  have chs: "ch \<noteq> 0 \<Longrightarrow> ch \<in> set_tree s" using shape_ptr [OF s] by simp
  have tc: "top c \<noteq> 0 \<Longrightarrow> top c \<in> path_set c" using top_in_path [of c] by (cases c) auto
  have ne: "ch \<noteq> a" "ch = 0 \<or> ch \<noteq> top c" "top c = 0 \<or> top c \<noteq> a" "top c \<notin> set_tree s \<or> top c = 0"
    using chs tc a dd(2) by auto
  have par: "parent (nd T' x) = (if x = a then 0 else if x = ch \<and> ch \<noteq> 0 then top c else parent (nd T x))" for x
    using ne by (auto simp: unlink_with_def Let_def store_defs zero_node_def T'_def)
  have chi: "child (nd T' x) = (if x = a then (\<lambda>_. 0) else if x = top c \<and> top c \<noteq> 0
      then (child (nd T x))((child (nd T x) RB_RIGHT = a) := ch) else child (nd T x))" for x
    using ne by (auto simp: unlink_with_def Let_def store_defs zero_node_def T'_def)
  have rt: "root T' = (if top c = 0 then ch else root T)"
    by (auto simp: unlink_with_def Let_def store_defs T'_def)
  have "shape T' (top c) s ch"
    by (rule shape_reparent [OF s]) (use a ne dd par chi tc in auto)
  moreover have "ctx T' c ch"
  proof (cases c)
    case Nil
    with rt show ?thesis by simp
  next
    case (Cons f c')
    obtain e b u where f: "f = (e, b, u)" by (cases f) auto
    have cc: "b \<noteq> 0" "child (nd T b) e = a" "shape T b u (child (nd T b) (\<not> e))" "parent (nd T b) = top c'" "ctx T c' b"
      using C Cons f by auto
    have "distinct (inorder (plug c' (mk e s b u)))" using dis Cons f by simp
    note du = distinct_plug [OF this]
    have w: "b \<notin> set_tree u" "b \<notin> path_set c'" "b \<noteq> a" "a \<notin> set_tree u" "a \<notin> path_set c'" "top c = b"
      using du a Cons f by (auto simp: distinct_mk)
    have nch: "ch \<noteq> 0 \<Longrightarrow> ch \<notin> set_tree u \<and> ch \<notin> path_set c' \<and> ch \<noteq> b" using chs du by (auto simp: distinct_mk)
    have cb: "child (nd T' b) = (child (nd T b))(e := ch)"
      using chi [of b] side [of e b u c'] Cons f w cc(1) by simp
    have "shape T' b u (child (nd T' b) (\<not> e)) = shape T b u (child (nd T b) (\<not> e))"
      unfolding cb using w nch by (subst shape_cong [of u _ T]) (auto simp: par chi)
    moreover have "ctx T' c' b = ctx T c' b"
      by (rule ctx_cong) (use w nch cc(1) in \<open>auto simp: par chi rt\<close>)
    moreover have "parent (nd T' b) = top c'" using par [of b] w nch cc(4) by auto
    ultimately show ?thesis using Cons f cc by (simp add: cb)
  qed
  ultimately show ?thesis using dis by (simp add: at_path_def T'_def)
qed

lemma distinct_drop_root:
  assumes "distinct (inorder (plug c (Node l a r)))" and "s = l \<or> s = r"
  shows "distinct (inorder (plug c s))" and "a \<notin> set_tree s" and "a \<notin> path_set c"
  using assms distinct_plug [OF assms(1)] by (auto simp: inorder_plug_split)

lemma unlink_node_at:
  assumes P: "at_path T c (Node l a r) a" and lr: "l = Leaf \<or> r = Leaf"
  shows "at_path (unlink_node a T) c (if l = Leaf then r else l) (child (nd T a) (child (nd T a) RB_LEFT = 0))"
proof -
  let ?s = "if l = Leaf then r else l" and ?ch = "child (nd T a) (child (nd T a) RB_LEFT = 0)"
  have a: "a \<noteq> 0" "parent (nd T a) = top c" and l: "shape T a l (child (nd T a) RB_LEFT)" and r: "shape T a r (child (nd T a) RB_RIGHT)"
    and C: "ctx T c a" and dis: "distinct (inorder (plug c (Node l a r)))"
    using P by (auto simp: at_path_def)
  have s: "shape T a ?s ?ch" using l r by (cases l) auto
  have "?s = l \<or> ?s = r" by simp
  note d = distinct_drop_root [OF dis this]
  show ?thesis
    unfolding unlink_node_def a(2)
  proof (rule splice [OF C a(1) d(3,2) s d(1)])
    fix e b u c' assume "c = (e, b, u) # c'"
    then show "(child (nd T b) RB_RIGHT = a) = e" using path_side [of T e b u c' _ a RB_RIGHT] P a(1) by auto
  qed
qed

lemma plug_append: "plug (c1 @ c2) t = plug c2 (plug c1 t)"
  by (induction c1 t rule: plug.induct) auto

lemma at_path_up: "at_path T (c1 @ c2) t p \<Longrightarrow> \<exists>q. at_path T c2 (plug c1 t) q"
proof (induction c1 arbitrary: t p)
  case (Cons f c1)
  obtain d a u where f: "f = (d, a, u)" by (cases f) auto
  with Cons.prems have "at_path T (c1 @ c2) (mk d t a u) a" by (auto simp: at_path_def)
  from Cons.IH [OF this] show ?case by (simp add: f)
qed auto

lemma rightmost_path:
  "at_path T c t p \<Longrightarrow> t \<noteq> Leaf \<Longrightarrow>
    \<exists>c1 l m. at_path T (c1 @ c) (Node l m Leaf) m \<and> plug c1 (Node l m Leaf) = t \<and> m = last (inorder t) \<and>
      inorder (plug c1 l) = butlast (inorder t)"
proof (induction t arbitrary: c p)
  case (Node l b r)
  have P: "at_path T c (Node l b r) b" using Node.prems(1) by (auto simp: at_path_def)
  show ?case
  proof (cases "r = Leaf")
    case True
    then show ?thesis using P by (intro exI [of _ "[]"] exI [of _ l] exI [of _ b]) auto
  next
    case False
    have "at_path T ((RB_RIGHT, b, l) # c) r (child (nd T b) RB_RIGHT)" using P by (auto simp: at_path_def mk_def)
    from Node.IH(2) [OF this False] obtain c1 l1 m where h: "at_path T (c1 @ (RB_RIGHT, b, l) # c) (Node l1 m Leaf) m"
        "plug c1 (Node l1 m Leaf) = r" "m = last (inorder r)" "inorder (plug c1 l1) = butlast (inorder r)" by blast
    have "inorder r \<noteq> []" using False by (cases r) auto
    with h show ?thesis
      by (intro exI [of _ "c1 @ [(RB_RIGHT, b, l)]"] exI [of _ l1] exI [of _ m])
        (auto simp: plug_append mk_def butlast_append)
  qed
qed simp

text \<open>\<open>take_over\<close>: the middle part of \<^verbatim>\<open>do_remove\<close>, in which the replacement takes over the children.\<close>

definition take_over :: "nat \<Rightarrow> nat \<Rightarrow> rb_tree \<Rightarrow> rb_tree" where
  "take_over node ch T =
     (let T = set_child ch RB_LEFT (child (nd T node) RB_LEFT) T;
          T = (if child (nd T node) RB_LEFT \<noteq> 0 then set_parent (child (nd T node) RB_LEFT) ch T else T);
          T = set_child ch RB_RIGHT (child (nd T node) RB_RIGHT) T
      in if child (nd T node) RB_RIGHT \<noteq> 0 then set_parent (child (nd T node) RB_RIGHT) ch T else T)"

lemma take_over_store:
  assumes "a \<noteq> m" and "child (nd T a) RB_LEFT \<noteq> m" and "child (nd T a) RB_RIGHT \<noteq> m"
  shows "child (nd (take_over a m T) x) d = (if x = m then child (nd T a) d else child (nd T x) d)"
    and "parent (nd (take_over a m T) x) = (if x \<noteq> 0 \<and> (x = child (nd T a) RB_LEFT \<or> x = child (nd T a) RB_RIGHT) then m else parent (nd T x))"
    and "root (take_over a m T) = root T"
  by (cases "child (nd T a) RB_LEFT = 0"; cases "child (nd T a) RB_RIGHT = 0"; cases d;
      use assms in \<open>simp add: take_over_def Let_def store_defs\<close>)+

lemma replace_at:
  assumes P: "at_path T c (Node l a r) a" and m: "m \<noteq> 0" "parent (nd T m) = q" "m \<notin> set_tree (plug c (Node l a r))"
  shows "at_path (unlink_with a (top c) m (take_over a m T)) c (Node l m r) m"
proof -
  let ?T = "take_over a m T"
  have a: "a \<noteq> 0" and l: "shape T a l (child (nd T a) RB_LEFT)" and r: "shape T a r (child (nd T a) RB_RIGHT)"
    and C: "ctx T c a" and dis: "distinct (inorder (plug c (Node l a r)))"
    using P by (auto simp: at_path_def)
  note dd = distinct_plug [OF dis]
  have mo: "m \<noteq> a" "m \<notin> set_tree l" "m \<notin> set_tree r" "m \<notin> path_set c" using m(3) by (auto simp: set_tree_plug)
  have L: "child (nd T a) RB_LEFT \<noteq> 0 \<Longrightarrow> child (nd T a) RB_LEFT \<in> set_tree l" and R: "child (nd T a) RB_RIGHT \<noteq> 0 \<Longrightarrow> child (nd T a) RB_RIGHT \<in> set_tree r"
    using shape_ptr [OF l] shape_ptr [OF r] by auto
  have mc: "child (nd T a) RB_LEFT \<noteq> m" "child (nd T a) RB_RIGHT \<noteq> m" using L R mo m(1) by auto
  have st: "child (nd ?T x) = (if x = m then child (nd T a) else child (nd T x))"
      "parent (nd ?T x) = (if x \<noteq> 0 \<and> (x = child (nd T a) RB_LEFT \<or> x = child (nd T a) RB_RIGHT) then m else parent (nd T x))"
      "root ?T = root T" for x
    using take_over_store [OF mo(1) [symmetric] mc] by (auto simp: fun_eq_iff)
  have inl: "shape ?T m l (child (nd T a) RB_LEFT)"
    by (rule shape_reparent [OF l]) (use st mo dd L R in auto)
  have inr: "shape ?T m r (child (nd T a) RB_RIGHT)"
    by (rule shape_reparent [OF r]) (use st mo dd L R in auto)
  have s: "shape ?T q (Node l m r) m"
    using inl inr m(1,2) mc st by auto
  have C': "ctx ?T c a"
    using C L R mo dd(2) st by (subst ctx_cong [of c _ T]) auto
  have d': "distinct (inorder (plug c (Node l m r)))"
    using dis mo by (auto simp: inorder_plug_split set_tree_plug) (use m(3) in \<open>auto simp: set_tree_plug inorder_plug_split simp flip: set_inorder\<close>)
  have as: "a \<notin> path_set c" "a \<notin> set_tree (Node l m r)" using dd mo by auto
  show ?thesis
  proof (rule splice [OF C' a as s d'])
    fix e b u c' assume c: "c = (e, b, u) # c'"
    then have "b \<noteq> m" using mo by auto
    then show "(child (nd ?T b) RB_RIGHT = a) = e" using path_side [of T e b u c' _ a RB_RIGHT] P a c st(1) by auto
  qed
qed

lemma do_remove_at:
  assumes P: "at_path T c (Node l a r) a"
  shows "\<exists>T' s q. do_remove a T = Inr (0, T') \<and> at_path T' c s q \<and> inorder s = inorder l @ inorder r \<and> nd T' a = zero_node"
proof -
  have a: "a \<noteq> 0" "parent (nd T a) = top c" and l: "shape T a l (child (nd T a) RB_LEFT)" and r: "shape T a r (child (nd T a) RB_RIGHT)"
    and dis: "distinct (inorder (plug c (Node l a r)))"
    using P by (auto simp: at_path_def)
  show ?thesis
  proof (cases "l = Leaf \<or> r = Leaf")
    case True
    have "do_remove a T = Inr (0, unlink_node a T)" using True a l r by (auto simp: do_remove_def)
    moreover have "inorder (if l = Leaf then r else l) = inorder l @ inorder r" using True by auto
    moreover have "nd (unlink_node a T) a = zero_node" by (simp add: unlink_node_def unlink_with_def Let_def)
    ultimately show ?thesis using unlink_node_at [OF P True] by blast
  next
    case False
    have L: "at_path T ((RB_LEFT, a, r) # c) l (child (nd T a) RB_LEFT)" using P by (auto simp: at_path_def mk_def)
    obtain c1 ll m where m: "at_path T (c1 @ (RB_LEFT, a, r) # c) (Node ll m Leaf) m" "plug c1 (Node ll m Leaf) = l"
        "m = last (inorder l)" "inorder (plug c1 ll) = butlast (inorder l)"
      using rightmost_path [OF L] False by blast
    define T1 where "T1 = unlink_node m T"
    have u: "at_path T1 (c1 @ (RB_LEFT, a, r) # c) ll (child (nd T m) (child (nd T m) RB_LEFT = 0))"
      using unlink_node_at [OF m(1)] unfolding T1_def by (cases ll) auto
    obtain q where "at_path T1 ((RB_LEFT, a, r) # c) (plug c1 ll) q" using at_path_up [OF u] by blast
    then have P1: "at_path T1 c (Node (plug c1 ll) a r) a" by (auto simp: at_path_def mk_def)
    have ne: "inorder l \<noteq> []" using False by (cases l) auto
    have ml: "inorder l = inorder (plug c1 ll) @ [m]" using m(3,4) ne by simp
    have m0: "m \<noteq> 0" using m(1) by (auto simp: at_path_def)
    have mz: "nd T1 m = zero_node" by (simp add: T1_def unlink_node_def unlink_with_def Let_def)
    have "distinct (inorder (plug c1 ll) @ m # a # inorder r)" using distinct_plug(1) [OF dis] ml by simp
    moreover have "m \<in> set_tree l" using arg_cong [OF ml, of set] by auto
    then have "m \<notin> path_set c" using distinct_plug(2) [OF dis] by auto
    ultimately have mo: "m \<notin> set_tree (plug c (Node (plug c1 ll) a r))"
      unfolding set_tree_plug [of c] by (auto simp flip: set_inorder)
    have fin: "at_path (unlink_with a (top c) m (take_over a m T1)) c (Node (plug c1 ll) m r) m"
      by (rule replace_at [OF P1 m0 refl mo])
    have out: "get_outermost (child (nd T a) RB_LEFT) RB_RIGHT T = Inr m" using get_outermost_eq(2) [OF l] m(3) False by simp
    have "child (nd T a) RB_LEFT \<noteq> 0" "child (nd T a) RB_RIGHT \<noteq> 0" using l r False by (cases l; cases r; auto)+
    then have "do_remove a T = Inr (0, unlink_with a (top c) m (take_over a m T1))"
      using a out by (simp add: do_remove_def take_over_def T1_def Let_def)
    moreover have "inorder (Node (plug c1 ll) m r) = inorder l @ inorder r" using ml by simp
    moreover have "nd (unlink_with a (top c) m (take_over a m T1)) a = zero_node" by (simp add: unlink_with_def Let_def)
    ultimately show ?thesis using fin by blast
  qed
qed

lemma do_remove_ok:
  assumes R: "represents T t" and a: "a \<in> set_tree t"
  shows "\<exists>T' t'. do_remove a T = Inr (0, T') \<and> represents T' t' \<and> inorder t' = remove1 a (inorder t) \<and> nd T' a = zero_node"
proof -
  obtain c l r where P: "at_path T c (Node l a r) a" and t: "plug c (Node l a r) = t"
    using at_path_find [of T "[]" t "root T" a] R a by (auto simp: represents_at_path)
  obtain T' s q where T': "do_remove a T = Inr (0, T')" "at_path T' c s q" "inorder s = inorder l @ inorder r" "nd T' a = zero_node"
    using do_remove_at [OF P] by blast
  have d: "distinct (inorder t)" using R by (simp add: represents_def)
  have it: "inorder t = (pfx c @ inorder l) @ a # (inorder r @ sfx c)" using inorder_plug_split [of c "Node l a r"] t by simp
  with d have "a \<notin> set (pfx c @ inorder l)" by auto
  then have "remove1 a (inorder t) = pfx c @ inorder l @ inorder r @ sfx c" unfolding it by (simp add: remove1_append)
  moreover have "inorder (plug c s) = pfx c @ inorder l @ inorder r @ sfx c" using T'(3) by (simp add: inorder_plug_split)
  ultimately show ?thesis using T' at_path_root [OF T'(2)] by metis
qed

section \<open>What the operations leave alone\<close>

text \<open>
  A set of nodes that is closed under the pointers of a tree. The operations, started inside
  such a set, write to no node outside it, so several trees can share one store.
\<close>

definition closed_under :: "rb_tree \<Rightarrow> nat set \<Rightarrow> bool" where
  "closed_under T S \<longleftrightarrow> root T \<in> insert 0 S \<and> (\<forall>a\<in>S. parent (nd T a) \<in> insert 0 S \<and> (\<forall>d. child (nd T a) d \<in> insert 0 S))"

definition within :: "nat set \<Rightarrow> rb_tree \<Rightarrow> rb_tree \<Rightarrow> bool" where
  "within S T T' \<longleftrightarrow> closed_under T' S \<and> (\<forall>a. a \<notin> S \<longrightarrow> nd T' a = nd T a)"

lemma within_refl: "closed_under T S \<Longrightarrow> within S T T"
  by (simp add: within_def)

lemma within_trans: "within S T T' \<Longrightarrow> within S T' T'' \<Longrightarrow> within S T T''"
  by (simp add: within_def)

lemma within_closed: "within S T T' \<Longrightarrow> closed_under T' S"
  by (simp add: within_def)

lemma closedD:
  "closed_under T S \<Longrightarrow> a \<in> S \<Longrightarrow> parent (nd T a) \<noteq> 0 \<Longrightarrow> parent (nd T a) \<in> S"
  "closed_under T S \<Longrightarrow> a \<in> S \<Longrightarrow> child (nd T a) d \<noteq> 0 \<Longrightarrow> child (nd T a) d \<in> S"
  "closed_under T S \<Longrightarrow> root T \<noteq> 0 \<Longrightarrow> root T \<in> S"
  by (unfold closed_under_def) (metis insertE)+

lemma within_set:
  "closed_under T S \<Longrightarrow> a \<in> S \<Longrightarrow> within S T (set_color a k T)"
  "closed_under T S \<Longrightarrow> a \<in> S \<Longrightarrow> b \<in> insert 0 S \<Longrightarrow> within S T (set_parent a b T)"
  "closed_under T S \<Longrightarrow> a \<in> S \<Longrightarrow> b \<in> insert 0 S \<Longrightarrow> within S T (set_child a d b T)"
  "closed_under T S \<Longrightarrow> b \<in> insert 0 S \<Longrightarrow> within S T (T\<lparr>root := b\<rparr>)"
  by (auto simp: within_def closed_under_def store_defs)

lemma rotate_within:
  assumes c: "closed_under T S" and x: "x \<in> S" and r: "rotate_node x d T = Inr T'"
  shows "within S T T'"
proof -
  define y where "y = child (nd T x) (\<not> d)"
  define b where "b = child (nd T y) d"
  define q where "q = parent (nd T x)"
  have x0: "x \<noteq> 0" "y \<noteq> 0" using r by (auto simp: rotate_node_def kdefined_def y_def Let_def split: if_splits)
  then have T': "T' = rotated x d y b q T" using rotate_node_eq [OF x0(1) y_def x0(2) b_def q_def] r by simp
  have in_S: "y \<in> S" "b \<in> insert 0 S" "q \<in> insert 0 S"
    using closedD [OF c] x x0 unfolding y_def b_def q_def by blast+
  define T1 where "T1 = set_child x (\<not> d) b T"
  define T2 where "T2 = (if b \<noteq> 0 then set_parent b x T1 else T1)"
  define T3 where "T3 = set_child y d x T2"
  define T4 where "T4 = set_parent y q T3"
  define T5 where "T5 = (if q \<noteq> 0 then set_child q (child (nd T4 q) RB_RIGHT = x) y T4 else T4\<lparr>root := y\<rparr>)"
  have 1: "within S T T1" unfolding T1_def using within_set(3) [OF c x in_S(2)] .
  have 2: "within S T1 T2" unfolding T2_def using within_set(2) [OF within_closed [OF 1], of b x] within_refl [OF within_closed [OF 1]] in_S x by auto
  have 3: "within S T2 T3" unfolding T3_def using within_set(3) [OF within_closed [OF 2] in_S(1)] x by simp
  have 4: "within S T3 T4" unfolding T4_def using within_set(2) [OF within_closed [OF 3] in_S(1)] in_S by simp
  have 5: "within S T4 T5" unfolding T5_def using within_set(3) [OF within_closed [OF 4], of q y] within_set(4) [OF within_closed [OF 4], of y] in_S by auto
  have "within S T5 (set_parent x y T5)" using within_set(2) [OF within_closed [OF 5] x] in_S by simp
  moreover have "T' = set_parent x y T5" unfolding T' rotated_def Let_def T5_def T4_def T3_def T2_def T1_def by simp
  ultimately show ?thesis using 1 2 3 4 5 within_trans by metis
qed

lemma colors_within:
  "closed_under T S \<Longrightarrow> a \<in> S \<Longrightarrow> b \<in> S \<Longrightarrow> within S T (set_color b k (set_color a m T))"
  using within_set(1) within_trans within_closed by metis

lemma balance_step_within:
  assumes c: "closed_under T S" and n: "node \<in> S" and p: "parent (nd T node) \<noteq> 0" and r: "balance_step node T = Inr (node', T')"
  shows "within S T T' \<and> node' \<in> S"
proof -
  define par where "par = parent (nd T node)"
  define gp where "gp = parent (nd T par)"
  define dir where "dir = (child (nd T gp) RB_LEFT = par)"
  define uncle where "uncle = child (nd T gp) dir"
  have S: "par \<in> S" "gp \<noteq> 0" "gp \<in> S"
    using closedD(1) [OF c n p] closedD(1) [OF c, of par] r
    by (auto simp: par_def gp_def balance_step_def kdefined_def Let_def split: if_splits)
  show ?thesis
  proof (cases "uncle \<noteq> 0 \<and> color (nd T uncle) = RB_RED")
    case True
    then have u: "uncle \<in> S" using closedD(2) [OF c S(3), of dir] by (simp add: uncle_def)
    have "node' = gp" "T' = set_color gp RB_RED (set_color uncle RB_BLACK (set_color par RB_BLACK T))"
      using r True S(2) unfolding balance_step_def Let_def par_def [symmetric] gp_def [symmetric] dir_def [symmetric] uncle_def [symmetric] by auto
    then show ?thesis using colors_within [OF c S(1) u] within_set(1) [of _ S gp] within_trans within_closed S(3) by metis
  next
    case False
    have r': "rbind (if child (nd T par) dir = node then rbind (rotate_node par (\<not> dir) T) (\<lambda>T. Inr (par, parent (nd T par), T)) else Inr (node, par, T))
        (\<lambda>(node, par, T). kdefined (par \<noteq> 0) (rbind (rotate_node gp dir (set_color gp RB_RED (set_color par RB_BLACK T))) (\<lambda>T. Inr (node, T)))) = Inr (node', T')"
      using r S(2) unfolding balance_step_def Let_def par_def [symmetric] gp_def [symmetric] dir_def [symmetric] uncle_def [symmetric] if_not_P [OF False] by simp
    then obtain par1 T1 where 1: "(if child (nd T par) dir = node then rbind (rotate_node par (\<not> dir) T) (\<lambda>T. Inr (par, parent (nd T par), T)) else Inr (node, par, T)) = Inr (node', par1, T1)"
        "par1 \<noteq> 0" "rotate_node gp dir (set_color gp RB_RED (set_color par1 RB_BLACK T1)) = Inr T'"
      by (auto simp: res_eq_Inr)
    have T1: "within S T T1" "par1 \<in> S" "node' \<in> S"
    proof -
      show T1: "within S T T1" "node' \<in> S"
        using 1(1) rotate_within [OF c S(1)] within_refl [OF c] S n by (auto simp: res_eq_Inr split: if_splits)
      show "par1 \<in> S" using 1(1,2) S(1) closedD(1) [OF within_closed [OF T1(1)] S(1)] by (auto simp: res_eq_Inr split: if_splits)
    qed
    have w2: "within S T1 (set_color gp RB_RED (set_color par1 RB_BLACK T1))"
      by (rule colors_within [OF within_closed [OF T1(1)] T1(2) S(3)])
    from rotate_within [OF within_closed [OF w2] S(3) 1(3)] show ?thesis using T1 w2 within_trans by blast
  qed
qed

lemma balance_loop_within:
  assumes "balance_loop node T = Some r"
  shows "closed_under T S \<Longrightarrow> node \<in> S \<Longrightarrow> r = Inr T' \<Longrightarrow> within S T T'"
proof (rule balance_loop.raw_induct [OF _ assms, where P = "\<lambda>node T r. closed_under T S \<longrightarrow> node \<in> S \<longrightarrow> r = Inr T' \<longrightarrow> within S T T'", rule_format])
  fix loop node T r
  assume IH: "\<And>node T r. loop node T = Some r \<Longrightarrow> closed_under T S \<Longrightarrow> node \<in> S \<Longrightarrow> r = Inr T' \<Longrightarrow> within S T T'"
    and body: "(let par = parent (nd T node) in if par \<noteq> 0 \<and> color (nd T par) = RB_RED
      then case balance_step node T of Inl e \<Rightarrow> Some (Inl e) | Inr (node, T) \<Rightarrow> loop node T else Some (Inr T)) = Some r"
    and S: "closed_under T S" "node \<in> S" "r = Inr T'"
  show "within S T T'"
  proof (cases "parent (nd T node) \<noteq> 0 \<and> color (nd T (parent (nd T node))) = RB_RED")
    case False
    then have "T' = T" using body S(3) unfolding Let_def if_not_P [OF False] by simp
    with within_refl [OF S(1)] show ?thesis by simp
  next
    case True
    have eq: "(case balance_step node T of Inl e \<Rightarrow> Some (Inl e) | Inr (node, T) \<Rightarrow> loop node T) = Some (Inr T')"
      using body S(3) unfolding Let_def if_P [OF True] by simp
    then obtain n1 T1 where s: "balance_step node T = Inr (n1, T1)" "loop n1 T1 = Some (Inr T')"
      by (auto split: sum.splits prod.splits)
    have w: "within S T T1 \<and> n1 \<in> S" by (rule balance_step_within [OF S(1,2) _ s(1)]) (use True in simp)
    with IH [OF s(2)] show ?thesis using within_closed within_trans by blast
  qed
qed

lemma rb_balance_within:
  assumes c: "closed_under T S" and n: "node \<in> S" "0 \<notin> S" and r: "rb_balance node T = Inr (ret, T')"
  shows "within S T T'"
proof -
  have n0: "node \<noteq> 0" using n by metis
  have w: "within S T (set_color node RB_RED T)" by (rule within_set(1) [OF c n(1)])
  obtain T1 where T1: "balance_loop node (set_color node RB_RED T) = Some (Inr T1)" "root T1 \<noteq> 0" "T' = set_color (root T1) RB_BLACK T1"
    using r n0 by (cases "balance_loop node (set_color node RB_RED T)") (auto simp: rb_balance_def res_eq_Inr)
  have w1: "within S T T1" using balance_loop_within [OF T1(1) within_closed [OF w] n(1)] w within_trans by blast
  then have "root T1 \<in> S" using closedD(3) [OF within_closed [OF w1]] T1(2) by simp
  then show ?thesis unfolding T1(3) using within_set(1) [OF within_closed [OF w1]] w1 within_trans by blast
qed

lemma shape_closed:
  "shape T q t p \<Longrightarrow> a \<in> set_tree t \<Longrightarrow> parent (nd T a) \<in> insert q (set_tree t) \<and> child (nd T a) d \<in> insert 0 (set_tree t)"
proof (induction t arbitrary: q p)
  case (Node l b r)
  have L: "shape T b l (child (nd T b) RB_LEFT)" and R: "shape T b r (child (nd T b) RB_RIGHT)" using Node.prems(1) by auto
  show ?case
  proof (cases "a = b")
    case True
    have "child (nd T b) d \<in> insert 0 (set_tree l \<union> set_tree r)"
      using shape_ptr [OF L] shape_ptr [OF R] by (cases d) auto
    with True Node.prems(1) show ?thesis by auto
  next
    case False
    then show ?thesis using Node.IH(1) [OF L] Node.IH(2) [OF R] Node.prems(2) by auto
  qed
qed simp

lemma represents_closed:
  assumes "represents T t"
  shows "closed_under T (set_tree t)"
proof -
  have sh: "shape T 0 t (root T)" using assms by (simp add: represents_def)
  show ?thesis unfolding closed_under_def using shape_closed [OF sh] shape_ptr [OF sh] by auto
qed

section \<open>Properties\<close>

text \<open>
  C22: \<^verbatim>\<open>rb_balance\<close> on a node that has just been hung under a leaf position of a red-black tree ends
  without following a null pointer, restores the red-black invariants (black root, no two adjacent red
  nodes, equal black heights) and keeps the order of the nodes.
\<close>

theorem rb_balance_restores:
  assumes "represents T (plug c Leaf)" and "path_ok (colors T) c" and "bal (colors T) (plug c Leaf)"
    and "at_path T' c (Node Leaf node Leaf) node" and "\<forall>a. a \<noteq> node \<longrightarrow> colors T' a = colors T a"
  shows "\<exists>T'' t. rb_balance node T' = Inr (0, T'') \<and> rb_ok T'' t \<and> inorder t = pfx c @ node # sfx c"
proof -
  have n: "node \<noteq> 0" "node \<notin> path_set c" using assms(4) distinct_plug(2) [of c "Node Leaf node Leaf"] by (auto simp: at_path_def)
  have "path_ok (colors T') c" using assms(2,5) n by (subst path_ok_cong [of c _ "colors T"]) auto
  moreover have "bal (colors T') (plug c Leaf)"
    using assms(3,5) n by (subst inv_cong(4) [of "plug c Leaf" _ "colors T"]) (auto simp: set_tree_plug)
  ultimately show ?thesis
    using rb_balance_ok [OF assms(4) _ _ n(1)] inorder_plug_split [of c "Node Leaf node Leaf"] by simp
qed

definition demo_tree :: rb_tree where
  "demo_tree = \<lparr>nd = (\<lambda>a. if a = 10 then \<lparr>parent = 0, child = (\<lambda>d. if d then 20 else 0), color = RB_BLACK\<rparr>
     else if a = 20 then \<lparr>parent = 10, child = (\<lambda>d. if d then 30 else 0), color = RB_RED\<rparr>
     else if a = 30 then \<lparr>parent = 20, child = (\<lambda>_. 0), color = RB_BLACK\<rparr> else zero_node), root = 10\<rparr>"

definition demo_before :: rb_tree where
  "demo_before = set_child 20 RB_RIGHT 0 demo_tree"

theorem rb_balance_restores_witness:
  "\<exists>T'' t. rb_balance 30 demo_tree = Inr (0, T'') \<and> rb_ok T'' t \<and> inorder t = [10, 20, 30]"
  using rb_balance_restores [of demo_before "[(RB_RIGHT, 20, Leaf), (RB_RIGHT, 10, Leaf)]" demo_tree 30]
  by (auto simp: demo_before_def demo_tree_def represents_def at_path_def mk_def store_defs zero_node_def)

text \<open>
  \<^verbatim>\<open>rb_first\<close> and \<^verbatim>\<open>rb_last\<close> return the ends of the order of the nodes, \<^verbatim>\<open>rb_next\<close> and \<^verbatim>\<open>rb_prev\<close> the
  neighbours of a node in it, and the null pointer beyond the ends.
\<close>

theorem rb_iteration:
  assumes "represents T t" and "inorder t = xs @ a # ys"
  shows "rb_first T = Inr (hd (inorder t)) \<and> rb_last T = Inr (last (inorder t)) \<and>
    rb_next a T = Inr (if ys = [] then 0 else hd ys) \<and> rb_prev a T = Inr (if xs = [] then 0 else last xs)"
proof -
  have "shape T 0 t (root T)" "t \<noteq> Leaf" using assms by (auto simp: represents_def)
  with get_outermost_eq [of T 0 t "root T"] rb_neighbours [OF assms] show ?thesis
    by (simp add: rb_first_def rb_last_def)
qed

theorem rb_iteration_witness:
  "rb_first demo_tree = Inr 10 \<and> rb_last demo_tree = Inr 30 \<and> rb_next 20 demo_tree = Inr 30 \<and> rb_prev 20 demo_tree = Inr 10"
proof -
  have "represents demo_tree (Node Leaf 10 (Node Leaf 20 (Node Leaf 30 Leaf)))"
    by (simp add: represents_def demo_tree_def)
  from rb_iteration [OF this, of "[10]" 20 "[30]"] show ?thesis by simp
qed

text \<open>
  \<^verbatim>\<open>do_remove\<close> (the first half of \<^verbatim>\<open>rb_remove\<close>) always returns, takes exactly its node out of the
  order, whatever the number of its children, leaves a well-linked tree, and clears the node's colour
  with the rest of the node.
\<close>

theorem do_remove_removes:
  assumes "represents T t" and "a \<in> set_tree t"
  shows "\<exists>T' t'. do_remove a T = Inr (0, T') \<and> represents T' t' \<and> inorder t' = remove1 a (inorder t) \<and>
    colors T' a = RB_BLACK"
  using do_remove_ok [OF assms] by (metis rb_node.select_convs(3) zero_node_def)

theorem do_remove_removes_witness:
  "\<exists>T' t'. do_remove 20 demo_tree = Inr (0, T') \<and> represents T' t' \<and> inorder t' = [10, 30]"
proof -
  have "represents demo_tree (Node Leaf 10 (Node Leaf 20 (Node Leaf 30 Leaf)))"
    by (simp add: represents_def demo_tree_def)
  from do_remove_removes [OF this, of 20] show ?thesis by auto
qed

text \<open>
  C23: \<^verbatim>\<open>rb_remove\<close> does not keep the red-black invariants: it returns at once when the node has no
  children, so that taking a black leaf out of the tree of three black nodes leaves a well-linked tree
  of the two others whose black heights differ.
\<close>

definition black_tree :: rb_tree where
  "black_tree = \<lparr>nd = (\<lambda>a. if a = 20 then \<lparr>parent = 0, child = (\<lambda>d. if d then 30 else 10), color = RB_BLACK\<rparr>
     else if a = 10 \<or> a = 30 then \<lparr>parent = 20, child = (\<lambda>_. 0), color = RB_BLACK\<rparr> else zero_node), root = 20\<rparr>"


end
