(* ===== verification/VMA_Props.thy ===== *)
theory VMA_Props
  imports VMA RBTree_Spec
begin

text \<open>
  What the operations on virtual memory areas achieve: \<open>vma_space s t xs\<close> says that task \<open>t\<close> has the
  areas \<open>xs\<close>, disjoint and in ascending order, in its red-black tree and in its list. Lookups find the
  area around an address or the gap around it, and an insertion keeps the invariant or reports an
  overlap. The locale \<open>area_index\<close> is the interface of an address space.
\<close>

section \<open>The interface of an address space\<close>

text \<open>
  What the fault handler and the system calls rely on: a lookup that finds the area around an
  address, and an insertion that adds an area. The interface is provided by \<^verbatim>\<open>task_find_vma\<close> and
  \<^verbatim>\<open>insert_vma\<close>.
\<close>

locale area_index =
  fixes areas :: "'s \<Rightarrow> nat \<Rightarrow> nat list \<Rightarrow> bool"
    and lo :: "'s \<Rightarrow> nat \<Rightarrow> u64"
    and hi :: "'s \<Rightarrow> nat \<Rightarrow> u64"
    and cleared :: "'s \<Rightarrow> nat \<Rightarrow> bool"
    and find_area :: "nat \<Rightarrow> u64 \<Rightarrow> 's \<Rightarrow> nat res"
    and add_area :: "nat \<Rightarrow> nat \<Rightarrow> 's \<Rightarrow> (int \<times> 's) res"
  assumes areas_nonzero: "areas s t xs \<Longrightarrow> 0 \<notin> set xs"
    and areas_disjoint: "areas s t xs \<Longrightarrow> x \<in> set xs \<Longrightarrow> y \<in> set xs \<Longrightarrow> lo s x \<le> a \<Longrightarrow> a < hi s x \<Longrightarrow> lo s y \<le> a \<Longrightarrow> a < hi s y \<Longrightarrow> x = y"
    and find_law: "areas s t xs \<Longrightarrow> \<exists>v. find_area t a s = Inr v \<and>
      (if v = 0 then \<forall>x\<in>set xs. \<not> (lo s x \<le> a \<and> a < hi s x) else v \<in> set xs \<and> lo s v \<le> a \<and> a < hi s v)"
    and add_law: "areas s t xs \<Longrightarrow> v \<noteq> 0 \<Longrightarrow> v \<notin> set xs \<Longrightarrow> cleared s v \<Longrightarrow> lo s v < hi s v \<Longrightarrow> add_area t v s = Inr (0, s') \<Longrightarrow>
      \<exists>ys zs. xs = ys @ zs \<and> areas s' t (ys @ v # zs) \<and> lo s' = lo s \<and> hi s' = hi s"
begin

lemma find_unique:
  assumes "areas s t xs" and "x \<in> set xs" and "lo s x \<le> a" and "a < hi s x"
  shows "find_area t a s = Inr x"
proof -
  obtain v where v: "find_area t a s = Inr v" "if v = 0 then \<forall>x\<in>set xs. \<not> (lo s x \<le> a \<and> a < hi s x) else v \<in> set xs \<and> lo s v \<le> a \<and> a < hi s v"
    using find_law [OF assms(1)] by blast
  then have "v \<in> set xs" "lo s v \<le> a" "a < hi s v" using assms(2-4) by (auto split: if_splits)
  from areas_disjoint [OF assms(1) this(1) assms(2) this(2,3) assms(3,4)] v(1) show ?thesis by simp
qed

lemma find_none:
  assumes "areas s t xs" and "\<forall>x\<in>set xs. \<not> (lo s x \<le> a \<and> a < hi s x)"
  shows "find_area t a s = Inr 0"
  using find_law [OF assms(1), of a] assms(2) by (auto split: if_splits)

lemma find_after_add:
  assumes sp: "areas s t xs" and v: "v \<noteq> 0" "v \<notin> set xs" "cleared s v" "lo s v < hi s v" and add: "add_area t v s = Inr (0, s')"
  shows "find_area t a s' = (if lo s v \<le> a \<and> a < hi s v then Inr v else find_area t a s)"
proof -
  obtain ys zs where new: "xs = ys @ zs" "areas s' t (ys @ v # zs)" "lo s' = lo s" "hi s' = hi s"
    using add_law [OF sp v add] by blast
  show ?thesis
  proof (cases "\<exists>x\<in>set (v # xs). lo s x \<le> a \<and> a < hi s x")
    case True
    then obtain x where x: "x \<in> set (v # xs)" "lo s x \<le> a" "a < hi s x" by blast
    have f: "find_area t a s' = Inr x" by (rule find_unique [OF new(2)]) (use x new in auto)
    have "lo s v \<le> a \<and> a < hi s v \<Longrightarrow> x = v" using areas_disjoint [OF new(2), of x v a] x new by auto
    moreover have "x \<noteq> v \<Longrightarrow> find_area t a s = Inr x" using find_unique [OF sp _ x(2,3)] x(1) by simp
    ultimately show ?thesis using f x by (cases "x = v") auto
  next
    case False
    then have "find_area t a s = Inr 0" "find_area t a s' = Inr 0"
      using find_none [OF sp] find_none [OF new(2)] new by auto
    with False show ?thesis by auto
  qed
qed

end

section \<open>Ordered, disjoint areas\<close>

definition ordered :: "(nat \<Rightarrow> vma) \<Rightarrow> nat list \<Rightarrow> bool" where
  "ordered V xs \<longleftrightarrow> sorted_wrt (\<lambda>a b. vm_end (V a) \<le> vm_base (V b)) xs \<and> (\<forall>a\<in>set xs. vm_base (V a) < vm_end (V a))"

lemma ordered_simps [simp]:
  "ordered V []"
  "ordered V (a # xs) \<longleftrightarrow> vm_base (V a) < vm_end (V a) \<and> (\<forall>b\<in>set xs. vm_end (V a) \<le> vm_base (V b)) \<and> ordered V xs"
  by (auto simp: ordered_def)

lemma ordered_append [simp]:
  "ordered V (xs @ ys) \<longleftrightarrow> ordered V xs \<and> ordered V ys \<and> (\<forall>a\<in>set xs. \<forall>b\<in>set ys. vm_end (V a) \<le> vm_base (V b))"
  by (auto simp: ordered_def sorted_wrt_append)

lemma orderedD: "ordered V xs \<Longrightarrow> a \<in> set xs \<Longrightarrow> vm_base (V a) < vm_end (V a)"
  by (simp add: ordered_def)

lemma ordered_cong: "(\<And>a. a \<in> set xs \<Longrightarrow> vm_base (V' a) = vm_base (V a) \<and> vm_end (V' a) = vm_end (V a)) \<Longrightarrow> ordered V' xs = ordered V xs"
  by (induction xs) auto

text \<open>The first area that ends behind an address.\<close>

definition first_after :: "(nat \<Rightarrow> vma) \<Rightarrow> u64 \<Rightarrow> nat list \<Rightarrow> nat \<Rightarrow> nat" where
  "first_after V addr xs d = (case find (\<lambda>a. addr < vm_end (V a)) xs of None \<Rightarrow> d | Some a \<Rightarrow> a)"

lemma first_after_simps [simp]:
  "first_after V addr [] d = d"
  "first_after V addr (a # xs) d = (if addr < vm_end (V a) then a else first_after V addr xs d)"
  by (simp_all add: first_after_def)

lemma first_after_append: "first_after V addr (xs @ ys) d = first_after V addr xs (first_after V addr ys d)"
  by (induction xs) auto

lemma first_after_skip: "\<forall>a\<in>set xs. vm_end (V a) \<le> addr \<Longrightarrow> first_after V addr xs d = d"
  by (induction xs) (auto simp: not_less)

lemma find_vma_loop_ok:
  "shape T q t p \<Longrightarrow> ordered V (inorder t) \<Longrightarrow>
    \<exists>par dir. find_vma_loop V T addr p acc = Some (first_after V addr (inorder t) (fst acc), par, dir)"
proof (induction t arbitrary: q p acc)
  case Leaf
  then show ?case by (cases acc) (auto simp: find_vma_loop.simps)
next
  case (Node l a r)
  have sh: "p = a" "a \<noteq> 0" "shape T a l (child (nd T a) RB_LEFT)" "shape T a r (child (nd T a) RB_RIGHT)"
    and o: "ordered V (inorder l)" "ordered V (inorder r)" "vm_base (V a) < vm_end (V a)"
      "\<forall>b\<in>set_tree l. vm_end (V b) \<le> vm_base (V a)"
    using Node.prems by auto
  show ?case
  proof (cases "vm_base (V a) \<le> addr")
    case True
    then have "first_after V addr (inorder l) d = d" for d
      by (intro first_after_skip) (use o(4) in force)
    then show ?thesis
      using Node.IH(2) [OF sh(4) o(2), of "(fst acc, a, True)"] sh(1,2) True
      by (subst find_vma_loop.simps) (auto simp: first_after_append Let_def)
  next
    case False
    then show ?thesis
      using Node.IH(1) [OF sh(3) o(1), of "(a, a, False)"] sh(1,2) o(3)
      by (subst find_vma_loop.simps) (auto simp: first_after_append Let_def)
  qed
qed

lemma find_vma_ok:
  assumes "represents T t" and "ordered V (inorder t)"
  shows "\<exists>par dir. find_vma V T addr = Inr (first_after V addr (inorder t) 0, par, dir)"
proof -
  have "shape T 0 t (root T)" using assms(1) by (simp add: represents_def)
  from find_vma_loop_ok [OF this assms(2), of addr "(0, 0, False)"] show ?thesis
    by (auto simp: find_vma_def)
qed

section \<open>The position for a new area\<close>

fun posn :: "path \<Rightarrow> nat \<times> bool" where
  "posn [] = (0, False)"
| "posn ((d, a, u) # c) = (a, d)"

definition overlaps :: "(nat \<Rightarrow> vma) \<Rightarrow> nat \<Rightarrow> nat \<Rightarrow> bool" where
  "overlaps V v a \<longleftrightarrow> vm_base (V v) < vm_end (V a) \<and> vm_base (V a) < vm_end (V v)"

lemma apart_left: "vm_end (V b) \<le> vm_base (V v) \<Longrightarrow> \<not> overlaps V v b"
  by (auto simp: overlaps_def)

lemma apart_right: "vm_end (V v) \<le> vm_base (V b) \<Longrightarrow> \<not> overlaps V v b"
  by (auto simp: overlaps_def)

lemma insert_vma_loop_overlap:
  "shape T q t p \<Longrightarrow> ordered V (inorder t) \<Longrightarrow> vm_base (V v) < vm_end (V v) \<Longrightarrow> \<exists>a\<in>set_tree t. overlaps V v a \<Longrightarrow>
    insert_vma_loop V T v p acc = Some None"
proof (induction t arbitrary: q p acc)
  case (Node l a r)
  have sh: "p = a" "a \<noteq> 0" "shape T a l (child (nd T a) RB_LEFT)" "shape T a r (child (nd T a) RB_RIGHT)"
    and o: "ordered V (inorder l)" "ordered V (inorder r)" "vm_base (V a) < vm_end (V a)"
      "\<forall>b\<in>set_tree l. vm_end (V b) \<le> vm_base (V a)" "\<forall>b\<in>set_tree r. vm_end (V a) \<le> vm_base (V b)"
    using Node.prems(1,2) by auto
  consider "vm_end (V a) \<le> vm_base (V v)" | "overlaps V v a" | "vm_end (V v) \<le> vm_base (V a)"
    by (cases "vm_end (V a) \<le> vm_base (V v)"; cases "vm_end (V v) \<le> vm_base (V a)") (auto simp: overlaps_def not_le)
  then show ?case
  proof cases
    case 1
    then have "\<forall>b\<in>insert a (set_tree l). vm_end (V b) \<le> vm_base (V v)" using o(3,4) by force
    then have "\<exists>b\<in>set_tree r. overlaps V v b" using Node.prems(4) apart_left [of V _ v] by auto
    with Node.IH(2) [OF sh(4) o(2) Node.prems(3)] sh 1 show ?thesis by (subst insert_vma_loop.simps) simp
  next
    case 2
    then show ?thesis using sh by (subst insert_vma_loop.simps) (simp add: overlaps_def not_le)
  next
    case 3
    then have "\<forall>b\<in>insert a (set_tree r). vm_end (V v) \<le> vm_base (V b)" using o(3,5) by force
    then have "\<exists>b\<in>set_tree l. overlaps V v b" using Node.prems(4) apart_right [of V v] by auto
    moreover have "\<not> vm_end (V a) \<le> vm_base (V v)" "\<not> vm_base (V a) < vm_end (V v)" using 3 o(3) Node.prems(3) by auto
    ultimately show ?thesis using Node.IH(1) [OF sh(3) o(1) Node.prems(3)] sh by (subst insert_vma_loop.simps) simp
  qed
qed simp

lemma insert_vma_loop_ok:
  "at_path T c t p \<Longrightarrow> ordered V (inorder t) \<Longrightarrow> \<forall>a\<in>set_tree t. \<not> overlaps V v a \<Longrightarrow> vm_base (V v) < vm_end (V v) \<Longrightarrow>
    \<exists>c' xs ys. insert_vma_loop V T v p (posn c) = Some (Some (posn c')) \<and> at_path T c' Leaf 0 \<and> plug c' Leaf = plug c t \<and>
      inorder t = xs @ ys \<and> pfx c' = pfx c @ xs \<and> sfx c' = ys @ sfx c \<and>
      (\<forall>a\<in>set xs. vm_end (V a) \<le> vm_base (V v)) \<and> (\<forall>a\<in>set ys. vm_end (V v) \<le> vm_base (V a))"
proof (induction t arbitrary: c p)
  case Leaf
  then show ?case by (intro exI [of _ c]) (auto simp: insert_vma_loop.simps at_path_def)
next
  case (Node l a r)
  have sh: "p = a" "a \<noteq> 0" using Node.prems(1) by (auto simp: at_path_def)
  have L: "at_path T ((RB_LEFT, a, r) # c) l (child (nd T a) RB_LEFT)" and R: "at_path T ((RB_RIGHT, a, l) # c) r (child (nd T a) RB_RIGHT)"
    using Node.prems(1) by (auto simp: at_path_def mk_def)
  have o: "ordered V (inorder l)" "ordered V (inorder r)" "vm_base (V a) < vm_end (V a)"
      "\<forall>b\<in>set_tree l. vm_end (V b) \<le> vm_base (V a)" "\<forall>b\<in>set_tree r. vm_end (V a) \<le> vm_base (V b)"
    using Node.prems(2) by auto
  have no: "\<forall>b\<in>set_tree l. \<not> overlaps V v b" "\<forall>b\<in>set_tree r. \<not> overlaps V v b" "\<not> overlaps V v a" using Node.prems(3) by auto
  show ?case
  proof (cases "vm_end (V a) \<le> vm_base (V v)")
    case True
    then have left: "\<forall>b\<in>insert a (set_tree l). vm_end (V b) \<le> vm_base (V v)" using o(3,4) by force
    obtain c' xs ys where IH: "insert_vma_loop V T v (child (nd T a) RB_RIGHT) (a, True) = Some (Some (posn c'))" "at_path T c' Leaf 0"
        "plug c' Leaf = plug c (Node l a r)" "inorder r = xs @ ys" "pfx c' = pfx c @ inorder l @ [a] @ xs" "sfx c' = ys @ sfx c"
        "\<forall>a\<in>set xs. vm_end (V a) \<le> vm_base (V v)" "\<forall>a\<in>set ys. vm_end (V v) \<le> vm_base (V a)"
      using Node.IH(2) [OF R o(2) no(2) Node.prems(4)] by (auto simp: mk_def)
    have "insert_vma_loop V T v p (posn c) = Some (Some (posn c'))"
      using IH(1) sh True by (subst insert_vma_loop.simps) simp
    then show ?thesis using IH left
      by (intro exI [of _ c'] exI [of _ "inorder l @ a # xs"] exI [of _ ys]) auto
  next
    case False
    then have va: "vm_end (V v) \<le> vm_base (V a)" using no(3) by (simp add: overlaps_def not_le not_less)
    then have right: "\<forall>b\<in>insert a (set_tree r). vm_end (V v) \<le> vm_base (V b)" using o(3,5) by force
    obtain c' xs ys where IH: "insert_vma_loop V T v (child (nd T a) RB_LEFT) (a, False) = Some (Some (posn c'))" "at_path T c' Leaf 0"
        "plug c' Leaf = plug c (Node l a r)" "inorder l = xs @ ys" "pfx c' = pfx c @ xs" "sfx c' = ys @ a # inorder r @ sfx c"
        "\<forall>a\<in>set xs. vm_end (V a) \<le> vm_base (V v)" "\<forall>a\<in>set ys. vm_end (V v) \<le> vm_base (V a)"
      using Node.IH(1) [OF L o(1) no(1) Node.prems(4)] by (auto simp: mk_def)
    have "insert_vma_loop V T v p (posn c) = Some (Some (posn c'))"
      using IH(1) sh False va by (subst insert_vma_loop.simps) simp
    then show ?thesis using IH right
      by (intro exI [of _ c'] exI [of _ xs] exI [of _ "ys @ a # inorder r"]) auto
  qed
qed

text \<open>Hanging a cleared node under a leaf position.\<close>

definition attach :: "nat \<Rightarrow> nat \<times> bool \<Rightarrow> rb_tree \<Rightarrow> rb_tree" where
  "attach v pos T = (if fst pos = 0 then T\<lparr>root := v\<rparr> else set_parent v (fst pos) (set_child (fst pos) (snd pos) v T))"

lemma attach_colors [simp]: "color (nd (attach v pos T) a) = color (nd T a)"
  by (simp add: attach_def store_defs)

lemma attach_at_path:
  assumes P: "at_path T c Leaf 0" and v: "v \<noteq> 0" "v \<notin> path_set c" "nd T v = zero_node"
  shows "at_path (attach v (posn c) T) c (Node Leaf v Leaf) v"
proof (cases c rule: posn.cases)
  case 1
  with assms show ?thesis by (simp add: at_path_def attach_def zero_node_def)
next
  case (2 d a u c')
  let ?T = "attach v (posn c) T"
  have a: "a \<noteq> 0" "a \<noteq> v" "a \<notin> set_tree u" "a \<notin> path_set c'" "v \<notin> set_tree u" "v \<notin> path_set c'"
    and sh: "shape T a u (child (nd T a) (\<not> d))" "parent (nd T a) = top c'" "ctx T c' a"
    using P 2 v(2) distinct_plug [of c' "mk d Leaf a u"] by (auto simp: at_path_def distinct_mk)
  have keep: "nd ?T x = nd T x" if "x \<noteq> a" "x \<noteq> v" for x
    using that 2 a(1) by (simp add: attach_def store_defs)
  have na: "child (nd ?T a) d = v" "child (nd ?T a) (\<not> d) = child (nd T a) (\<not> d)" "parent (nd ?T a) = parent (nd T a)"
    using 2 a by (simp_all add: attach_def store_defs)
  have nv: "child (nd ?T v) = (\<lambda>_. 0)" "parent (nd ?T v) = a"
    using 2 a v(3) by (simp_all add: attach_def store_defs zero_node_def)
  have u: "shape ?T a u q = shape T a u q" for q by (rule shape_cong) (use a keep in metis)
  have "ctx ?T c' a = ctx T c' a"
    by (rule ctx_cong) (use a keep 2 in \<open>auto simp: attach_def store_defs\<close>)
  moreover have "distinct (inorder (plug c (Node Leaf v Leaf)))"
  proof -
    have "distinct (pfx c @ sfx c)" using P by (simp add: at_path_def inorder_plug_split)
    moreover have "set (pfx c @ sfx c) = path_set c"
      using set_tree_plug [of c Leaf] inorder_plug_split [of c Leaf] by (metis append_Nil inorder.simps(1) set_inorder set_tree_plug sup_bot.left_neutral tree.set(1))
    ultimately show ?thesis using v(2) by (auto simp: inorder_plug_split)
  qed
  ultimately show ?thesis using 2 a(1) v(1) sh na nv u unfolding at_path_def by simp
qed

lemma path_ok_plug: "red_ok col (plug c t) \<Longrightarrow> rt_black col (plug c t) \<Longrightarrow> path_ok col c \<and> red_ok col t \<and> (c \<noteq> [] \<longrightarrow> col (top c) = RB_RED \<longrightarrow> rt_black col t) \<and> (c = [] \<longrightarrow> rt_black col t)"
proof (induction c t rule: plug.induct)
  case (2 d a u c t)
  have "path_ok col c \<and> red_ok col (mk d t a u) \<and> (c \<noteq> [] \<longrightarrow> col (top c) = RB_RED \<longrightarrow> rt_black col (mk d t a u)) \<and> (c = [] \<longrightarrow> rt_black col (mk d t a u))"
    using "2.IH" "2.prems" by simp
  then show ?case by (cases "col a"; cases "col (top c)") auto
qed simp

section \<open>Inserting in the middle of a ring\<close>

lemma is_list_rotate: "is_list h p (xs @ a # ys) \<Longrightarrow> is_list h a (ys @ p # xs)"
  by (auto simp: is_list_def)

lemma is_list_insert_after:
  assumes "is_list h p (xs @ a # ys)" and "n \<notin> set (p # xs @ a # ys)" and "n \<noteq> Null"
  shows "is_list (list_insert_after a n h) p (xs @ a # n # ys)"
    and "\<And>q zs. is_list h q zs \<Longrightarrow> set (q # zs) \<inter> insert n (set (p # xs @ a # ys)) = {} \<Longrightarrow> is_list (list_insert_after a n h) q zs"
proof -
  note r = is_list_rotate [OF assms(1)]
  have "is_list (list_add a n h) a (n # ys @ p # xs)" by (rule is_list_add [OF r]) (use assms in auto)
  then have "is_list (list_add a n h) a ((n # ys) @ p # xs)" by simp
  from is_list_rotate [OF this] show "is_list (list_insert_after a n h) p (xs @ a # n # ys)" by (simp add: list_add_def)
  show "is_list (list_insert_after a n h) q zs" if "is_list h q zs" "set (q # zs) \<inter> insert n (set (p # xs @ a # ys)) = {}" for q zs
    using rings.rep_add_frame [OF r that(1), of n] that(2) by (simp add: list_add_def Un_commute insert_commute Un_left_commute)
qed

lemma is_list_insert_before:
  assumes "is_list h p (xs @ a # ys)" and "n \<notin> set (p # xs @ a # ys)" and "n \<noteq> Null"
  shows "is_list (list_insert_before a n h) p (xs @ n # a # ys)"
    and "\<And>q zs. is_list h q zs \<Longrightarrow> set (q # zs) \<inter> insert n (set (p # xs @ a # ys)) = {} \<Longrightarrow> is_list (list_insert_before a n h) q zs"
proof -
  note r = is_list_rotate [OF assms(1)]
  have "is_list (list_add_tail a n h) a (ys @ p # xs @ [n])"
    using is_list_add_tail [OF r, of n] assms by simp
  from is_list_rotate [OF this] show "is_list (list_insert_before a n h) p (xs @ n # a # ys)" by (simp add: list_add_tail_def)
  show "is_list (list_insert_before a n h) q zs" if "is_list h q zs" "set (q # zs) \<inter> insert n (set (p # xs @ a # ys)) = {}" for q zs
    using rings.rep_add_tail_frame [OF r that(1), of n] that(2) by (simp add: list_add_tail_def Un_commute insert_commute Un_left_commute)
qed

section \<open>The address space of a task\<close>

text \<open>
  The areas \<open>xs\<close> of a task, in order: a red-black tree and a list of the same areas, each area
  not empty, areas disjoint and ascending.
\<close>

definition vma_space :: "'z kvma_scheme \<Rightarrow> nat \<Rightarrow> nat list \<Rightarrow> bool" where
  "vma_space s t xs \<longleftrightarrow> (\<exists>tr. rb_ok (tree_of t s) tr \<and> inorder tr = xs) \<and> ordered (vmas s) xs \<and>
     is_list (lh s) (TaskMmap t) (map VmMmap xs)"

text \<open>The list insertion that \<^verbatim>\<open>insert_vma\<close> makes.\<close>

definition link_vma :: "nat \<Rightarrow> nat \<Rightarrow> nat \<times> bool \<Rightarrow> lheap \<Rightarrow> lheap" where
  "link_vma t v pos h = (if fst pos = 0 then list_insert_after (TaskMmap t) (VmMmap v) h
     else if snd pos then list_insert_after (VmMmap (fst pos)) (VmMmap v) h
     else list_insert_before (VmMmap (fst pos)) (VmMmap v) h)"

lemma insert_vma_eq:
  "insert_vma t v s = rbind (total (map_option Inr (insert_vma_loop (vmas s) (tree_of t s) v (task_rb s t) (0, False)))) (\<lambda>pos.
     case pos of None \<Rightarrow> Inr (- 1, s)
     | Some pos \<Rightarrow> rbind (rb_balance v (attach v pos (tree_of t s))) (\<lambda>(ret, T).
         if ret < 0 then Inr (- 1, put_tree t T s) else Inr (0, (put_tree t T s)\<lparr>lh := link_vma t v pos (lh s)\<rparr>)))"
proof -
  have [simp]: "root (tree_of t s) = task_rb s t" "lh (put_tree t T s) = lh s" for T by (simp_all add: tree_of_def put_tree_def)
  show ?thesis unfolding insert_vma_def Let_def link_vma_def attach_def
    by (intro arg_cong2 [where f = rbind] ext) (simp_all add: split_def cong: if_cong split: option.splits)
qed

lemma link_vma_ok:
  assumes l: "is_list h (TaskMmap t) (map VmMmap (pfx c @ sfx c))" and v: "v \<notin> set (pfx c @ sfx c)"
    and c: "at_path T c Leaf 0"
  shows "is_list (link_vma t v (posn c) h) (TaskMmap t) (map VmMmap (pfx c @ v # sfx c))"
    and "\<And>t' us. is_list h (TaskMmap t') (map VmMmap us) \<Longrightarrow> t' \<noteq> t \<Longrightarrow> set us \<inter> set (v # pfx c @ sfx c) = {} \<Longrightarrow>
      is_list (link_vma t v (posn c) h) (TaskMmap t') (map VmMmap us)"
proof -
  let ?h = "link_vma t v (posn c) h"
  have n: "VmMmap v \<notin> set (TaskMmap t # map VmMmap (pfx c @ sfx c))" "VmMmap v \<noteq> Null" using v by auto
  have "is_list ?h (TaskMmap t) (map VmMmap (pfx c @ v # sfx c)) \<and>
    (\<forall>q zs. is_list h q zs \<longrightarrow> set (q # zs) \<inter> insert (VmMmap v) (set (TaskMmap t # map VmMmap (pfx c @ sfx c))) = {} \<longrightarrow> is_list ?h q zs)"
  proof (cases c rule: posn.cases)
    case 1
    have "is_list ?h (TaskMmap t) (map VmMmap (pfx c @ v # sfx c))"
      using is_list_add [OF l n] 1 by (simp add: link_vma_def list_add_def)
    moreover have "is_list ?h q zs" if "is_list h q zs" "set (q # zs) \<inter> insert (VmMmap v) (set (TaskMmap t # map VmMmap (pfx c @ sfx c))) = {}" for q zs
      using rings.rep_add_frame [OF l that(1), of "VmMmap v"] that(2) 1 by (simp add: list_add_def link_vma_def)
    ultimately show ?thesis by blast
  next
    case (2 d a u c')
    have a: "a \<noteq> 0" using c 2 by (simp add: at_path_def)
    show ?thesis
    proof (cases d)
      case True
      have l': "is_list h (TaskMmap t) (map VmMmap (pfx c' @ inorder u) @ VmMmap a # map VmMmap (sfx c))" using l 2 True by simp
      show ?thesis using is_list_insert_after [OF l', of "VmMmap v"] n 2 True a by (simp add: link_vma_def)
    next
      case False
      have l': "is_list h (TaskMmap t) (map VmMmap (pfx c) @ VmMmap a # map VmMmap (inorder u @ sfx c'))" using l 2 False by simp
      show ?thesis using is_list_insert_before [OF l', of "VmMmap v"] n 2 False a by (simp add: link_vma_def)
    qed
  qed
  then have own: "is_list ?h (TaskMmap t) (map VmMmap (pfx c @ v # sfx c))"
    and other: "\<And>q zs. is_list h q zs \<Longrightarrow> set (q # zs) \<inter> insert (VmMmap v) (set (TaskMmap t # map VmMmap (pfx c @ sfx c))) = {} \<Longrightarrow> is_list ?h q zs"
    by blast+
  show "is_list ?h (TaskMmap t) (map VmMmap (pfx c @ v # sfx c))" by (rule own)
  show "is_list ?h (TaskMmap t') (map VmMmap us)"
    if "is_list h (TaskMmap t') (map VmMmap us)" "t' \<noteq> t" "set us \<inter> set (v # pfx c @ sfx c) = {}" for t' us
    using that by (intro other) auto
qed

lemma put_tree_simps [simp]:
  "vmas (put_tree t T s) = vmas s" "lh (put_tree t T s) = lh s" "tree_of t (put_tree t T s) = T"
  "tree_of t (s\<lparr>lh := h\<rparr>) = tree_of t s" "nd (tree_of t s) = rbn s" "root (tree_of t s) = task_rb s t"
  by (simp_all add: put_tree_def tree_of_def)

lemma rb_ok_frame:
  assumes ok: "rb_ok T tr" and same: "\<And>a. a \<in> set_tree tr \<Longrightarrow> nd T' a = nd T a" and "root T' = root T"
  shows "rb_ok T' tr"
proof -
  have "shape T' 0 tr p = shape T 0 tr p" for p by (rule shape_cong) (use same in simp)
  moreover have "rt_black (colors T') tr = rt_black (colors T) tr" "red_ok (colors T') tr = red_ok (colors T) tr" "bal (colors T') tr = bal (colors T) tr"
    by (rule inv_cong; use same in simp)+
  ultimately show ?thesis using ok assms(3) by (simp add: rb_ok_def represents_def)
qed

lemma vma_space_frame:
  assumes sp: "vma_space s t us" and rb: "\<And>a. a \<in> set us \<Longrightarrow> rbn s' a = rbn s a" "task_rb s' t = task_rb s t"
    and ar: "\<And>a. a \<in> set us \<Longrightarrow> vm_base (vmas s' a) = vm_base (vmas s a) \<and> vm_end (vmas s' a) = vm_end (vmas s a)"
    and l: "is_list (lh s') (TaskMmap t) (map VmMmap us)"
  shows "vma_space s' t us"
proof -
  obtain tr where tr: "rb_ok (tree_of t s) tr" "inorder tr = us" using sp by (auto simp: vma_space_def)
  have "rb_ok (tree_of t s') tr" by (rule rb_ok_frame [OF tr(1)]) (use rb tr(2) in auto)
  moreover have "ordered (vmas s') us" using sp ordered_cong [of us "vmas s'" "vmas s"] ar by (auto simp: vma_space_def)
  ultimately show ?thesis using tr(2) l by (auto simp: vma_space_def)
qed

text \<open>Balancing after the attachment, with what it leaves alone.\<close>

lemma attach_balance:
  assumes rb: "rb_ok T tr" and c: "at_path T c Leaf 0" "plug c Leaf = tr"
    and v: "v \<noteq> 0" "v \<notin> set_tree tr" "nd T v = zero_node"
  shows "\<exists>T' tr'. rb_balance v (attach v (posn c) T) = Inr (0, T') \<and> rb_ok T' tr' \<and> inorder tr' = pfx c @ v # sfx c \<and>
     (\<forall>a. a \<notin> insert v (set_tree tr) \<longrightarrow> nd T' a = nd T a)"
proof -
  let ?T = "attach v (posn c) T" and ?N = "Node Leaf v Leaf"
  have pc: "v \<notin> path_set c" using v(2) c(2) set_tree_plug [of c Leaf] by auto
  have P: "at_path ?T c ?N v" by (rule attach_at_path [OF c(1) v(1) pc v(3)])
  have col: "colors ?T = colors T" by auto
  have "path_ok (colors T) c" using path_ok_plug [of "colors T" c Leaf] rb c(2) by (simp add: rb_ok_def)
  moreover have "bal (colors T) (plug c Leaf)" using rb c(2) by (simp add: rb_ok_def)
  ultimately obtain T' tr' where T': "rb_balance v ?T = Inr (0, T')" "rb_ok T' tr'" "inorder tr' = inorder (plug c ?N)"
    using rb_balance_ok [OF P _ _ v(1)] unfolding col by blast
  let ?S = "insert v (set_tree tr)"
  have S: "set_tree (plug c ?N) = ?S" using set_tree_plug [of c ?N] set_tree_plug [of c Leaf] c(2) by auto
  have cl: "closed_under ?T ?S" using represents_closed [OF at_path_root [OF P]] S by simp
  have "0 \<notin> ?S" using v(1) shape_nonzero [of T 0 tr] rb by (auto simp: rb_ok_def represents_def)
  then have w: "within ?S ?T T'" using rb_balance_within [OF cl _ _ T'(1)] by simp
  have "nd ?T a = nd T a" if "a \<notin> ?S" for a
  proof -
    have "fst (posn c) \<noteq> 0 \<Longrightarrow> fst (posn c) \<in> set_tree tr"
      using c(2) set_tree_plug [of c Leaf] by (cases c rule: posn.cases) auto
    with that show ?thesis by (auto simp: attach_def store_defs)
  qed
  with w have "\<forall>a. a \<notin> ?S \<longrightarrow> nd T' a = nd T a" by (simp add: within_def)
  with T' show ?thesis by (auto simp: inorder_plug_split)
qed

lemma insert_vma_ok:
  assumes sp: "vma_space s t xs" and v: "v \<noteq> 0" "v \<notin> set xs" "rbn s v = zero_node" "vm_base (vmas s v) < vm_end (vmas s v)"
    and free: "\<forall>a\<in>set xs. \<not> overlaps (vmas s) v a"
  shows "\<exists>s' ys zs. insert_vma t v s = Inr (0, s') \<and> xs = ys @ zs \<and> vma_space s' t (ys @ v # zs) \<and> vmas s' = vmas s \<and>
     (\<forall>t' us. t' \<noteq> t \<longrightarrow> vma_space s t' us \<longrightarrow> set us \<inter> set (v # xs) = {} \<longrightarrow> vma_space s' t' us)"
proof -
  let ?T = "tree_of t s" and ?V = "vmas s"
  obtain tr where tr: "rb_ok ?T tr" "inorder tr = xs" and o: "ordered ?V xs" and l: "is_list (lh s) (TaskMmap t) (map VmMmap xs)"
    using sp by (auto simp: vma_space_def)
  have setx: "set_tree tr = set xs" using tr(2) by auto
  have "at_path ?T [] tr (task_rb s t)" using tr(1) represents_at_path [of ?T tr] by (simp add: rb_ok_def)
  from insert_vma_loop_ok [OF this, of ?V v] obtain c where
      c: "insert_vma_loop ?V ?T v (task_rb s t) (0, False) = Some (Some (posn c))" "at_path ?T c Leaf 0" "plug c Leaf = tr"
        "xs = pfx c @ sfx c" "\<forall>a\<in>set (pfx c). vm_end (?V a) \<le> vm_base (?V v)" "\<forall>a\<in>set (sfx c). vm_end (?V v) \<le> vm_base (?V a)"
    using o free v(4) tr(2) setx by auto
  from attach_balance [OF tr(1) c(2,3) v(1)] obtain T' tr' where
      T': "rb_balance v (attach v (posn c) ?T) = Inr (0, T')" "rb_ok T' tr'" "inorder tr' = pfx c @ v # sfx c" "\<forall>a. a \<notin> set (v # xs) \<longrightarrow> nd T' a = rbn s a"
    using v setx by auto
  define s' where "s' = (put_tree t T' s)\<lparr>lh := link_vma t v (posn c) (lh s)\<rparr>"
  have run: "insert_vma t v s = Inr (0, s')" using c(1) T'(1) by (simp add: insert_vma_eq s'_def)
  note link = link_vma_ok [OF l [unfolded c(4)] v(2) [unfolded c(4)] c(2)]
  have "ordered ?V (pfx c @ v # sfx c)" using o c(4-6) v(4) by auto
  then have "vma_space s' t (pfx c @ v # sfx c)" using T'(2,3) link(1) unfolding vma_space_def by (auto simp: s'_def)
  moreover have "vma_space s' t' us" if "t' \<noteq> t" "vma_space s t' us" "set us \<inter> set (v # xs) = {}" for t' us
  proof (rule vma_space_frame [OF that(2)])
    show "rbn s' a = rbn s a" if "a \<in> set us" for a using that \<open>set us \<inter> set (v # xs) = {}\<close> T'(4) by (auto simp: s'_def put_tree_def)
    show "is_list (lh s') (TaskMmap t') (map VmMmap us)"
      using link(2) [of t' us] that c(4) by (auto simp: s'_def vma_space_def)
  qed (use that in \<open>auto simp: s'_def put_tree_def\<close>)
  ultimately show ?thesis using run c(4) by (intro exI [of _ s'] exI [of _ "pfx c"] exI [of _ "sfx c"]) (simp add: s'_def)
qed

lemma insert_vma_overlap:
  assumes sp: "vma_space s t xs" and v: "vm_base (vmas s v) < vm_end (vmas s v)" and "\<exists>a\<in>set xs. overlaps (vmas s) v a"
  shows "insert_vma t v s = Inr (- 1, s)"
proof -
  obtain tr where tr: "rb_ok (tree_of t s) tr" "inorder tr = xs" "ordered (vmas s) xs" using sp by (auto simp: vma_space_def)
  then have "shape (tree_of t s) 0 tr (task_rb s t)" by (simp add: rb_ok_def represents_def)
  moreover have "\<exists>a\<in>set_tree tr. overlaps (vmas s) v a" using assms(3) tr(2) by auto
  ultimately have "insert_vma_loop (vmas s) (tree_of t s) v (task_rb s t) (0, False) = Some None"
    using insert_vma_loop_overlap v tr(2,3) by blast
  then show ?thesis by (simp add: insert_vma_eq)
qed

section \<open>Looking up addresses and gaps\<close>

lemma vma_space_nonzero: "vma_space s t xs \<Longrightarrow> 0 \<notin> set xs"
  using shape_nonzero by (fastforce simp: vma_space_def rb_ok_def represents_def)

text \<open>The first area behind an address splits the sequence of areas.\<close>

lemma first_after_cases:
  obtains (none) "first_after V addr xs 0 = 0" and "\<forall>a\<in>set xs. vm_end (V a) \<le> addr"
  | (found) ys v zs where "first_after V addr xs 0 = v" and "xs = ys @ v # zs" and "\<forall>a\<in>set ys. vm_end (V a) \<le> addr" and "addr < vm_end (V v)"
proof (cases "find (\<lambda>a. addr < vm_end (V a)) xs")
  case None
  then have "\<forall>a\<in>set xs. vm_end (V a) \<le> addr" unfolding find_None_iff by (meson not_le)
  with None none show ?thesis by (simp add: first_after_def)
next
  case (Some v)
  then obtain i where i: "i < length xs" "addr < vm_end (V (xs ! i))" "v = xs ! i" "\<forall>j<i. \<not> addr < vm_end (V (xs ! j))"
    by (auto simp: find_Some_iff)
  have "\<forall>a\<in>set (take i xs). vm_end (V a) \<le> addr" using i(1,4) by (auto simp: in_set_conv_nth not_less)
  then show ?thesis using found [of v "take i xs" "drop (Suc i) xs"] i Some by (simp add: id_take_nth_drop [symmetric] first_after_def)
qed

lemma find_vma_space:
  assumes "vma_space s t xs"
  shows "\<exists>par dir. find_vma (vmas s) (tree_of t s) addr = Inr (first_after (vmas s) addr xs 0, par, dir)"
  using assms find_vma_ok [of "tree_of t s" _ "vmas s" addr] by (auto simp: vma_space_def rb_ok_def)

lemma is_list_prev:
  assumes "is_list h p (xs @ a # ys)"
  shows "list_prev p a h = (if xs = [] then Null else last xs)"
proof -
  have "linked h p xs a" "p \<notin> set xs" using assms by (auto simp: is_list_def)
  from linked_pv [OF this(1)] this(2) show ?thesis by (auto simp: list_prev_def)
qed

lemma vma_prev:
  assumes "is_list h (TaskMmap t) (map VmMmap (ys @ v # zs))"
  shows "vma_of (list_prev (TaskMmap t) (VmMmap v) h) = Inr (if ys = [] then 0 else last ys)"
  using is_list_prev [of h "TaskMmap t" "map VmMmap ys" "VmMmap v" "map VmMmap zs"] assms
  by (auto simp: vma_of_def last_map)

lemma vma_last:
  assumes "is_list h (TaskMmap t) (map VmMmap ys)"
  shows "vma_of (list_tail (TaskMmap t) h) = Inr (if ys = [] then 0 else last ys)"
proof -
  have "list_tail (TaskMmap t) h = (if ys = [] then Null else VmMmap (last ys))"
    using is_list_head_nodes(2) [OF assms] by (auto simp: list_tail_def last_map)
  then show ?thesis by (simp add: vma_of_def)
qed

lemma ordered_last:
  assumes "ordered V ys" and "a \<in> set ys"
  shows "vm_end (V a) \<le> vm_end (V (last ys))"
proof (cases ys rule: rev_cases)
  case (snoc zs z)
  then show ?thesis using assms by (auto intro: order.trans less_imp_le)
qed (use assms in simp)

section \<open>The interface is provided\<close>

lemma task_find_vma_ok:
  assumes "vma_space s t xs"
  shows "\<exists>v. task_find_vma t addr s = Inr v \<and>
    (if v = 0 then \<forall>a\<in>set xs. \<not> (vm_base (vmas s a) \<le> addr \<and> addr < vm_end (vmas s a))
     else v \<in> set xs \<and> vm_base (vmas s v) \<le> addr \<and> addr < vm_end (vmas s v))"
proof -
  obtain par dir where f: "find_vma (vmas s) (tree_of t s) addr = Inr (first_after (vmas s) addr xs 0, par, dir)"
    using find_vma_space [OF assms] by blast
  have o: "ordered (vmas s) xs" using assms by (simp add: vma_space_def)
  show ?thesis
  proof (cases rule: first_after_cases [of "vmas s" addr xs])
    case none
    with f show ?thesis by (auto simp: task_find_vma_def not_less)
  next
    case (found ys v zs)
    have v0: "v \<noteq> 0" using vma_space_nonzero [OF assms] found(2) by auto
    show ?thesis
    proof (cases "addr < vm_base (vmas s v)")
      case True
      have "addr < vm_base (vmas s a)" if "a \<in> set (v # zs)" for a
        using that True o found(2,4) by (auto dest: orderedD)
      then have "\<forall>a\<in>set xs. \<not> (vm_base (vmas s a) \<le> addr \<and> addr < vm_end (vmas s a))"
        using found(2,3) by (auto simp: not_less not_le)
      moreover have "task_find_vma t addr s = Inr 0" using f found(1) True by (simp add: task_find_vma_def)
      ultimately show ?thesis by simp
    next
      case False
      then show ?thesis using f found v0 by (auto simp: task_find_vma_def)
    qed
  qed
qed

lemma ordered_disjoint:
  assumes "ordered V xs" and "x \<in> set xs" and "y \<in> set xs" and "vm_base (V x) \<le> a" "a < vm_end (V x)" "vm_base (V y) \<le> a" "a < vm_end (V y)"
  shows "x = y"
  using assms by (induction xs) force+

interpretation space: area_index vma_space "\<lambda>s a. vm_base (vmas s a)" "\<lambda>s a. vm_end (vmas s a)" "\<lambda>s a. rbn s a = zero_node" task_find_vma insert_vma
proof (unfold_locales, goal_cases)
  case (1 s t xs)
  then show ?case by (rule vma_space_nonzero)
next
  case (2 s t xs x y a)
  then show ?case using ordered_disjoint [of "vmas s" xs x y a] by (simp add: vma_space_def)
next
  case (3 s t xs a)
  then show ?case by (rule task_find_vma_ok)
next
  case (4 s t xs v s')
  have "\<not> (\<exists>a\<in>set xs. overlaps (vmas s) v a)" using insert_vma_overlap [OF 4(1,5)] 4(6) by auto
  then obtain ys zs where "xs = ys @ zs" "vma_space s' t (ys @ v # zs)" "vmas s' = vmas s"
    using insert_vma_ok [OF 4(1-5)] 4(6) by auto
  then show ?case by (intro exI [of _ ys] exI [of _ zs]) simp
qed

section \<open>A concrete address space\<close>

definition demo_area :: "nat \<Rightarrow> vma" where
  "demo_area a = (if a = 10 then zero_vma\<lparr>vm_base := 0x1000, vm_end := 0x2000\<rparr>
     else if a = 20 then zero_vma\<lparr>vm_base := 0x3000, vm_end := 0x5000\<rparr>
     else if a = 30 then zero_vma\<lparr>vm_base := 0x2000, vm_end := 0x3000\<rparr>
     else zero_vma\<lparr>vm_base := 0x4000, vm_end := 0x6000\<rparr>)"

definition demo_nodes :: "nat \<Rightarrow> rb_node" where
  "demo_nodes a = (if a = 10 then \<lparr>parent = 0, child = (\<lambda>d. if d then 20 else 0), color = RB_BLACK\<rparr>
     else if a = 20 then \<lparr>parent = 10, child = (\<lambda>_. 0), color = RB_RED\<rparr> else zero_node)"

definition demo_ring :: lheap where
  "demo_ring = \<lparr>nx = (\<lambda>a. a)(TaskMmap 1 := VmMmap 10, VmMmap 10 := VmMmap 20, VmMmap 20 := TaskMmap 1),
     pv = (\<lambda>a. a)(TaskMmap 1 := VmMmap 20, VmMmap 10 := TaskMmap 1, VmMmap 20 := VmMmap 10)\<rparr>"

definition demo_kvma :: kvma where
  "demo_kvma = kmem.extend (demo_kmem\<lparr>lh := demo_ring\<rparr>)
     \<lparr>cr3 = 0, tlb_log = [], swap_lock = buddy_lock demo_kmem, cur_task = Some 1,
      next_free = 0, kernel_end = 0, kernel_pml4 = 0,
      slabs = (\<lambda>_. \<lparr>info_off = 0, obj_size = 0, count = 0\<rparr>), sinfo = (\<lambda>_. \<lparr>si_slab = 0, free_count = 0\<rparr>), obj_info = (\<lambda>_. 0), nslabs = (\<lambda>_. 0),
      vmas = demo_area, rbn = demo_nodes, task_rb = (\<lambda>t. if t = 1 then 10 else 0), task_pml4 = (\<lambda>_. 600),
      rmap_lock = (\<lambda>_. buddy_lock demo_kmem)\<rparr>"

lemma demo_kvma_fields [simp]:
  "vmas demo_kvma = demo_area" "rbn demo_kvma = demo_nodes" "task_rb demo_kvma 1 = 10" "lh demo_kvma = demo_ring"
  "task_rb demo_kvma (Suc 0) = 10"
  by (simp_all add: demo_kvma_def kmem.defs)

lemma demo_kvma_space: "vma_space demo_kvma 1 [10, 20]"
proof -
  have "rb_ok (tree_of 1 demo_kvma) (Node Leaf 10 (Node Leaf 20 Leaf))"
    by (simp add: rb_ok_def represents_def demo_nodes_def)
  moreover have "ordered demo_area [10, 20]" by (simp add: demo_area_def)
  moreover have "is_list demo_ring (TaskMmap 1) (map VmMmap [10, 20])" by (simp add: is_list_def demo_ring_def)
  ultimately show ?thesis unfolding vma_space_def by (auto intro!: exI [of _ "Node Leaf 10 (Node Leaf 20 Leaf)"])
qed

section \<open>Properties\<close>

text \<open>
  C24: \<^verbatim>\<open>insert_vma\<close> of a non-empty area with a cleared tree node: if the area overlaps one of the task's
  areas, -1 is returned and nothing changes; otherwise 0 is returned, the area is at its place in
  the order in both the red-black tree, which is balanced again, and the list, and the areas of
  every other task are undisturbed.
\<close>

theorem insert_vma_correct:
  assumes "vma_space s t xs" and "v \<noteq> 0" and "v \<notin> set xs" and "rbn s v = zero_node" and "vm_base (vmas s v) < vm_end (vmas s v)"
  shows "if \<exists>a\<in>set xs. overlaps (vmas s) v a then insert_vma t v s = Inr (- 1, s)
    else \<exists>s' ys zs. insert_vma t v s = Inr (0, s') \<and> xs = ys @ zs \<and> vma_space s' t (ys @ v # zs) \<and> vmas s' = vmas s \<and>
      (\<forall>t' us. t' \<noteq> t \<longrightarrow> vma_space s t' us \<longrightarrow> set us \<inter> set (v # xs) = {} \<longrightarrow> vma_space s' t' us)"
  using insert_vma_ok [OF assms] insert_vma_overlap [OF assms(1,5)] by auto

theorem insert_vma_correct_witness:
  "insert_vma 1 40 demo_kvma = Inr (- 1, demo_kvma) \<and> (\<exists>s'. insert_vma 1 30 demo_kvma = Inr (0, s') \<and> vma_space s' 1 [10, 30, 20])"
proof
  show "insert_vma 1 40 demo_kvma = Inr (- 1, demo_kvma)"
    using insert_vma_correct [OF demo_kvma_space, of 40] by (simp add: demo_nodes_def demo_area_def overlaps_def)
  obtain s' ys zs where s': "insert_vma 1 30 demo_kvma = Inr (0, s')" "[10, 20] = ys @ zs" "vma_space s' 1 (ys @ 30 # zs)" "vmas s' = demo_area"
    using insert_vma_correct [OF demo_kvma_space, of 30] by (auto simp: demo_nodes_def demo_area_def overlaps_def)
  have o: "ordered demo_area (ys @ 30 # zs)" using s'(3,4) by (simp add: vma_space_def)
  have "ys = [] \<and> zs = [10, 20] \<or> ys = [10] \<and> zs = [20] \<or> ys = [10, 20] \<and> zs = []"
    using s'(2) by (auto simp: Cons_eq_append_conv)
  then have "ys @ 30 # zs = [10, 30, 20]" using o by (auto simp: demo_area_def)
  with s'(1,3) show "\<exists>s'. insert_vma 1 30 demo_kvma = Inr (0, s') \<and> vma_space s' 1 [10, 30, 20]" by auto
qed

text \<open>
  C25: \<^verbatim>\<open>task_find_vma\<close> ends and returns the area of the task that contains the address, or null
  exactly when no area contains it.
\<close>

theorem task_find_vma_correct:
  assumes "vma_space s t xs"
  shows "\<exists>v. task_find_vma t addr s = Inr v \<and>
    (if v = 0 then \<forall>a\<in>set xs. \<not> (vm_base (vmas s a) \<le> addr \<and> addr < vm_end (vmas s a))
     else v \<in> set xs \<and> vm_base (vmas s v) \<le> addr \<and> addr < vm_end (vmas s v))"
  using assms by (rule task_find_vma_ok)

theorem task_find_vma_correct_witness:
  "task_find_vma 1 0x4FFF demo_kvma = Inr 20 \<and> task_find_vma 1 0x2000 demo_kvma = Inr 0"
  using task_find_vma_correct [OF demo_kvma_space, of "0x4FFF"] task_find_vma_correct [OF demo_kvma_space, of "0x2000"]
  by (auto simp: demo_area_def split: if_splits)

text \<open>
  after a successful \<^verbatim>\<open>insert_vma\<close>, \<^verbatim>\<open>task_find_vma\<close> returns the new area for every address inside it and
  what it returned before for every other address.
\<close>

theorem insert_find_roundtrip:
  assumes "vma_space s t xs" and "v \<noteq> 0" and "v \<notin> set xs" and "rbn s v = zero_node" and "vm_base (vmas s v) < vm_end (vmas s v)"
    and "insert_vma t v s = Inr (0, s')"
  shows "task_find_vma t addr s' = (if vm_base (vmas s v) \<le> addr \<and> addr < vm_end (vmas s v) then Inr v else task_find_vma t addr s)"
  using assms by (rule space.find_after_add)

theorem insert_find_roundtrip_witness:
  "\<exists>s'. insert_vma 1 30 demo_kvma = Inr (0, s') \<and> task_find_vma 1 0x2800 s' = Inr 30 \<and> task_find_vma 1 0x6000 s' = task_find_vma 1 0x6000 demo_kvma"
proof -
  obtain s' where s': "insert_vma 1 30 demo_kvma = Inr (0, s')"
    using insert_vma_ok [OF demo_kvma_space, of 30] by (auto simp: demo_nodes_def demo_area_def overlaps_def)
  from insert_find_roundtrip [OF demo_kvma_space _ _ _ _ this] show ?thesis
    using s' by (auto simp: demo_nodes_def demo_area_def)
qed

text \<open>
  for an address of user space that lies in no area of the task, \<^verbatim>\<open>find_free_vma\<close> returns the gap
  around it: the address is inside, no area of the task meets the gap, and the gap reaches from the
  end of an area (or 0) to the base of an area (or the end of user space).
\<close>

theorem find_free_vma_gap:
  assumes "vma_space s t xs" and "addr < USER_LIM"
    and "\<forall>a\<in>set xs. \<not> (vm_base (vmas s a) \<le> addr \<and> addr < vm_end (vmas s a))"
  shows "\<exists>info. find_free_vma junk t addr s = Inr (Some info) \<and> vi_type info = VMA_FREE \<and> vi_base info \<le> addr \<and> addr < vi_end info \<and>
    (\<forall>a\<in>set xs. vm_end (vmas s a) \<le> vi_base info \<or> vi_end info \<le> vm_base (vmas s a)) \<and>
    (vi_base info = 0 \<or> (\<exists>a\<in>set xs. vi_base info = vm_end (vmas s a))) \<and>
    (vi_end info = USER_LIM \<or> (\<exists>a\<in>set xs. vi_end info = vm_base (vmas s a)))"
proof -
  let ?V = "vmas s"
  obtain par dir where f: "find_vma ?V (tree_of t s) addr = Inr (first_after ?V addr xs 0, par, dir)"
    using find_vma_space [OF assms(1)] by blast
  have o: "ordered ?V xs" and l: "is_list (lh s) (TaskMmap t) (map VmMmap xs)" using assms(1) by (auto simp: vma_space_def)
  note nz = vma_space_nonzero [OF assms(1)]
  have lim: "\<not> USER_LIM \<le> addr" using assms(2) by simp
  show ?thesis
  proof (cases rule: first_after_cases [of ?V addr xs])
    case none
    have p: "xs = [] \<or> last xs \<in> set xs \<and> last xs \<noteq> 0" using nz last_in_set [of xs] by metis
    then have "find_free_vma junk t addr s = Inr (Some (clear_info\<lparr>vi_end := USER_LIM, vi_base := (if xs = [] then 0 else vm_end (?V (last xs)))\<rparr>))"
      using f none vma_last [OF l] lim by (auto simp: find_free_vma_def)
    moreover have "vm_end (?V a) \<le> vm_end (?V (last xs))" if "a \<in> set xs" for a by (rule ordered_last [OF o that])
    ultimately show ?thesis using none(2) p assms(2) by (auto simp: clear_info_def VMA_FREE_def)
  next
    case (found ys v zs)
    have v: "v \<noteq> 0" "v \<in> set xs" "addr < vm_base (?V v)" using nz found assms(3) by auto
    have p: "ys = [] \<or> last ys \<in> set ys \<and> last ys \<noteq> 0" using nz last_in_set [of ys] found(2) by (metis Un_iff set_append)
    have "find_free_vma junk t addr s = Inr (Some (clear_info\<lparr>vi_end := vm_base (?V v), vi_base := (if ys = [] then 0 else vm_end (?V (last ys)))\<rparr>))"
      using f found v lim p vma_prev [of "lh s" t ys v zs] l by (auto simp: find_free_vma_def)
    moreover have "vm_end (?V a) \<le> vm_end (?V (last ys))" if "a \<in> set ys" for a by (rule ordered_last [OF _ that]) (use o found(2) in auto)
    moreover have "vm_base (?V v) \<le> vm_base (?V a)" if "a \<in> set (v # zs)" for a using that o found(2) by (auto intro: order.trans less_imp_le)
    ultimately show ?thesis using found(2,3) p v by (auto simp: clear_info_def VMA_FREE_def)
  qed
qed

theorem find_free_vma_gap_witness:
  "\<exists>info. find_free_vma None 1 0x2800 demo_kvma = Inr (Some info) \<and> vi_type info = VMA_FREE \<and> vi_base info = 0x2000 \<and> vi_end info = 0x3000"
proof -
  obtain info where i: "find_free_vma None 1 0x2800 demo_kvma = Inr (Some info)" "vi_type info = VMA_FREE" "vi_base info \<le> 0x2800" "0x2800 < vi_end info"
    "\<forall>a\<in>{10, 20}. vm_end (demo_area a) \<le> vi_base info \<or> vi_end info \<le> vm_base (demo_area a)"
    "vi_base info = 0 \<or> (\<exists>a\<in>{10, 20}. vi_base info = vm_end (demo_area a))"
    "vi_end info = USER_LIM \<or> (\<exists>a\<in>{10, 20}. vi_end info = vm_base (demo_area a))"
    using find_free_vma_gap [OF demo_kvma_space, of "0x2800" None] by (auto simp: demo_area_def USER_LIM_def)
  then show ?thesis by (auto simp: demo_area_def USER_LIM_def)
qed

end
