(* ===== verification/Fault.thy ===== *)
theory Fault
  imports VMA_Props
begin

text \<open>
  Page faults and the system calls on areas: kernel/vma/populate.c, pfault.c and syscall.c. The
  kernel fills a new page through its virtual address; \<open>vload\<close> and \<open>vstore\<close> are the accesses of
  the processor, which translate through the table \<open>cr3\<close> names. A fault in kernel mode ends in
  the panic of \<^verbatim>\<open>page_fault_handler\<close>.
\<close>

section \<open>Memory accesses of the processor\<close>

definition cr3_frame :: "'z kvm_scheme \<Rightarrow> nat" where
  "cr3_frame s = unat (drop_bit 12 (cr3 s))"

text \<open>Byte \<open>i\<close> of frame \<open>p\<close>, in the little-endian words of the frame.\<close>

definition get_byte :: "nat \<Rightarrow> nat \<Rightarrow> 'z kmem_scheme \<Rightarrow> u8" where
  "get_byte p i s = ucast (drop_bit (8 * (i mod 8)) (pmem s p (i div 8)))"

definition put_byte :: "nat \<Rightarrow> nat \<Rightarrow> u8 \<Rightarrow> 'z kmem_scheme \<Rightarrow> 'z kmem_scheme" where
  "put_byte p i b s =
     (let k = 8 * (i mod 8);
          w = (rd (p, i div 8) s AND NOT (push_bit k 0xFF)) OR push_bit k (ucast b)
      in wr (p, i div 8) w s)"

definition vload :: "u64 \<Rightarrow> 'z kvm_scheme \<Rightarrow> u8 res" where
  "vload va s =
     (case translate s (cr3_frame s) va of None \<Rightarrow> Inl KPanic
      | Some p \<Rightarrow> Inr (get_byte p (unat (va AND 0xFFF)) s))"

definition vstore :: "u64 \<Rightarrow> u8 \<Rightarrow> 'z kvm_scheme \<Rightarrow> 'z kvm_scheme res" where
  "vstore va b s =
     (case translate s (cr3_frame s) va of None \<Rightarrow> Inl KPanic
      | Some p \<Rightarrow> Inr (put_byte p (unat (va AND 0xFFF)) b s))"

fun vloads :: "nat \<Rightarrow> u64 \<Rightarrow> 'z kvm_scheme \<Rightarrow> u8 list res" where
  "vloads 0 va s = Inr []"
| "vloads (Suc n) va s = rbind (vload va s) (\<lambda>b. rbind (vloads n (va + 1) s) (\<lambda>bs. Inr (b # bs)))"

fun vstores :: "u64 \<Rightarrow> u8 list \<Rightarrow> 'z kvm_scheme \<Rightarrow> 'z kvm_scheme res" where
  "vstores va [] s = Inr s"
| "vstores va (b # bs) s = rbind (vstore va b s) (vstores (va + 1) bs)"

text \<open>
  The block operations of lib/string.c on virtual addresses: \<open>Strings\<close> shows that \<^verbatim>\<open>memset\<close> stores its byte
  everywhere and that \<^verbatim>\<open>memcpy\<close> stores the bytes the source held before.
\<close>

definition vmemset :: "u64 \<Rightarrow> u8 \<Rightarrow> u64 \<Rightarrow> 'z kvm_scheme \<Rightarrow> 'z kvm_scheme res" where
  "vmemset va b n s = vstores va (replicate (unat n) b) s"

definition vmemcpy :: "u64 \<Rightarrow> u64 \<Rightarrow> u64 \<Rightarrow> 'z kvm_scheme \<Rightarrow> 'z kvm_scheme res" where
  "vmemcpy dst src n s = rbind (vloads (unat n) src s) (\<lambda>bs. vstores dst bs s)"

section \<open>kernel/vma/populate.c\<close>

definition check_vma_permissions :: "vma \<Rightarrow> u32 \<Rightarrow> int" where
  "check_vma_permissions v flags =
     (if flags AND VM_READ > vm_flags v AND VM_READ \<or> flags AND VM_WRITE > vm_flags v AND VM_WRITE \<or>
         flags AND VM_EXEC > vm_flags v AND VM_EXEC then - 1 else 0)"

text \<open>\<open>len\<close> is an unsigned subtraction: behind the data of the file it wraps around and a whole page is copied.\<close>

definition do_populate_vma :: "u32 \<Rightarrow> 'z get_vma" where
  "do_populate_vma flags t base sz v s =
     (let a = vmas s v in
      if check_vma_permissions a flags < 0 then Inr (- 1, s)
      else
        let lim = base + sz;
            p_base = (if base > vm_base a then base else vm_base a);
            p_end = (if lim < vm_end a then lim else vm_end a);
            p_size = p_end - p_base;
            offset = p_base - vm_base a;
            src = vm_src a + offset;
            len = (if vm_len a - offset < PAGE_SIZE then vm_len a - offset else PAGE_SIZE);
            rights = convert_flags_from_vma_to_pages (vm_flags a) OR PAGE_USER
        in if vm_src a \<noteq> 0 then
             kassert (vm_len a \<noteq> 0)
             (rbind (populate_region cur_find_vma (kernel_pml4 s) (task_pml4 s t) p_base p_size (PAGE_PRESENT OR PAGE_WRITE OR PAGE_USER) s) (\<lambda>s.
              rbind (vmemset p_base 0 p_size s) (\<lambda>s.
              rbind (vmemcpy p_base src len s) (\<lambda>s.
              rbind (protect_region (task_pml4 s t) p_base p_size rights s) (\<lambda>s. Inr (0, s))))))
           else rbind (populate_region cur_find_vma (kernel_pml4 s) (task_pml4 s t) p_base p_size rights s) (\<lambda>s. Inr (0, s)))"

definition populate_vma_range :: "nat \<Rightarrow> u64 \<Rightarrow> u64 \<Rightarrow> u32 \<Rightarrow> 'z kvma_scheme \<Rightarrow> (int \<times> 'z kvma_scheme) res" where
  "populate_vma_range t base sz flags s = walk_vma_range (do_populate_vma flags) t base sz s"

section \<open>kernel/vma/pfault.c\<close>

text \<open>Copying a page through the direct map.\<close>

definition copy_frame :: "nat \<Rightarrow> nat \<Rightarrow> 'z kmem_scheme \<Rightarrow> 'z kmem_scheme" where
  "copy_frame dst src s = s\<lparr>pmem := (pmem s)(dst := pmem s src)\<rparr>"

definition copy_on_write :: "nat \<Rightarrow> u64 \<Rightarrow> nat \<Rightarrow> pte \<Rightarrow> nat \<Rightarrow> 'z kvma_scheme \<Rightarrow> (int \<times> 'z kvma_scheme) res" where
  "copy_on_write t va page entry v s =
     (if pp_ref (pages s page) = 1 then Inr (0, wr entry (rd entry s OR PAGE_WRITE) s)
      else rbind (page_alloc ALLOC_ZERO s) (\<lambda>(new_page, s).
        case new_page of None \<Rightarrow> Inr (- 1, s)
        | Some p \<Rightarrow>
          rbind (KADDR (page2pa p) s) (\<lambda>_. rbind (KADDR (page2pa page) s) (\<lambda>_.
          let s = copy_frame p page s
          in page_insert cur_find_vma (task_pml4 s t) p (ROUNDDOWN va PAGE_SIZE)
               (convert_flags_from_vma_to_pages (vm_flags (vmas s v)) OR PAGE_USER) s))))"

text \<open>The local variable \<^verbatim>\<open>entry\<close> starts as an object of its own, named by the word it occupies.\<close>

definition word_at :: "nat \<Rightarrow> pte" where
  "word_at a = (a div 4096, a mod 4096 div 8)"

definition task_page_fault_handler :: "nat \<Rightarrow> u64 \<Rightarrow> u32 \<Rightarrow> 'z kvma_scheme \<Rightarrow> (int \<times> 'z kvma_scheme) res" where
  "task_page_fault_handler t va flags s =
     rbind (kmalloc 8 s) (\<lambda>(obj, s).
     rbind (task_find_vma t va s) (\<lambda>v.
     if v = 0 then Inr (- 1, s)
     else
       rbind (page_lookup (task_pml4 s t) (ROUNDDOWN va PAGE_SIZE) (Some (map_option word_at obj)) s) (\<lambda>(page, store).
       rbind (case page of None \<Rightarrow> Inr s
              | Some p \<Rightarrow>
                rbind (spin_lock (swap_lock s) (this_cpu s) [] 0) (\<lambda>l.
                rbind (mru_swap_page (Some p) (add_swap_page p (s\<lparr>swap_lock := l\<rparr>))) (\<lambda>s.
                rbind (spin_unlock (swap_lock s) (this_cpu s)) (\<lambda>l. Inr (s\<lparr>swap_lock := l\<rparr>))))) (\<lambda>s.
       case page of None \<Rightarrow> populate_vma_range t (ROUNDDOWN va PAGE_SIZE) PAGE_SIZE flags s
       | Some p \<Rightarrow>
         (case store of Some (Some entry) \<Rightarrow>
            if rd entry s \<noteq> 0 \<and> vm_flags (vmas s v) AND VM_WRITE \<noteq> 0 \<and> rd entry s AND PAGE_WRITE = 0
            then copy_on_write t va p entry v s
            else populate_vma_range t (ROUNDDOWN va PAGE_SIZE) PAGE_SIZE flags s
          | _ \<Rightarrow> Inl KUndef)))))"

section \<open>kernel/vma/syscall.c\<close>

definition PROT_READ :: u32 where "PROT_READ = 1"
definition PROT_WRITE :: u32 where "PROT_WRITE = 2"
definition PROT_EXEC :: u32 where "PROT_EXEC = 4"
definition MAP_PRIVATE :: u32 where "MAP_PRIVATE = 1"
definition MAP_ANONYMOUS :: u32 where "MAP_ANONYMOUS = 2"
definition MAP_POPULATE :: u32 where "MAP_POPULATE = 16"
definition MAP_FIXED :: u32 where "MAP_FIXED = 32"
definition MAP_FAILED :: u64 where "MAP_FAILED = 0xFFFFFFFFFFFFFFFF"
definition MADV_WILLNEED :: u32 where "MADV_WILLNEED = 1"
definition MADV_DONTNEED :: u32 where "MADV_DONTNEED = 2"

definition check_permissions :: "u64 \<Rightarrow> u64 \<Rightarrow> u32 \<Rightarrow> u32 \<Rightarrow> int" where
  "check_permissions addr len prot flags =
     (if addr = 0 \<and> flags AND MAP_FIXED \<noteq> 0 then - 1
      else if addr + len > USER_LIM then - 1
      else if prot = 0 then 0
      else if (prot AND PROT_WRITE \<noteq> 0 \<or> prot AND PROT_EXEC \<noteq> 0) \<and> prot AND PROT_READ = 0 then - 1
      else 0)"

text \<open>
  \<open>t\<close> is \<^verbatim>\<open>cur_task\<close>, \<open>user\<close> the address of the string literal \<^verbatim>\<open>"user"\<close> and \<open>junk\<close> the value of the
  uninitialised variable in \<^verbatim>\<open>find_free_vma\<close>.
\<close>

definition sys_mmap ::
  "pte option \<Rightarrow> nat \<Rightarrow> nat \<Rightarrow> u64 \<Rightarrow> u64 \<Rightarrow> u32 \<Rightarrow> u32 \<Rightarrow> 'z kvma_scheme \<Rightarrow> (u64 \<times> 'z kvma_scheme) res" where
  "sys_mmap junk user t addr len prot flags s =
     (if check_permissions addr len prot flags < 0 then Inr (MAP_FAILED, s)
      else if flags AND NOT (MAP_ANONYMOUS OR MAP_PRIVATE OR MAP_FIXED OR MAP_POPULATE) \<noteq> 0 then Inr (MAP_FAILED, s)
      else
        rbind (if flags AND MAP_FIXED \<noteq> 0 then
                 rbind (task_find_vma t addr s) (\<lambda>v.
                   if v = 0 then Inr (0, s)
                   else remove_vma_range junk t (vm_base (vmas s v)) (vm_end (vmas s v) - vm_base (vmas s v)) s)
               else Inr (0, s)) (\<lambda>(ret, s).
        if ret < 0 then Inr (MAP_FAILED, s)
        else rbind (add_vma junk t user addr len prot s) (\<lambda>(v, s).
          if v = 0 then Inr (MAP_FAILED, s)
          else
            rbind (if flags AND MAP_POPULATE \<noteq> 0
                   then populate_vma_range t (vm_base (vmas s v)) (vm_end (vmas s v) - vm_base (vmas s v)) flags s
                   else Inr (0, s)) (\<lambda>(ret, s).
            if ret < 0 then Inr (MAP_FAILED, s)
            else rbind (merge_vmas t v s) (\<lambda>(_, s). Inr (if addr \<noteq> 0 then addr else vm_base (vmas s v), s))))))"

definition sys_munmap :: "pte option \<Rightarrow> nat \<Rightarrow> u64 \<Rightarrow> u64 \<Rightarrow> 'z kvma_scheme \<Rightarrow> 'z kvma_scheme res" where
  "sys_munmap junk t addr len s = rbind (remove_vma_range junk t addr len s) (\<lambda>(_, s). Inr s)"

definition sys_mprotect :: "pte option \<Rightarrow> nat \<Rightarrow> u64 \<Rightarrow> u64 \<Rightarrow> u32 \<Rightarrow> 'z kvma_scheme \<Rightarrow> (int \<times> 'z kvma_scheme) res" where
  "sys_mprotect junk t addr len prot s =
     (if check_permissions addr len prot 0 < 0 then Inr (- 1, s)
      else rbind (protect_vma_range junk t addr len prot s) (\<lambda>(ret, s).
        if ret < 0 then Inr (- 1, s)
        else rbind (protect_region (task_pml4 s t) addr len (convert_flags_from_vma_to_pages prot OR PAGE_USER) s) (\<lambda>s. Inr (0, s))))"

definition sys_madvise :: "pte option \<Rightarrow> nat \<Rightarrow> u64 \<Rightarrow> u64 \<Rightarrow> u32 \<Rightarrow> 'z kvma_scheme \<Rightarrow> (int \<times> 'z kvma_scheme) res" where
  "sys_madvise junk t addr len advise s =
     (if check_permissions addr len 0 0 < 0 then Inr (- 1, s)
      else rbind (if advise = MADV_DONTNEED then rbind (unmap_vma_range junk t addr len s) (\<lambda>(_, s). Inr s) else Inr s) (\<lambda>s.
        if advise = MADV_WILLNEED then
          rbind (task_find_vma t addr s) (\<lambda>v.
            if v = 0 then Inr (- 1, s)
            else rbind (populate_region cur_find_vma (kernel_pml4 s) (task_pml4 s t) addr len
                          (convert_flags_from_vma_to_pages (vm_flags (vmas s v)) OR PAGE_USER) s) (\<lambda>s. Inr (0, s)))
        else Inr (0, s)))"

end
