(* ===== verification/Runq.thy ===== *)
theory Runq
  imports Fault
begin

text \<open>
  Run queues and the state of the scheduler: kernel/sched/sched_util.c, task_util.c and the load
  balancing of sched.c, for one CPU. Tasks are named by the address of their structure, 0 being
  the null pointer; their page tables, area trees and list nodes live in the states of the
  components below. Output to the console is not modelled.
\<close>

section \<open>State\<close>

record int_frame =
  f_ds :: u64
  f_r15 :: u64
  f_r14 :: u64
  f_r13 :: u64
  f_r12 :: u64
  f_r11 :: u64
  f_r10 :: u64
  f_r9 :: u64
  f_r8 :: u64
  f_rdi :: u64
  f_rsi :: u64
  f_rbp :: u64
  f_rbx :: u64
  f_rdx :: u64
  f_rcx :: u64
  f_rax :: u64
  f_int_no :: u64
  f_err_code :: u64
  f_rip :: u64
  f_cs :: u64
  f_rflags :: u64
  f_rsp :: u64
  f_ss :: u64

datatype task_status = TASK_DYING | TASK_RUNNABLE | TASK_RUNNING | TASK_NOT_RUNNABLE

datatype task_type = TASK_TYPE_USER | TASK_TYPE_KERNEL

text \<open>
  \<^verbatim>\<open>struct task\<close> without the page table and the area tree, which are \<open>task_pml4\<close> and \<open>task_rb\<close> of the state below,
  the list nodes, which are anchors of the list store, and \<^verbatim>\<open>task_cpunum\<close>, which no code reads.
\<close>

record task =
  task_frame :: int_frame
  task_wait :: nat
  task_pid :: int
  task_ppid :: int
  jiffies :: u64
  task_type :: task_type
  task_status :: task_status
  task_runs :: u32
  task_lock :: spinlock

text \<open>\<open>tasks\<close> is the PID map, with 0 for the null pointer; \<open>runq_len\<close> is the counter of each CPU.\<close>

record ktask = kvma +
  tcb :: "nat \<Rightarrow> task"
  tasks :: "nat \<Rightarrow> nat"
  nuser_tasks :: u64
  nkernel_tasks :: u64
  runq_len :: "nat \<Rightarrow> u64"
  ncpus :: u64
  runq_lock :: spinlock
  sched_start :: u64
  time_elapsed :: u64

definition tcb_upd :: "nat \<Rightarrow> (task \<Rightarrow> task) \<Rightarrow> 'z ktask_scheme \<Rightarrow> 'z ktask_scheme" where
  "tcb_upd t f s = s\<lparr>tcb := (tcb s)(t := f (tcb s t))\<rparr>"

definition status_of :: "'z ktask_scheme \<Rightarrow> nat \<Rightarrow> task_status" where
  "status_of s t = task_status (tcb s t)"

definition set_status :: "nat \<Rightarrow> task_status \<Rightarrow> 'z ktask_scheme \<Rightarrow> 'z ktask_scheme" where
  "set_status t st = tcb_upd t (\<lambda>a. a\<lparr>task_status := st\<rparr>)"

definition task_of :: "anchor \<Rightarrow> nat res" where
  "task_of n = (case n of Null \<Rightarrow> Inr 0 | TaskNode t \<Rightarrow> Inr t | _ \<Rightarrow> Inl KUndef)"

abbreviation local_runq :: "'z ktask_scheme \<Rightarrow> anchor" where
  "local_runq s \<equiv> CpuRunq (this_cpu s)"

abbreviation local_nextq :: "'z ktask_scheme \<Rightarrow> anchor" where
  "local_nextq s \<equiv> CpuNextq (this_cpu s)"

section \<open>kernel/sched/task_util.c\<close>

definition lock_runq :: "'z ktask_scheme \<Rightarrow> 'z ktask_scheme res" where
  "lock_runq s = rbind (spin_lock (runq_lock s) (this_cpu s) [] 0) (\<lambda>l. Inr (s\<lparr>runq_lock := l\<rparr>))"

definition unlock_runq :: "'z ktask_scheme \<Rightarrow> 'z ktask_scheme res" where
  "unlock_runq s = rbind (spin_unlock (runq_lock s) (this_cpu s)) (\<lambda>l. Inr (s\<lparr>runq_lock := l\<rparr>))"

text \<open>The arguments \<^verbatim>\<open>INC\<close> and \<^verbatim>\<open>DEC\<close> are the integers 1 and -1, added to an unsigned counter.\<close>

definition nuser_tasks_set :: "int \<Rightarrow> 'z ktask_scheme \<Rightarrow> 'z ktask_scheme res" where
  "nuser_tasks_set d s =
     rbind (lock_runq s) (\<lambda>s. unlock_runq (s\<lparr>nuser_tasks := nuser_tasks s + of_int d\<rparr>))"

definition local_runq_len_set :: "int \<Rightarrow> 'z ktask_scheme \<Rightarrow> 'z ktask_scheme res" where
  "local_runq_len_set d s =
     (let c = this_cpu s; n = runq_len s c
      in kassert (\<not> (d = - 1 \<and> n < 1)) (Inr (s\<lparr>runq_len := (runq_len s)(c := n + of_int d)\<rparr>)))"

definition lock_task :: "nat \<Rightarrow> 'z ktask_scheme \<Rightarrow> 'z ktask_scheme res" where
  "lock_task t s = rbind (spin_lock (task_lock (tcb s t)) (this_cpu s) [] 0) (\<lambda>l. Inr (tcb_upd t (\<lambda>a. a\<lparr>task_lock := l\<rparr>) s))"

definition unlock_task :: "nat \<Rightarrow> 'z ktask_scheme \<Rightarrow> 'z ktask_scheme res" where
  "unlock_task t s = rbind (spin_unlock (task_lock (tcb s t)) (this_cpu s)) (\<lambda>l. Inr (tcb_upd t (\<lambda>a. a\<lparr>task_lock := l\<rparr>) s))"

section \<open>kernel/sched/sched_util.c\<close>

text \<open>\<^verbatim>\<open>FAIR_SCHEDULER\<close> is configured as 0, which selects the round-robin queue.\<close>

definition FAIR_SCHEDULER :: bool where "FAIR_SCHEDULER = False"
definition TIMESLICE :: u64 where "TIMESLICE = 100000000"

definition queue_pop_task :: "anchor \<Rightarrow> 'z ktask_scheme \<Rightarrow> (nat \<times> 'z ktask_scheme) res" where
  "queue_pop_task q s =
     rbind (list_pop_tail q (lh s)) (\<lambda>(n, h). rbind (task_of n) (\<lambda>t. Inr (t, s\<lparr>lh := h\<rparr>)))"

text \<open>The first node of a queue whose task has more jiffies, or the head.\<close>

partial_function (option) priority_pos :: "anchor \<Rightarrow> nat \<Rightarrow> anchor \<Rightarrow> 'z ktask_scheme \<Rightarrow> anchor res option" where
  "priority_pos q t n s =
     (if n = q then Some (Inr n)
      else case task_of n of Inl e \<Rightarrow> Some (Inl e)
       | Inr x \<Rightarrow> if jiffies (tcb s t) < jiffies (tcb s x) then Some (Inr n) else priority_pos q t (nx (lh s) n) s)"

definition queue_add_priority :: "anchor \<Rightarrow> nat \<Rightarrow> 'z ktask_scheme \<Rightarrow> 'z ktask_scheme res" where
  "queue_add_priority q t s =
     rbind (total (priority_pos q t (nx (lh s) q) s)) (\<lambda>n. Inr (s\<lparr>lh := list_insert_before n (TaskNode t) (lh s)\<rparr>))"

definition queue_add_task :: "anchor \<Rightarrow> nat \<Rightarrow> 'z ktask_scheme \<Rightarrow> 'z ktask_scheme res" where
  "queue_add_task q t s =
     (if FAIR_SCHEDULER then queue_add_priority q t s else Inr (s\<lparr>lh := list_add_tail q (TaskNode t) (lh s)\<rparr>))"

definition move_nextq_to_runq :: "'z ktask_scheme \<Rightarrow> 'z ktask_scheme res" where
  "move_nextq_to_runq s =
     (let n = list_head (local_nextq s) (lh s) in
      if n = Null then Inr s
      else rbind (klist_del (local_nextq s) s) (\<lambda>s. Inr (s\<lparr>lh := list_insert_before n (local_runq s) (lh s)\<rparr>)))"

text \<open>The upper bound \<^verbatim>\<open>PIDMAP_LIM\<close> of the assertion is a kernel address, above every PID.\<close>

definition move_cur_task_to_nextq :: "'z ktask_scheme \<Rightarrow> 'z ktask_scheme res" where
  "move_cur_task_to_nextq s =
     (case cur_task s of None \<Rightarrow> Inr s
      | Some t \<Rightarrow> kassert (0 < task_pid (tcb s t))
          (rbind (queue_add_task (local_nextq s) t s) (local_runq_len_set 1)))"

definition lock_runq_add :: "nat \<Rightarrow> 'z ktask_scheme \<Rightarrow> 'z ktask_scheme res" where
  "lock_runq_add t s =
     rbind (lock_runq s) (\<lambda>s.
     rbind (queue_add_task RunqHead t s) (\<lambda>s.
     let s = s\<lparr>nuser_tasks := nuser_tasks s + 1\<rparr>;
         s = (if task_type (tcb s t) = TASK_TYPE_KERNEL then s\<lparr>nkernel_tasks := nkernel_tasks s + 1\<rparr> else s)
     in unlock_runq s))"

section \<open>kernel/sched/sched.c: set-up and load balancing\<close>

definition sched_init_mp :: "'z ktask_scheme \<Rightarrow> 'z ktask_scheme" where
  "sched_init_mp s =
     (let s = klist_init (local_nextq s) (klist_init (local_runq s) s)
      in s\<lparr>runq_len := (runq_len s)(this_cpu s := 0)\<rparr>)"

definition sched_init :: "'z ktask_scheme \<Rightarrow> 'z ktask_scheme" where
  "sched_init s =
     (let s = sched_init_mp (klist_init RunqHead s) in s\<lparr>runq_lock := spin_init (runq_lock s) ''runq_lock''\<rparr>)"

partial_function (option) migrate_in :: "u64 \<Rightarrow> 'z ktask_scheme \<Rightarrow> 'z ktask_scheme res option" where
  "migrate_in goal s =
     (if runq_len s (this_cpu s) < goal then
        case queue_pop_task RunqHead s of Inl e \<Rightarrow> Some (Inl e)
        | Inr r \<Rightarrow>
          if fst r = 0 then Some (Inr (snd r))
          else case rbind (queue_add_task (local_runq (snd r)) (fst r) (snd r)) (local_runq_len_set 1) of Inl e \<Rightarrow> Some (Inl e)
            | Inr s \<Rightarrow> migrate_in goal s
      else Some (Inr s))"

partial_function (option) migrate_out :: "u64 \<Rightarrow> 'z ktask_scheme \<Rightarrow> 'z ktask_scheme res option" where
  "migrate_out goal s =
     (if runq_len s (this_cpu s) > goal then
        case rbind (queue_pop_task (local_runq s) s) (\<lambda>(t, s).
               kassert (runq_len s (this_cpu s) \<ge> 1)
               (rbind (local_runq_len_set (- 1) s) (\<lambda>s.
                kassert (t \<noteq> 0) (queue_add_task RunqHead t s)))) of Inl e \<Rightarrow> Some (Inl e)
        | Inr s \<Rightarrow> migrate_out goal s
      else Some (Inr s))"

definition migrate_tasks_runq :: "u64 \<Rightarrow> 'z ktask_scheme \<Rightarrow> 'z ktask_scheme res" where
  "migrate_tasks_runq goal s = rbind (total (migrate_in goal s)) (\<lambda>s. total (migrate_out goal s))"

definition FGL_migrate_tasks :: "u64 \<Rightarrow> 'z ktask_scheme \<Rightarrow> 'z ktask_scheme res" where
  "FGL_migrate_tasks goal s =
     rbind (move_nextq_to_runq s) (\<lambda>s.
     if runq_len s (this_cpu s) = goal then Inr s
     else rbind (spin_trylock (runq_lock s) (this_cpu s) [] 0) (\<lambda>(ok, l).
       let s = s\<lparr>runq_lock := l\<rparr>
       in if ok \<noteq> 0 then rbind (migrate_tasks_runq goal s) unlock_runq else Inr s))"

end
