(* ===== verification/Task.thy ===== *)
theory Task
  imports Runq
begin

text \<open>
  The life of a task: kernel/sched/task.c, wait.c, fork.c, kernel_thread.c and the scheduling
  loop of sched.c. Code that leaves the kernel does not return to its caller: it ends in \<open>Iret\<close> with the
  registers that the processor loads, or in \<open>Halts\<close>, the idle loop or the kernel monitor, which no
  command leaves. \<^verbatim>\<open>sched_yield\<close> calls itself and is called by the functions it calls; these take
  it as the argument \<open>yield\<close>, and its own argument bounds the nesting, with \<open>KDiverge\<close> beyond the bound.
\<close>

section \<open>Leaving the kernel\<close>

datatype 'a flow = Returns 'a | Iret int_frame | Halts

type_synonym ('a, 'z) kflow = "('a flow \<times> 'z ktask_scheme) res"
type_synonym 'z yield = "'z ktask_scheme \<Rightarrow> (unit, 'z) kflow"

definition fbind :: "('a, 'z) kflow \<Rightarrow> ('a \<Rightarrow> 'z ktask_scheme \<Rightarrow> ('b, 'z) kflow) \<Rightarrow> ('b, 'z) kflow" where
  "fbind m f =
     rbind m (\<lambda>(x, s). case x of Returns a \<Rightarrow> f a s | Iret r \<Rightarrow> Inr (Iret r, s) | Halts \<Rightarrow> Inr (Halts, s))"

abbreviation resume :: "'z ktask_scheme \<Rightarrow> (unit, 'z) kflow" where
  "resume s \<equiv> Inr (Returns (), s)"

section \<open>kernel/sched/task.c: tasks and their address spaces\<close>

definition pid_max :: int where "pid_max = 65536"
definition ENOMEM :: int where "ENOMEM = 6"
definition SIZEOF_TASK :: u64 where "SIZEOF_TASK = 360"
definition GDT_KCODE :: u64 where "GDT_KCODE = 0x08"
definition GDT_KDATA :: u64 where "GDT_KDATA = 0x10"
definition GDT_UCODE :: u64 where "GDT_UCODE = 0x20"
definition GDT_UDATA :: u64 where "GDT_UDATA = 0x18"
definition FLAGS_IF :: u64 where "FLAGS_IF = 0x200"
definition USTACK_TOP :: u64 where "USTACK_TOP = USER_LIM - 2 * PAGE_SIZE"
definition PIDMAP_BASE :: u64 where "PIDMAP_BASE = MMIO_BASE - PDPT_SPAN"

text \<open>An access \<^verbatim>\<open>tasks[pid]\<close> outside the array is undefined; negative PIDs are not tested for.\<close>

definition pid2task :: "int \<Rightarrow> bool \<Rightarrow> 'z ktask_scheme \<Rightarrow> nat res" where
  "pid2task pid check_perm s =
     (if pid = 0 then Inr (case cur_task s of None \<Rightarrow> 0 | Some t \<Rightarrow> t)
      else if pid \<ge> pid_max then Inr 0
      else kdefined (0 \<le> pid)
        (let t = tasks s (nat pid) in
         if t = 0 then Inr 0
         else if \<not> check_perm then Inr t
         else case cur_task s of None \<Rightarrow> Inl KUndef
           | Some c \<Rightarrow> if t \<noteq> c \<and> task_ppid (tcb s t) \<noteq> task_pid (tcb s c) then Inr 0 else Inr t))"

definition task_init :: "'z ktask_scheme \<Rightarrow> 'z ktask_scheme res" where
  "task_init s =
     rbind (populate_region cur_find_vma (kernel_pml4 s) (kernel_pml4 s) PIDMAP_BASE (of_int pid_max * 8)
              (PAGE_PRESENT OR PAGE_WRITE OR PAGE_NO_EXEC) s) (\<lambda>s.
     Inr (s\<lparr>tasks := (\<lambda>pid. if pid < nat pid_max then 0 else tasks s pid)\<rparr>))"

text \<open>The loop that copies the kernel half of the page table.\<close>

definition copy_kernel_entries :: "nat \<Rightarrow> 'z ktask_scheme \<Rightarrow> 'z ktask_scheme" where
  "copy_kernel_entries p s = fold (\<lambda>i s. wr (p, i) (rd (kernel_pml4 s, i) s) s) [PML4_INDEX KERNEL_VMA..<512] s"

definition task_setup_vas :: "nat \<Rightarrow> 'z ktask_scheme \<Rightarrow> (int \<times> 'z ktask_scheme) res" where
  "task_setup_vas t s =
     rbind (page_alloc ALLOC_ZERO s) (\<lambda>(page, s).
     case page of None \<Rightarrow> Inr (- ENOMEM, s)
     | Some p \<Rightarrow>
       let s = pp_upd p (\<lambda>q. q\<lparr>pp_ref := pp_ref q + 1\<rparr>) s
       in rbind (KADDR (page2pa p) s) (\<lambda>pml4.
          Inr (0, copy_kernel_entries pml4 (s\<lparr>task_pml4 := (task_pml4 s)(t := pml4)\<rparr>))))"

definition zero_frame :: int_frame where
  "zero_frame = \<lparr>f_ds = 0, f_r15 = 0, f_r14 = 0, f_r13 = 0, f_r12 = 0, f_r11 = 0, f_r10 = 0, f_r9 = 0, f_r8 = 0,
     f_rdi = 0, f_rsi = 0, f_rbp = 0, f_rbx = 0, f_rdx = 0, f_rcx = 0, f_rax = 0, f_int_no = 0, f_err_code = 0,
     f_rip = 0, f_cs = 0, f_rflags = 0, f_rsp = 0, f_ss = 0\<rparr>"

definition zero_task :: task where
  "zero_task = \<lparr>task_frame = zero_frame, task_wait = 0, task_pid = 0, task_ppid = 0, jiffies = 0,
     task_type = TASK_TYPE_USER, task_status = TASK_DYING, task_runs = 0,
     task_lock = \<lparr>locked = 0, lock_name = [], lock_cpu = None, lock_file = None, lock_line = 0\<rparr>\<rparr>"

definition user_frame :: int_frame where
  "user_frame = zero_frame\<lparr>f_ds := GDT_UDATA OR 3, f_ss := GDT_UDATA OR 3, f_rsp := USTACK_TOP,
     f_cs := GDT_UCODE OR 3, f_rflags := FLAGS_IF\<rparr>"

text \<open>The lists and the area tree of a new task.\<close>

definition init_task_lists :: "nat \<Rightarrow> 'z ktask_scheme \<Rightarrow> 'z ktask_scheme" where
  "init_task_lists t s =
     (let s = klist_init (TaskMmap t) s;
          s = s\<lparr>task_rb := (task_rb s)(t := 0)\<rparr>
      in klist_init (TaskZombies t) (klist_init (TaskChildren t) (klist_init (TaskChild t) (klist_init (TaskNode t) s))))"

definition task_alloc :: "int \<Rightarrow> 'z ktask_scheme \<Rightarrow> (nat \<times> 'z ktask_scheme) res" where
  "task_alloc ppid s =
     rbind (kmalloc SIZEOF_TASK s) (\<lambda>(obj, s).
     case obj of None \<Rightarrow> Inr (0, s)
     | Some t \<Rightarrow>
       rbind (task_setup_vas t (tcb_upd t (\<lambda>_. zero_task) s)) (\<lambda>(ret, s).
       if ret < 0 then rbind (kfree t s) (\<lambda>s. Inr (0, s))
       else case find (\<lambda>pid. tasks s pid = 0) [1..<nat pid_max] of
         None \<Rightarrow> rbind (kfree t s) (\<lambda>s. Inr (0, s))
       | Some pid \<Rightarrow>
         let s = s\<lparr>tasks := (tasks s)(pid := t)\<rparr>;
             s = tcb_upd t (\<lambda>a. a\<lparr>task_pid := int pid, task_ppid := ppid, task_status := TASK_RUNNABLE, task_runs := 0,
                   task_frame := user_frame\<rparr>) s
         in Inr (t, init_task_lists t s)))"

section \<open>kernel/sched/task.c: programs\<close>

text \<open>The members of the header that the loader reads; the program headers are read into a list.\<close>

record elf =
  e_magic :: u32
  e_entry :: u64
  e_phdrs :: "elf_proghdr list"

definition ELF_MAGIC :: u32 where "ELF_MAGIC = 0x464C457F"
definition ELF_PROG_LOAD :: u32 where "ELF_PROG_LOAD = 1"

text \<open>
  \<open>e_phdrs\<close> are the program headers that \<^verbatim>\<open>e_phoff\<close> and \<^verbatim>\<open>e_phnum\<close> delimit, \<open>lit\<close> gives the address of a
  string literal, and \<open>binary\<close> is the address of the program image.
\<close>

definition elf_get_name :: "(string \<Rightarrow> nat) \<Rightarrow> elf_proghdr \<Rightarrow> nat" where
  "elf_get_name lit ph =
     (if p_flags ph AND ELF_PROG_FLAG_EXEC \<noteq> 0 then lit ''.text''
      else if p_flags ph AND ELF_PROG_FLAG_WRITE \<noteq> 0 then lit ''.data'' else lit ''.rodata'')"

fun load_elf_segments ::
  "(string \<Rightarrow> nat) \<Rightarrow> pte option \<Rightarrow> elf_proghdr list \<Rightarrow> nat \<Rightarrow> u64 \<Rightarrow> 'z ktask_scheme \<Rightarrow> 'z ktask_scheme res" where
  "load_elf_segments lit junk [] t binary s = Inr s"
| "load_elf_segments lit junk (ph # phs) t binary s =
     (if p_type ph \<noteq> ELF_PROG_LOAD then load_elf_segments lit junk phs t binary s
      else kassert (\<not> p_va ph > USER_LIM)
        (let page_flags = convert_flags_from_elf_to_pages ph OR PAGE_USER;
             vma_flags = convert_flags_from_pages_to_vma page_flags
         in rbind (add_executable_vma junk t (elf_get_name lit ph) (p_va ph) (p_memsz ph) vma_flags (binary + p_offset ph) (p_filesz ph) s)
              (\<lambda>(_, s). load_elf_segments lit junk phs t binary s)))"

definition task_load_elf ::
  "(string \<Rightarrow> nat) \<Rightarrow> pte option \<Rightarrow> nat \<Rightarrow> elf \<Rightarrow> u64 \<Rightarrow> 'z ktask_scheme \<Rightarrow> 'z ktask_scheme res" where
  "task_load_elf lit junk t elf binary s =
     kassert (e_magic elf = ELF_MAGIC) (kassert (\<not> e_entry elf > USER_LIM)
     (let s = tcb_upd t (\<lambda>a. a\<lparr>task_frame := (task_frame a)\<lparr>f_rip := e_entry elf\<rparr>\<rparr>) s;
          old_cr3 = cr3 s;
          s = s\<lparr>cr3 := page2pa (task_pml4 s t)\<rparr>
      in rbind (load_elf_segments lit junk (e_phdrs elf) t binary s) (\<lambda>s.
         let vma_flags = convert_flags_from_pages_to_vma (PAGE_PRESENT OR PAGE_WRITE OR PAGE_USER OR PAGE_NO_EXEC)
         in rbind (add_anonymous_vma junk t (lit ''stack'') (USTACK_TOP - PAGE_SIZE) PAGE_SIZE vma_flags s) (\<lambda>(_, s).
            Inr (s\<lparr>cr3 := old_cr3\<rparr>)))))"

definition task_create ::
  "(string \<Rightarrow> nat) \<Rightarrow> pte option \<Rightarrow> elf \<Rightarrow> u64 \<Rightarrow> task_type \<Rightarrow> 'z ktask_scheme \<Rightarrow> 'z ktask_scheme res" where
  "task_create lit junk elf binary type s =
     rbind (task_alloc 0 s) (\<lambda>(t, s).
     kassert (t \<noteq> 0)
     (rbind (task_load_elf lit junk t elf binary (tcb_upd t (\<lambda>a. a\<lparr>task_type := type\<rparr>) s)) (\<lambda>s.
      if task_type (tcb s t) = TASK_TYPE_USER
      then rbind (queue_add_task RunqHead t s) (\<lambda>s. Inr (s\<lparr>nuser_tasks := nuser_tasks s + 1\<rparr>))
      else Inr s)))"

section \<open>Ending a task\<close>

definition task_free :: "nat \<Rightarrow> 'z ktask_scheme \<Rightarrow> 'z ktask_scheme res" where
  "task_free t s =
     (let s = (if cur_task s = Some t then s\<lparr>cr3 := page2pa (kernel_pml4 s)\<rparr> else s);
          pid = task_pid (tcb s t)
      in kdefined (0 \<le> pid \<and> pid < pid_max)
         (rbind (unmap_user_pages (task_pml4 s t) (s\<lparr>tasks := (tasks s)(nat pid := 0)\<rparr>)) (\<lambda>s.
          rbind (free_vmas t s) (kfree t))))"

partial_function (option) reap_loop :: "nat \<Rightarrow> anchor \<Rightarrow> int \<Rightarrow> 'z ktask_scheme \<Rightarrow> (int \<times> 'z ktask_scheme) res option" where
  "reap_loop t node ret s =
     (if node = TaskZombies t then Some (Inr (ret, s))
      else case task_of node of Inl e \<Rightarrow> Some (Inl e)
       | Inr zombie \<Rightarrow>
         (let ret = (if task_wait (tcb s t) = zombie then task_pid (tcb s zombie) else ret);
              nxt = nx (lh s) node
          in case rbind (klist_del (TaskNode zombie) s) (task_free zombie) of Inl e \<Rightarrow> Some (Inl e)
             | Inr s \<Rightarrow> reap_loop t nxt ret s))"

definition reap_zombies :: "nat \<Rightarrow> 'z ktask_scheme \<Rightarrow> (int \<times> 'z ktask_scheme) res" where
  "reap_zombies t s = total (reap_loop t (nx (lh s) (TaskZombies t)) (- 1) s)"

text \<open>When the parent is dying its lock is not released.\<close>

definition make_zombie_or_free :: "nat \<Rightarrow> nat \<Rightarrow> 'z ktask_scheme \<Rightarrow> 'z ktask_scheme res" where
  "make_zombie_or_free t par s =
     rbind (lock_task par s) (\<lambda>s.
     if status_of s par = TASK_DYING then task_free t s
     else
       rbind (klist_del (TaskChild t) s) (\<lambda>s.
       kassert (task_pid (tcb s par) \<noteq> 0)
       (let s = klist_add (TaskZombies par) (TaskNode t) s
        in rbind (if task_wait (tcb s par) \<noteq> 0
                  then lock_runq_add par (tcb_upd par (\<lambda>a. a\<lparr>task_frame := (task_frame a)\<lparr>f_rax := of_int (task_pid (tcb s t))\<rparr>\<rparr>) s)
                  else Inr s) (unlock_task par))))"

definition task_destroy :: "'z yield \<Rightarrow> nat \<Rightarrow> 'z ktask_scheme \<Rightarrow> (unit, 'z) kflow" where
  "task_destroy yield t s =
     kassert (0 < task_pid (tcb s t))
     (rbind (lock_task t s) (\<lambda>s.
      rbind (reap_zombies t (set_status t TASK_DYING s)) (\<lambda>(_, s).
      rbind (unlock_task t s) (\<lambda>s.
      fbind (if cur_task s \<noteq> Some t then yield s else resume s) (\<lambda>_ s.
      rbind (if task_ppid (tcb s t) > 0 then pid2task (task_ppid (tcb s t)) False s else Inr 0) (\<lambda>par.
      rbind (if par \<noteq> 0 then make_zombie_or_free t par s else task_free t s) (\<lambda>s.
      rbind (nuser_tasks_set (- 1) s) (\<lambda>s.
      let s = s\<lparr>cur_task := None\<rparr>
      in fbind (if nuser_tasks s > nkernel_tasks s then yield s else resume s) (\<lambda>_ s.
         Inr (Halts, s))))))))))"

section \<open>Running a task\<close>

definition task_pop_frame :: "int_frame \<Rightarrow> 'z ktask_scheme \<Rightarrow> ('a, 'z) kflow" where
  "task_pop_frame frame s = Inr (Iret frame, s)"

definition task_run :: "'z yield \<Rightarrow> nat \<Rightarrow> 'z ktask_scheme \<Rightarrow> ('a, 'z) kflow" where
  "task_run yield t s =
     fbind (case cur_task s of None \<Rightarrow> resume s
            | Some c \<Rightarrow>
              if status_of s c = TASK_RUNNING then resume (set_status c TASK_RUNNABLE s)
              else if status_of s c = TASK_DYING \<or> status_of s c = TASK_NOT_RUNNABLE then task_destroy yield c s
              else resume s) (\<lambda>_ s.
     kdefined (t \<noteq> 0)
     (let s = s\<lparr>cur_task := Some t\<rparr>
      in fbind (if status_of s t = TASK_DYING then task_destroy yield t s else resume s) (\<lambda>_ s.
         let s = tcb_upd t (\<lambda>a. a\<lparr>task_status := TASK_RUNNING, task_runs := task_runs a + 1\<rparr>) s;
             s = s\<lparr>cr3 := page2pa (task_pml4 s t)\<rparr>
         in kassert (0 < task_pid (tcb s t)) (task_pop_frame (task_frame (tcb s t)) s))))"

definition try_run_next_task :: "'z yield \<Rightarrow> 'z ktask_scheme \<Rightarrow> (int, 'z) kflow" where
  "try_run_next_task yield s =
     (if list_is_empty (local_runq s) (lh s) then Inr (Returns (- 1), s)
      else
        rbind (queue_pop_task (local_runq s) s) (\<lambda>(t, s).
        kassert (runq_len s (this_cpu s) \<ge> 1)
        (rbind (local_runq_len_set (- 1) s) (\<lambda>s.
         kassert (t \<noteq> 0) (task_run yield t s)))))"

text \<open>The big kernel lock is not configured, so that \<^verbatim>\<open>release_and_acquire_lock\<close> does nothing.\<close>

fun sched_yield :: "nat \<Rightarrow> 'z yield" where
  "sched_yield 0 s = Inl KDiverge"
| "sched_yield (Suc n) s =
     (if nuser_tasks s = nkernel_tasks s then Inr (Halts, s)
      else
        rbind (move_cur_task_to_nextq s) (\<lambda>s.
        fbind (try_run_next_task (sched_yield n) s) (\<lambda>_ s.
        kdefined (ncpus s \<noteq> 0)
        (rbind (FGL_migrate_tasks ((nuser_tasks s + (ncpus s - 1)) div ncpus s) s) (\<lambda>s.
         fbind (try_run_next_task (sched_yield n) s) (\<lambda>ret s.
         if ret < 0 then sched_yield n s else resume s))))))"

text \<open>\<open>t0\<close> and \<open>t1\<close> are the two readings of the time stamp counter.\<close>

definition scheduler :: "nat \<Rightarrow> u64 \<Rightarrow> u64 \<Rightarrow> 'z yield" where
  "scheduler n t0 t1 s =
     (let s = s\<lparr>time_elapsed := t0 - sched_start s\<rparr> in
      if FAIR_SCHEDULER \<and> sched_start s \<noteq> 0 \<and> time_elapsed s < TIMESLICE then resume s
      else case cur_task s of None \<Rightarrow> Inl KUndef
        | Some t \<Rightarrow> sched_yield n ((tcb_upd t (\<lambda>a. a\<lparr>jiffies := jiffies a + time_elapsed s\<rparr>) s)\<lparr>sched_start := t1\<rparr>))"

end
