(* ===== verification/Process.thy ===== *)
theory Process
  imports Task
begin

text \<open>
  Waiting, forking and kernel threads: kernel/sched/wait.c, fork.c and kernel_thread.c.
\<close>

section \<open>kernel/sched/wait.c\<close>

definition ECHILD :: int where "ECHILD = 2"

definition set_task_waiting :: "nat \<Rightarrow> int \<Rightarrow> 'z ktask_scheme \<Rightarrow> 'z ktask_scheme res" where
  "set_task_waiting t pid s =
     (if pid = - 1 then Inr (tcb_upd t (\<lambda>a. a\<lparr>task_wait := t\<rparr>) s)
      else rbind (pid2task pid False s) (\<lambda>child.
        kassert (child \<noteq> 0) (Inr (tcb_upd t (\<lambda>a. a\<lparr>task_wait := child\<rparr>) s))))"

definition sys_waitpid :: "'z yield \<Rightarrow> int \<Rightarrow> 'z ktask_scheme \<Rightarrow> (int, 'z) kflow" where
  "sys_waitpid yield pid s =
     (case cur_task s of None \<Rightarrow> Inl KUndef
      | Some t \<Rightarrow>
        rbind (lock_task t s) (\<lambda>s.
        if list_is_empty (TaskChildren t) (lh s) \<or> task_pid (tcb s t) = pid
        then rbind (unlock_task t s) (\<lambda>s. Inr (Returns (- ECHILD), s))
        else
          rbind (set_task_waiting t pid s) (\<lambda>s.
          rbind (reap_zombies t s) (\<lambda>(ret, s).
          if ret > - 1 then rbind (unlock_task t s) (\<lambda>s. Inr (Returns ret, s))
          else
            rbind (klist_del (TaskNode t) s) (\<lambda>s.
            rbind (nuser_tasks_set (- 1) s) (\<lambda>s.
            rbind (unlock_task t s) (\<lambda>s.
            fbind (yield (s\<lparr>cur_task := None\<rparr>)) (\<lambda>_ _. Inl KPanic))))))))"

definition sys_wait :: "'z yield \<Rightarrow> 'z ktask_scheme \<Rightarrow> (int, 'z) kflow" where
  "sys_wait yield s = sys_waitpid yield (- 1) s"

section \<open>kernel/sched/fork.c\<close>

definition create_pml4 :: "nat \<Rightarrow> 'z ktask_scheme \<Rightarrow> (int \<times> 'z ktask_scheme) res" where
  "create_pml4 t s =
     rbind (page_alloc ALLOC_ZERO s) (\<lambda>(page, s).
     case page of None \<Rightarrow> Inr (- 1, s)
     | Some p \<Rightarrow>
       let s = pp_upd p (\<lambda>q. q\<lparr>pp_ref := pp_ref q + 1\<rparr>) s
       in rbind (KADDR (page2pa p) s) (\<lambda>pml4.
          Inr (0, copy_kernel_entries pml4 (s\<lparr>task_pml4 := (task_pml4 s)(t := pml4)\<rparr>))))"

text \<open>
  One page of \<^verbatim>\<open>copy_page_range\<close>. The local variables \<^verbatim>\<open>entry\<close> and \<^verbatim>\<open>page_flags\<close> keep their values from page to
  page, also when neither test assigns the flags. A failed insertion ends the loop (\<open>failed\<close>).
\<close>

type_synonym 'z copy_state = "bool \<times> pte option \<times> u64 \<times> 'z ktask_scheme"

definition copy_page :: "nat \<Rightarrow> nat \<Rightarrow> u64 \<Rightarrow> 'z copy_state \<Rightarrow> 'z copy_state res" where
  "copy_page par_task child_task va = (\<lambda>(failed, entry, page_flags, s).
     if failed then Inr (failed, entry, page_flags, s)
     else rbind (page_lookup (task_pml4 s par_task) va (Some entry) s) (\<lambda>(page, store).
       case (page, store) of
         (Some p, Some (Some e)) \<Rightarrow>
           if \<not> present (rd e s) then Inr (False, Some e, page_flags, s)
           else
             let flags = (if rd e s AND PAGE_WRITE \<noteq> 0 then PAGE_PRESENT OR PAGE_NO_EXEC OR PAGE_USER
                          else if rd e s AND PAGE_NO_EXEC = 0 then PAGE_PRESENT OR PAGE_USER else page_flags)
             in rbind (page_insert cur_find_vma (task_pml4 s child_task) p va flags s) (\<lambda>(ret, s).
                if ret < 0 then Inr (True, Some e, flags, s)
                else rbind (protect_region (task_pml4 s par_task) va PAGE_SIZE flags s) (\<lambda>s. Inr (False, Some e, flags, s)))
       | (_, Some e) \<Rightarrow> Inr (False, e, page_flags, s)
       | _ \<Rightarrow> Inr (False, entry, page_flags, s)))"

definition copy_page_range :: "u64 \<Rightarrow> nat \<Rightarrow> nat \<Rightarrow> u64 \<Rightarrow> u64 \<Rightarrow> 'z ktask_scheme \<Rightarrow> (int \<times> 'z ktask_scheme) res" where
  "copy_page_range junk par_task child_task start_va end_va s =
     rbind (kmalloc 8 s) (\<lambda>(obj, s).
     rbind (page_loop (copy_page par_task child_task) start_va end_va (False, map_option word_at obj, junk, s)) (\<lambda>(failed, _, _, s).
     Inr (if failed then - 1 else 0, s)))"

text \<open>
  One area of the parent. The copy keeps the members of the original, \<^verbatim>\<open>vm_task\<close> and \<^verbatim>\<open>rmap\<close> among them,
  and the child is linked into the list of children once for every area. \<open>False\<close> is a failed \<^verbatim>\<open>kmalloc\<close>.
\<close>

definition clone_vma :: "u64 \<Rightarrow> nat \<Rightarrow> nat \<Rightarrow> nat \<Rightarrow> 'z ktask_scheme \<Rightarrow> (bool \<times> 'z ktask_scheme) res" where
  "clone_vma junk t child_task v s =
     rbind (kmalloc 128 s) (\<lambda>(obj, s).
     case obj of None \<Rightarrow> Inr (False, s)
     | Some c \<Rightarrow>
       let s = vma_upd c (\<lambda>_. vmas s v) s;
           s = klist_init (VmMmap c) s;
           s = s\<lparr>rbn := (rbn s)(c := zero_node)\<rparr>;
           r = vm_rmap (vmas s c)
       in kdefined (r \<noteq> 0)
          (rbind (spin_lock (rmap_lock s r) (this_cpu s) [] 0) (\<lambda>l.
           let s = klist_add (RmapVmas r) (RmapNode c) (s\<lparr>rmap_lock := (rmap_lock s)(r := l)\<rparr>)
           in rbind (spin_unlock (rmap_lock s r) (this_cpu s)) (\<lambda>l.
              rbind (insert_vma child_task c (s\<lparr>rmap_lock := (rmap_lock s)(r := l)\<rparr>)) (\<lambda>(_, s).
              let s = klist_add (TaskChildren t) (TaskChild child_task) s
              in rbind (copy_page_range junk t child_task (vm_base (vmas s v)) (vm_end (vmas s v)) s) (\<lambda>(_, s).
                 Inr (True, s)))))))"

partial_function (option) clone_loop :: "u64 \<Rightarrow> nat \<Rightarrow> nat \<Rightarrow> anchor \<Rightarrow> 'z ktask_scheme \<Rightarrow> (bool \<times> 'z ktask_scheme) res option" where
  "clone_loop junk t child_task node s =
     (if node = TaskMmap t then Some (Inr (True, s))
      else case rbind (vma_of node) (\<lambda>v. clone_vma junk t child_task v s) of Inl e \<Rightarrow> Some (Inl e)
       | Inr r \<Rightarrow> if fst r then clone_loop junk t child_task (nx (lh (snd r)) node) (snd r) else Some (Inr r))"

definition task_clone :: "u64 \<Rightarrow> nat \<Rightarrow> 'z ktask_scheme \<Rightarrow> (nat \<times> 'z ktask_scheme) res" where
  "task_clone junk t s =
     rbind (task_alloc (task_pid (tcb s t)) s) (\<lambda>(c, s).
     kdefined (c \<noteq> 0)
     (let s = tcb_upd c (\<lambda>a. a\<lparr>task_frame := task_frame (tcb s t)\<rparr>) s
      in rbind (create_pml4 c s) (\<lambda>(ret, s).
         if ret < 0 then Inr (0, s)
         else
           let s = klist_init (TaskMmap c) s
           in rbind (total (clone_loop junk t c (nx (lh s) (TaskMmap t)) s)) (\<lambda>(ok, s).
              if \<not> ok then Inr (0, s)
              else Inr (c, tcb_upd c (\<lambda>a. a\<lparr>jiffies := jiffies (tcb s t), task_frame := (task_frame a)\<lparr>f_rax := 0\<rparr>\<rparr>) s)))))"

definition sys_fork :: "u64 \<Rightarrow> 'z ktask_scheme \<Rightarrow> (int \<times> 'z ktask_scheme) res" where
  "sys_fork junk s =
     (case cur_task s of None \<Rightarrow> Inl KUndef
      | Some t \<Rightarrow>
        rbind (task_clone junk t s) (\<lambda>(c, s).
        if c = 0 then Inr (- 1, s)
        else rbind (queue_add_task RunqHead c s) (\<lambda>s.
          Inr (task_pid (tcb s c), s\<lparr>nuser_tasks := nuser_tasks s + 1\<rparr>))))"

section \<open>kernel/sched/kernel_thread.c\<close>

definition KERNEL_STACK_TOP :: u64 where "KERNEL_STACK_TOP = 0xffffff9000000000"
definition IF_RFLAGS :: u64 where "IF_RFLAGS = 160"

text \<open>\<^verbatim>\<open>zero_page\<close> uses the physical address of the page as a pointer.\<close>

definition zero_page :: "nat \<Rightarrow> 'z ktask_scheme \<Rightarrow> 'z ktask_scheme res" where
  "zero_page p s = vmemset (page2pa p) 0 PAGE_SIZE s"

partial_function (option) zero_loop :: "'z ktask_scheme \<Rightarrow> 'z ktask_scheme res option" where
  "zero_loop s =
     (case list_pop ZeroHead (lh s) of Inl e \<Rightarrow> Some (Inl e)
      | Inr r \<Rightarrow>
        (case fst r of Null \<Rightarrow> Some (Inr s)
         | ZeroNode p \<Rightarrow>
           (case zero_page p (s\<lparr>lh := snd r\<rparr>) of Inl e \<Rightarrow> Some (Inl e)
            | Inr s \<Rightarrow> zero_loop (pp_upd p (\<lambda>q. q\<lparr>pp_zero := 1\<rparr>) s))
         | _ \<Rightarrow> Some (Inl KUndef)))"

text \<open>\<open>self\<close> is the address of \<^verbatim>\<open>zero_all_pages\<close>, at which the thread starts again.\<close>

definition zero_all_pages :: "'z yield \<Rightarrow> u64 \<Rightarrow> 'z ktask_scheme \<Rightarrow> (unit, 'z) kflow" where
  "zero_all_pages yield self s =
     rbind (lock_buddy s) (\<lambda>s.
     rbind (total (zero_loop s)) (\<lambda>s.
     rbind (unlock_buddy s) (\<lambda>s.
     case cur_task s of None \<Rightarrow> Inl KUndef
     | Some t \<Rightarrow> yield (tcb_upd t (\<lambda>a. a\<lparr>task_frame := (task_frame a)\<lparr>f_rip := self, f_rsp := KERNEL_STACK_TOP\<rparr>\<rparr>) s))))"

definition kernel_frame :: "u64 \<Rightarrow> int_frame \<Rightarrow> int_frame" where
  "kernel_frame func_ptr f = f\<lparr>f_rip := func_ptr, f_ds := GDT_KDATA, f_ss := GDT_KDATA, f_rsp := KERNEL_STACK_TOP,
     f_cs := GDT_KCODE, f_rflags := IF_RFLAGS\<rparr>"

definition create_kernel_thread :: "u64 \<Rightarrow> 'z ktask_scheme \<Rightarrow> 'z ktask_scheme res" where
  "create_kernel_thread func_ptr s =
     rbind (task_alloc 0 s) (\<lambda>(t, s).
     kassert (t \<noteq> 0)
     (let s = tcb_upd t (\<lambda>a. a\<lparr>task_type := TASK_TYPE_KERNEL, task_frame := kernel_frame func_ptr (task_frame a)\<rparr>) s
      in rbind (populate_region cur_find_vma (kernel_pml4 s) (task_pml4 s t) (KERNEL_STACK_TOP - (nkernel_tasks s + 1) * PAGE_SIZE) PAGE_SIZE
                  (PAGE_PRESENT OR PAGE_WRITE) s) (\<lambda>s.
         let s = s\<lparr>tasks := (tasks s)(nat (task_pid (tcb s t)) := 0)\<rparr>
         in case find (\<lambda>pid. tasks s pid = 0) (rev [2..<nat pid_max]) of
              None \<Rightarrow> Inl KPanic
            | Some pid \<Rightarrow>
              lock_runq_add t (tcb_upd t (\<lambda>a. a\<lparr>task_pid := int pid\<rparr>) (s\<lparr>tasks := (tasks s)(pid := t)\<rparr>)))))"

end
