(* ===== verification/Swap.thy ===== *)
theory Swap
  imports Process
begin

text \<open>
  Reverse mappings (kernel/dev/rmap.c), the page replacement of kernel/dev/swap.c and the killer of kernel/dev/oom.c. A page descriptor
  points to the reverse mapping of the area it was inserted for; walking it visits the pages of every
  area on the mapping's list. The disk is a record of operations, an argument of the functions that use it.
\<close>

section \<open>State\<close>

record kswap = ktask +
  free_disk_addr :: u64
  console_lock :: spinlock

text \<open>The members of \<^verbatim>\<open>struct disk_ops\<close>; a buffer is the frame of a page. The results of \<^verbatim>\<open>stat\<close> are not used.\<close>

record 's disk_ops =
  op_poll :: "'s \<Rightarrow> int \<times> 's"
  op_stat :: "'s \<Rightarrow> 's"
  op_read :: "nat \<Rightarrow> u64 \<Rightarrow> u64 \<Rightarrow> 's \<Rightarrow> int \<times> 's"
  op_write :: "nat \<Rightarrow> u64 \<Rightarrow> u64 \<Rightarrow> 's \<Rightarrow> int \<times> 's"

definition PAGE_ACCESSED :: u64 where "PAGE_ACCESSED = 0x20"
definition SWAP_BLOCK :: nat where "SWAP_BLOCK = 1000"
definition MEMORY_THRESHOLD :: u64 where "MEMORY_THRESHOLD = 30000 * PAGE_SIZE"
definition EAGAIN :: int where "EAGAIN = 1"

section \<open>kernel/dev/rmap.c\<close>

text \<open>The loop over the areas; the value that the walk returns is not used.\<close>

partial_function (option) rmap_loop ::
  "nat \<Rightarrow> anchor \<Rightarrow> ('u, ('z kvma_ext) kslab_ext kboot_ext) page_walker \<Rightarrow> 'u \<times> 'z kvma_scheme \<Rightarrow> ('u \<times> 'z kvma_scheme) res option" where
  "rmap_loop r node w us =
     (if node = RmapVmas r then Some (Inr us)
      else case node of
        RmapNode v \<Rightarrow>
          (case kassert (vm_task (vmas (snd us) v) \<noteq> 0)
                  (walk_page_range (task_pml4 (snd us) (vm_task (vmas (snd us) v))) (vm_base (vmas (snd us) v)) (vm_end (vmas (snd us) v)) w us) of
             Inl e \<Rightarrow> Some (Inl e)
           | Inr x \<Rightarrow> rmap_loop r (nx (lh (snd (snd x))) node) w (snd x))
      | _ \<Rightarrow> Some (Inl KUndef))"

definition rmap_walk ::
  "nat \<Rightarrow> ('u, ('z kvma_ext) kslab_ext kboot_ext) page_walker \<Rightarrow> 'u \<times> 'z kvma_scheme \<Rightarrow> ('u \<times> 'z kvma_scheme) res" where
  "rmap_walk page w = (\<lambda>(u, s).
     case pp_rmap (pages s page) of None \<Rightarrow> Inl KPanic
     | Some r \<Rightarrow>
       rbind (spin_lock (rmap_lock s r) (this_cpu s) [] 0) (\<lambda>l.
       let s = s\<lparr>rmap_lock := (rmap_lock s)(r := l)\<rparr>
       in kassert (\<not> list_is_empty (RmapVmas r) (lh s))
         (rbind (total (rmap_loop r (nx (lh s) (RmapVmas r)) w (u, s))) (\<lambda>(u, s).
          rbind (spin_unlock (rmap_lock s r) (this_cpu s)) (\<lambda>l.
          Inr (u, s\<lparr>rmap_lock := (rmap_lock s)(r := l)\<rparr>))))))"

section \<open>kernel/dev/swap.c: choosing a page\<close>

record clock_info =
  accessed :: int
  clock_pa :: u64

definition check_access_flag :: "(clock_info, 'z) map_pte" where
  "check_access_flag entry base end = (\<lambda>(info, s).
     if present (rd entry s) \<and> PAGE_ADDR (rd entry s) = clock_pa info \<and> rd entry s AND PAGE_ACCESSED \<noteq> 0
     then Inr (0, info\<lparr>accessed := 1\<rparr>, wr entry (rd entry s AND NOT PAGE_ACCESSED) s)
     else Inr (0, info, s))"

definition clock_walker :: "(clock_info, 'z) page_walker" where
  "clock_walker = no_walker\<lparr>pte_callback := Some check_access_flag\<rparr>"

text \<open>On an empty list \<^verbatim>\<open>container_of\<close> turns the null pointer into an invalid one, which the test for null does not catch.\<close>

definition check_clock :: "'z kvma_scheme \<Rightarrow> (nat option \<times> 'z kvma_scheme) res" where
  "check_clock s =
     rbind (list_pop_tail SwapHead (lh s)) (\<lambda>(node, h).
     case node of
       SwapNode page \<Rightarrow>
         rbind (rmap_walk page clock_walker (\<lparr>accessed = 0, clock_pa = page2pa page\<rparr>, s\<lparr>lh := h\<rparr>)) (\<lambda>(info, s).
         if accessed info \<noteq> 0 then rbind (mru_swap_page (Some page) s) (\<lambda>s. Inr (None, s))
         else Inr (Some page, s))
     | _ \<Rightarrow> Inl KUndef)"

partial_function (option) clock_loop :: "'z kvma_scheme \<Rightarrow> (nat \<times> 'z kvma_scheme) res option" where
  "clock_loop s =
     (case check_clock s of Inl e \<Rightarrow> Some (Inl e)
      | Inr r \<Rightarrow> (case fst r of None \<Rightarrow> clock_loop (snd r) | Some page \<Rightarrow> Some (Inr (page, snd r))))"

definition lock_swap :: "'z kvm_scheme \<Rightarrow> 'z kvm_scheme res" where
  "lock_swap s = rbind (spin_lock (swap_lock s) (this_cpu s) [] 0) (\<lambda>l. Inr (s\<lparr>swap_lock := l\<rparr>))"

definition unlock_swap :: "'z kvm_scheme \<Rightarrow> 'z kvm_scheme res" where
  "unlock_swap s = rbind (spin_unlock (swap_lock s) (this_cpu s)) (\<lambda>l. Inr (s\<lparr>swap_lock := l\<rparr>))"

definition get_page :: "'z kvma_scheme \<Rightarrow> (nat option \<times> 'z kvma_scheme) res" where
  "get_page s =
     rbind (lock_swap s) (\<lambda>s.
     if list_is_empty SwapHead (lh s) then rbind (unlock_swap s) (\<lambda>s. Inr (None, s))
     else rbind (total (clock_loop s)) (\<lambda>(page, s). rbind (unlock_swap s) (\<lambda>s. Inr (Some page, s))))"

section \<open>kernel/dev/swap.c: moving a page\<close>

record rmap_info =
  ri_page :: nat
  ri_disk_addr :: u64
  ri_pa :: u64

definition update_pte_swap_in :: "(rmap_info, 'z) map_pte" where
  "update_pte_swap_in entry base end = (\<lambda>(info, s).
     if PAGE_ADDR (rd entry s) = page2pa (ri_page info) then
       kassert (present (rd entry s))
       (let s = wr entry (rd entry s + PAGE_PRESENT) s;
            s = wr entry (rd entry s AND PAGE_MASK) s;
            s = wr entry (rd entry s + ri_pa info) s
        in Inr (0, info, pp_upd (ri_page info) (\<lambda>q. q\<lparr>pp_ref := pp_ref q - 1\<rparr>) s))
     else Inr (0, info, s))"

definition update_rmap_ptes_swap_in :: "nat \<Rightarrow> u64 \<Rightarrow> 'z kvma_scheme \<Rightarrow> 'z kvma_scheme res" where
  "update_rmap_ptes_swap_in page pa s =
     rbind (rmap_walk page (no_walker\<lparr>pte_callback := Some update_pte_swap_in\<rparr>) (\<lparr>ri_page = page, ri_disk_addr = 0, ri_pa = pa\<rparr>, s))
       (\<lambda>(_, s). Inr s)"

text \<open>
  The \<^verbatim>\<open>return -1\<close> behind the read is not part of the conditional above it, so that the update of the page tables that
  follows in the source is never reached.
\<close>

definition swap_in :: "'z kswap_scheme disk_ops \<Rightarrow> pte \<Rightarrow> 'z kswap_scheme \<Rightarrow> (int \<times> 'z kswap_scheme) res" where
  "swap_in disk entry s =
     rbind (lock_swap (op_stat disk s)) (\<lambda>s.
     rbind (page_alloc ALLOC_ZERO s) (\<lambda>(page, s).
     case page of None \<Rightarrow> rbind (unlock_swap s) (\<lambda>s. Inr (- 1, s))
     | Some p \<Rightarrow>
       (let (ready, s) = op_poll disk s in
        if ready = 0 then rbind (unlock_swap s) (\<lambda>s. Inr (- EAGAIN, s))
        else
          let (ret, s) = op_read disk p PAGE_SIZE (PAGE_ADDR (rd entry s)) s
          in rbind (if ret < 0 then unlock_swap s else Inr s) (\<lambda>s. Inr (- 1, s)))))"

definition get_free_disk_addr :: "'z kswap_scheme \<Rightarrow> u64 \<times> 'z kswap_scheme" where
  "get_free_disk_addr s = (free_disk_addr s, s\<lparr>free_disk_addr := free_disk_addr s + PAGE_SIZE\<rparr>)"

definition update_pte_swap_out :: "(rmap_info, 'z) map_pte" where
  "update_pte_swap_out entry base end = (\<lambda>(info, s).
     if PAGE_ADDR (rd entry s) = page2pa (ri_page info) then
       kassert (present (rd entry s))
       (let s = wr entry (rd entry s AND NOT PAGE_PRESENT) s;
            s = wr entry (rd entry s AND PAGE_MASK) s;
            s = wr entry (rd entry s + ri_disk_addr info) s
        in Inr (0, info, pp_upd (ri_page info) (\<lambda>q. q\<lparr>pp_ref := pp_ref q - 1\<rparr>) s))
     else Inr (0, info, s))"

definition update_rmap_ptes_swap_out :: "nat \<Rightarrow> u64 \<Rightarrow> 'z kvma_scheme \<Rightarrow> 'z kvma_scheme res" where
  "update_rmap_ptes_swap_out page disk_addr s =
     rbind (rmap_walk page (no_walker\<lparr>pte_callback := Some update_pte_swap_out\<rparr>) (\<lparr>ri_page = page, ri_disk_addr = disk_addr, ri_pa = 0\<rparr>, s))
       (\<lambda>(_, s). Inr s)"

definition swap_out :: "'z kswap_scheme disk_ops \<Rightarrow> 'z kswap_scheme \<Rightarrow> (int \<times> 'z kswap_scheme) res" where
  "swap_out disk s =
     (let (ready, s) = op_poll disk s in
      if ready = 0 then Inr (- 1, s)
      else rbind (get_page s) (\<lambda>(page, s).
        case page of None \<Rightarrow> Inr (- 1, s)
        | Some p \<Rightarrow>
          (let (disk_addr, s) = get_free_disk_addr s;
               (ret, s) = op_write disk p PAGE_SIZE disk_addr s
           in if ret < 0 then Inr (- 1, s)
              else rbind (update_rmap_ptes_swap_out p disk_addr s) (\<lambda>s.
                   rbind (page_free p s) (\<lambda>s. Inr (0, s))))))"

definition initialize_swap_list :: "'z kvm_scheme \<Rightarrow> 'z kvm_scheme" where
  "initialize_swap_list s =
     (let s = klist_init SwapHead s in s\<lparr>swap_lock := spin_init (swap_lock s) ''swap_lock''\<rparr>)"

section \<open>kernel/dev/oom.c: measuring\<close>

text \<open>The score is a signed integer; it has no defined value beyond \<^verbatim>\<open>INT_MAX\<close>.\<close>

definition read_all_pte :: "(int, 'z) map_pte" where
  "read_all_pte entry base end = (\<lambda>(score, s).
     if present (rd entry s) then kdefined (score < 2 ^ 31 - 1) (Inr (0, score + 1, s)) else Inr (0, score, s))"

definition oom_walker :: "(int, 'z) page_walker" where
  "oom_walker = no_walker\<lparr>pte_callback := Some read_all_pte\<rparr>"

definition get_oom_score :: "nat \<Rightarrow> 'z kvma_scheme \<Rightarrow> (int \<times> 'z kvma_scheme) res" where
  "get_oom_score t s =
     rbind (walk_all_pages (task_pml4 s t) oom_walker (0, s)) (\<lambda>(ret, score, s). Inr (if ret < 0 then - 1 else score, s))"

text \<open>
  The sum \<^verbatim>\<open>total_free_memory\<close> is computed and not returned: the result is the memory in blocks of the last order. The
  product is one of signed integers.
\<close>

definition int_range :: "int \<Rightarrow> bool" where
  "int_range i \<longleftrightarrow> - (2 ^ 31) \<le> i \<and> i < 2 ^ 31"

definition order_memory :: "nat \<Rightarrow> 'z kmem_scheme \<Rightarrow> u64 res" where
  "order_memory order s =
     rbind (total (map_option Inr (list_foreach (BuddyHead order) (lh s)))) (\<lambda>nodes.
     let free = 2 ^ order * int (length nodes) * 4096
     in kdefined (int_range free) (Inr (of_int free)))"

fun memory_loop :: "nat list \<Rightarrow> u64 \<Rightarrow> u64 \<Rightarrow> 'z kmem_scheme \<Rightarrow> (u64 \<times> u64) res" where
  "memory_loop [] free tot s = Inr (free, tot)"
| "memory_loop (order # orders) free tot s = rbind (order_memory order s) (\<lambda>free. memory_loop orders free (tot + free) s)"

definition get_total_free_memory :: "'z kmem_scheme \<Rightarrow> u64 res" where
  "get_total_free_memory s = rbind (memory_loop [0..<BUDDY_MAX_ORDER] 0 0 s) (\<lambda>(free, _). Inr free)"

section \<open>kernel/dev/oom.c: killing\<close>

text \<open>One PID of the loop of \<^verbatim>\<open>oom_kill\<close>; the pair is the task to delete and the highest score.\<close>

definition oom_candidate :: "nat \<Rightarrow> nat \<times> int \<Rightarrow> 'z ktask_scheme \<Rightarrow> ((nat \<times> int) \<times> 'z ktask_scheme) res" where
  "oom_candidate pid best s =
     rbind (pid2task (int pid) False s) (\<lambda>t.
     if t = 0 \<or> task_type (tcb s t) = TASK_TYPE_KERNEL then Inr (best, s)
     else rbind (get_oom_score t s) (\<lambda>(score, s).
       if score < 0 then Inr (best, s)
       else Inr (if score > snd best then (t, score) else best, s)))"

fun oom_select :: "nat list \<Rightarrow> nat \<times> int \<Rightarrow> 'z ktask_scheme \<Rightarrow> ((nat \<times> int) \<times> 'z ktask_scheme) res" where
  "oom_select [] best s = Inr (best, s)"
| "oom_select (pid # pids) best s = rbind (oom_candidate pid best s) (\<lambda>(best, s). oom_select pids best s)"

definition oom_kill :: "'z kswap_ext yield \<Rightarrow> 'z kswap_scheme \<Rightarrow> (unit, 'z kswap_ext) kflow" where
  "oom_kill yield s =
     rbind (spin_lock (console_lock s) (this_cpu s) [] 0) (\<lambda>l.
     rbind (oom_select [1..<nat pid_max] (0, 0) (s\<lparr>console_lock := l\<rparr>)) (\<lambda>((t, _), s).
     kassert (t \<noteq> 0)
     (rbind (spin_unlock (console_lock s) (this_cpu s)) (\<lambda>l.
      task_destroy yield t (s\<lparr>console_lock := l\<rparr>)))))"

section \<open>The threads\<close>

text \<open>The kernel threads wait while a task is dying. \<open>restart_at\<close> is \<^verbatim>\<open>yield_swap\<close> and the end of \<^verbatim>\<open>oom_thread\<close>; \<open>self\<close> is the address at which the thread starts again.\<close>

fun while_dying :: "'z yield \<Rightarrow> nat list \<Rightarrow> 'z yield" where
  "while_dying wait [] s = resume s"
| "while_dying wait (pid # pids) s =
     rbind (pid2task (int pid) False s) (\<lambda>t.
     fbind (if t \<noteq> 0 \<and> status_of s t = TASK_DYING then wait s else resume s) (\<lambda>_ s. while_dying wait pids s))"

definition restart_at :: "'z yield \<Rightarrow> u64 \<Rightarrow> 'z yield" where
  "restart_at yield self s =
     (case cur_task s of None \<Rightarrow> Inl KUndef
      | Some t \<Rightarrow> yield (tcb_upd t (\<lambda>a. a\<lparr>task_frame := (task_frame a)\<lparr>f_rip := self, f_rsp := KERNEL_STACK_TOP\<rparr>\<rparr>) s))"

definition oom_thread :: "'z kswap_ext yield \<Rightarrow> u64 \<Rightarrow> 'z kswap_ext yield" where
  "oom_thread yield self s =
     fbind (while_dying yield [1..<nat pid_max] s) (\<lambda>_ s.
     rbind (get_total_free_memory s) (\<lambda>free.
     fbind (if free < MEMORY_THRESHOLD then oom_kill yield s else resume s) (\<lambda>_ s. restart_at yield self s)))"

fun swap_block :: "nat \<Rightarrow> 'z kswap_scheme disk_ops \<Rightarrow> 'z kswap_ext yield \<Rightarrow> u64 \<Rightarrow> 'z kswap_ext yield" where
  "swap_block 0 disk yield self s = resume s"
| "swap_block (Suc i) disk yield self s =
     rbind (swap_out disk s) (\<lambda>(ret, s).
     fbind (if ret < 0 then restart_at yield self s else resume s) (\<lambda>_ s. swap_block i disk yield self s))"

definition swap_thread :: "'z kswap_scheme disk_ops \<Rightarrow> 'z kswap_ext yield \<Rightarrow> u64 \<Rightarrow> 'z kswap_ext yield" where
  "swap_thread disk yield self s =
     fbind (while_dying (restart_at yield self) [1..<nat pid_max] s) (\<lambda>_ s.
     rbind (get_total_free_memory s) (\<lambda>free.
     fbind (if free < MEMORY_THRESHOLD then swap_block SWAP_BLOCK disk yield self s else resume s) (\<lambda>_ s. restart_at yield self s)))"

end
