(* ===== verification/Walk_Range.thy ===== *)
theory Walk_Range
  imports Page_Table_Spec
begin

text \<open>
  Walks over ranges of pages. The four nested loops of kernel/mem/walk.c, with the boundaries they
  compute at each level, are one loop over the pages of the range that calls the callback on the entry to which the
  hardware would descend, for every walker that leaves the upper tables alone. An induction rule over the pages visited so far follows.
\<close>

section \<open>Boundaries as numbers\<close>

text \<open>The number of bytes below an entry of a level.\<close>

fun level_size :: "level \<Rightarrow> nat" where
  "level_size PTBL = 2 ^ 12"
| "level_size PDIR = 2 ^ 21"
| "level_size PDPT = 2 ^ 30"
| "level_size PML4 = 2 ^ 39"

text \<open>The end of the entry that covers an address, behind the gap of non-canonical addresses at the end of the lower half.\<close>

definition boundary :: "level \<Rightarrow> nat \<Rightarrow> nat" where
  "boundary l P = (let T = level_size l * (P div level_size l) + level_size l in if T = 2 ^ 47 then 2 ^ 64 - 2 ^ 47 else T)"

text \<open>A page of the lower or the upper half.\<close>

definition page_ok :: "u64 \<Rightarrow> bool" where
  "page_ok p \<longleftrightarrow> unat p mod 4096 = 0 \<and> (unat p < 2 ^ 47 \<or> 2 ^ 64 - 2 ^ 47 \<le> unat p)"

lemma or_mask_unat: "unat (a OR mask n :: u64) = unat a div 2 ^ n * 2 ^ n + (2 ^ n - 1)" if "n < 64"
proof -
  have "a OR mask n = push_bit n (drop_bit n a) + mask n"
  proof -
    have "push_bit n (drop_bit n a) OR mask n = push_bit n (drop_bit n a) + mask n"
      by (rule disjunctive_add [symmetric]) (simp add: bit_push_bit_iff bit_mask_iff)
    moreover have "a OR mask n = push_bit n (drop_bit n a) OR mask n"
      by (rule bit_eqI) (auto simp: bit_or_iff bit_push_bit_iff bit_drop_bit_eq bit_mask_iff)
    ultimately show ?thesis by simp
  qed
  moreover have "unat (push_bit n (drop_bit n a)) = unat a div 2 ^ n * 2 ^ n"
  proof -
    have "unat a div 2 ^ n * 2 ^ n \<le> unat a" by simp
    also have "\<dots> < 2 ^ 64" using unsigned_less [of a] by simp
    finally have "unat a div 2 ^ n * 2 ^ n < 2 ^ 64" .
    then have "unat a div 2 ^ n * 2 ^ n mod 2 ^ LENGTH(64) = unat a div 2 ^ n * 2 ^ n" by (intro mod_less) simp
    moreover have "unat (push_bit n (drop_bit n a)) = push_bit n (drop_bit n (unat a)) mod 2 ^ LENGTH(64)"
      by (simp only: unsigned_push_bit_eq unat_drop_bit_eq take_bit_eq_mod)
    ultimately show ?thesis by (simp only: push_bit_eq_mult drop_bit_eq_div)
  qed
  moreover have "unat (mask n :: u64) = 2 ^ n - 1"
  proof -
    have "(2::nat) ^ n \<le> 2 ^ 64" using that by (intro power_increasing) simp_all
    then have "2 ^ n - 1 < (2::nat) ^ LENGTH(64)" by simp
    moreover have "(mask n :: u64) = of_nat (2 ^ n - 1)" by (simp add: mask_eq_exp_minus_1 of_nat_diff)
    ultimately show ?thesis by (simp only: unat_of_nat mod_less)
  qed
  moreover have "unat a div 2 ^ n * 2 ^ n + (2 ^ n - 1) < 2 ^ 64"
  proof -
    have "(2::nat) ^ n dvd 2 ^ 64" using that by (intro le_imp_power_dvd) simp
    then obtain m where m: "(2::nat) ^ 64 = 2 ^ n * m" by (elim dvdE)
    have "unat a < m * 2 ^ n" using unsigned_less [of a] m by (simp add: mult.commute)
    then have "unat a div 2 ^ n + 1 \<le> m" using less_mult_imp_div_less [of "unat a" m "2 ^ n"] by simp
    then have "(unat a div 2 ^ n + 1) * 2 ^ n \<le> m * 2 ^ n" by (rule mult_le_mono1)
    then have "unat a div 2 ^ n * 2 ^ n + 2 ^ n \<le> 2 ^ 64" unfolding m by (simp add: algebra_simps)
    moreover have "(0::nat) < 2 ^ n" by simp
    ultimately show ?thesis by linarith
  qed
  ultimately show ?thesis by (simp add: unat_word_ariths)
qed

lemma unat_level_end: "unat (a OR level_mask l) = level_size l * (unat a div level_size l) + (level_size l - 1)"
proof -
  have m: "(0xFFF :: u64) = mask 12" "(0x1FFFFF :: u64) = mask 21" "(0x3FFFFFFF :: u64) = mask 30" "(0x7FFFFFFFFF :: u64) = mask 39"
    by (simp_all add: mask_eq_exp_minus_1)
  have n: "(12::nat) < 64" "(21::nat) < 64" "(30::nat) < 64" "(39::nat) < 64" by simp_all
  show ?thesis
    using or_mask_unat [OF n(1), of a] or_mask_unat [OF n(2), of a] or_mask_unat [OF n(3), of a] or_mask_unat [OF n(4), of a]
    by (cases l) (simp_all only: level_mask.simps level_size.simps m mult.commute)
qed

lemma sign_extend_high:
  assumes "0xFFFF000000000000 \<le> unat w"
  shows "sign_extend w = w"
proof -
  let ?h = "0xFFFF000000000000 :: u64"
  define r where "r = w - ?h"
  have le: "?h \<le> w" using assms by (simp add: word_le_nat_alt)
  have "unat r = unat w - 0xFFFF000000000000" using unat_sub [OF le] by (simp add: r_def)
  moreover have "unat w < 2 ^ 64" using unsigned_less [of w] by simp
  ultimately have "unat r < 2 ^ 48" using assms by simp
  then have "take_bit 48 r = r" by (simp add: take_bit_eq_mod word_arith_nat_mod)
  moreover have "?h = NOT (mask 48)" by (simp add: mask_eq_exp_minus_1)
  moreover have "\<not> bit (NOT (mask 48 :: u64)) n \<or> \<not> bit (take_bit 48 r) n" for n
    by (auto simp: bit_not_iff bit_mask_iff bit_take_bit_iff)
  ultimately have "?h OR r = ?h + r" by (metis disjunctive_add)
  then have "?h OR r = w" by (simp add: r_def)
  then have "?h OR w = w" by (metis or.assoc or.idem)
  then show ?thesis by (simp add: sign_extend_def)
qed

lemma page_ok_canonical: "page_ok p \<Longrightarrow> sign_extend p = p"
  using sign_extend_high [of p] by (auto simp: page_ok_def sign_extend_def USER_LIM_def word_less_nat_alt)

lemma level_size_dvd: "4096 dvd level_size l" "level_size l dvd 2 ^ 47" "level_size l dvd 2 ^ 64" "0 < level_size l"
proof -
  show "4096 dvd level_size l" by (cases l) simp_all
  obtain n where n: "level_size l = 2 ^ n" "n \<le> 39"
  proof (cases l)
    case PTBL
    then show ?thesis by (intro that [of 12]) simp_all
  next
    case PDIR
    then show ?thesis by (intro that [of 21]) simp_all
  next
    case PDPT
    then show ?thesis by (intro that [of 30]) simp_all
  next
    case PML4
    then show ?thesis by (intro that [of 39]) simp_all
  qed
  then show "level_size l dvd 2 ^ 47" "level_size l dvd 2 ^ 64" unfolding n(1) by (auto intro!: le_imp_power_dvd simp del: power_numeral)
  show "0 < level_size l" by (cases l) simp_all
qed

lemma chunk_limit:
  fixes P S M :: nat
  assumes "S dvd M" and "P < M" and "0 < S"
  shows "S * (P div S) + S \<le> M"
proof -
  obtain k where M: "M = S * k" using assms(1) by (elim dvdE)
  have "P div S < k" using assms(2,3) M by (simp add: div_less_iff_less_mult mult.commute)
  then have "S * (P div S + 1) \<le> S * k" by (intro mult_le_mono2) simp
  then show ?thesis by (simp add: M)
qed

lemma boundary_gt: "P < boundary l P"
proof -
  have "P < level_size l * (P div level_size l) + level_size l" 
    using level_size_dvd(4) [of l] by (metis add.commute dividend_less_times_div mult.commute mult_Suc_right)
  then show ?thesis by (auto simp: boundary_def Let_def)
qed

lemma unat_next:
  assumes "page_ok a"
  shows "unat (next_addr l end a) = min (boundary l (unat a)) (unat end)"
proof -
  let ?S = "level_size l"
  define x where "x = a OR level_mask l"
  define T where "T = ?S * (unat a div ?S) + ?S"
  have a: "unat a < 2 ^ 64" and e: "unat end < 2 ^ 64" using unsigned_less [of a] unsigned_less [of "end"] by simp_all
  from a have T64: "T \<le> 2 ^ 64" unfolding T_def by (rule chunk_limit [OF level_size_dvd(3) _ level_size_dvd(4)])
  have T47: "T \<le> 2 ^ 47" if "unat a < 2 ^ 47" using that unfolding T_def by (rule chunk_limit [OF level_size_dvd(2) _ level_size_dvd(4)])
  have x: "unat x + 1 = T" using unat_level_end [of a l] level_size_dvd(4) [of l] by (simp add: x_def T_def)
  have gt: "unat a < T" using x le_word_or2 [of a "level_mask l"] by (simp add: x_def word_le_nat_alt)
  have n: "next_addr l end a = (if sign_extend (x + 1) > end \<or> sign_extend (x + 1) < a then end else sign_extend (x + 1))"
    by (simp add: next_addr_def Let_def level_end_mask x_def)
  have *: "unat (next_addr l end a) = min B (unat end)" if "unat (sign_extend (x + 1)) = B" "unat a < B" for B
    using that by (auto simp: n word_less_nat_alt min_def)
  show ?thesis
  proof (cases "T = 2 ^ 64")
    case True
    then have "x = - 1" using x by (simp add: word_unat_eq_iff unsigned_minus_1_eq_mask mask_eq_exp_minus_1)
    moreover from this True have "a \<noteq> 0" by (cases l) (auto simp: x_def)
    ultimately have "next_addr l end a = end" by (simp add: n sign_extend_def USER_LIM_def word_gt_0)
    moreover have "boundary l (unat a) = 2 ^ 64" using True by (simp add: boundary_def T_def)
    ultimately show ?thesis using e by simp
  next
    case False
    then have ux: "unat (x + 1) = T" using x T64 by (simp add: unat_word_ariths)
    show ?thesis
    proof (cases "T = 2 ^ 47")
      case True
      then have "x + 1 = USER_LIM" using ux by (simp add: word_unat_eq_iff USER_LIM_def)
      then have "unat (sign_extend (x + 1)) = 2 ^ 64 - 2 ^ 47" by (simp add: sign_extend_def USER_LIM_def)
      with * [OF this] gt True show ?thesis by (simp add: boundary_def T_def)
    next
      case False
      have "sign_extend (x + 1) = x + 1"
      proof (cases "T < 2 ^ 47")
        case True
        then show ?thesis using ux by (simp add: sign_extend_def USER_LIM_def word_less_nat_alt)
      next
        case nl: False
        then have "2 ^ 64 - 2 ^ 47 \<le> unat a" using T47 False assms by (fastforce simp: page_ok_def)
        then show ?thesis using gt ux by (intro sign_extend_high) simp
      qed
      with * ux gt False show ?thesis by (simp add: boundary_def T_def)
    qed
  qed
qed

lemma chunk_step:
  assumes "P mod 4096 = 0"
  shows "boundary PTBL P = boundary l P \<or> boundary PTBL P = P + 4096 \<and> boundary PTBL P < boundary l P \<and> boundary l (P + 4096) = boundary l P"
proof -
  obtain k where S: "level_size l = 4096 * k" using level_size_dvd(1) [of l] by (elim dvdE)
  obtain K where K: "(2::nat) ^ 47 = 4096 * k * K" using level_size_dvd(2) [of l] S by (elim dvdE) simp
  obtain m where P: "P = 4096 * m" using assms by auto
  have k: "0 < k" using level_size_dvd(4) [of l] S by simp
  define T where "T x = 4096 * (k * (x div k) + k)" for x
  have bl: "boundary l (4096 * x) = (if T x = 2 ^ 47 then 2 ^ 64 - 2 ^ 47 else T x)" for x
    by (simp add: boundary_def S T_def Let_def distrib_left)
  have b1: "boundary PTBL P = (if 4096 * Suc m = 2 ^ 47 then 2 ^ 64 - 2 ^ 47 else 4096 * Suc m)"
    by (simp add: boundary_def P Let_def)
  show ?thesis
  proof (cases "Suc m mod k = 0")
    case True
    then have "Suc m = k * (m div k) + k" using mult_div_mod_eq [of k "Suc m"] by (simp add: div_Suc)
    then have "T m = 4096 * Suc m" by (simp only: T_def)
    then show ?thesis using bl [of m] b1 P by simp
  next
    case False
    then have "T (Suc m) = T m" by (simp add: T_def div_Suc)
    moreover have "4096 * Suc m \<noteq> 2 ^ 47"
    proof
      assume "4096 * Suc m = 2 ^ 47"
      then have "4096 * Suc m = 4096 * (k * K)" using K by (simp only: mult.assoc)
      then have "Suc m = k * K" by (simp only: mult_cancel1) simp
      then show False using False by simp
    qed
    moreover have "Suc m < k * (m div k) + k"
    proof -
      have "Suc m mod k < k" using k by simp
      then show ?thesis using False mult_div_mod_eq [of k "Suc m"] by (simp add: div_Suc)
    qed
    then have "4096 * Suc m < T m" unfolding T_def by simp
    ultimately show ?thesis using bl [of m] bl [of "Suc m"] b1 P by (auto simp: add.commute)
  qed
qed

lemma boundary_page_ok:
  assumes "page_ok a" and "unat n = boundary l (unat a)"
  shows "page_ok n"
proof -
  let ?S = "level_size l"
  define T where "T = ?S * (unat a div ?S) + ?S"
  have d: "4096 dvd ?S" by (rule level_size_dvd)
  then have "4096 dvd T" by (auto simp: T_def)
  moreover have "T \<le> 2 ^ 47" if "unat a < 2 ^ 47" using that unfolding T_def by (rule chunk_limit [OF level_size_dvd(2) _ level_size_dvd(4)])
  moreover have "unat a < boundary l (unat a)" by (rule boundary_gt)
  moreover have "boundary l (unat a) = (if T = 2 ^ 47 then 2 ^ 64 - 2 ^ 47 else T)" by (simp add: boundary_def T_def)
  ultimately show ?thesis using assms by (auto simp: page_ok_def split: if_splits)
qed

section \<open>The flat loop\<close>

text \<open>One loop over the pages of a range.\<close>

definition flat :: "(u64 \<Rightarrow> 's \<Rightarrow> (int \<times> 's) res) \<Rightarrow> u64 \<Rightarrow> u64 \<Rightarrow> 's \<Rightarrow> (int \<times> 's) res" where
  "flat v end a us = walk_loop PTBL (\<lambda>p _. v p) end a a us"

lemma flat_step: "flat v end a us = (if a < end then ok_then (v a us) (flat v end (next_addr PTBL end a)) else Inr (0, us))"
  unfolding flat_def by (subst walk_loop.simps) (simp add: Let_def flat_def)

lemma ok_then_assoc: "ok_then (ok_then m f) g = ok_then m (\<lambda>s. ok_then (f s) g)"
  by (cases m) (auto simp: ok_then_def)

lemma ok_then_skip: "ok_then (ok_then m (\<lambda>s. Inr (0, s))) g = ok_then m g"
  by (simp add: ok_then_assoc)

lemma page_room:
  fixes P E :: nat
  assumes "4096 dvd P" and "P < E" and "4096 dvd E \<or> 2 \<le> E mod 4096"
  shows "P + 2 \<le> E"
proof -
  obtain p where p: "P = 4096 * p" using assms(1) by (elim dvdE)
  show ?thesis
  proof (cases "4096 dvd E")
    case True
    then obtain e where "E = 4096 * e" by (elim dvdE)
    then show ?thesis using assms(2) p by simp
  next
    case False
    have "p \<le> E div 4096" using assms(2) p by (simp add: less_eq_div_iff_mult_less_eq)
    then have "4096 * p \<le> 4096 * (E div 4096)" by simp
    also have "\<dots> = E - E mod 4096" by (simp add: minus_mod_eq_mult_div)
    finally have "4096 * p \<le> E - E mod 4096" .
    then show ?thesis using assms(3) False p mod_less_eq_dividend [of E 4096] by linarith
  qed
qed

text \<open>Facts about one round: \<open>n\<close> is the end of the chunk of a level and \<open>q\<close> the end of the page.\<close>

lemma round_bounds:
  assumes "page_ok a" and "a < end" and "2 \<le> unat end mod 4096" and n: "n = next_addr l end a"
  shows "unat (n - 1) = unat n - 1" and "a < n - 1" and "unat n \<le> boundary l (unat a)" and "n \<le> end"
    and "n = end \<or> page_ok n \<and> unat n = boundary l (unat a) \<and> n < end" and "0 < unat n"
proof -
  have N: "unat n = min (boundary l (unat a)) (unat end)" using unat_next [OF assms(1)] n by simp
  have P: "4096 dvd unat a" using assms(1) by (auto simp: page_ok_def)
  have "4096 dvd boundary l (unat a)" using level_size_dvd(1) [of l] by (auto simp: boundary_def Let_def)
  with boundary_gt P have "unat a + 2 \<le> boundary l (unat a)" by (intro page_room) auto
  moreover have "unat a + 2 \<le> unat end" by (rule page_room) (use assms(2,3) P in \<open>auto simp: word_less_nat_alt\<close>)
  ultimately have ge: "unat a + 2 \<le> unat n" by (simp add: N)
  then have "1 \<le> n" by (simp add: word_le_nat_alt)
  from unat_sub [OF this] show d: "unat (n - 1) = unat n - 1" by simp
  show "0 < unat n" using ge by simp
  from d ge show "a < n - 1" by (simp add: word_less_nat_alt)
  show "unat n \<le> boundary l (unat a)" "n \<le> end" using N by (simp_all add: word_le_nat_alt)
  show "n = end \<or> page_ok n \<and> unat n = boundary l (unat a) \<and> n < end"
    using N boundary_page_ok [OF assms(1), of n l] by (auto simp: min_def word_less_nat_alt word_unat_eq_iff split: if_splits)
qed

lemma flat_split:
  assumes "page_ok a" and "a < end" and "2 \<le> unat end mod 4096"
  shows "flat v end a us = ok_then (flat v (next_addr l end a - 1) a us) (flat v end (next_addr l end a))"
  using assms
proof (induction "unat end - unat a" arbitrary: a us rule: less_induct)
  case less
  let ?n = "next_addr l end a" and ?q = "next_addr PTBL end a"
  note b = round_bounds [OF less.prems refl, of l] and c = round_bounds [OF less.prems refl, of PTBL]
  have N: "unat ?n = min (boundary l (unat a)) (unat end)" and Q: "unat ?q = min (boundary PTBL (unat a)) (unat end)"
    using unat_next [OF less.prems(1)] by simp_all
  have q1: "unat (next_addr PTBL (?n - 1) a) = min (boundary PTBL (unat a)) (unat ?n - 1)"
    using unat_next [OF less.prems(1), of PTBL "?n - 1"] b(1) by simp
  show ?case
  proof (cases "?q = ?n")
    case True
    then have "unat ?n \<le> boundary PTBL (unat a)" using Q by simp
    then have "next_addr PTBL (?n - 1) a = ?n - 1" using q1 b(1) by (simp add: word_unat_eq_iff)
    then have "flat v (?n - 1) a us = ok_then (v a us) (\<lambda>s. Inr (0, s))"
      using b(2) by (subst flat_step) (simp add: flat_step [of v "?n - 1" "?n - 1"] cong: ok_then_cong)
    then show ?thesis using less.prems(2) True by (subst flat_step) (simp add: ok_then_skip)
  next
    case False
    have P: "unat a mod 4096 = 0" using less.prems(1) by (simp add: page_ok_def)
    from chunk_step [OF this, of l] False N Q
    have s: "boundary PTBL (unat a) = unat a + 4096" "boundary PTBL (unat a) < boundary l (unat a)" "boundary l (unat a + 4096) = boundary l (unat a)"
      by (auto simp: word_unat_eq_iff)
    have lt: "?q < end" using c(5) False N Q s(2) by (auto simp: word_unat_eq_iff)
    then have q: "page_ok ?q" "unat ?q = unat a + 4096" using c(5) s(1) by auto
    have "next_addr l end ?q = ?n" using unat_next [OF q(1), of l "end"] q(2) s(3) N by (simp add: word_unat_eq_iff)
    moreover have "unat end - unat ?q < unat end - unat a" using q(2) lt by (simp add: word_less_nat_alt)
    ultimately have IH: "flat v end ?q us' = ok_then (flat v (?n - 1) ?q us') (flat v end ?n)" for us'
      using less.hyps [of ?q us'] q(1) lt less.prems(3) by simp
    have "unat ?q < unat ?n" using q(2) lt s N by (simp add: word_less_nat_alt)
    then have "next_addr PTBL (?n - 1) a = ?q" using q1 q(2) s(1) by (simp add: word_unat_eq_iff)
    then have "flat v (?n - 1) a us = ok_then (v a us) (flat v (?n - 1) ?q)" using b(2) by (subst flat_step) simp
    moreover have "flat v end ?q = (\<lambda>us'. ok_then (flat v (?n - 1) ?q us') (flat v end ?n))" by (rule ext) (rule IH)
    ultimately show ?thesis using less.prems(2) by (subst flat_step) (simp add: ok_then_assoc)
  qed
qed

lemma mod_diff_1:
  fixes x m :: nat
  assumes "0 < x mod m"
  shows "(x - 1) mod m = x mod m - 1"
  using assms by (cases x) (auto simp: mod_Suc split: if_splits)

lemma mod_dvd_diff_1:
  fixes x m j :: nat
  assumes "m dvd x" and "0 < x" and "j < m"
  shows "j \<le> (x - 1) mod m"
  using assms by (cases x) (auto simp: dvd_eq_mod_eq_0 mod_Suc split: if_splits)

text \<open>An invariant of the visits is one of the loop, and visits that agree under it give the same loop.\<close>

lemma flat_keeps:
  assumes keep: "\<And>p us r us'. page_ok p \<Longrightarrow> a0 \<le> p \<Longrightarrow> p < end \<Longrightarrow> I us \<Longrightarrow> v p us = Inr (r, us') \<Longrightarrow> I us'"
    and "page_ok a" and "2 \<le> unat end mod 4096" and "I us" and "flat v end a us = Inr (r, us')" and "a0 \<le> a"
  shows "I us'"
  using assms(2-6)
proof (induction "unat end - unat a" arbitrary: a us rule: less_induct)
  case less
  show ?case
  proof (cases "a < end")
    case False
    then show ?thesis using less.prems by (subst (asm) flat_step) simp
  next
    case True
    let ?q = "next_addr PTBL end a"
    note c = round_bounds [OF less.prems(1) True less.prems(2) refl, of PTBL]
    from less.prems(4) True obtain r1 us1 where v: "v a us = Inr (r1, us1)" and
      t: "r1 < 0 \<and> us1 = us' \<or> \<not> r1 < 0 \<and> flat v end ?q us1 = Inr (r, us')"
      by (subst (asm) flat_step) (auto simp: ok_then_def rbind_eq_Inr split: if_splits)
    have I: "I us1" by (rule keep [OF less.prems(1,5) True less.prems(3) v])
    show ?thesis
    proof (cases "r1 < 0")
      case True
      then show ?thesis using t I by simp
    next
      case nonneg: False
      then have f: "flat v end ?q us1 = Inr (r, us')" using t by simp
      show ?thesis
      proof (cases "?q = end")
        case True
        then show ?thesis using f I by (simp add: flat_step [of v "end" "end"])
      next
        case nq: False
        then have q: "page_ok ?q" "?q < end" "unat ?q = boundary PTBL (unat a)" using c(5) by auto
        then have "unat end - unat ?q < unat end - unat a" "a0 \<le> ?q"
          using boundary_gt [of "unat a" PTBL] less.prems(5) by (auto simp: word_less_nat_alt word_le_nat_alt)
        from less.hyps [OF this(1) q(1) less.prems(2) I f this(2)] show ?thesis .
      qed
    qed
  qed
qed

lemma flat_cong_inv:
  assumes eq: "\<And>p us. page_ok p \<Longrightarrow> a0 \<le> p \<Longrightarrow> p < end \<Longrightarrow> I us \<Longrightarrow> v p us = v' p us"
    and keep: "\<And>p us r us'. page_ok p \<Longrightarrow> a0 \<le> p \<Longrightarrow> p < end \<Longrightarrow> I us \<Longrightarrow> v p us = Inr (r, us') \<Longrightarrow> I us'"
    and "page_ok a" and "a0 \<le> a" and "2 \<le> unat end mod 4096" and "I us"
  shows "flat v end a us = flat v' end a us"
  using assms(3-6)
proof (induction "unat end - unat a" arbitrary: a us rule: less_induct)
  case less
  show ?case
  proof (cases "a < end")
    case False
    then show ?thesis by (simp add: flat_step)
  next
    case True
    let ?q = "next_addr PTBL end a"
    note c = round_bounds [OF less.prems(1) True less.prems(3) refl, of PTBL]
    have e: "v a us = v' a us" by (rule eq [OF less.prems(1,2) True less.prems(4)])
    have "flat v end ?q us1 = flat v' end ?q us1" if "v' a us = Inr (r1, us1)" for r1 us1
    proof (cases "?q = end")
      case True
      then show ?thesis by (simp add: flat_step [of _ "end" "end"])
    next
      case False
      then have q: "page_ok ?q" "?q < end" "unat ?q = boundary PTBL (unat a)" using c(5) by auto
      have lt: "unat a < unat ?q" using q(3) boundary_gt [of "unat a" PTBL] by simp
      then have "unat end - unat ?q < unat end - unat a" "a0 \<le> ?q" using q(2) less.prems(2) by (auto simp: word_less_nat_alt word_le_nat_alt)
      moreover have "I us1" using keep [OF less.prems(1,2) True less.prems(4)] that e by simp
      ultimately show ?thesis using less.hyps [OF _ q(1) _ less.prems(3)] by blast
    qed
    then show ?thesis using True e by (simp add: flat_step [of _ "end" a] cong: ok_then_cong)
  qed
qed

text \<open>A level whose entries run the flat loop over their part of the range runs it over the whole range.\<close>

lemma level_flat:
  assumes body: "\<And>a fin us. page_ok a \<Longrightarrow> a0 \<le> a \<Longrightarrow> a < fin \<Longrightarrow> fin < end \<Longrightarrow> unat fin < boundary l (unat a) \<Longrightarrow> j \<le> unat fin mod 4096 \<Longrightarrow> I us \<Longrightarrow> body a fin us = flat v fin a us"
    and keep: "\<And>p us r us'. page_ok p \<Longrightarrow> a0 \<le> p \<Longrightarrow> p < end \<Longrightarrow> I us \<Longrightarrow> v p us = Inr (r, us') \<Longrightarrow> I us'"
    and j: "2 \<le> j" "j < unat end mod 4096" and "page_ok a" and "a0 \<le> a" and "I us"
  shows "walk_loop l body end a a us = flat v end a us"
  using assms(5-7)
proof (induction "unat end - unat a" arbitrary: a us rule: less_induct)
  case less
  have e2: "2 \<le> unat end mod 4096" using j by simp
  show ?case
  proof (cases "a < end")
    case False
    then show ?thesis by (subst walk_loop.simps) (simp add: flat_step)
  next
    case True
    let ?n = "next_addr l end a"
    note b = round_bounds [OF less.prems(1) True e2 refl, of l]
    have lt_end: "?n - 1 < end" using b(1,4,6) by (auto simp: word_less_nat_alt word_le_nat_alt)
    moreover have "unat (?n - 1) < boundary l (unat a)" using b(1,3,6) by simp
    moreover have m: "j \<le> unat (?n - 1) mod 4096"
    proof (cases "?n = end")
      case True
      have "(unat end - 1) mod 4096 = unat end mod 4096 - 1" using j by (intro mod_diff_1) simp
      then show ?thesis using True b(1) j by simp
    next
      case False
      then have "4096 dvd unat ?n" using b(5) by (auto simp: page_ok_def)
      moreover have "j < 4096" using j(2) by (rule less_trans) simp
      ultimately show ?thesis unfolding b(1) using b(6) by (intro mod_dvd_diff_1)
    qed
    ultimately have bd: "body a (?n - 1) us = flat v (?n - 1) a us"
      using body [OF less.prems(1,2) b(2)] less.prems(3) by blast
    have m2: "2 \<le> unat (?n - 1) mod 4096" using m j by simp
    have "walk_loop l body end ?n ?n us1 = flat v end ?n us1" if f: "flat v (?n - 1) a us = Inr (r1, us1)" for r1 us1
    proof (cases "?n = end")
      case True
      then show ?thesis by (simp add: flat_step [of _ "end" "end"] walk_loop.simps [of _ _ "end" "end"])
    next
      case False
      then have n: "page_ok ?n" "?n < end" "unat ?n = boundary l (unat a)" using b(5) by auto
      have lt: "unat a < unat ?n" using n(3) boundary_gt [of "unat a" l] by simp
      then have "unat end - unat ?n < unat end - unat a" "a0 \<le> ?n" using n(2) less.prems(2) by (auto simp: word_less_nat_alt word_le_nat_alt)
      moreover have "I us1" using flat_keeps [where I = I and v = v and ?a0.0 = a0, OF _ less.prems(1) m2 less.prems(3) f less.prems(2)] keep less_trans [OF _ lt_end] by blast
      ultimately show ?thesis using less.hyps [OF _ n(1)] by blast
    qed
    then show ?thesis using True bd
      by (subst walk_loop.simps, subst flat_split [OF less.prems(1) True e2, of _ _ l]) (simp add: Let_def cong: ok_then_cong)
  qed
qed

lemma walk_loop_ret: "ok_then (walk_loop l body end next a s) (\<lambda>s. Inr (0, s)) = walk_loop l body end next a s"
proof (induction l body "end" "next" a s rule: walk_loop.induct)
  case (1 l body "end" "next" a s)
  show ?case
  proof (cases "next < end")
    case True
    let ?n = "next_addr l end a"
    have "ok_then (body a (?n - 1) s) (\<lambda>s. ok_then (walk_loop l body end ?n ?n s) (\<lambda>s. Inr (0, s))) =
        ok_then (body a (?n - 1) s) (\<lambda>s. walk_loop l body end ?n ?n s)"
      by (rule ok_then_cong [OF refl]) (rule 1 [OF True refl])
    then show ?thesis using True by (simp add: walk_loop.simps [of l body "end" "next" a s] Let_def ok_then_assoc)
  next
    case False
    then show ?thesis by (simp add: walk_loop.simps [of l body "end" "next" a s])
  qed
qed

lemma walk_loop_skip: "body = (\<lambda>_ _ us. Inr (0, us)) \<Longrightarrow> walk_loop l body end next a s = Inr (0, s)"
proof (induction l body "end" "next" a s rule: walk_loop.induct)
  case (1 l body "end" "next" a s)
  then show ?case by (subst walk_loop.simps) (simp add: Let_def)
qed

lemma flat_skip: "flat (\<lambda>_ us. Inr (0, us)) end a us = Inr (0, us)"
  unfolding flat_def by (rule walk_loop_skip) simp

section \<open>Walkers that work on pages\<close>

text \<open>
  \<open>visit w d t p\<close> is what a walker does for the page \<open>p\<close> below a table \<open>t\<close> that has \<open>d\<close> levels of tables
  below it: it follows the entries like the hardware and calls the callback on the entry of the page.
\<close>

fun visit :: "('u, 'z) page_walker \<Rightarrow> nat \<Rightarrow> nat \<Rightarrow> u64 \<Rightarrow> ('u, 'z) walk_state \<Rightarrow> (int \<times> ('u, 'z) walk_state) res" where
  "visit w 0 t p us = ret0 (call_pte (pte_callback w) (t, ix 3 p) p 0 us)"
| "visit w (Suc d) t p us = (case link (snd us) t (2 - d) p of None \<Rightarrow> Inr (0, us) | Some u \<Rightarrow> visit w d u p us)"

text \<open>The upper tables of a page are frames of \<open>U\<close>, its lowest table is not.\<close>

fun upper_in :: "nat set \<Rightarrow> 'z kvm_scheme \<Rightarrow> nat \<Rightarrow> nat \<Rightarrow> u64 \<Rightarrow> bool" where
  "upper_in U s 0 t p \<longleftrightarrow> t \<notin> U"
| "upper_in U s (Suc d) t p \<longleftrightarrow> t \<in> U \<and> (\<forall>u. link s t (2 - d) p = Some u \<longrightarrow> u < npages s \<and> upper_in U s d u p)"

definition agree :: "nat set \<Rightarrow> 'z kvm_scheme \<Rightarrow> ('u, 'z) walk_state \<Rightarrow> bool" where
  "agree U s us \<longleftrightarrow> npages (snd us) = npages s \<and> (\<forall>t\<in>U. pmem (snd us) t = pmem s t)"

lemma agree_link: "agree U s us \<Longrightarrow> t \<in> U \<Longrightarrow> link (snd us) t k p = link s t k p"
  by (simp add: agree_def link_def rd_def)

fun level_of :: "nat \<Rightarrow> level" where
  "level_of 0 = PTBL"
| "level_of (Suc 0) = PDIR"
| "level_of (Suc (Suc 0)) = PDPT"
| "level_of d = PML4"

lemma level_of_num [simp]: "level_of 1 = PDIR" "level_of 2 = PDPT" "level_of 3 = PML4"
  by (simp_all add: numeral_2_eq_2 numeral_3_eq_3)

lemma same_index:
  assumes "unat p div level_size (level_of d) = unat a div level_size (level_of d)" and "d < 4"
  shows "ix (3 - d) p = ix (3 - d) a"
proof -
  have *: "drop_bit n p = drop_bit n a" if "unat p div 2 ^ n = unat a div 2 ^ n" for n
  proof -
    have "unat (drop_bit n x) = unat x div 2 ^ n" for x :: u64 unfolding unat_drop_bit_eq by (rule drop_bit_eq_div)
    then show ?thesis using that by (simp only: word_unat_eq_iff)
  qed
  consider "d = 0" | "d = 1" | "d = 2" | "d = 3" using assms(2) by linarith
  then show ?thesis
  proof cases
    case 1 then show ?thesis using assms(1) * [of 12] by (simp add: PAGE_TABLE_INDEX_def) 
  next
    case 2 then show ?thesis using assms(1) * [of 21] by (simp add: PAGE_DIR_INDEX_def)
  next
    case 3 then show ?thesis using assms(1) * [of 30] by (simp add: PDPT_INDEX_def)
  next
    case 4 then show ?thesis using assms(1) * [of 39] by (simp add: PML4_INDEX_def)
  qed
qed

text \<open>The pages of a chunk lie below the same entry.\<close>

lemma same_chunk:
  assumes "page_ok a" and "page_ok p" and "a \<le> p" and "p < fin" and "unat fin < boundary l (unat a)"
  shows "unat p div level_size l = unat a div level_size l"
proof -
  let ?S = "level_size l"
  define T where "T = ?S * (unat a div ?S) + ?S"
  have "unat p < boundary l (unat a)" "unat a \<le> unat p" using assms(3-5) by (auto simp: word_less_nat_alt word_le_nat_alt)
  moreover have "boundary l (unat a) = (if T = 2 ^ 47 then 2 ^ 64 - 2 ^ 47 else T)" by (simp add: boundary_def T_def)
  ultimately have "unat p < T" using assms(2) by (auto simp: page_ok_def split: if_splits)
  then have "unat p div ?S < Suc (unat a div ?S)"
    using level_size_dvd(4) [of l] by (simp add: T_def div_less_iff_less_mult algebra_simps)
  moreover have "unat a div ?S \<le> unat p div ?S" using \<open>unat a \<le> unat p\<close> by (rule div_le_mono)
  ultimately show ?thesis by simp
qed

text \<open>
  A walker that acts on the entries of pages only: its other callbacks do nothing, and its callback leaves the upper tables alone and
  does not look at the end of the page.
\<close>

locale page_visitor =
  fixes w :: "('u, 'z) page_walker" and s0 :: "'z kvm_scheme" and U :: "nat set"
  assumes upper: "call_pte (pde_callback w) e a f us = Inr (0, us)" "call_pte (pdpte_callback w) e a f us = Inr (0, us)"
      "call_pte (pml4e_callback w) e a f us = Inr (0, us)"
    and unmap: "call_pte (pte_unmap w) e a f us = Inr (0, us)" "call_pte (pde_unmap w) e a f us = Inr (0, us)"
      "call_pte (pdpte_unmap w) e a f us = Inr (0, us)" "call_pte (pml4e_unmap w) e a f us = Inr (0, us)"
    and hole: "call_hole (pt_hole_callback w) a f us = Inr (0, us)"
    and fin: "call_pte (pte_callback w) e a f us = call_pte (pte_callback w) e a 0 us"
    and keeps: "fst e \<notin> U \<Longrightarrow> agree U s0 us \<Longrightarrow> call_pte (pte_callback w) e a f us = Inr (r, us') \<Longrightarrow> agree U s0 us'"
begin

lemma visit_keeps: "upper_in U s0 d t p \<Longrightarrow> agree U s0 us \<Longrightarrow> visit w d t p us = Inr (r, us') \<Longrightarrow> agree U s0 us'"
proof (induction d arbitrary: t)
  case 0
  then show ?case using keeps [of "(t, ix 3 p)" us p 0] by (auto simp: ret0_def ok_then_def rbind_eq_Inr split: if_splits)
next
  case (Suc d)
  then show ?case by (auto simp: agree_link split: option.splits)
qed

lemma ptbl_flat: "page_ok a \<Longrightarrow> ptbl_walk_range t a end w us = flat (visit w 0 t) end a us"
proof -
  assume "page_ok a"
  moreover have "ptbl_body w t p f us = visit w 0 t p us" for p f us
    using fin [of "(t, ix 3 p)" p f us] by (simp add: ptbl_body_def Let_def unmap hole ret0_def if_distrib cong: if_cong)
  then have "ptbl_body w t = (\<lambda>p _. visit w 0 t p)" by (simp add: fun_eq_iff)
  ultimately show ?thesis by (simp add: ptbl_walk_range_def flat_def page_ok_canonical)
qed

lemma level_step:
  assumes body: "\<And>a fin us. agree U s0 us \<Longrightarrow> upper_in U s0 (Suc d) t a \<Longrightarrow>
      body a fin us = (case link s0 t (2 - d) a of None \<Rightarrow> Inr (0, us) | Some u \<Rightarrow> ok_then (below u a fin us) (\<lambda>s. Inr (0, s)))"
    and below: "\<And>u a fin us. page_ok a \<Longrightarrow> j \<le> unat fin mod 4096 \<Longrightarrow> agree U s0 us \<Longrightarrow>
      (\<And>p. page_ok p \<Longrightarrow> a \<le> p \<Longrightarrow> p < fin \<Longrightarrow> upper_in U s0 d u p) \<Longrightarrow> below u a fin us = flat (visit w d u) fin a us"
    and upper_in: "\<And>p. page_ok p \<Longrightarrow> a \<le> p \<Longrightarrow> p < end \<Longrightarrow> upper_in U s0 (Suc d) t p"
    and j: "2 \<le> j" "j < unat end mod 4096" and d: "d < 3" and a: "page_ok a" and us: "agree U s0 us"
  shows "walk_loop (level_of (Suc d)) body end a a us = flat (visit w (Suc d) t) end a us"
proof (rule level_flat [where I = "agree U s0" and a0 = a, OF _ _ j a _ us])
  fix b fin and us :: "('u, 'z) walk_state"
  assume b: "page_ok b" "a \<le> b" "b < fin" "fin < end" "unat fin < boundary (level_of (Suc d)) (unat b)" "j \<le> unat fin mod 4096" "agree U s0 us"
  have sh: "upper_in U s0 (Suc d) t p" if "page_ok p" "b \<le> p" "p < fin" for p using upper_in [of p] that b(2,4) by auto
  have tU: "t \<in> U" using sh [OF b(1)] b(3) by simp
  have same: "link s0 t (2 - d) p = link s0 t (2 - d) b" if "page_ok p" "b \<le> p" "p < fin" for p
    using same_index [OF same_chunk [OF b(1) that b(5)]] d by (simp add: link_def)
  have m: "2 \<le> unat fin mod 4096" using b(6) j(1) by simp
  have keep: "agree U s0 us'" if "page_ok p" "b \<le> p" "p < fin" "agree U s0 us" "visit w (Suc d) t p us = Inr (r, us')" for p us r us'
    using visit_keeps [OF sh [OF that(1-3)] that(4,5)] .
  have eq: "visit w (Suc d) t p us = (case link s0 t (2 - d) b of None \<Rightarrow> Inr (0, us) | Some u \<Rightarrow> visit w d u p us)"
    if "page_ok p" "b \<le> p" "p < fin" "agree U s0 us" for p us
    using same [OF that(1-3)] agree_link [OF that(4) tU, of "2 - d" p] by simp
  show "body b fin us = flat (visit w (Suc d) t) fin b us"
  proof (cases "link s0 t (2 - d) b")
    case None
    have "flat (visit w (Suc d) t) fin b us = flat (\<lambda>_ us. Inr (0, us)) fin b us"
      by (rule flat_cong_inv [where I = "agree U s0" and a0 = b, OF _ keep b(1) _ m b(7)]) (use eq None in auto)
    then show ?thesis using body [OF b(7) sh [OF b(1)]] b(3) None by (simp add: flat_skip)
  next
    case (Some u)
    have "flat (visit w (Suc d) t) fin b us = flat (visit w d u) fin b us"
      by (rule flat_cong_inv [where I = "agree U s0" and a0 = b, OF _ keep b(1) _ m b(7)]) (use eq Some in auto)
    moreover have "upper_in U s0 d u p" if "page_ok p" "b \<le> p" "p < fin" for p using sh [OF that] same [OF that] Some by simp
    from below [OF b(1,6,7) this] have "below u b fin us = flat (visit w d u) fin b us" .
    ultimately show ?thesis using body [OF b(7) sh [OF b(1)]] b(3) Some by (simp add: flat_def walk_loop_ret)
  qed
next
  fix p r and us us' :: "('u, 'z) walk_state"
  assume "page_ok p" "a \<le> p" "p < end" "agree U s0 us" "visit w (Suc d) t p us = Inr (r, us')"
  then show "agree U s0 us'" using visit_keeps upper_in by blast
qed simp_all

lemma table_body:
  assumes "agree U s0 us" and "upper_in U s0 (Suc d) t a"
  shows "d = 0 \<Longrightarrow> pdir_body w t a f us = (case link s0 t (2 - d) a of None \<Rightarrow> Inr (0, us) | Some u \<Rightarrow> ok_then (ptbl_walk_range u a f w us) (\<lambda>s. Inr (0, s)))"
    and "d = 1 \<Longrightarrow> pdpt_body w t a f us = (case link s0 t (2 - d) a of None \<Rightarrow> Inr (0, us) | Some u \<Rightarrow> ok_then (pdir_walk_range u a f w us) (\<lambda>s. Inr (0, s)))"
    and "d = 2 \<Longrightarrow> pml4_body w t a f us = (case link s0 t (2 - d) a of None \<Rightarrow> Inr (0, us) | Some u \<Rightarrow> ok_then (pdpt_walk_range u a f w us) (\<lambda>s. Inr (0, s)))"
proof -
  have r: "rd (t, i) (snd us) = rd (t, i) s0" for i using assms by (simp add: agree_def rd_def)
  have n: "npages (snd us) = npages s0" using assms by (simp add: agree_def)
  have un: "call_pte (pde_unmap w) e a f = (\<lambda>us. Inr (0, us))" "call_pte (pdpte_unmap w) e a f = (\<lambda>us. Inr (0, us))"
      "call_pte (pml4e_unmap w) e a f = (\<lambda>us. Inr (0, us))" for e by (simp_all add: fun_eq_iff unmap)
  have l: "u < npages s0" if "link s0 t (2 - d) a = Some u" for u using assms(2) that by simp
  show "d = 0 \<Longrightarrow> pdir_body w t a f us = (case link s0 t (2 - d) a of None \<Rightarrow> Inr (0, us) | Some u \<Rightarrow> ok_then (ptbl_walk_range u a f w us) (\<lambda>s. Inr (0, s)))"
    using l by (auto simp: pdir_body_def link_def Let_def upper un hole r n KADDR_def entry_frame_def split: if_splits)
  show "d = 1 \<Longrightarrow> pdpt_body w t a f us = (case link s0 t (2 - d) a of None \<Rightarrow> Inr (0, us) | Some u \<Rightarrow> ok_then (pdir_walk_range u a f w us) (\<lambda>s. Inr (0, s)))"
    using l by (auto simp: pdpt_body_def link_def Let_def upper un hole r n KADDR_def entry_frame_def split: if_splits)
  show "d = 2 \<Longrightarrow> pml4_body w t a f us = (case link s0 t (2 - d) a of None \<Rightarrow> Inr (0, us) | Some u \<Rightarrow> ok_then (pdpt_walk_range u a f w us) (\<lambda>s. Inr (0, s)))"
    using l by (auto simp: pml4_body_def link_def Let_def upper un hole r n KADDR_def entry_frame_def split: if_splits)
qed

lemma pdir_flat:
  assumes "page_ok a" and "2 < unat end mod 4096" and "agree U s0 us" and "\<And>p. page_ok p \<Longrightarrow> a \<le> p \<Longrightarrow> p < end \<Longrightarrow> upper_in U s0 1 t p"
  shows "pdir_walk_range t a end w us = flat (visit w 1 t) end a us"
proof -
  have n: "Suc 0 = 1" by simp
  have "walk_loop (level_of (Suc 0)) (pdir_body w t) end a a us = flat (visit w (Suc 0) t) end a us"
  proof (rule level_step [where j = 2 and below = "\<lambda>u a f us. ptbl_walk_range u a f w us"])
    show "pdir_body w t b f us = (case link s0 t (2 - 0) b of None \<Rightarrow> Inr (0, us) | Some u \<Rightarrow> ok_then (ptbl_walk_range u b f w us) (\<lambda>s. Inr (0, s)))"
      if "agree U s0 us" "upper_in U s0 (Suc 0) t b" for b f us using table_body(1) [OF that] by simp
    show "ptbl_walk_range u b f w us = flat (visit w 0 u) f b us" if "page_ok b" "2 \<le> unat f mod 4096" "agree U s0 us"
      "\<And>p. page_ok p \<Longrightarrow> b \<le> p \<Longrightarrow> p < f \<Longrightarrow> upper_in U s0 0 u p" for u b f us using ptbl_flat that by simp
    show "upper_in U s0 (Suc 0) t p" if "page_ok p" "a \<le> p" "p < end" for p unfolding n by (rule assms(4) [OF that])
  qed (use assms(1-3) in simp_all)
  then show ?thesis unfolding pdir_walk_range_def page_ok_canonical [OF assms(1)] n level_of_num .
qed

lemma pdpt_flat:
  assumes "page_ok a" and "3 < unat end mod 4096" and "agree U s0 us" and "\<And>p. page_ok p \<Longrightarrow> a \<le> p \<Longrightarrow> p < end \<Longrightarrow> upper_in U s0 2 t p"
  shows "pdpt_walk_range t a end w us = flat (visit w 2 t) end a us"
proof -
  have n: "Suc 1 = 2" by simp
  have "walk_loop (level_of (Suc 1)) (pdpt_body w t) end a a us = flat (visit w (Suc 1) t) end a us"
  proof (rule level_step [where j = 3 and below = "\<lambda>u a f us. pdir_walk_range u a f w us"])
    show "pdpt_body w t b f us = (case link s0 t (2 - 1) b of None \<Rightarrow> Inr (0, us) | Some u \<Rightarrow> ok_then (pdir_walk_range u b f w us) (\<lambda>s. Inr (0, s)))"
      if "agree U s0 us" "upper_in U s0 (Suc 1) t b" for b f us using table_body(2) [OF that] by simp
    show "pdir_walk_range u b f w us = flat (visit w 1 u) f b us" if "page_ok b" "3 \<le> unat f mod 4096" "agree U s0 us"
      "\<And>p. page_ok p \<Longrightarrow> b \<le> p \<Longrightarrow> p < f \<Longrightarrow> upper_in U s0 1 u p" for u b f us using pdir_flat that by simp
    show "upper_in U s0 (Suc 1) t p" if "page_ok p" "a \<le> p" "p < end" for p unfolding n by (rule assms(4) [OF that])
  qed (use assms(1-3) in simp_all)
  then show ?thesis unfolding pdpt_walk_range_def page_ok_canonical [OF assms(1)] n level_of_num .
qed

lemma pml4_flat:
  assumes "page_ok a" and "4 < unat end mod 4096" and "agree U s0 us" and "\<And>p. page_ok p \<Longrightarrow> a \<le> p \<Longrightarrow> p < end \<Longrightarrow> upper_in U s0 3 t p"
  shows "pml4_walk_range t a end w us = flat (visit w 3 t) end a us"
proof -
  have n: "Suc 2 = 3" by simp
  have "walk_loop (level_of (Suc 2)) (pml4_body w t) end a a us = flat (visit w (Suc 2) t) end a us"
  proof (rule level_step [where j = 4 and below = "\<lambda>u a f us. pdpt_walk_range u a f w us"])
    show "pml4_body w t b f us = (case link s0 t (2 - 2) b of None \<Rightarrow> Inr (0, us) | Some u \<Rightarrow> ok_then (pdpt_walk_range u b f w us) (\<lambda>s. Inr (0, s)))"
      if "agree U s0 us" "upper_in U s0 (Suc 2) t b" for b f us using table_body(3) [OF that] by simp
    show "pdpt_walk_range u b f w us = flat (visit w 2 u) f b us" if "page_ok b" "4 \<le> unat f mod 4096" "agree U s0 us"
      "\<And>p. page_ok p \<Longrightarrow> b \<le> p \<Longrightarrow> p < f \<Longrightarrow> upper_in U s0 2 u p" for u b f us using pdpt_flat that by simp
    show "upper_in U s0 (Suc 2) t p" if "page_ok p" "a \<le> p" "p < end" for p unfolding n by (rule assms(4) [OF that])
  qed (use assms(1-3) in simp_all)
  then show ?thesis unfolding pml4_walk_range_def page_ok_canonical [OF assms(1)] n level_of_num .
qed

end

section \<open>Induction over the pages of a range\<close>

definition pages_in :: "u64 \<Rightarrow> u64 \<Rightarrow> u64 set" where
  "pages_in a b = {p. page_ok p \<and> a \<le> p \<and> p < b}"

lemma pages_in_next:
  assumes "page_ok p" and "a \<le> p" and "p < end"
  shows "pages_in a (next_addr PTBL end p) = insert p (pages_in a p)"
proof -
  have N: "unat (next_addr PTBL end p) = min (boundary PTBL (unat p)) (unat end)" by (rule unat_next [OF assms(1)])
  have P: "unat p mod 4096 = 0" using assms(1) by (simp add: page_ok_def)
  have gt: "unat p < unat (next_addr PTBL end p)" using N boundary_gt [of "unat p" PTBL] assms(3) by (simp add: word_less_nat_alt)
  have "x = p" if x: "page_ok x" "p \<le> x" "x < next_addr PTBL end p" for x
  proof -
    have lt: "unat x < boundary PTBL (unat p)" using x(3) N by (simp add: word_less_nat_alt)
    have "unat x < unat p + 4096"
    proof (cases "unat p + 4096 = 2 ^ 47")
      case True
      then show ?thesis using lt x(1) P by (auto simp: boundary_def Let_def page_ok_def)
    next
      case False
      then show ?thesis using lt P by (auto simp: boundary_def Let_def)
    qed
    moreover have "unat p \<le> unat x" "unat x mod 4096 = 0" using x(1,2) by (auto simp: page_ok_def word_le_nat_alt)
    moreover obtain i j where "unat p = 4096 * i" "unat x = 4096 * j" using P \<open>unat x mod 4096 = 0\<close> by (auto simp: dvd_eq_mod_eq_0 [symmetric] elim!: dvdE)
    ultimately show ?thesis by (simp add: word_unat_eq_iff)
  qed
  moreover have "p < next_addr PTBL end p" using gt by (simp add: word_less_nat_alt)
  ultimately show ?thesis using assms(1,2) by (fastforce simp: pages_in_def)
qed

lemma flat_induct:
  assumes "page_ok a" and "2 \<le> unat end mod 4096" and "Q {} us"
    and step: "\<And>p us. page_ok p \<Longrightarrow> a \<le> p \<Longrightarrow> p < end \<Longrightarrow> Q (pages_in a p) us \<Longrightarrow>
      rok (v p us) (\<lambda>(r, us'). \<not> r < 0 \<and> Q (insert p (pages_in a p)) us')"
  shows "rok (flat v end a us) (\<lambda>(r, us'). r = 0 \<and> Q (pages_in a end) us')"
proof -
  have *: "rok (flat v end p us) (\<lambda>(r, us'). r = 0 \<and> Q (pages_in a end) us')" if "page_ok p" "a \<le> p" "p \<le> end" "Q (pages_in a p) us" for p us
    using that
  proof (induction "unat end - unat p" arbitrary: p us rule: less_induct)
    case less
    show ?case
    proof (cases "p < end")
      case False
      then have "p = end" using less.prems(3) by simp
      then show ?thesis using less.prems(4) by (simp add: flat_step)
    next
      case True
      let ?q = "next_addr PTBL end p"
      note c = round_bounds [OF less.prems(1) True assms(2) refl, of PTBL]
      note eq = pages_in_next [OF less.prems(1,2) True]
      have "rok (flat v end ?q us1) (\<lambda>(r, us'). r = 0 \<and> Q (pages_in a end) us')" if Q: "Q (insert p (pages_in a p)) us1" for us1
      proof (cases "?q = end")
        case True
        then show ?thesis using Q eq by (simp add: flat_step [of _ "end" "end"])
      next
        case False
        then have q: "page_ok ?q" "?q < end" "unat ?q = boundary PTBL (unat p)" using c(5) by auto
        have "unat p < unat ?q" using q(3) boundary_gt [of "unat p" PTBL] by simp
        then have "unat end - unat ?q < unat end - unat p" "a \<le> ?q" using q(2) less.prems(2) by (auto simp: word_less_nat_alt word_le_nat_alt)
        then show ?thesis using less.hyps [OF _ q(1), of us1] q(2) Q eq by simp
      qed
      with step [OF less.prems(1,2) True less.prems(4)] show ?thesis
        using True by (subst flat_step) (auto simp: rok_ok_then rok_iff)
    qed
  qed
  show ?thesis
  proof (cases "a \<le> end")
    case True
    have "pages_in a a = {}" by (auto simp: pages_in_def)
    then show ?thesis using * [of a us] True assms(1,3) by simp
  next
    case False
    then have "pages_in a end = {}" by (auto simp: pages_in_def)
    moreover have "\<not> a < end" using False by auto
    ultimately show ?thesis using assms(3) by (simp add: flat_step)
  qed
qed

context page_visitor
begin

lemma visit_leaf:
  assumes "upper_in U s0 3 t p" and "agree U s0 us"
  shows "visit w 3 t p us = (case leaf s0 t p of None \<Rightarrow> Inr (0, us) | Some e \<Rightarrow> ret0 (call_pte (pte_callback w) e p 0 us))"
    and "\<And>e. leaf s0 t p = Some e \<Longrightarrow> fst e \<notin> U"
  using assms by (auto simp: numeral_3_eq_3 leaf_def agree_link Option.bind_eq_Some_conv split: option.splits)

text \<open>
  The induction rule for a walk: an assertion about the set of pages that have been visited, kept by the callback on the entry of
  the next page, holds of all pages of the range in the end.
\<close>

lemma range_induct:
  assumes a: "page_ok a" and m: "4 < unat end mod 4096" and us: "agree U s0 us" and up: "\<And>p. p \<in> pages_in a end \<Longrightarrow> upper_in U s0 3 t p"
    and Q: "Q {} us"
    and step: "\<And>p us. p \<in> pages_in a end \<Longrightarrow> agree U s0 us \<Longrightarrow> Q (pages_in a p) us \<Longrightarrow>
      (case leaf s0 t p of None \<Rightarrow> Q (insert p (pages_in a p)) us
       | Some e \<Rightarrow> rok (call_pte (pte_callback w) e p 0 us) (\<lambda>(r, us'). \<not> r < 0 \<and> Q (insert p (pages_in a p)) us'))"
  shows "rok (pml4_walk_range t a end w us) (\<lambda>(r, us'). r = 0 \<and> agree U s0 us' \<and> Q (pages_in a end) us')"
proof -
  have f: "pml4_walk_range t a end w us = flat (visit w 3 t) end a us"
    by (rule pml4_flat [OF a m us]) (use up in \<open>auto simp: pages_in_def\<close>)
  have m2: "2 \<le> unat end mod 4096" using m by simp
  have "rok (flat (visit w 3 t) end a us) (\<lambda>(r, us'). r = 0 \<and> (agree U s0 us' \<and> Q (pages_in a end) us'))"
  proof (rule flat_induct [where Q = "\<lambda>A us. agree U s0 us \<and> Q A us", OF a m2])
    fix p us
    assume p: "page_ok p" "a \<le> p" "p < end" and I: "agree U s0 us \<and> Q (pages_in a p) us"
    then have in_p: "p \<in> pages_in a end" by (simp add: pages_in_def)
    note v = visit_leaf [OF up [OF in_p] conjunct1 [OF I]]
    show "rok (visit w 3 t p us) (\<lambda>(r, us'). \<not> r < 0 \<and> agree U s0 us' \<and> Q (insert p (pages_in a p)) us')"
    proof (cases "leaf s0 t p")
      case None
      then show ?thesis using step [OF in_p] I v(1) by simp
    next
      case (Some e)
      have "rok (call_pte (pte_callback w) e p 0 us) (\<lambda>(r, us'). \<not> r < 0 \<and> Q (insert p (pages_in a p)) us')" using step [OF in_p] I Some by simp
      moreover have "agree U s0 us'" if "call_pte (pte_callback w) e p 0 us = Inr (r, us')" for r us' using keeps [OF v(2) [OF Some]] I that by blast
      ultimately show ?thesis using v(1) Some by (auto simp: rok_iff ret0_def)
    qed
  qed (use us Q in simp)
  then show ?thesis by (simp add: f)
qed

end

end
