(* ===== verification/Trap.thy ===== *)
theory Trap
  imports Process
begin

text \<open>
  Entering the kernel: the system calls (kernel/sched/syscall.c, \<^verbatim>\<open>sys_mquery\<close> of kernel/vma/syscall.c and
  \<^verbatim>\<open>assert_user_mem\<close> of kernel/mem/user.c), the interrupt handlers (kernel/sched/idt.c) and the descriptor
  tables (idt.c, gdt.c, include/x86-64/idt.h, gdt.h).
\<close>

section \<open>What a handler reads from outside\<close>

text \<open>
  The time stamp counter (twice), the faulting address, the processor flags, a key of the console, the addresses of string
  literals, the strings in memory, and the values of uninitialised local variables.
\<close>

record kenv =
  env_tsc0 :: u64
  env_tsc1 :: u64
  env_cr2 :: u64
  env_rflags :: u64
  env_key :: int
  env_lit :: "string \<Rightarrow> nat"
  env_str :: "nat \<Rightarrow> u8 list"
  env_entry :: "pte option"
  env_flags :: u64

definition cur_ptr :: "'z ktask_scheme \<Rightarrow> nat" where
  "cur_ptr s = (case cur_task s of None \<Rightarrow> 0 | Some t \<Rightarrow> t)"

definition with_cur :: "'z ktask_scheme \<Rightarrow> (nat \<Rightarrow> 'a res) \<Rightarrow> 'a res" where
  "with_cur s f = (case cur_task s of None \<Rightarrow> Inl KUndef | Some t \<Rightarrow> f t)"

definition flow_of :: "('a \<times> 'z ktask_scheme) res \<Rightarrow> ('a, 'z) kflow" where
  "flow_of m = rbind m (\<lambda>(r, s). Inr (Returns r, s))"

section \<open>System calls\<close>

definition assert_user_mem :: "'z yield \<Rightarrow> nat \<Rightarrow> u64 \<Rightarrow> u64 \<Rightarrow> u64 \<Rightarrow> 'z ktask_scheme \<Rightarrow> (unit, 'z) kflow" where
  "assert_user_mem yield t va sz flags s =
     rbind (check_user_mem (task_pml4 s t) va sz (flags OR PAGE_USER) s) (\<lambda>(ret, _).
     if ret < 0 then task_destroy yield t s else resume s)"

definition le_bytes :: "nat \<Rightarrow> u64 \<Rightarrow> u8 list" where
  "le_bytes n w = map (\<lambda>i. ucast (drop_bit (8 * i) w)) [0..<n]"

text \<open>
  The bytes of \<^verbatim>\<open>struct vma_info\<close>; \<^verbatim>\<open>strncpy\<close> pads the name with zeros, and a gap has no name. The statements with which
  \<^verbatim>\<open>sys_mquery\<close> fills the structure are those of \<^verbatim>\<open>find_free_vma\<close>, on the user's memory instead of a local variable.
\<close>

definition info_bytes :: "(nat \<Rightarrow> u8 list) \<Rightarrow> vma_info \<Rightarrow> u8 list" where
  "info_bytes str i =
     (let name = (if vi_type i = VMA_FREE then [] else take 64 (str (vi_name i)))
      in name @ replicate (64 - length name) 0 @ le_bytes 8 (vi_base i) @ le_bytes 8 (vi_end i) @
         le_bytes 4 (ucast (vi_prot i)) @ le_bytes 4 (of_nat (vi_type i)) @ le_bytes 4 (of_nat (vi_mapped i)))"

definition sys_mquery :: "kenv \<Rightarrow> 'z yield \<Rightarrow> u64 \<Rightarrow> u64 \<Rightarrow> 'z ktask_scheme \<Rightarrow> (int, 'z) kflow" where
  "sys_mquery env yield info addr s =
     with_cur s (\<lambda>t.
     fbind (assert_user_mem yield t info 96 (PAGE_USER OR PAGE_WRITE) s) (\<lambda>_ s.
     rbind (find_free_vma (env_entry env) t addr s) (\<lambda>i.
     case i of None \<Rightarrow> Inr (Returns (- 1), s)
     | Some i \<Rightarrow> rbind (vmemset info 0 96 s) (\<lambda>s. rbind (vstores info (info_bytes (env_str env) i) s) (\<lambda>s. Inr (Returns 0, s))))))"

text \<open>The console is not modelled: \<^verbatim>\<open>sys_cputs\<close> checks the string, \<^verbatim>\<open>sys_cgetc\<close> returns the key that waits.\<close>

definition sys_cputs :: "'z yield \<Rightarrow> u64 \<Rightarrow> u64 \<Rightarrow> 'z ktask_scheme \<Rightarrow> (unit, 'z) kflow" where
  "sys_cputs yield str len s = with_cur s (\<lambda>t. assert_user_mem yield t str len 0 s)"

definition sys_getpid :: "'z ktask_scheme \<Rightarrow> int res" where
  "sys_getpid s = with_cur s (\<lambda>t. Inr (task_pid (tcb s t)))"

definition sys_kill :: "'z yield \<Rightarrow> int \<Rightarrow> 'z ktask_scheme \<Rightarrow> (int, 'z) kflow" where
  "sys_kill yield pid s =
     rbind (pid2task pid True s) (\<lambda>t.
     if t = 0 then Inr (Returns (- 1), s)
     else fbind (task_destroy yield t s) (\<lambda>_ s. Inr (Returns 0, s)))"

definition ENOSYS :: int where "ENOSYS = 7"

text \<open>The numbers of include/syscall.h, in the order of the enumeration.\<close>

datatype sysno = SYS_cputs | SYS_cgetc | SYS_getpid | SYS_kill | SYS_mquery | SYS_mmap | SYS_munmap | SYS_mprotect |
  SYS_madvise | SYS_yield | SYS_wait | SYS_waitpid | SYS_fork | SYS_getcpuid | NSYSCALLS

definition sysnos :: "sysno list" where
  "sysnos = [SYS_cputs, SYS_cgetc, SYS_getpid, SYS_kill, SYS_mquery, SYS_mmap, SYS_munmap, SYS_mprotect,
     SYS_madvise, SYS_yield, SYS_wait, SYS_waitpid, SYS_fork, SYS_getcpuid, NSYSCALLS]"

definition sysno_of :: "u64 \<Rightarrow> sysno option" where
  "sysno_of k = (if unat k < length sysnos then Some (sysnos ! unat k) else None)"

text \<open>A register as a \<^verbatim>\<open>pid_t\<close>, and the return value of a call as a register.\<close>

definition pid_arg :: "u64 \<Rightarrow> int" where
  "pid_arg a = sint (ucast a :: 32 word)"

definition ret_int :: "(int, 'z) kflow \<Rightarrow> (u64, 'z) kflow" where
  "ret_int m = fbind m (\<lambda>r s. Inr (Returns (of_int r), s))"

definition ret_void :: "(unit, 'z) kflow \<Rightarrow> (u64, 'z) kflow" where
  "ret_void m = fbind m (\<lambda>_ s. Inr (Returns 0, s))"

definition syscall :: "kenv \<Rightarrow> nat \<Rightarrow> u64 \<Rightarrow> u64 \<Rightarrow> u64 \<Rightarrow> u64 \<Rightarrow> u64 \<Rightarrow> 'z ktask_scheme \<Rightarrow> (u64, 'z) kflow" where
  "syscall env n syscallno a1 a2 a3 a4 s =
     (case sysno_of syscallno of
        None \<Rightarrow> Inr (Returns (of_int (- ENOSYS)), s)
      | Some k \<Rightarrow>
        (case k of
           SYS_cputs \<Rightarrow> ret_void (sys_cputs (sched_yield n) a1 a2 s)
         | SYS_cgetc \<Rightarrow> Inr (Returns (of_int (env_key env)), s)
         | SYS_getpid \<Rightarrow> rbind (sys_getpid s) (\<lambda>pid. Inr (Returns (of_int pid), s))
         | SYS_kill \<Rightarrow> ret_int (sys_kill (sched_yield n) (pid_arg a1) s)
         | SYS_mquery \<Rightarrow> ret_int (sys_mquery env (sched_yield n) a1 a2 s)
         | SYS_mmap \<Rightarrow> flow_of (with_cur s (\<lambda>t. sys_mmap (env_entry env) (env_lit env ''user'') t a1 a2 (ucast a3) (ucast a4) s))
         | SYS_munmap \<Rightarrow> rbind (with_cur s (\<lambda>t. sys_munmap (env_entry env) t a1 a2 s)) (\<lambda>s. Inr (Returns 0, s))
         | SYS_mprotect \<Rightarrow> ret_int (flow_of (with_cur s (\<lambda>t. sys_mprotect (env_entry env) t a1 a2 (ucast a3) s)))
         | SYS_madvise \<Rightarrow> ret_int (flow_of (with_cur s (\<lambda>t. sys_madvise (env_entry env) t a1 a2 (ucast a3) s)))
         | SYS_yield \<Rightarrow> ret_void (sched_yield n s)
         | SYS_wait \<Rightarrow> ret_int (sys_wait (sched_yield n) s)
         | SYS_waitpid \<Rightarrow> ret_int (sys_waitpid (sched_yield n) (pid_arg a1) s)
         | SYS_fork \<Rightarrow> ret_int (flow_of (sys_fork (env_flags env) s))
         | SYS_getcpuid \<Rightarrow> Inr (Returns (of_nat (this_cpu s)), s)
         | NSYSCALLS \<Rightarrow> Inr (Returns (of_int (- ENOSYS)), s)))"

definition set_rax :: "nat \<Rightarrow> u64 \<Rightarrow> 'z ktask_scheme \<Rightarrow> 'z ktask_scheme" where
  "set_rax t r = tcb_upd t (\<lambda>a. a\<lparr>task_frame := (task_frame a)\<lparr>f_rax := r\<rparr>\<rparr>)"

definition syscall_handler :: "kenv \<Rightarrow> nat \<Rightarrow> u64 \<Rightarrow> u64 \<Rightarrow> u64 \<Rightarrow> u64 \<Rightarrow> u64 \<Rightarrow> 'z ktask_scheme \<Rightarrow> (unit, 'z) kflow" where
  "syscall_handler env n syscallno a1 a2 a3 a4 s =
     (case cur_task s of None \<Rightarrow> Inl KPanic
      | Some t \<Rightarrow>
        fbind (syscall env n syscallno a1 a2 a3 a4 s) (\<lambda>r s.
        let s = set_rax t r s in task_run (sched_yield n) (cur_ptr s) s))"

section \<open>Interrupts\<close>

definition page_fault_handler :: "kenv \<Rightarrow> nat \<Rightarrow> int_frame \<Rightarrow> 'z ktask_scheme \<Rightarrow> (unit, 'z) kflow" where
  "page_fault_handler env n frame s =
     (if f_cs frame AND 3 \<noteq> 3 then Inl KPanic
      else
        let flags = VM_READ;
            flags = (if f_err_code frame AND 2 \<noteq> 0 then flags OR VM_WRITE else flags);
            flags = (if f_rip frame = env_cr2 env then flags OR VM_EXEC else flags)
        in with_cur s (\<lambda>t.
           rbind (task_page_fault_handler t (env_cr2 env) flags s) (\<lambda>(ret, s).
           if ret < 0 then task_destroy (sched_yield n) t s else resume s)))"

text \<open>\<open>home\<close> is the task whose saved frame is handled, \<open>None\<close> for a frame on the kernel stack.\<close>

definition int_dispatch :: "kenv \<Rightarrow> nat \<Rightarrow> nat option \<Rightarrow> int_frame \<Rightarrow> 'z ktask_scheme \<Rightarrow> (unit, 'z) kflow" where
  "int_dispatch env n home frame s =
     (if f_int_no frame = 14 then page_fault_handler env n frame s
      else if f_int_no frame = 3 then Inr (Halts, s)
      else if f_int_no frame = 128 then
        fbind (syscall env n (f_rdi frame) (f_rsi frame) (f_rdx frame) (f_rcx frame) (f_r8 frame) s) (\<lambda>r s.
        resume (case home of None \<Rightarrow> s | Some t \<Rightarrow> set_rax t r s))
      else if f_int_no frame = 32 then scheduler n (env_tsc0 env) (env_tsc1 env) s
      else if f_cs frame = GDT_KCODE then Inl KPanic
      else with_cur s (\<lambda>t. task_destroy (sched_yield n) t s))"

definition int_handler :: "kenv \<Rightarrow> nat \<Rightarrow> int_frame \<Rightarrow> 'z ktask_scheme \<Rightarrow> (unit, 'z) kflow" where
  "int_handler env n frame s =
     kassert (env_rflags env AND FLAGS_IF = 0)
     (rbind (if f_cs frame AND 3 = 3
             then (case cur_task s of None \<Rightarrow> Inl KPanic
                   | Some t \<Rightarrow> Inr (Some t, tcb_upd t (\<lambda>a. a\<lparr>task_frame := frame\<rparr>) s))
             else Inr (None, s)) (\<lambda>(home, s).
      fbind (int_dispatch env n home frame s) (\<lambda>_ s.
      task_run (sched_yield n) (cur_ptr s) s)))"

section \<open>Descriptor tables\<close>

record idt_entry =
  offset_lo :: u16
  idt_sel :: u16
  idt_flags :: u16
  offset_hi :: u64
  idt_always0 :: u16

definition IDT_PRIVL :: "u64 \<Rightarrow> u64" where "IDT_PRIVL x = push_bit 13 (x AND 3)"
definition IDT_PRESENT :: u64 where "IDT_PRESENT = 0x8000"
definition IDT_INT_GATE32 :: u64 where "IDT_INT_GATE32 = push_bit 8 (0xE AND 0xF)"

definition set_idt_entry :: "u64 \<Rightarrow> u64 \<Rightarrow> u64 \<Rightarrow> idt_entry \<Rightarrow> idt_entry" where
  "set_idt_entry offset flags sel e = e\<lparr>
     offset_lo := ucast (offset AND 0xFFFF), offset_hi := drop_bit 16 offset AND 0xFFFFFFFFFFFF,
     idt_flags := ucast flags, idt_sel := ucast sel\<rparr>"

text \<open>The vectors with a handler, in the order of the code; \<open>isr v\<close> is the address of the stub for vector \<open>v\<close>.\<close>

definition idt_vectors :: "nat list" where
  "idt_vectors = [0, 1, 2, 3, 4, 5, 6, 7, 8, 10, 11, 12, 13, 14, 16, 17, 18, 19, 30, 32, 128]"

definition idt_init :: "(nat \<Rightarrow> u64) \<Rightarrow> (nat \<Rightarrow> idt_entry) \<Rightarrow> nat \<Rightarrow> idt_entry" where
  "idt_init isr =
     (let flags = IDT_PRESENT OR IDT_PRIVL 0 OR IDT_INT_GATE32;
          flags_brk_and_sys = IDT_PRESENT OR IDT_PRIVL 3 OR IDT_INT_GATE32
      in fold (\<lambda>v entries. entries(v := set_idt_entry (isr v) (if v = 3 \<or> v = 128 then flags_brk_and_sys else flags) GDT_KCODE (entries v)))
           idt_vectors)"

record gdt_entry =
  limit_low :: u16
  base_low :: u16
  base_middle :: u8
  gdt_flags :: u16
  base_high :: u8

record tss_entry = gdt_entry +
  tss_base_high :: u32
  tss_always0 :: u32

definition GDT_LIMIT :: "u64 \<Rightarrow> u64" where "GDT_LIMIT x = push_bit 8 (x AND 0xF)"
definition GDT_PRIVL :: "u64 \<Rightarrow> u64" where "GDT_PRIVL x = push_bit 5 (x AND 3)"
definition GDT_KCODE_FLAGS :: u64 where "GDT_KCODE_FLAGS = 0x2 OR 0x8 OR 0x10 OR 0x80"
definition GDT_KDATA_FLAGS :: u64 where "GDT_KDATA_FLAGS = 0x2 OR 0x10 OR 0x80"
definition GDT_UCODE_FLAGS :: u64 where "GDT_UCODE_FLAGS = GDT_KCODE_FLAGS OR GDT_PRIVL 3"
definition GDT_UDATA_FLAGS :: u64 where "GDT_UDATA_FLAGS = GDT_KDATA_FLAGS OR GDT_PRIVL 3"
definition GDT_LONG_MODE :: u64 where "GDT_LONG_MODE = 0x2000"
definition GDT_TSS_FLAGS :: u64 where "GDT_TSS_FLAGS = 0x80 OR 9"
definition KSTACK_TOP :: u64 where "KSTACK_TOP = PIDMAP_BASE"
definition SIZEOF_TSS :: u64 where "SIZEOF_TSS = 104"

definition set_gdt_entry :: "u64 \<Rightarrow> u64 \<Rightarrow> u64 \<Rightarrow> 'a gdt_entry_scheme \<Rightarrow> 'a gdt_entry_scheme" where
  "set_gdt_entry base limit flags e = e\<lparr>
     base_low := ucast (base AND 0xFFFF), base_middle := ucast (drop_bit 16 base AND 0xFF), base_high := ucast (drop_bit 24 base AND 0xFF),
     limit_low := ucast (limit AND 0xFFFF), gdt_flags := ucast (flags OR GDT_LIMIT (drop_bit 16 limit))\<rparr>"

definition set_tss_entry :: "u64 \<Rightarrow> tss_entry \<Rightarrow> tss_entry" where
  "set_tss_entry tss e = (set_gdt_entry tss SIZEOF_TSS GDT_TSS_FLAGS e)\<lparr>tss_base_high := ucast (drop_bit 32 tss AND 0xFFFFFFFF)\<rparr>"

definition zero_gdt :: gdt_entry where
  "zero_gdt = \<lparr>limit_low = 0, base_low = 0, base_middle = 0, gdt_flags = 0, base_high = 0\<rparr>"

text \<open>The segments of \<^verbatim>\<open>gdt_entries\<close> by index.\<close>

definition gdt_entries :: "nat \<Rightarrow> gdt_entry" where
  "gdt_entries i =
     (if i = unat (drop_bit 3 GDT_KCODE) then zero_gdt\<lparr>gdt_flags := ucast (GDT_KCODE_FLAGS OR GDT_LONG_MODE)\<rparr>
      else if i = unat (drop_bit 3 GDT_KDATA) then zero_gdt\<lparr>gdt_flags := ucast GDT_KDATA_FLAGS\<rparr>
      else if i = unat (drop_bit 3 GDT_UCODE) then zero_gdt\<lparr>gdt_flags := ucast (GDT_UCODE_FLAGS OR GDT_LONG_MODE)\<rparr>
      else if i = unat (drop_bit 3 GDT_UDATA) then zero_gdt\<lparr>gdt_flags := ucast GDT_UDATA_FLAGS\<rparr>
      else zero_gdt)"

text \<open>The stack of the kernel in the task state segment (\<^verbatim>\<open>rsp[0]\<close>) and its descriptor; loading the registers is not modelled.\<close>

definition gdt_init :: "u64 \<Rightarrow> u64 \<times> tss_entry \<Rightarrow> u64 \<times> tss_entry" where
  "gdt_init cpu_tss = (\<lambda>(rsp0, e). (KSTACK_TOP, set_tss_entry cpu_tss e))"

definition gdt_init_mp :: "u64 \<Rightarrow> u64 \<times> tss_entry \<Rightarrow> u64 \<times> tss_entry" where
  "gdt_init_mp cpu_tss = (\<lambda>(rsp0, e). (rsp0, set_tss_entry cpu_tss e))"

end
