(* ===== verification/Page_Table_Props.thy ===== *)
theory Page_Table_Props
  imports Page_Table_Spec
begin

text \<open>
  The properties of the page tables over the lemmas of \<open>Page_Table_Spec\<close>, with a concrete address
  space on which they are applied.
\<close>

section \<open>Preservation of translations\<close>

definition path_allocated :: "'z kmem_scheme \<Rightarrow> nat \<Rightarrow> u64 \<Rightarrow> bool" where
  "path_allocated s pml4 va \<longleftrightarrow> pml4 \<notin> free_frames s \<and>
     (\<forall>t3. link s pml4 0 va = Some t3 \<longrightarrow> t3 \<notin> free_frames s \<and>
      (\<forall>t2. link s t3 1 va = Some t2 \<longrightarrow> t2 \<notin> free_frames s \<and>
       (\<forall>t1. link s t2 2 va = Some t1 \<longrightarrow> t1 \<notin> free_frames s)))"

lemma link_preserved:
  assumes keep: "\<And>x. fst x \<notin> free_frames s \<Longrightarrow> present (rd x s) \<Longrightarrow> rd x s' = rd x s"
    and "t \<notin> free_frames s" and "link s t k va = Some u"
  shows "link s' t k va = Some u"
proof -
  have "present (rd (t, ix k va) s)" using assms(3) by (simp add: link_def Let_def split: if_splits)
  with assms(2) have "rd (t, ix k va) s' = rd (t, ix k va) s" by (intro keep) simp_all
  then have "link s' t k va = link s t k va" by (rule link_same)
  with assms(3) show ?thesis by simp
qed

lemma translate_preserved:
  assumes path: "path_allocated s pml4 va"
    and keep: "\<And>x. fst x \<notin> free_frames s \<Longrightarrow> present (rd x s) \<Longrightarrow> rd x s' = rd x s"
    and t: "translate s pml4 va = Some q"
  shows "translate s' pml4 va = Some q"
proof -
  obtain t3 t2 t1 where l: "link s pml4 0 va = Some t3" "link s t3 1 va = Some t2" "link s t2 2 va = Some t1"
    and p: "present (rd (t1, ix 3 va) s)" and q: "q = entry_frame (rd (t1, ix 3 va) s)"
    using t by (auto simp: translate_def mapped_def leaf_def split: bind_splits if_splits)
  have f: "pml4 \<notin> free_frames s" "t3 \<notin> free_frames s" "t2 \<notin> free_frames s" "t1 \<notin> free_frames s"
    using path l unfolding path_allocated_def by auto
  have "link s' pml4 0 va = Some t3" "link s' t3 1 va = Some t2" "link s' t2 2 va = Some t1"
    by (rule link_preserved [OF keep]; use f l in blast)+
  moreover have "rd (t1, ix 3 va) s' = rd (t1, ix 3 va) s" by (rule keep) (use f p in simp_all)
  ultimately show ?thesis using p q by (simp add: translate_def mapped_def leaf_def)
qed

section \<open>One entry\<close>

text \<open>What the callbacks do to a single entry, on every branch.\<close>

lemma tlb_invalidate_fields [simp]:
  "pages (tlb_invalidate p va s) = pages s" "npages (tlb_invalidate p va s) = npages s" "lh (tlb_invalidate p va s) = lh s"
  "rd e (tlb_invalidate p va s) = rd e s" "pmem (tlb_invalidate p va s) = pmem s"
  "buddy_lock (tlb_invalidate p va s) = buddy_lock s" "this_cpu (tlb_invalidate p va s) = this_cpu s"
  by (simp_all add: tlb_invalidate_def rd_def)

lemma prot_flags_val: "PAGE_PRESENT OR PAGE_WRITE OR PAGE_USER OR PAGE_NO_EXEC = 0x8000000000000007"
  by (simp add: flag_defs)

section \<open>A concrete address space\<close>

text \<open>
  The machine of the allocator's example with cleared memory, an empty top-level table in frame
  600 that is in use, and the page 700 to map.
\<close>

definition demo_kvm :: kvm where
  "demo_kvm = kmem.extend (demo_kmem\<lparr>pmem := (\<lambda>_ _. 0)\<rparr>)
     \<lparr>cr3 = page2pa 600, tlb_log = [],
      swap_lock = \<lparr>locked = 0, lock_name = ''swap'', lock_cpu = None, lock_file = None, lock_line = 0\<rparr>,
      cur_task = None\<rparr>"

lemma demo_kvm_fields [simp]:
  "lh demo_kvm = lh demo_kmem" "pages demo_kvm = pages demo_kmem" "npages demo_kvm = 1024"
  "pmem demo_kvm = (\<lambda>_ _. 0)" "buddy_lock demo_kvm = buddy_lock demo_kmem" "rd e demo_kvm = 0"
  "cur_task demo_kvm = None" "cr3 demo_kvm = page2pa 600"
  by (simp_all add: demo_kvm_def kmem.extend_def demo_kmem_def rd_def)

lemma demo_kvm_frames: "free_frames demo_kvm = {..<512}"
  unfolding demo_frames [symmetric] by (rule free_frames_same) (simp_all add: demo_pages)

lemma demo_kvm_ok: "vm_ok demo_kvm"
proof -
  have "buddy_inv demo_kvm demo_links"
    by (rule vm_ok_change(1) [OF demo_inv]) (simp_all add: demo_pages)
  moreover have "swap_rings 1024 demo_links"
    by (simp add: swap_rings_def swap_known_def demo_links_def)
  ultimately show ?thesis by (auto simp: vm_ok_def)
qed

lemma demo_kvm_good: "good_from 3 demo_kvm va [600]"
  by (simp add: numeral_3_eq_3 visited_ok_def demo_kvm_frames present_def)

lemma demo_kvm_room: "3 \<le> card (free_frames demo_kvm)" "lock_free (swap_lock demo_kvm)"
  by (simp_all add: demo_kvm_frames lock_free_def) (simp add: demo_kvm_def kmem.extend_def)

section \<open>Properties of the page tables\<close>



text \<open>
  C3: \<^verbatim>\<open>page_insert\<close> at a free virtual page succeeds whenever three frames are free for missing tables:
  it allocates the tables that are missing, writes the page with the given flags and the present bit
  into the last-level entry, raises the page's reference count by one, and changes no present entry of
  any allocated table and no other reference count; a user page also gets the reverse map of its area.
\<close>

theorem page_insert_maps:
  assumes "page_aligned va" and "canonical va" and "vm_ok s" and "good_from 3 s va [pml4]"
    and "3 \<le> card (free_frames s)" and "p < npages s" and "p \<notin> free_frames s" and "lock_free (swap_lock s)"
    and "flags AND PAGE_USER \<noteq> 0 \<longrightarrow> cur_task s \<noteq> None \<and> va < USER_LIM \<and>
      (\<exists>r. \<forall>t. kmem.more t = kmem.more s \<longrightarrow> fv t va = Some r)"
  shows "rok (page_insert fv pml4 p va flags s) (\<lambda>(ret, s'). ret = 0 \<and> vm_ok s' \<and>
      (\<exists>e. mapped s' pml4 va = Some e \<and> rd e s' = page2pa p OR flags OR PAGE_PRESENT) \<and>
      pp_ref (pages s' p) = pp_ref (pages s p) + 1 \<and>
      (\<forall>i. i \<notin> free_frames s \<longrightarrow> i \<noteq> p \<longrightarrow> pp_ref (pages s' i) = pp_ref (pages s i)) \<and>
      (\<forall>x. fst x \<notin> free_frames s \<longrightarrow> present (rd x s) \<longrightarrow> rd x s' = rd x s) \<and>
      free_frames s' \<subseteq> free_frames s \<and> card (free_frames s) \<le> 3 + card (free_frames s'))"
  by (rule rok_mono [OF page_insert_spec [OF assms(1-8)]]) (use assms(9) in \<open>auto simp: map_post_def\<close>)

theorem page_insert_maps_witness:
  "rok (page_insert (\<lambda>_ _. None) 600 700 0x400000 PAGE_WRITE demo_kvm) (\<lambda>(ret, s'). ret = 0 \<and>
     pp_ref (pages s' 700) = 1 \<and> (\<exists>e. mapped s' 600 0x400000 = Some e \<and> rd e s' = 0x2BC003))"
  by (rule rok_mono [OF page_insert_maps [OF _ _ demo_kvm_ok demo_kvm_good demo_kvm_room(1) _ _ demo_kvm_room(2)]])
    (auto simp: page_aligned_def canonical_def sign_extend_def flag_defs demo_kvm_frames demo_pages page2pa_def)

text \<open>
  Inserting a page and looking its address up returns the page; every address that was mapped through
  allocated tables before is translated to the same frame afterwards.
\<close>

theorem page_insert_lookup:
  assumes "page_aligned va" and "canonical va" and "vm_ok s" and "good_from 3 s va [pml4]"
    and "3 \<le> card (free_frames s)" and "p < npages s" and "p \<notin> free_frames s" and "lock_free (swap_lock s)"
    and "PAGE_ADDR flags = 0" and "flags AND PAGE_USER = 0"
  shows "rok (page_insert fv pml4 p va flags s) (\<lambda>(ret, s'). translate s' pml4 va = Some p \<and>
      (\<forall>va' q. path_allocated s pml4 va' \<longrightarrow> translate s pml4 va' = Some q \<longrightarrow> translate s' pml4 va' = Some q))"
proof (rule rok_mono [OF page_insert_spec [OF assms(1-8)]])
  show "cur_task s \<noteq> None \<and> va < USER_LIM \<and> (\<exists>r. \<forall>t. kmem.more t = kmem.more s \<longrightarrow> fv t va = Some r)"
    if "flags AND PAGE_USER \<noteq> 0" using assms(10) that by simp
  fix rs :: "int \<times> 'a kvm_scheme"
  assume "case rs of (ret, s') \<Rightarrow> ret = 0 \<and> map_post s pml4 va p flags s'"
  then obtain ret s' where rs: "rs = (ret, s')" and post: "map_post s pml4 va p flags s'" by auto
  then obtain e where e: "mapped s' pml4 va = Some e" "rd e s' = page2pa p OR (flags OR PAGE_PRESENT)"
    by (auto simp: map_post_def or.assoc)
  have "p < 2 ^ 36" using assms(3,6) by (auto simp: vm_ok_def)
  moreover have "PAGE_ADDR (flags OR PAGE_PRESENT) = 0"
    using assms(9) by (simp add: PAGE_ADDR_or) (simp add: PAGE_ADDR_def flag_defs)
  ultimately have "entry_frame (rd e s') = p" by (simp add: e(2) entry_frame_def entry_addr page2pa_addr)
  then have "translate s' pml4 va = Some p" by (simp add: translate_def e(1))
  moreover have "translate s' pml4 va' = Some q"
    if "path_allocated s pml4 va'" "translate s pml4 va' = Some q" for va' q
    by (rule translate_preserved [OF that(1) _ that(2)]) (use post in \<open>auto simp: map_post_def\<close>)
  ultimately show "case rs of (ret, s') \<Rightarrow> translate s' pml4 va = Some p \<and>
      (\<forall>va' q. path_allocated s pml4 va' \<longrightarrow> translate s pml4 va' = Some q \<longrightarrow> translate s' pml4 va' = Some q)"
    by (simp add: rs)
qed

theorem page_insert_lookup_witness:
  "rok (page_insert (\<lambda>_ _. None) 600 700 0x400000 PAGE_WRITE demo_kvm) (\<lambda>(ret, s'). translate s' 600 0x400000 = Some 700)"
  by (rule rok_mono [OF page_insert_lookup [OF _ _ demo_kvm_ok demo_kvm_good demo_kvm_room(1) _ _ demo_kvm_room(2)]])
    (auto simp: page_aligned_def canonical_def sign_extend_def flag_defs demo_kvm_frames PAGE_ADDR_def)

text \<open>
  \<^verbatim>\<open>protect_pte\<close> sets exactly the requested permission bits, keeps the frame address and the other bits,
  and invalidates the TLB entry only when something changes; but it also sets the present bit of an entry
  that was not present, so that an unmapped (zero) entry becomes a mapping of frame 0.
\<close>

theorem protect_pte_effect:
  "protect_pte e base fin (info, s) =
     Inr (0, info,
       if rd e s AND 0x8000000000000007 = prot_flags info then s
       else tlb_invalidate (prot_pml4 info) base
         (wr e (rd e s AND NOT 0x8000000000000007 OR prot_flags info OR PAGE_PRESENT) s)) \<and>
   (rd e s = 0 \<and> PAGE_ADDR (prot_flags info) = 0 \<and> prot_flags info \<noteq> 0 \<longrightarrow>
     rok (protect_pte e base fin (info, s)) (\<lambda>(_, _, s'). present (rd e s') \<and> entry_frame (rd e s') = 0))"
proof -
  have eq: "protect_pte e base fin (info, s) =
     Inr (0, info,
       if rd e s AND 0x8000000000000007 = prot_flags info then s
       else tlb_invalidate (prot_pml4 info) base
         (wr e (rd e s AND NOT 0x8000000000000007 OR prot_flags info OR PAGE_PRESENT) s))"
    unfolding protect_pte_def prot_flags_val Let_def by (simp add: or.assoc)
  have "PAGE_ADDR (0 OR prot_flags info OR PAGE_PRESENT) = 0" if "PAGE_ADDR (prot_flags info) = 0"
    using that by (simp add: PAGE_ADDR_or) (simp add: PAGE_ADDR_def flag_defs)
  then show ?thesis
    unfolding eq by (auto simp: present_or present_PRESENT entry_frame_def) (simp add: PAGE_INDEX_def)
qed

theorem protect_pte_effect_witness:
  "rok (protect_pte (5, 1) 0x1000 0x1FFB (\<lparr>prot_pml4 = 600, prot_flags = 7\<rparr>, demo_kvm))
     (\<lambda>(_, _, s'). present (rd (5, 1) s') \<and> entry_frame (rd (5, 1) s') = 0)"
  by (rule conjunct2 [OF protect_pte_effect, rule_format]) (simp add: PAGE_ADDR_def flag_defs)

text \<open>
  C19: \<^verbatim>\<open>remove_pte\<close> clears an entry, drops one reference of the frame it names, freeing the frame with the
  last reference, and invalidates the TLB when the table is in use; an entry of zero is left alone. The
  guard multiplies by \<^verbatim>\<open>PAGE_PRESENT\<close> instead of masking, so this also happens to an entry that is not
  present but not zero, such as that of a page swapped out.
\<close>

theorem remove_pte_drops_reference:
  assumes "buddy_inv s L" and "freeable s (entry_frame (rd e s))" and "swap_known L (entry_frame (rd e s))"
    and "rd e s \<noteq> 0"
  shows "rok (remove_pte e base fin (pml4, s)) (\<lambda>(ret, _, s'). ret = 0 \<and> rd e s' = 0 \<and>
      pp_ref (pages s' (entry_frame (rd e s))) = pp_ref (pages s (entry_frame (rd e s))) - 1 \<and>
      tlb_log s' = (if cr3 s = page2pa pml4 then base # tlb_log s else tlb_log s) \<and>
      (\<exists>L'. buddy_inv s' L') \<and>
      (pp_ref (pages s (entry_frame (rd e s))) \<noteq> 1 \<longrightarrow> free_frames s' = free_frames s))"
proof -
  let ?p = "entry_frame (rd e s)"
  have "?p < npages s"
    using assms(2) zero_less_power [of "2::nat" "pp_order (pages s ?p)"] unfolding freeable_def by linarith
  then have eq: "remove_pte e base fin (pml4, s) =
      rbind (page_decref ?p s) (\<lambda>s. Inr (0, pml4, tlb_invalidate pml4 base (wr e 0 s)))"
    using assms(4) by (simp add: remove_pte_def PAGE_PRESENT_def Let_def pa2page_def entry_frame_def)
  show ?thesis
    unfolding eq rok_rbind rok_Inr
  proof (rule rok_mono [OF page_decref_spec [OF assms(1-3)]], elim exE conjE)
    fix s1 :: "'a kvm_scheme" and L'
    let ?s = "tlb_invalidate pml4 base (wr e 0 s1)"
    assume s1: "buddy_inv s1 L'" "pp_ref (pages s1 ?p) = pp_ref (pages s ?p) - 1"
      "free_frames s1 = (if pp_ref (pages s ?p) = 1 then free_frames s \<union> {?p..<?p + 2 ^ pp_order (pages s ?p)} else free_frames s)"
      and more: "kmem.more s1 = kmem.more s"
    have "buddy_inv ?s L'" "free_frames ?s = free_frames s1" by (rule vm_ok_change [OF s1(1)]; simp)+
    moreover have "tlb_log ?s = (if cr3 s = page2pa pml4 then base # tlb_log s else tlb_log s)"
      using kvm_more [OF more] by (simp add: tlb_invalidate_def wr_def)
    ultimately show "case (0, pml4, ?s) of (ret, _, s') \<Rightarrow> ret = 0 \<and> rd e s' = 0 \<and>
      pp_ref (pages s' ?p) = pp_ref (pages s ?p) - 1 \<and>
      tlb_log s' = (if cr3 s = page2pa pml4 then base # tlb_log s else tlb_log s) \<and>
      (\<exists>L'. buddy_inv s' L') \<and> (pp_ref (pages s ?p) \<noteq> 1 \<longrightarrow> free_frames s' = free_frames s)"
      using s1(2,3) by auto
  qed
qed

definition demo_swapped :: kvm where
  "demo_swapped = demo_kvm\<lparr>pmem := (\<lambda>f i. if f = 650 \<and> i = 3 then page2pa 600 else 0)\<rparr>"

theorem remove_pte_drops_reference_witness:
  "\<not> present (rd (650, 3) demo_swapped) \<and>
   rok (remove_pte (650, 3) 0x3000 0x3FFB (600, demo_swapped)) (\<lambda>(ret, _, s'). ret = 0 \<and> rd (650, 3) s' = 0 \<and>
     pp_ref (pages s' 600) = 65535)"
proof -
  have r: "rd (650, 3) demo_swapped = page2pa 600" by (simp add: demo_swapped_def rd_def)
  have f: "entry_frame (page2pa 600) = 600" by (simp add: entry_frame_def page2pa_addr)
  have inv: "buddy_inv demo_swapped demo_links" "free_frames demo_swapped = free_frames demo_kmem"
    by (rule vm_ok_change [OF demo_inv]; simp add: demo_swapped_def demo_pages)+
  have fr: "freeable demo_swapped 600"
    using demo_freeable(1) by (simp add: freeable_def inv(2)) (simp add: demo_swapped_def demo_pages)
  have nz: "page2pa 600 \<noteq> 0" and ref: "pp_ref (pages demo_swapped 600) = 0"
    by (simp_all add: page2pa_def demo_swapped_def demo_pages)
  have "rok (remove_pte (650, 3) 0x3000 0x3FFB (600, demo_swapped)) (\<lambda>(ret, _, s'). ret = 0 \<and> rd (650, 3) s' = 0 \<and>
     pp_ref (pages s' 600) = 65535)"
    by (rule rok_mono [OF remove_pte_drops_reference [OF inv(1)]])
      (use fr demo_freeable(2) nz ref in \<open>auto simp: r f\<close>)
  then show ?thesis by (simp add: r not_present_page2pa)
qed

lemma and_exp_word: "(x::'a::len word) AND 2 ^ n = (if bit x n then 2 ^ n else 0)"
  by (rule bit_word_eqI) (auto simp: bit_and_iff bit_exp_iff)

lemma and_bits:
  "(x::'a::len word) AND 1 = (if bit x 0 then 1 else 0)" "x AND 2 = (if bit x 1 then 2 else 0)"
  "x AND 4 = (if bit x 2 then 4 else 0)"
  using and_exp_word [of x 0] and_exp_word [of x 1] and_exp_word [of x 2] by simp_all

lemma low_three: "(x::u32) AND 7 = (x AND 1) OR ((x AND 2) OR (x AND 4))"
  by (simp flip: bit.conj_disj_distrib)

text \<open>
  Converting the permissions of an area to page flags and back gives the read, write and execute bits
  unchanged; converting page flags to area permissions and back keeps the present, write and no-execute bits.
\<close>

theorem vma_page_flags_roundtrip:
  "convert_flags_from_pages_to_vma (convert_flags_from_vma_to_pages f) = f AND 7 \<and>
   convert_flags_from_vma_to_pages (convert_flags_from_pages_to_vma g) =
     g AND (PAGE_PRESENT OR PAGE_WRITE OR PAGE_NO_EXEC)"
proof
  show "convert_flags_from_pages_to_vma (convert_flags_from_vma_to_pages f) = f AND 7"
    unfolding low_three and_bits convert_flags_from_pages_to_vma_def convert_flags_from_vma_to_pages_def
      VM_READ_def VM_WRITE_def VM_EXEC_def paging_consts Let_def
    by (cases "bit f 0"; cases "bit f 1"; cases "bit f 2") (simp_all add: and_bits)
  have "g AND 0x8000000000000000 = (if bit g 63 then 0x8000000000000000 else 0)"
    using and_exp_word [of g 63] by simp
  moreover have "g AND (PAGE_PRESENT OR PAGE_WRITE OR PAGE_NO_EXEC) =
      (g AND 1) OR ((g AND 2) OR (g AND 0x8000000000000000))"
    by (simp add: PAGE_PRESENT_def PAGE_WRITE_def PAGE_NO_EXEC_def flip: bit.conj_disj_distrib)
  ultimately show "convert_flags_from_vma_to_pages (convert_flags_from_pages_to_vma g) =
     g AND (PAGE_PRESENT OR PAGE_WRITE OR PAGE_NO_EXEC)"
    unfolding convert_flags_from_pages_to_vma_def convert_flags_from_vma_to_pages_def
      VM_READ_def VM_WRITE_def VM_EXEC_def PAGE_PRESENT_def PAGE_WRITE_def PAGE_NO_EXEC_def Let_def
    by (cases "bit g 0"; cases "bit g 1"; cases "bit g 63") (simp_all add: and_bits)
qed

end
