(* ===== verification/Sched_Spec.thy ===== *)
theory Sched_Spec
  imports Task Page_Table_Props "HOL-Library.Multiset"
begin

text \<open>
  Facts about the scheduler: the run queues as lists of tasks, the effect of every queue operation,
  load balancing, and the refinement of \<^verbatim>\<open>sched_yield\<close> by a round-robin machine, whose fairness is shown once in
  the locale \<open>rr_machine\<close>.
\<close>

section \<open>Turning a ring\<close>

lemma is_list_rotate1: "is_list h p (x # xs) \<longleftrightarrow> is_list h x (xs @ [p])"
  by (auto simp: is_list_def)

lemma ring_family_turn:
  assumes "ring_family is_list h L" and "L p = Some xs" and "is_list h q ys" and "set (q # ys) = set (p # xs)"
  shows "ring_family is_list h (L(p := None, q \<mapsto> ys))"
proof -
  have old: "L a = Some zs \<and> set (a # zs) \<inter> set (q # ys) = {}" if "(L(p := None, q \<mapsto> ys)) a = Some zs" "a \<noteq> q" for a zs
    using that rings.family_disjoint [OF assms(1) _ assms(2), of a zs] unfolding assms(4) by (auto split: if_splits)
  have "is_list h a zs" if "(L(p := None, q \<mapsto> ys)) a = Some zs" for a zs
    using that old [OF that] rings.family_rep [OF assms(1)] assms(3) by (cases "a = q") auto
  moreover have "set (a # us) \<inter> set (b # vs) = {}"
    if "(L(p := None, q \<mapsto> ys)) a = Some us" "(L(p := None, q \<mapsto> ys)) b = Some vs" "a \<noteq> b" for a b us vs
  proof (cases "a = q \<or> b = q")
    case True
    with that have "a = q \<and> us = ys \<and> b \<noteq> q \<or> b = q \<and> vs = ys \<and> a \<noteq> q" by auto
    with old that(1,2) show ?thesis by blast
  next
    case False
    with rings.family_disjoint [OF assms(1) _ _ that(3)] old that(1,2) show ?thesis by blast
  qed
  ultimately show ?thesis unfolding ring_family_def by blast
qed

section \<open>The queues of a CPU as lists\<close>

text \<open>
  The global queue \<open>G\<close>, the local queues \<open>R\<close> and \<open>N\<close>, and a task \<open>u\<close> that is in no queue.
\<close>

definition sched_links :: "nat \<Rightarrow> nat list \<Rightarrow> nat list \<Rightarrow> nat list \<Rightarrow> nat option \<Rightarrow> anchor \<rightharpoonup> anchor list" where
  "sched_links c G R N u a =
     (case a of RunqHead \<Rightarrow> Some (map TaskNode G)
      | CpuRunq d \<Rightarrow> if d = c then Some (map TaskNode R) else None
      | CpuNextq d \<Rightarrow> if d = c then Some (map TaskNode N) else None
      | TaskNode t \<Rightarrow> if u = Some t then Some [] else None
      | _ \<Rightarrow> None)"

lemma sched_links_simps [simp]:
  "sched_links c G R N u RunqHead = Some (map TaskNode G)"
  "sched_links c G R N u (CpuRunq d) = (if d = c then Some (map TaskNode R) else None)"
  "sched_links c G R N u (CpuNextq d) = (if d = c then Some (map TaskNode N) else None)"
  "sched_links c G R N u (TaskNode t) = (if u = Some t then Some [] else None)"
  by (simp_all add: sched_links_def)

lemma sched_links_upd:
  "(sched_links c G R N None)(RunqHead \<mapsto> map TaskNode G', TaskNode t \<mapsto> []) = sched_links c G' R N (Some t)"
  "(sched_links c G R N None)(CpuRunq c \<mapsto> map TaskNode R', TaskNode t \<mapsto> []) = sched_links c G R' N (Some t)"
  "(sched_links c G R N (Some t))(RunqHead \<mapsto> map TaskNode G', TaskNode t := None) = sched_links c G' R N None"
  "(sched_links c G R N (Some t))(CpuRunq c \<mapsto> map TaskNode R', TaskNode t := None) = sched_links c G R' N None"
  "(sched_links c G R N (Some t))(CpuNextq c \<mapsto> map TaskNode N', TaskNode t := None) = sched_links c G R N' None"
  by (auto simp: fun_eq_iff sched_links_def split: anchor.split)

definition queued :: "'z ktask_scheme \<Rightarrow> nat list \<Rightarrow> nat list \<Rightarrow> nat list \<Rightarrow> nat option \<Rightarrow> bool" where
  "queued s G R N u \<longleftrightarrow> ring_family is_list (lh s) (sched_links (this_cpu s) G R N u)"

lemma queued_distinct:
  assumes "queued s G R N u"
  shows "distinct (G @ R @ N)" and "u = Some t \<Longrightarrow> t \<notin> set (G @ R @ N)"
proof -
  note f = assms [unfolded queued_def]
  let ?c = "this_cpu s"
  have d: "distinct G" "distinct R" "distinct N"
    using rings.rep_distinct [OF rings.family_rep [OF f, of RunqHead]] rings.rep_distinct [OF rings.family_rep [OF f, of "CpuRunq ?c"]]
      rings.rep_distinct [OF rings.family_rep [OF f, of "CpuNextq ?c"]] by (simp_all add: distinct_map)
  have "set G \<inter> set R = {}" using rings.family_disjoint [OF f, of RunqHead "map TaskNode G" "CpuRunq ?c" "map TaskNode R"] by auto
  moreover have "set G \<inter> set N = {}" using rings.family_disjoint [OF f, of RunqHead "map TaskNode G" "CpuNextq ?c" "map TaskNode N"] by auto
  moreover have "set R \<inter> set N = {}" using rings.family_disjoint [OF f, of "CpuRunq ?c" "map TaskNode R" "CpuNextq ?c" "map TaskNode N"] by auto
  ultimately show "distinct (G @ R @ N)" using d by auto
  show "t \<notin> set (G @ R @ N)" if "u = Some t"
    using that rings.family_disjoint [OF f, of "TaskNode t" "[]" RunqHead "map TaskNode G"]
      rings.family_disjoint [OF f, of "TaskNode t" "[]" "CpuRunq ?c" "map TaskNode R"]
      rings.family_disjoint [OF f, of "TaskNode t" "[]" "CpuNextq ?c" "map TaskNode N"] by auto
qed

lemma queued_same: "lh s' = lh s \<Longrightarrow> this_cpu s' = this_cpu s \<Longrightarrow> queued s' G R N u \<longleftrightarrow> queued s G R N u"
  by (simp add: queued_def)

lemma ring_family_sub:
  assumes "ring_family rep h L" and "\<And>a xs. L' a = Some xs \<Longrightarrow> L a = Some xs"
  shows "ring_family rep h L'"
  using assms unfolding ring_family_def by blast

lemma queued_forget: "queued s G R N u \<Longrightarrow> queued s G R N None"
  unfolding queued_def by (erule ring_family_sub) (auto simp: sched_links_def split: anchor.splits)

text \<open>Taking a task from a queue and adding one.\<close>

lemma queue_pop_task_hd:
  assumes "ring_family is_list (lh s) L" and "L q = Some (map TaskNode (x # xs))"
  shows "rok (queue_pop_task q s) (\<lambda>(t, s'). t = x \<and> (\<exists>h. s' = s\<lparr>lh := h\<rparr> \<and> ring_family is_list h (L(q \<mapsto> map TaskNode xs, TaskNode x \<mapsto> []))))"
proof -
  have "rok (list_pop_tail q (lh s)) (\<lambda>(n, h). n = TaskNode x \<and> ring_family is_list h (L(q \<mapsto> map TaskNode xs, TaskNode x \<mapsto> [])))"
    using rings.family_pop_tail [OF assms] by (rule rok_mono) auto
  then show ?thesis by (auto simp: queue_pop_task_def rok_iff task_of_def)
qed

lemma queue_pop_task_empty:
  assumes "ring_family is_list (lh s) L" and "L q = Some []"
  shows "queue_pop_task q s = Inr (0, s)"
  using rings.rep_pop_tail [OF rings.family_rep [OF assms]] by (simp add: queue_pop_task_def task_of_def)

lemma pop_global:
  assumes "queued s (x # G) R N None"
  shows "rok (queue_pop_task RunqHead s) (\<lambda>(t, s'). t = x \<and> (\<exists>h. s' = s\<lparr>lh := h\<rparr>) \<and> queued s' G R N (Some x))"
  using queue_pop_task_hd [OF assms [unfolded queued_def], of RunqHead x G]
  by (simp add: sched_links_upd) (erule rok_mono, auto simp: queued_def)

lemma pop_local:
  assumes "queued s G (x # R) N None"
  shows "rok (queue_pop_task (local_runq s) s) (\<lambda>(t, s'). t = x \<and> (\<exists>h. s' = s\<lparr>lh := h\<rparr>) \<and> queued s' G R N (Some x))"
  using queue_pop_task_hd [OF assms [unfolded queued_def], of "local_runq s" x R]
  by (simp add: sched_links_upd) (erule rok_mono, auto simp: queued_def)

lemma queue_add_task_tail: "queue_add_task q t s = Inr (s\<lparr>lh := list_add_tail q (TaskNode t) (lh s)\<rparr>)"
  by (simp add: queue_add_task_def FAIR_SCHEDULER_def)

lemma add_queued:
  assumes "queued s G R N (Some t)"
  shows "queued (s\<lparr>lh := list_add_tail RunqHead (TaskNode t) (lh s)\<rparr>) (G @ [t]) R N None"
    and "queued (s\<lparr>lh := list_add_tail (local_runq s) (TaskNode t) (lh s)\<rparr>) G (R @ [t]) N None"
    and "queued (s\<lparr>lh := list_add_tail (local_nextq s) (TaskNode t) (lh s)\<rparr>) G R (N @ [t]) None"
proof -
  note f = rings.family_add_tail [OF assms [unfolded queued_def], where n = "TaskNode t"]
  show "queued (s\<lparr>lh := list_add_tail RunqHead (TaskNode t) (lh s)\<rparr>) (G @ [t]) R N None"
    using f [of RunqHead "map TaskNode G"] sched_links_upd(3) [of "this_cpu s" G R N t "G @ [t]"] by (simp add: queued_def)
  show "queued (s\<lparr>lh := list_add_tail (local_runq s) (TaskNode t) (lh s)\<rparr>) G (R @ [t]) N None"
    using f [of "local_runq s" "map TaskNode R"] sched_links_upd(4) [of "this_cpu s" G R N t "R @ [t]"] by (simp add: queued_def)
  show "queued (s\<lparr>lh := list_add_tail (local_nextq s) (TaskNode t) (lh s)\<rparr>) G R (N @ [t]) None"
    using f [of "local_nextq s" "map TaskNode N"] sched_links_upd(5) [of "this_cpu s" G R N t "N @ [t]"] by (simp add: queued_def)
qed

text \<open>The scheduler's own data: the queues, and the counter of the local ones.\<close>

definition sched_inv :: "'z ktask_scheme \<Rightarrow> nat list \<Rightarrow> nat list \<Rightarrow> nat list \<Rightarrow> nat option \<Rightarrow> bool" where
  "sched_inv s G R N u \<longleftrightarrow> queued s G R N u \<and> runq_len s (this_cpu s) = of_nat (length R + length N) \<and>
     length (G @ R @ N) < 2 ^ 63 \<and> 0 \<notin> set (G @ R @ N)"

lemma sched_invD:
  assumes "sched_inv s G R N u"
  shows "queued s G R N u" and "runq_len s (this_cpu s) = of_nat (length R + length N)"
    and "unat (runq_len s (this_cpu s)) = length R + length N" and "length (G @ R @ N) < 2 ^ 63" and "0 \<notin> set (G @ R @ N)"
proof -
  have "unat (of_nat (length R + length N) :: u64) = length R + length N" if "length (G @ R @ N) < 2 ^ 63"
    using that unfolding unsigned_of_nat by (subst take_bit_nat_eq_self) simp_all
  then show "queued s G R N u" "runq_len s (this_cpu s) = of_nat (length R + length N)"
    "unat (runq_len s (this_cpu s)) = length R + length N" "length (G @ R @ N) < 2 ^ 63" "0 \<notin> set (G @ R @ N)"
    using assms unfolding sched_inv_def by simp_all
qed

lemma len_cmp:
  assumes "sched_inv s G R N u"
  shows "runq_len s (this_cpu s) < k \<longleftrightarrow> length R + length N < unat k" and "k < runq_len s (this_cpu s) \<longleftrightarrow> unat k < length R + length N"
    and "runq_len s (this_cpu s) = k \<longleftrightarrow> unat k = length R + length N" and "runq_len s (this_cpu s) \<ge> 1 \<longleftrightarrow> R @ N \<noteq> []"
    and "runq_len s (this_cpu s) < 1 \<longleftrightarrow> R @ N = []"
  using sched_invD(3) [OF assms] by (auto simp: word_less_nat_alt word_le_nat_alt word_unat_eq_iff Suc_le_eq)

text \<open>Only the list nodes and the counter of the CPU change.\<close>

definition moved :: "'z ktask_scheme \<Rightarrow> 'z ktask_scheme \<Rightarrow> bool" where
  "moved s s' \<longleftrightarrow> (\<exists>h n. s' = s\<lparr>lh := h, runq_len := (runq_len s)(this_cpu s := n)\<rparr>)"

lemma moved_refl [simp]: "moved s s"
  unfolding moved_def by (rule exI [of _ "lh s"], rule exI [of _ "runq_len s (this_cpu s)"]) simp

lemma moved_trans: "moved s s' \<Longrightarrow> moved s' s'' \<Longrightarrow> moved s s''"
  by (clarsimp simp: moved_def) (intro exI, rule refl)

lemma moved_lh: "moved s (s\<lparr>lh := h\<rparr>)"
  unfolding moved_def by (rule exI [of _ h], rule exI [of _ "runq_len s (this_cpu s)"]) simp

lemma moved_same:
  assumes "moved s s'"
  shows "this_cpu s' = this_cpu s" "tcb s' = tcb s" "cur_task s' = cur_task s" "tasks s' = tasks s" "nuser_tasks s' = nuser_tasks s"
    "nkernel_tasks s' = nkernel_tasks s" "ncpus s' = ncpus s" "runq_lock s' = runq_lock s" "cr3 s' = cr3 s" "task_pml4 s' = task_pml4 s"
    "pmem s' = pmem s" "pages s' = pages s"
  using assms by (auto simp: moved_def)

lemma len_inc:
  assumes "sched_inv s G R N (Some t)" and "t \<noteq> 0" and "length (G @ R @ N) + 1 < 2 ^ 63"
    and "queued (s\<lparr>lh := h\<rparr>) G' R' N' None" and "length R' + length N' = length R + length N + 1" and "length (G' @ R' @ N') = length (G @ R @ N) + 1"
    and "set (G' @ R' @ N') = insert t (set (G @ R @ N))"
  shows "rok (local_runq_len_set 1 (s\<lparr>lh := h\<rparr>)) (\<lambda>s'. moved s s' \<and> sched_inv s' G' R' N' None)"
  using assms sched_invD [OF assms(1)]
  by (auto simp: local_runq_len_set_def Let_def sched_inv_def moved_def queued_def algebra_simps)

lemma len_dec:
  assumes "sched_inv s G R N None" and "queued (s\<lparr>lh := h\<rparr>) G' R' N' (Some x)" and "length R + length N = length R' + length N' + 1"
    and "length (G' @ R' @ N') < length (G @ R @ N)" and "insert x (set (G' @ R' @ N')) = set (G @ R @ N)"
  shows "rok (local_runq_len_set (- 1) (s\<lparr>lh := h\<rparr>)) (\<lambda>s'. moved s s' \<and> sched_inv s' G' R' N' (Some x) \<and> x \<noteq> 0)"
proof -
  have "R @ N \<noteq> []" using assms(3) by auto
  then have "\<not> runq_len s (this_cpu s) < 1" using len_cmp(5) [OF assms(1)] by blast
  moreover have "runq_len s (this_cpu s) = of_nat (length R' + length N') + 1" using sched_invD(2) [OF assms(1)] unfolding assms(3) by simp
  ultimately have "local_runq_len_set (- 1) (s\<lparr>lh := h\<rparr>) = Inr (s\<lparr>lh := h, runq_len := (runq_len s)(this_cpu s := of_nat (length R' + length N'))\<rparr>)"
    by (simp add: local_runq_len_set_def Let_def)
  moreover have "0 \<notin> insert x (set (G' @ R' @ N'))" using sched_invD(5) [OF assms(1)] unfolding assms(5) .
  ultimately show ?thesis using assms(2,4) sched_invD(4) [OF assms(1)] unfolding moved_def sched_inv_def
    by (auto simp: queued_def)
qed

text \<open>The next queue becomes the local queue as a whole: its head leaves the ring and the other head takes its place.\<close>

lemma move_nextq:
  assumes "sched_inv s G [] N None"
  shows "rok (move_nextq_to_runq s) (\<lambda>s'. moved s s' \<and> sched_inv s' G N [] None)"
proof (cases N)
  case Nil
  have "list_head (local_nextq s) (lh s) = Null"
    using is_list_head_nodes(1) [OF rings.family_rep [OF sched_invD(1) [OF assms, unfolded queued_def], of "local_nextq s"]] Nil
    by (simp add: list_head_def)
  with assms Nil show ?thesis by (simp add: move_nextq_to_runq_def)
next
  case (Cons t N')
  let ?c = "this_cpu s" and ?n = "local_nextq s" and ?r = "local_runq s" and ?x = "TaskNode t" and ?xs = "map TaskNode N'"
  note q = sched_invD(1) [OF assms, unfolded queued_def]
  let ?L = "sched_links ?c G [] N None"
  have L: "?L ?n = Some (?x # ?xs)" by (simp add: Cons)
  have hd: "list_head ?n (lh s) = ?x"
    using is_list_head_nodes(1) [OF rings.family_rep [OF q L]] by (simp add: list_head_def)
  have t: "t \<notin> set N'" using queued_distinct(1) [OF sched_invD(1) [OF assms]] Cons by simp
  have "is_list (lh s) ?x (?xs @ [?n])" using rings.family_rep [OF q L] by (simp add: is_list_rotate1)
  note f1 = ring_family_turn [OF q L this]
  have "rok (list_del ?n (lh s)) (\<lambda>h. ring_family is_list h (?L(?n := None, ?x \<mapsto> ?xs @ [?n], ?x \<mapsto> remove1 ?n (?xs @ [?n]), ?n \<mapsto> [])))"
    by (rule rings.family_del [OF f1]) auto
  moreover have "remove1 ?n (?xs @ [?n]) = ?xs" by (subst remove1_append) auto
  ultimately obtain h where h: "list_del ?n (lh s) = Inr h" "ring_family is_list h (?L(?x \<mapsto> ?xs, ?n \<mapsto> []))"
    by (auto simp: rok_iff fun_upd_twist)
  have f2: "ring_family is_list (list_add_tail ?x ?r h) (?L(?x \<mapsto> ?xs, ?n \<mapsto> [], ?x \<mapsto> ?xs @ [?r], ?r := None))"
    by (rule rings.family_add_tail [OF h(2)]) simp_all
  have "is_list (list_add_tail ?x ?r h) ?r (?x # ?xs)"
    using rings.family_rep [OF f2, of ?x "?xs @ [?r]"] by (simp add: is_list_rotate1)
  from ring_family_turn [OF f2 _ this, of ?x "?xs @ [?r]"]
  have "ring_family is_list (list_add_tail ?x ?r h) (?L(?x \<mapsto> ?xs, ?n \<mapsto> [], ?x \<mapsto> ?xs @ [?r], ?r := None, ?x := None, ?r \<mapsto> ?x # ?xs))" by auto
  also have "?L(?x \<mapsto> ?xs, ?n \<mapsto> [], ?x \<mapsto> ?xs @ [?r], ?r := None, ?x := None, ?r \<mapsto> ?x # ?xs) = sched_links ?c G N [] None"
    by (auto simp: fun_eq_iff sched_links_def Cons split: anchor.split)
  finally have f3: "ring_family is_list (list_add_tail ?x ?r h) (sched_links ?c G N [] None)" .
  have "move_nextq_to_runq s = Inr (s\<lparr>lh := list_add_tail ?x ?r h\<rparr>)"
    using h(1) by (simp add: move_nextq_to_runq_def hd Let_def klist_del_def list_add_tail_def)
  moreover have "moved s (s\<lparr>lh := list_add_tail ?x ?r h\<rparr>)" by (rule moved_lh)
  moreover have "sched_inv (s\<lparr>lh := list_add_tail ?x ?r h\<rparr>) G N [] None"
    using f3 sched_invD [OF assms] by (simp add: sched_inv_def queued_def)
  ultimately show ?thesis by simp
qed
section \<open>Load balancing\<close>

lemma migrate_in_spec:
  assumes "sched_inv s G R [] None"
  shows "\<exists>s'. migrate_in goal s = Some (Inr s') \<and> moved s s' \<and>
    sched_inv s' (drop (unat goal - length R) G) (R @ take (unat goal - length R) G) [] None"
  using assms
proof (induction G arbitrary: s R)
  case Nil
  have p: "queue_pop_task RunqHead s = Inr (0, s)"
    by (rule queue_pop_task_empty [OF sched_invD(1) [OF Nil, unfolded queued_def]]) simp
  show ?case using Nil by (subst migrate_in.simps) (simp add: p)
next
  case (Cons x G)
  show ?case
  proof (cases "length R < unat goal")
    case False
    then have "\<not> runq_len s (this_cpu s) < goal" using len_cmp(1) [OF Cons.prems] by simp
    then show ?thesis using Cons.prems False by (subst migrate_in.simps) simp
  next
    case True
    then have lt: "runq_len s (this_cpu s) < goal" using len_cmp(1) [OF Cons.prems] by simp
    obtain h where p: "queue_pop_task RunqHead s = Inr (x, s\<lparr>lh := h\<rparr>)" and q: "queued (s\<lparr>lh := h\<rparr>) G R [] (Some x)"
      using pop_global [OF sched_invD(1) [OF Cons.prems]] by (auto simp: rok_iff)
    let ?s = "s\<lparr>lh := h\<rparr>"
    have x: "x \<noteq> 0" and i: "sched_inv ?s G R [] (Some x)"
      using q sched_invD [OF Cons.prems] by (auto simp: sched_inv_def)
    have l: "length (G @ R @ []) + 1 < 2 ^ 63" using sched_invD(4) [OF Cons.prems] by simp
    have "rok (local_runq_len_set 1 (?s\<lparr>lh := list_add_tail (local_runq ?s) (TaskNode x) (lh ?s)\<rparr>)) (\<lambda>s'. moved ?s s' \<and> sched_inv s' G (R @ [x]) [] None)"
      by (rule len_inc [OF i x l add_queued(2) [OF q]]) auto
    then obtain s1 where s1: "local_runq_len_set 1 (?s\<lparr>lh := list_add_tail (local_runq ?s) (TaskNode x) (lh ?s)\<rparr>) = Inr s1"
        "moved s s1" "sched_inv s1 G (R @ [x]) [] None"
      using moved_trans [OF moved_lh [of s h]] by (auto simp: rok_iff)
    have e: "unat goal - length R = Suc (unat goal - length (R @ [x]))" using True by simp
    from Cons.IH [OF s1(3)] obtain s' where s': "migrate_in goal s1 = Some (Inr s')" "moved s1 s'"
        "sched_inv s' (drop (unat goal - length (R @ [x])) G) ((R @ [x]) @ take (unat goal - length (R @ [x])) G) [] None" by blast
    have "migrate_in goal s = Some (Inr s')"
      using lt s1(1) s'(1) x by (subst migrate_in.simps) (simp add: p queue_add_task_tail)
    with s'(2,3) moved_trans [OF s1(2)] show ?thesis unfolding e by simp
  qed
qed

lemma migrate_out_spec:
  assumes "sched_inv s G R [] None"
  shows "\<exists>s'. migrate_out goal s = Some (Inr s') \<and> moved s s' \<and>
    sched_inv s' (G @ take (length R - unat goal) R) (drop (length R - unat goal) R) [] None"
  using assms
proof (induction R arbitrary: s G)
  case Nil
  have "\<not> runq_len s (this_cpu s) > goal" using len_cmp(2) [OF Nil] by simp
  then show ?case using Nil by (subst migrate_out.simps) simp
next
  case (Cons x R)
  show ?case
  proof (cases "unat goal < length (x # R)")
    case False
    then have "\<not> runq_len s (this_cpu s) > goal" using len_cmp(2) [OF Cons.prems] by simp
    then show ?thesis using Cons.prems False by (subst migrate_out.simps) simp
  next
    case True
    then have gt: "runq_len s (this_cpu s) > goal" using len_cmp(2) [OF Cons.prems] by simp
    obtain h where p: "queue_pop_task (local_runq s) s = Inr (x, s\<lparr>lh := h\<rparr>)" and q: "queued (s\<lparr>lh := h\<rparr>) G R [] (Some x)"
      using pop_local [OF sched_invD(1) [OF Cons.prems]] by (auto simp: rok_iff)
    have "rok (local_runq_len_set (- 1) (s\<lparr>lh := h\<rparr>)) (\<lambda>s'. moved s s' \<and> sched_inv s' G R [] (Some x) \<and> x \<noteq> 0)"
      by (rule len_dec [OF Cons.prems q]) auto
    then obtain s1 where s1: "local_runq_len_set (- 1) (s\<lparr>lh := h\<rparr>) = Inr s1" "moved s s1" "sched_inv s1 G R [] (Some x)" "x \<noteq> 0"
      by (auto simp: rok_iff)
    let ?s = "s1\<lparr>lh := list_add_tail RunqHead (TaskNode x) (lh s1)\<rparr>"
    have i: "sched_inv ?s (G @ [x]) R [] None"
      using add_queued(1) [OF sched_invD(1) [OF s1(3)]] sched_invD [OF s1(3)] sched_invD(4) [OF Cons.prems] s1(4) by (simp add: sched_inv_def)
    have e: "length (x # R) - unat goal = Suc (length R - unat goal)" using True by simp
    from Cons.IH [OF i] obtain s' where s': "migrate_out goal ?s = Some (Inr s')" "moved ?s s'"
        "sched_inv s' ((G @ [x]) @ take (length R - unat goal) R) (drop (length R - unat goal) R) [] None" by blast
    have ge: "1 \<le> runq_len s (this_cpu s)" using len_cmp(4) [OF Cons.prems] by simp
    have "migrate_out goal s = Some (Inr s')"
      using gt s1(1,4) s'(1) by (subst migrate_out.simps) (simp add: p ge queue_add_task_tail)
    with s'(2,3) moved_trans [OF moved_trans [OF s1(2) moved_lh]] show ?thesis unfolding e by simp
  qed
qed

text \<open>What balancing does to the global and the local queue.\<close>

definition balance :: "nat \<Rightarrow> nat list \<times> nat list \<Rightarrow> nat list \<times> nat list" where
  "balance goal = (\<lambda>(G, R).
     (drop (goal - length R) G @ take (length R - goal) R, drop (length R - goal) R @ take (goal - length R) G))"

lemma migrate_tasks_spec:
  assumes "sched_inv s G R [] None" and "balance (unat goal) (G, R) = (G', R')"
  shows "rok (migrate_tasks_runq goal s) (\<lambda>s'. moved s s' \<and> sched_inv s' G' R' [] None)"
proof -
  obtain s1 where s1: "migrate_in goal s = Some (Inr s1)" "moved s s1"
      "sched_inv s1 (drop (unat goal - length R) G) (R @ take (unat goal - length R) G) [] None"
    using migrate_in_spec [OF assms(1)] by blast
  obtain s2 where s2: "migrate_out goal s1 = Some (Inr s2)" "moved s1 s2"
     "sched_inv s2 (drop (unat goal - length R) G @ take (length (R @ take (unat goal - length R) G) - unat goal) (R @ take (unat goal - length R) G))
       (drop (length (R @ take (unat goal - length R) G) - unat goal) (R @ take (unat goal - length R) G)) [] None"
    using migrate_out_spec [OF s1(3), of goal] by blast
  have "drop (unat goal - length R) G @ take (length (R @ take (unat goal - length R) G) - unat goal) (R @ take (unat goal - length R) G) = G'"
    "drop (length (R @ take (unat goal - length R) G) - unat goal) (R @ take (unat goal - length R) G) = R'"
    using assms(2) by (cases "length R \<le> unat goal"; auto simp: balance_def)+
  with s2 moved_trans [OF s1(2) s2(2)] s1(1) show ?thesis by (simp add: migrate_tasks_runq_def total_def)
qed

text \<open>The lock of the global queue is free, or held by another CPU.\<close>

definition runq_avail :: "'z ktask_scheme \<Rightarrow> bool" where
  "runq_avail s \<longleftrightarrow> lock_free (runq_lock s)"

definition runq_busy :: "'z ktask_scheme \<Rightarrow> bool" where
  "runq_busy s \<longleftrightarrow> locked (runq_lock s) \<noteq> 0 \<and> \<not> holding (runq_lock s) (this_cpu s)"

definition balanced :: "bool \<Rightarrow> nat \<Rightarrow> nat list \<times> nat list \<Rightarrow> nat list \<times> nat list" where
  "balanced avail goal q = (if avail then balance goal q else q)"
lemma trylock_free: "lock_free l \<Longrightarrow> rok (spin_trylock l c f n) (\<lambda>(ok, l'). ok = 1 \<and> holding l' c)"
  by (auto simp: lock_free_def spin_trylock_def holding_def atomic_cmpxchg_def)

lemma trylock_busy: "locked l \<noteq> 0 \<Longrightarrow> \<not> holding l c \<Longrightarrow> spin_trylock l c f n = Inr (0, l)"
  by (simp add: spin_trylock_def atomic_cmpxchg_def)

text \<open>Besides the queues, only the lock of the global queue changes, and it is as available as before.\<close>

definition stepped :: "'z ktask_scheme \<Rightarrow> 'z ktask_scheme \<Rightarrow> bool" where
  "stepped s s' \<longleftrightarrow> (\<exists>l. moved (s\<lparr>runq_lock := l\<rparr>) s' \<and> lock_free l = lock_free (runq_lock s) \<and> (\<not> lock_free l \<longrightarrow> l = runq_lock s))"

lemma stepped_moved: "moved s s' \<Longrightarrow> stepped s s'"
  unfolding stepped_def by (rule exI [of _ "runq_lock s"]) simp

lemma sched_inv_lock [simp]: "sched_inv (s\<lparr>runq_lock := l\<rparr>) G R N u \<longleftrightarrow> sched_inv s G R N u"
  by (simp add: sched_inv_def queued_def)

lemma moved_lock: "moved s s' \<Longrightarrow> moved (s\<lparr>runq_lock := l\<rparr>) (s'\<lparr>runq_lock := l\<rparr>)"
proof -
  assume "moved s s'"
  then obtain h n where "s' = s\<lparr>lh := h, runq_len := (runq_len s)(this_cpu s := n)\<rparr>" by (auto simp: moved_def)
  then show ?thesis unfolding moved_def by (intro exI [of _ h] exI [of _ n]) simp
qed

lemma FGL_migrate:
  assumes "sched_inv s G [] N None" and "runq_avail s \<or> runq_busy s" and "balanced (runq_avail s) (unat goal) (G, N) = (G', R')"
  shows "rok (FGL_migrate_tasks goal s) (\<lambda>s'. stepped s s' \<and> sched_inv s' G' R' [] None)"
proof -
  obtain s1 where s1: "move_nextq_to_runq s = Inr s1" "moved s s1" "sched_inv s1 G N [] None"
    using move_nextq [OF assms(1)] by (auto simp: rok_iff)
  note l = moved_same [OF s1(2)]
  show ?thesis
  proof (cases "runq_len s1 (this_cpu s1) = goal")
    case True
    then have "length N = unat goal" using len_cmp(3) [OF s1(3), of goal] by simp
    then have "balanced (runq_avail s) (unat goal) (G, N) = (G, N)" by (simp add: balanced_def balance_def)
    with s1 True assms(3) stepped_moved [OF s1(2)] show ?thesis by (simp add: FGL_migrate_tasks_def)
  next
    case False
    show ?thesis
    proof (cases "runq_avail s")
      case True
      then have free: "lock_free (runq_lock s1)" using l(8) by (simp add: runq_avail_def)
      obtain l1 where l1: "spin_trylock (runq_lock s1) (this_cpu s1) [] 0 = Inr (1, l1)" "holding l1 (this_cpu s1)"
        using trylock_free [OF free, of "this_cpu s1" "[]" 0] by (auto simp: rok_iff)
      obtain s2 where s2: "migrate_tasks_runq goal (s1\<lparr>runq_lock := l1\<rparr>) = Inr s2" "moved (s1\<lparr>runq_lock := l1\<rparr>) s2" "sched_inv s2 G' R' [] None"
        using migrate_tasks_spec [of "s1\<lparr>runq_lock := l1\<rparr>" G N goal G' R'] s1(3) assms(3) True by (auto simp: rok_iff balanced_def)
      have "holding (runq_lock s2) (this_cpu s2)" using l1(2) moved_same [OF s2(2)] by simp
      then obtain l2 where l2: "spin_unlock (runq_lock s2) (this_cpu s2) = Inr l2" "lock_free l2"
        using spin_unlock_holding [of "runq_lock s2" "this_cpu s2"] by (auto simp: rok_iff)
      have "moved (s\<lparr>runq_lock := l2\<rparr>) (s2\<lparr>runq_lock := l2\<rparr>)"
        using moved_trans [OF moved_lock [OF s1(2)] moved_lock [OF s2(2), of l2, simplified]] .
      then have "stepped s (s2\<lparr>runq_lock := l2\<rparr>)" using l2(2) True unfolding stepped_def runq_avail_def by blast
      with s1(1) False l1(1) s2(1,3) l2(1) show ?thesis by (simp add: FGL_migrate_tasks_def unlock_runq_def)
    next
      case nf: False
      then have "runq_busy s" using assms(2) by blast
      then have "spin_trylock (runq_lock s1) (this_cpu s1) [] 0 = Inr (0, runq_lock s1)"
        by (intro trylock_busy) (simp_all add: runq_busy_def l)
      with s1 False nf assms(3) stepped_moved [OF s1(2)] show ?thesis by (simp add: FGL_migrate_tasks_def balanced_def)
    qed
  qed
qed

section \<open>Switching tasks\<close>

definition ready :: "'z ktask_scheme \<Rightarrow> nat \<Rightarrow> bool" where
  "ready s t \<longleftrightarrow> t \<noteq> 0 \<and> 0 < task_pid (tcb s t) \<and> (status_of s t = TASK_RUNNABLE \<or> status_of s t = TASK_RUNNING)"

definition switch_to :: "nat \<Rightarrow> 'z ktask_scheme \<Rightarrow> 'z ktask_scheme" where
  "switch_to x s =
     (let s = (case cur_task s of None \<Rightarrow> s | Some c \<Rightarrow> if status_of s c = TASK_RUNNING then set_status c TASK_RUNNABLE s else s);
          s = tcb_upd x (\<lambda>a. a\<lparr>task_status := TASK_RUNNING, task_runs := task_runs a + 1\<rparr>) (s\<lparr>cur_task := Some x\<rparr>)
      in s\<lparr>cr3 := page2pa (task_pml4 s x)\<rparr>)"

lemmas tcb_defs = tcb_upd_def set_status_def status_of_def

lemma task_run_switch:
  assumes "\<And>c. cur_task s = Some c \<Longrightarrow> ready s c" and "ready s x"
  shows "task_run yield x s = Inr (Iret (task_frame (tcb s x)), switch_to x s)"
  using assms
  by (cases "cur_task s") (auto simp: task_run_def fbind_def switch_to_def ready_def task_pop_frame_def tcb_defs Let_def)

lemma switch_to_same:
  "lh (switch_to x s) = lh s" "this_cpu (switch_to x s) = this_cpu s" "runq_len (switch_to x s) = runq_len s" "cur_task (switch_to x s) = Some x"
  "nuser_tasks (switch_to x s) = nuser_tasks s" "nkernel_tasks (switch_to x s) = nkernel_tasks s" "ncpus (switch_to x s) = ncpus s"
  "runq_lock (switch_to x s) = runq_lock s" "cr3 (switch_to x s) = page2pa (task_pml4 s x)" "status_of (switch_to x s) x = TASK_RUNNING"
  "task_frame (tcb (switch_to x s) t) = task_frame (tcb s t)" "task_pml4 (switch_to x s) = task_pml4 s"
  by (auto simp: switch_to_def tcb_defs Let_def split: option.split)

lemma switch_to_ready: "ready s t \<Longrightarrow> ready s x \<Longrightarrow> ready (switch_to x s) t"
  by (auto simp: switch_to_def ready_def tcb_defs Let_def split: option.split)

lemma switch_to_inv: "sched_inv (switch_to x s) G R N u \<longleftrightarrow> sched_inv s G R N u"
  by (simp add: sched_inv_def queued_def switch_to_same)

lemma try_run:
  fixes s :: "'z ktask_scheme"
  assumes "sched_inv s G R N None" and "\<And>t. t \<in> set R \<Longrightarrow> ready s t" and "\<And>c. cur_task s = Some c \<Longrightarrow> ready s c"
  shows "if R = [] then try_run_next_task yield s = Inr (Returns (- 1), s)
    else rok (try_run_next_task yield s) (\<lambda>(f, s'). f = Iret (task_frame (tcb s (hd R))) \<and>
       (\<exists>s1. moved s s1 \<and> s' = switch_to (hd R) s1) \<and> sched_inv s' G (tl R) N (Some (hd R)))"
proof (cases R)
  case Nil
  have "list_is_empty (local_runq s) (lh s)"
    using rings.family_isempty [OF sched_invD(1) [OF assms(1), unfolded queued_def], of "local_runq s"] Nil by simp
  with Nil show ?thesis by (simp add: try_run_next_task_def)
next
  case (Cons x R')
  have ne: "\<not> list_is_empty (local_runq s) (lh s)"
    using rings.family_isempty [OF sched_invD(1) [OF assms(1), unfolded queued_def], of "local_runq s" "map TaskNode R"] Cons by simp
  obtain h where p: "queue_pop_task (local_runq s) s = Inr (x, s\<lparr>lh := h\<rparr>)" and q: "queued (s\<lparr>lh := h\<rparr>) G R' N (Some x)"
    using pop_local [OF sched_invD(1) [OF assms(1), unfolded Cons]] by (auto simp: rok_iff)
  have ge: "1 \<le> runq_len s (this_cpu s)" using len_cmp(4) [OF assms(1)] Cons by simp
  have "rok (local_runq_len_set (- 1) (s\<lparr>lh := h\<rparr>)) (\<lambda>s'. moved s s' \<and> sched_inv s' G R' N (Some x) \<and> x \<noteq> 0)"
    by (rule len_dec [OF assms(1) q]) (auto simp: Cons)
  then obtain s1 where s1: "local_runq_len_set (- 1) (s\<lparr>lh := h\<rparr>) = Inr s1" "moved s s1" "sched_inv s1 G R' N (Some x)" "x \<noteq> 0"
    by (auto simp: rok_iff)
  note m = moved_same [OF s1(2)]
  have r: "ready s1 t \<longleftrightarrow> ready s t" for t by (simp add: ready_def status_of_def m)
  have c: "\<And>c. cur_task s1 = Some c \<Longrightarrow> ready s1 c" "ready s1 x" using assms(2,3) Cons by (auto simp: r m)
  have "(task_run yield x s1 :: (int, 'z) kflow) = Inr (Iret (task_frame (tcb s1 x)), switch_to x s1)" by (rule task_run_switch [OF c])
  with s1 ne p ge show ?thesis by (auto simp: try_run_next_task_def Cons switch_to_inv m)
qed
section \<open>The scheduler as an abstract machine\<close>

text \<open>
  The queues of a CPU and its current task. A step puts the current task at the end of the next queue
  and takes the first task of the local queue; when that is empty, the next queue takes its place and the
  load is balanced with the global queue.
\<close>

type_synonym rr_state = "nat list \<times> nat list \<times> nat list \<times> nat option"

definition opt_list :: "'a option \<Rightarrow> 'a list" where
  "opt_list u = (case u of None \<Rightarrow> [] | Some t \<Rightarrow> [t])"

definition rr_step :: "bool \<Rightarrow> nat \<Rightarrow> rr_state \<Rightarrow> rr_state" where
  "rr_step avail goal = (\<lambda>(G, R, N, u).
     case R of x # R' \<Rightarrow> (G, R', N @ opt_list u, Some x)
     | [] \<Rightarrow> (case balanced avail goal (G, N @ opt_list u) of (G', []) \<Rightarrow> (G', [], [], None) | (G', x # R') \<Rightarrow> (G', R', [], Some x)))"

definition sched_ok :: "'z ktask_scheme \<Rightarrow> rr_state \<Rightarrow> bool" where
  "sched_ok s = (\<lambda>(G, R, N, u). sched_inv s G R N u \<and> cur_task s = u \<and> length (G @ R @ N) + 1 < 2 ^ 63 \<and>
     (\<forall>t \<in> set (G @ R @ N @ opt_list u). ready s t) \<and> (runq_avail s \<or> runq_busy s) \<and>
     ncpus s \<noteq> 0 \<and> nuser_tasks s \<noteq> nkernel_tasks s)"

definition task_goal :: "'z ktask_scheme \<Rightarrow> nat" where
  "task_goal s = unat ((nuser_tasks s + (ncpus s - 1)) div ncpus s)"

lemma move_cur:
  assumes "sched_ok s (G, R, N, u)"
  shows "rok (move_cur_task_to_nextq s) (\<lambda>s'. moved s s' \<and> sched_inv s' G R (N @ opt_list u) None)"
proof (cases u)
  case None
  with assms show ?thesis by (simp add: sched_ok_def move_cur_task_to_nextq_def opt_list_def)
next
  case (Some t)
  have i: "sched_inv s G R N (Some t)" "cur_task s = Some t" "length (G @ R @ N) + 1 < 2 ^ 63" "ready s t"
    using assms by (auto simp: sched_ok_def Some opt_list_def)
  have t: "t \<noteq> 0" "0 < task_pid (tcb s t)" using i(4) by (simp_all add: ready_def)
  have "rok (local_runq_len_set 1 (s\<lparr>lh := list_add_tail (local_nextq s) (TaskNode t) (lh s)\<rparr>)) (\<lambda>s'. moved s s' \<and> sched_inv s' G R (N @ [t]) None)"
    by (rule len_inc [OF i(1) t(1) i(3) add_queued(3) [OF sched_invD(1) [OF i(1)]]]) auto
  with i(2) t(2) show ?thesis by (simp add: move_cur_task_to_nextq_def queue_add_task_tail Some opt_list_def)
qed

lemma stepped_same:
  assumes "stepped s s'"
  shows "this_cpu s' = this_cpu s" "tcb s' = tcb s" "cur_task s' = cur_task s" "nuser_tasks s' = nuser_tasks s" "nkernel_tasks s' = nkernel_tasks s"
    "ncpus s' = ncpus s" "runq_avail s' = runq_avail s" "\<not> runq_avail s \<Longrightarrow> runq_busy s' = runq_busy s" "task_pml4 s' = task_pml4 s"
proof -
  obtain l where l: "moved (s\<lparr>runq_lock := l\<rparr>) s'" "lock_free l = lock_free (runq_lock s)" "\<not> lock_free l \<longrightarrow> l = runq_lock s"
    using assms by (auto simp: stepped_def)
  note m = moved_same [OF l(1)]
  show "this_cpu s' = this_cpu s" "tcb s' = tcb s" "cur_task s' = cur_task s" "nuser_tasks s' = nuser_tasks s" "nkernel_tasks s' = nkernel_tasks s"
    "ncpus s' = ncpus s" "runq_avail s' = runq_avail s" "\<not> runq_avail s \<Longrightarrow> runq_busy s' = runq_busy s" "task_pml4 s' = task_pml4 s"
    using l(2,3) by (simp_all add: m runq_avail_def runq_busy_def)
qed

lemma stepped_trans: "moved s s' \<Longrightarrow> stepped s' s'' \<Longrightarrow> stepped s s''"
proof -
  assume a: "moved s s'" "stepped s' s''"
  then obtain l where l: "moved (s'\<lparr>runq_lock := l\<rparr>) s''" "lock_free l = lock_free (runq_lock s)" "\<not> lock_free l \<longrightarrow> l = runq_lock s"
    using moved_same(8) [OF a(1)] by (auto simp: stepped_def)
  with moved_trans [OF moved_lock [OF a(1)] l(1)] show ?thesis unfolding stepped_def by blast
qed

text \<open>Running a task that was chosen from well-formed queues.\<close>

lemma chosen_ok:
  assumes "sched_ok s (G, R, N, u)" and "stepped s s1" and "moved s1 s2" and "s' = switch_to x s2" and "sched_inv s' G' R' N' (Some x)"
    and "set (G' @ R' @ N') \<union> {x} \<subseteq> set (G @ R @ N @ opt_list u)" and "length (G' @ R' @ N') \<le> length (G @ R @ N)"
  shows "sched_ok s' (G', R', N', Some x)" and "status_of s' x = TASK_RUNNING" and "cr3 s' = page2pa (task_pml4 s x)"
    and "task_frame (tcb s' t) = task_frame (tcb s t)" and "nuser_tasks s' = nuser_tasks s" and "ncpus s' = ncpus s" and "runq_avail s' = runq_avail s"
proof -
  note st = stepped_same [OF assms(2)] and mv = moved_same [OF assms(3)] and sw = switch_to_same
  have r: "ready s' t" if "t \<in> set (G @ R @ N @ opt_list u)" for t
  proof -
    have "ready s2 t" if "t \<in> set (G @ R @ N @ opt_list u)" for t
      using assms(1) that by (auto simp: sched_ok_def ready_def status_of_def mv st)
    then show ?thesis using switch_to_ready [of s2] that assms(6) unfolding assms(4) by blast
  qed
  have "t \<in> set (G @ R @ N @ opt_list u)" if "t \<in> set (G' @ R' @ N' @ opt_list (Some x))" for t
    using that assms(6) by (auto simp: opt_list_def)
  with r have "\<forall>t \<in> set (G' @ R' @ N' @ opt_list (Some x)). ready s' t" by blast
  moreover have "runq_avail s' = runq_avail s" using st by (simp add: assms(4) runq_avail_def mv sw)
  moreover have "runq_busy s'" if "\<not> runq_avail s"
    using assms(1) st(8) [OF that] that by (simp add: sched_ok_def assms(4) runq_busy_def mv sw)
  ultimately show "sched_ok s' (G', R', N', Some x)" "runq_avail s' = runq_avail s"
    using assms(1,5,7) by (auto simp: sched_ok_def assms(4) sw mv st)
  show "status_of s' x = TASK_RUNNING" "cr3 s' = page2pa (task_pml4 s x)" "task_frame (tcb s' t) = task_frame (tcb s t)" "nuser_tasks s' = nuser_tasks s" "ncpus s' = ncpus s"
    by (simp_all add: assms(4) sw mv st)
qed

lemma balance_set:
  assumes "balanced b goal (G, N) = (G', R')"
  shows "set G' \<union> set R' = set G \<union> set N" and "length G' + length R' = length G + length N"
proof -
  have "mset G' + mset R' = mset G + mset N"
  proof (cases "length N \<le> goal")
    case True
    have "mset G = mset (take (goal - length N) G) + mset (drop (goal - length N) G)" by (metis append_take_drop_id mset_append)
    with True assms show ?thesis by (auto simp: balanced_def balance_def split: if_splits)
  next
    case False
    have "mset N = mset (take (length N - goal) N) + mset (drop (length N - goal) N)" by (metis append_take_drop_id mset_append)
    with False assms show ?thesis by (auto simp: balanced_def balance_def split: if_splits)
  qed
  then have "mset (G' @ R') = mset (G @ N)" by simp
  from mset_eq_setD [OF this] mset_eq_length [OF this]
  show "set G' \<union> set R' = set G \<union> set N" "length G' + length R' = length G + length N" by simp_all
qed
lemma ready_tcb: "tcb s' = tcb s \<Longrightarrow> ready s' t = ready s t"
  by (simp add: ready_def status_of_def)

lemma sched_ok_ready:
  assumes "sched_ok s (G, R, N, u)" and "t \<in> set (G @ R @ N @ opt_list u) \<or> cur_task s = Some t"
  shows "ready s t"
  using assms by (auto simp: sched_ok_def opt_list_def)

lemma yield_local:
  assumes "sched_ok s (G, x # R, N, u)"
  shows "rok (sched_yield (Suc n) s) (\<lambda>(f, s'). f = Iret (task_frame (tcb s x)) \<and>
    (\<exists>s1. stepped s s \<and> moved s s1 \<and> s' = switch_to x s1) \<and> sched_inv s' G R (N @ opt_list u) (Some x))"
proof -
  have ne: "nuser_tasks s \<noteq> nkernel_tasks s" using assms by (simp add: sched_ok_def)
  obtain s1 where s1: "move_cur_task_to_nextq s = Inr s1" "moved s s1" "sched_inv s1 G (x # R) (N @ opt_list u) None"
    using move_cur [OF assms] by (auto simp: rok_iff)
  note m = moved_same [OF s1(2)]
  have r: "ready s1 t" if "t \<in> set (x # R) \<or> cur_task s1 = Some t" for t
    using sched_ok_ready [OF assms, of t] that by (auto simp: ready_tcb [OF m(2)] m(3))
  have "rok (try_run_next_task (sched_yield n) s1) (\<lambda>(f, s'). f = Iret (task_frame (tcb s x)) \<and>
       (\<exists>s2. moved s1 s2 \<and> s' = switch_to x s2) \<and> sched_inv s' G R (N @ opt_list u) (Some x))"
    using try_run [OF s1(3), of "sched_yield n"] r by (simp add: m)
  then obtain s2 where s2: "try_run_next_task (sched_yield n) s1 = Inr (Iret (task_frame (tcb s x)), switch_to x s2)" "moved s1 s2"
      "sched_inv (switch_to x s2) G R (N @ opt_list u) (Some x)" by (auto simp: rok_iff)
  have "sched_yield (Suc n) s = Inr (Iret (task_frame (tcb s x)), switch_to x s2)" using ne s1(1) s2(1) by (simp add: fbind_def)
  then show ?thesis using s2(3) moved_trans [OF s1(2) s2(2)] stepped_moved [OF moved_refl [of s]] by auto
qed

lemma yield_reload:
  assumes "sched_ok s (G, [], N, u)" and "balanced (runq_avail s) (task_goal s) (G, N @ opt_list u) = (G', Q)"
  shows "case Q of [] \<Rightarrow> \<exists>s'. sched_yield (Suc n) s = sched_yield n s' \<and> stepped s s' \<and> sched_inv s' G' [] [] None
    | x # R' \<Rightarrow> rok (sched_yield (Suc n) s) (\<lambda>(f, s'). f = Iret (task_frame (tcb s x)) \<and>
       (\<exists>s1 s2. stepped s s1 \<and> moved s1 s2 \<and> s' = switch_to x s2) \<and> sched_inv s' G' R' [] (Some x))"
proof -
  have ok: "nuser_tasks s \<noteq> nkernel_tasks s" "ncpus s \<noteq> 0" using assms(1) by (simp_all add: sched_ok_def)
  obtain s1 where s1: "move_cur_task_to_nextq s = Inr s1" "moved s s1" "sched_inv s1 G [] (N @ opt_list u) None"
    using move_cur [OF assms(1)] by (auto simp: rok_iff)
  note m = moved_same [OF s1(2)]
  have r: "ready s1 t" if "t \<in> set (G @ N @ opt_list u) \<or> cur_task s = Some t" for t
    using sched_ok_ready [OF assms(1), of t] that by (auto simp: ready_tcb [OF m(2)])
  have t: "try_run_next_task (sched_yield n) s1 = Inr (Returns (- 1), s1)"
    using try_run [OF s1(3), of "sched_yield n"] r by (simp add: m)
  have "runq_avail s1 \<or> runq_busy s1" "runq_avail s1 = runq_avail s" using assms(1) by (simp_all add: sched_ok_def runq_avail_def runq_busy_def m)
  then obtain s2 where s2: "FGL_migrate_tasks ((nuser_tasks s1 + (ncpus s1 - 1)) div ncpus s1) s1 = Inr s2" "stepped s1 s2" "sched_inv s2 G' Q [] None"
    using FGL_migrate [OF s1(3), of "(nuser_tasks s1 + (ncpus s1 - 1)) div ncpus s1" G' Q] assms(2) by (auto simp: rok_iff task_goal_def m)
  have st: "stepped s s2" by (rule stepped_trans [OF s1(2) s2(2)])
  note sm = stepped_same [OF st]
  have r2: "ready s2 t" if "t \<in> set Q \<or> cur_task s2 = Some t" for t
    using that r [of t] balance_set(1) [OF assms(2)] by (auto simp: ready_tcb [OF m(2)] ready_tcb [OF sm(2)] sm(3))
  show ?thesis
  proof (cases Q)
    case Nil
    have "try_run_next_task (sched_yield n) s2 = Inr (Returns (- 1), s2)" using try_run [OF s2(3), of "sched_yield n"] r2 Nil by auto
    then have "sched_yield (Suc n) s = sched_yield n s2" using ok s1(1) t s2(1) m by (simp add: fbind_def)
    with st s2(3) Nil show ?thesis by auto
  next
    case (Cons x R')
    have "rok (try_run_next_task (sched_yield n) s2) (\<lambda>(f, s'). f = Iret (task_frame (tcb s x)) \<and>
       (\<exists>s3. moved s2 s3 \<and> s' = switch_to x s3) \<and> sched_inv s' G' R' [] (Some x))"
      using try_run [OF s2(3), of "sched_yield n"] r2 Cons by (simp add: sm)
    then obtain s3 where s3: "try_run_next_task (sched_yield n) s2 = Inr (Iret (task_frame (tcb s x)), switch_to x s3)" "moved s2 s3"
        "sched_inv (switch_to x s3) G' R' [] (Some x)" by (auto simp: rok_iff)
    have "sched_yield (Suc n) s = Inr (Iret (task_frame (tcb s x)), switch_to x s3)" using ok s1(1) t s2(1) s3(1) m by (simp add: fbind_def)
    with st s3(2,3) Cons show ?thesis by auto
  qed
qed

text \<open>One step of the scheduler against one step of the abstract machine.\<close>

lemma yield_step:
  assumes "sched_ok s (G, R, N, u)" and "rr_step (runq_avail s) (task_goal s) (G, R, N, u) = (G', R', N', Some x)"
  shows "rok (sched_yield (Suc n) s) (\<lambda>(f, s'). f = Iret (task_frame (tcb s x)) \<and> sched_ok s' (G', R', N', Some x) \<and>
     status_of s' x = TASK_RUNNING \<and> cr3 s' = page2pa (task_pml4 s x) \<and> (\<forall>t. task_frame (tcb s' t) = task_frame (tcb s t)) \<and>
     nuser_tasks s' = nuser_tasks s \<and> ncpus s' = ncpus s \<and> runq_avail s' = runq_avail s)"
proof (cases R)
  case (Cons y R1)
  have q: "y = x" "G' = G" "R' = R1" "N' = N @ opt_list u" using assms(2) by (auto simp: rr_step_def Cons)
  show ?thesis
  proof (rule rok_mono [OF yield_local [OF assms(1) [unfolded Cons], of n]], clarsimp simp: q)
    fix s1
    assume a: "stepped s s" "moved s s1" "sched_inv (switch_to x s1) G R1 (N @ opt_list u) (Some x)"
    note c = chosen_ok [OF assms(1) a(1,2) refl a(3)]
    have "set (G @ R1 @ N @ opt_list u) \<union> {x} \<subseteq> set (G @ R @ N @ opt_list u)" "length (G @ R1 @ N @ opt_list u) \<le> length (G @ R @ N)"
      by (auto simp: Cons q(1) opt_list_def split: option.split)
    with c show "sched_ok (switch_to x s1) (G, R1, N @ opt_list u, Some x) \<and> status_of (switch_to x s1) x = TASK_RUNNING \<and>
       cr3 (switch_to x s1) = page2pa (task_pml4 s x) \<and> (\<forall>t. task_frame (tcb (switch_to x s1) t) = task_frame (tcb s t)) \<and>
       nuser_tasks (switch_to x s1) = nuser_tasks s \<and> ncpus (switch_to x s1) = ncpus s \<and> runq_avail (switch_to x s1) = runq_avail s"
      by simp
  qed
next
  case Nil
  obtain G1 Q where b: "balanced (runq_avail s) (task_goal s) (G, N @ opt_list u) = (G1, Q)" by fastforce
  then have q: "G' = G1" "Q = x # R'" "N' = []" using assms(2) by (auto simp: rr_step_def Nil split: list.splits)
  show ?thesis
  proof (rule rok_mono [OF yield_reload [OF assms(1) [unfolded Nil] b, of n, unfolded q(2) list.case]], clarsimp simp: q)
    fix s1 s2
    assume a: "stepped s s1" "moved s1 s2" "sched_inv (switch_to x s2) G1 R' [] (Some x)"
    note c = chosen_ok [OF assms(1) a(1,2) refl a(3)]
    have "set (G1 @ R' @ []) \<union> {x} \<subseteq> set (G @ R @ N @ opt_list u)" "length (G1 @ R' @ []) \<le> length (G @ R @ N)"
      using balance_set [OF b] q(2) by (auto simp: Nil opt_list_def split: option.splits)
    with c show "sched_ok (switch_to x s2) (G1, R', [], Some x) \<and> status_of (switch_to x s2) x = TASK_RUNNING \<and>
       cr3 (switch_to x s2) = page2pa (task_pml4 s x) \<and> (\<forall>t. task_frame (tcb (switch_to x s2) t) = task_frame (tcb s t)) \<and>
       nuser_tasks (switch_to x s2) = nuser_tasks s \<and> ncpus (switch_to x s2) = ncpus s \<and> runq_avail (switch_to x s2) = runq_avail s"
      by simp
  qed
qed
section \<open>Repeated scheduling\<close>

text \<open>A step repeated \<open>k\<close> times.\<close>

fun repeat_res :: "('s \<Rightarrow> 's res) \<Rightarrow> nat \<Rightarrow> 's \<Rightarrow> 's res" where
  "repeat_res step 0 s = Inr s"
| "repeat_res step (Suc k) s = rbind (step s) (repeat_res step k)"

lemma repeat_add: "rok (repeat_res f j s) (\<lambda>s'. rok (repeat_res f k s') Q) \<Longrightarrow> rok (repeat_res f (j + k) s) Q"
  by (induction j arbitrary: s) (auto simp: rok_rbind elim!: rok_mono)

text \<open>
  What the round-robin discipline promises for any scheduler that refines \<open>rr_step\<close> on the states \<open>rep\<close>
  relates to queues, as long as its share of tasks and the access to the global queue stay the same.
\<close>

locale rr_machine =
  fixes next_step :: "'s \<Rightarrow> 's res"
    and rep :: "'s \<Rightarrow> rr_state \<Rightarrow> bool"
    and avail :: "'s \<Rightarrow> bool"
    and goal :: "'s \<Rightarrow> nat"
  assumes step: "rep s q \<Longrightarrow> rr_step (avail s) (goal s) q = (G', R', N', Some x) \<Longrightarrow>
      rok (next_step s) (\<lambda>s'. rep s' (G', R', N', Some x) \<and> avail s' = avail s \<and> goal s' = goal s)"
begin

definition at :: "'s \<Rightarrow> 's \<Rightarrow> rr_state \<Rightarrow> bool" where
  "at s s' q \<longleftrightarrow> rep s' q \<and> avail s' = avail s \<and> goal s' = goal s"

lemma at_trans: "at s s' q \<Longrightarrow> at s' s'' q' \<Longrightarrow> at s s'' q'"
  by (simp add: at_def)

lemma one_step:
  assumes "rep s q" and "rr_step (avail s) (goal s) q = (G', R', N', Some x)"
  shows "rok (repeat_res next_step 1 s) (\<lambda>s'. at s s' (G', R', N', Some x))"
  using step [OF assms] by (auto simp: rok_rbind at_def elim!: rok_mono)

lemma local_order:
  assumes "rep s (G, R, N, u)" and "i < length R"
  shows "rok (repeat_res next_step (Suc i) s) (\<lambda>s'. at s s' (G, drop (Suc i) R, N @ opt_list u @ take i R, Some (R ! i)))"
  using assms(2)
proof (induction i)
  case 0
  then obtain x R' where "R = x # R'" by (cases R) auto
  then show ?case using one_step [OF assms(1), of G "tl R" "N @ opt_list u" x] by (simp add: rr_step_def)
next
  case (Suc i)
  then have lt: "i < length R" by simp
  have "rok (repeat_res next_step (Suc i + 1) s) (\<lambda>s'. at s s' (G, drop (Suc (Suc i)) R, N @ opt_list u @ take (Suc i) R, Some (R ! Suc i)))"
  proof (rule repeat_add, rule rok_mono [OF Suc.IH [OF lt]])
    fix s1
    assume at: "at s s1 (G, drop (Suc i) R, N @ opt_list u @ take i R, Some (R ! i))"
    then have ok: "rep s1 (G, drop (Suc i) R, N @ opt_list u @ take i R, Some (R ! i))" by (simp add: at_def)
    have d: "drop (Suc i) R = R ! Suc i # drop (Suc (Suc i)) R" using Suc.prems by (simp add: Cons_nth_drop_Suc)
    have t: "take i R @ [R ! i] = take (Suc i) R" using lt by (simp add: take_Suc_conv_app_nth)
    have "rr_step (avail s1) (goal s1) (G, drop (Suc i) R, N @ opt_list u @ take i R, Some (R ! i)) =
        (G, drop (Suc (Suc i)) R, N @ opt_list u @ take (Suc i) R, Some (R ! Suc i))"
      unfolding d rr_step_def by (simp add: t [symmetric] opt_list_def)
    from one_step [OF ok this]
    show "rok (repeat_res next_step 1 s1) (\<lambda>s'. at s s' (G, drop (Suc (Suc i)) R, N @ opt_list u @ take (Suc i) R, Some (R ! Suc i)))"
      by (rule rok_mono) (rule at_trans [OF at])
  qed
  then show ?case by simp
qed

lemma drain:
  assumes "rep s (G, R, N, u)"
  shows "rok (repeat_res next_step (length R) s) (\<lambda>s1. \<exists>N1 u1. at s s1 (G, [], N1, u1) \<and> N1 @ opt_list u1 = N @ opt_list u @ R)"
proof (cases "R = []")
  case True
  then show ?thesis using assms by (auto simp: at_def)
next
  case False
  then have l: "Suc (length R - 1) = length R" by (cases R) auto
  have e: "take (length R - 1) R @ [R ! (length R - 1)] = R" using False by (simp add: take_Suc_conv_app_nth [symmetric] l)
  from local_order [OF assms, of "length R - 1"] False
  have "rok (repeat_res next_step (length R) s) (\<lambda>s1. at s s1 (G, [], N @ opt_list u @ take (length R - 1) R, Some (R ! (length R - 1))))"
    by (simp add: l)
  then show ?thesis by (rule rok_mono) (intro exI conjI, assumption, simp add: opt_list_def e [unfolded One_nat_def])
qed

text \<open>When the share of the CPU is all tasks, the reloaded queue holds every task.\<close>

lemma reload:
  assumes "rep s (G, [], N, u)" and "avail s" and "goal s = length (G @ N @ opt_list u)" and "N @ opt_list u @ G = x # R'"
  shows "rok (repeat_res next_step 1 s) (\<lambda>s'. at s s' ([], R', [], Some x))"
proof -
  have b: "balanced (avail s) (goal s) (G, N @ opt_list u) = ([], x # R')"
    using assms(2-4) by (simp add: balanced_def balance_def)
  show ?thesis by (rule one_step [OF assms(1)]) (simp add: rr_step_def b)
qed

lemma all_run:
  assumes "rep s (G, R, N, u)" and "avail s" and "goal s = length (G @ R @ N @ opt_list u)" and "t \<in> set (G @ R @ N @ opt_list u)"
  shows "\<exists>k \<le> length G + 2 * length R + length N + 2. rok (repeat_res next_step k s) (\<lambda>s'. \<exists>G' R' N'. rep s' (G', R', N', Some t))"
proof (cases "t \<in> set R")
  case True
  then obtain i where i: "i < length R" "R ! i = t" by (auto simp: in_set_conv_nth)
  have "rok (repeat_res next_step (Suc i) s) (\<lambda>s'. \<exists>G' R' N'. rep s' (G', R', N', Some t))"
    by (rule rok_mono [OF local_order [OF assms(1) i(1)]]) (auto simp: at_def i(2))
  then show ?thesis using i(1) by (intro exI [of _ "Suc i"]) simp
next
  case False
  let ?Q = "N @ opt_list u @ R @ G"
  from False assms(4) have "t \<in> set ?Q" by auto
  then obtain j where j: "j < length ?Q" "?Q ! j = t" unfolding in_set_conv_nth by blast
  have "rok (repeat_res next_step (length R + (1 + j)) s) (\<lambda>s'. \<exists>G' R' N'. rep s' (G', R', N', Some t))"
  proof (rule repeat_add, rule rok_mono [OF drain [OF assms(1)]], elim exE conjE)
    fix s1 N1 u1
    assume at: "at s s1 (G, [], N1, u1)" and e: "N1 @ opt_list u1 = N @ opt_list u @ R"
    have q: "N1 @ opt_list u1 @ G = ?Q" using e by (metis append.assoc)
    have "length (G @ N1 @ opt_list u1) = length (G @ R @ N @ opt_list u)" using arg_cong [OF e, of length] by simp
    then have ok: "rep s1 (G, [], N1, u1)" "avail s1" "goal s1 = length (G @ N1 @ opt_list u1)" using at assms(2,3) by (simp_all only: at_def)
    obtain x R1 where x: "?Q = x # R1" using j(1) by (cases ?Q) auto
    show "rok (repeat_res next_step (1 + j) s1) (\<lambda>s'. \<exists>G' R' N'. rep s' (G', R', N', Some t))"
    proof (rule repeat_add, rule rok_mono [OF reload [OF ok q [unfolded x]]])
      fix s2
      assume "at s1 s2 ([], R1, [], Some x)"
      then have ok2: "rep s2 ([], R1, [], Some x)" by (simp add: at_def)
      show "rok (repeat_res next_step j s2) (\<lambda>s'. \<exists>G' R' N'. rep s' (G', R', N', Some t))"
      proof (cases j)
        case 0
        then show ?thesis using ok2 j(2) x by auto
      next
        case (Suc i)
        then have i: "i < length R1" "R1 ! i = t" using j x by simp_all
        show ?thesis unfolding Suc by (rule rok_mono [OF local_order [OF ok2 i(1)]]) (auto simp: at_def i(2))
      qed
    qed
  qed
  moreover have "length (opt_list u) \<le> 1" by (simp add: opt_list_def split: option.split)
  ultimately show ?thesis using j(1) by (intro exI [of _ "length R + (1 + j)"]) simp
qed

end

text \<open>A call of \<^verbatim>\<open>sched_yield\<close> that ends in a task, as a timer interrupt causes it.\<close>

definition tick :: "nat \<Rightarrow> 'z ktask_scheme \<Rightarrow> 'z ktask_scheme res" where
  "tick n s = rbind (sched_yield n s) (\<lambda>(f, s). case f of Iret _ \<Rightarrow> Inr s | _ \<Rightarrow> Inl KDiverge)"

interpretation rr: rr_machine "tick (Suc n)" sched_ok runq_avail task_goal for n
proof
  fix s :: "'z ktask_scheme" and q G' R' N' x
  assume a: "sched_ok s q" "rr_step (runq_avail s) (task_goal s) q = (G', R', N', Some x)"
  obtain G R N u where q: "q = (G, R, N, u)" by (cases q) auto
  show "rok (tick (Suc n) s) (\<lambda>s'. sched_ok s' (G', R', N', Some x) \<and> runq_avail s' = runq_avail s \<and> task_goal s' = task_goal s)"
    using yield_step [OF a [unfolded q], of n] by (auto simp: tick_def rok_iff task_goal_def simp del: sched_yield.simps)
qed

end
