(* ===== verification/Slab_Inv.thy ===== *)
theory Slab_Inv
  imports Slab
begin

text \<open>
  The representation invariant of the kernel heap: the layout of a chunk (objects from the start of
  its page, the footer behind them, no two overlapping), the lists a slab keeps of its partial and
  full chunks and each chunk of its free objects, and the invariant \<open>heap_inv\<close> over all slabs and
  the page allocator. The lemmas show what taking an object from a chunk and putting it back do.
\<close>

section \<open>The layout of a chunk\<close>

definition slab_geom :: "slab \<Rightarrow> bool" where
  "slab_geom sl \<longleftrightarrow> SIZEOF_SLAB_OBJ < obj_size sl \<and> 0 < count sl \<and> info_off sl = obj_size sl * count sl \<and>
     info_off sl + SIZEOF_SLAB_INFO \<le> 4096"

definition info_at :: "slab \<Rightarrow> nat \<Rightarrow> nat" where
  "info_at sl p = 4096 * p + info_off sl"

definition obj_at :: "slab \<Rightarrow> nat \<Rightarrow> nat \<Rightarrow> nat" where
  "obj_at sl p k = 4096 * p + k * obj_size sl"

definition objs :: "slab \<Rightarrow> nat \<Rightarrow> nat set" where
  "objs sl p = obj_at sl p ` {..<count sl}"

lemma obj_at_bound:
  assumes "slab_geom sl" and "k < count sl"
  shows "obj_at sl p k + obj_size sl \<le> info_at sl p"
proof -
  have "Suc k * obj_size sl \<le> count sl * obj_size sl" using assms(2) by (intro mult_le_mono1) simp
  then show ?thesis using assms(1) by (simp add: obj_at_def info_at_def slab_geom_def mult.commute)
qed

lemma objs_bound:
  assumes "slab_geom sl" and "a \<in> objs sl p"
  shows "4096 * p \<le> a" and "a + obj_size sl \<le> info_at sl p" and "a div 4096 = p"
proof -
  obtain k where k: "a = obj_at sl p k" "k < count sl" using assms(2) by (auto simp: objs_def)
  show lo: "4096 * p \<le> a" using k by (simp add: obj_at_def)
  show hi: "a + obj_size sl \<le> info_at sl p" using obj_at_bound [OF assms(1) k(2)] k(1) by simp
  have "info_at sl p < 4096 * p + 4096" "0 < obj_size sl" using assms(1) by (auto simp: slab_geom_def info_at_def SIZEOF_SLAB_INFO_def)
  then have "a < 4096 * Suc p" using hi by simp
  with lo show "a div 4096 = p" by (intro div_nat_eqI) simp_all
qed

lemma info_at_page: "slab_geom sl \<Longrightarrow> info_at sl p div 4096 = p"
  by (intro div_nat_eqI) (simp_all add: slab_geom_def info_at_def SIZEOF_SLAB_INFO_def)

lemma objs_spaced:
  assumes "a \<in> objs sl p" and "b \<in> objs sl p" and "a < b"
  shows "a + obj_size sl \<le> b"
proof -
  obtain i j where ij: "a = obj_at sl p i" "b = obj_at sl p j" using assms by (auto simp: objs_def)
  have "\<not> j \<le> i" using mult_le_mono1 [of j i "obj_size sl"] assms(3) ij by (auto simp: obj_at_def)
  then have "Suc i * obj_size sl \<le> j * obj_size sl" by (intro mult_le_mono1) simp
  then show ?thesis unfolding ij obj_at_def by simp
qed

lemma objs_apart:
  assumes "slab_geom sl" "slab_geom sl'" "a \<in> objs sl p" "b \<in> objs sl' q" "p \<noteq> q \<or> sl = sl' \<and> a \<noteq> b"
  shows "a + obj_size sl \<le> b \<or> b + obj_size sl' \<le> a"
proof (cases "p = q")
  case True
  then have "a < b \<or> b < a" "sl = sl'" using assms(5) by auto
  with objs_spaced [of a sl p b] objs_spaced [of b sl p a] assms True show ?thesis by auto
next
  case False
  have top: "info_at sl p \<le> 4096 * Suc p" "info_at sl' q \<le> 4096 * Suc q"
    using assms(1,2) by (auto simp: info_at_def slab_geom_def)
  note bounds = top objs_bound(1,2) [OF assms(1,3)] objs_bound(1,2) [OF assms(2,4)]
  have "Suc p \<le> q \<or> Suc q \<le> p" using False by arith
  then show ?thesis
  proof
    assume "Suc p \<le> q"
    then have "4096 * Suc p \<le> 4096 * q" by (rule mult_le_mono2)
    then show ?thesis using bounds by linarith
  next
    assume "Suc q \<le> p"
    then have "4096 * Suc q \<le> 4096 * p" by (rule mult_le_mono2)
    then show ?thesis using bounds by linarith
  qed
qed

lemma inj_obj_at: "slab_geom sl \<Longrightarrow> inj_on (obj_at sl p) A"
  by (auto simp: inj_on_def obj_at_def slab_geom_def)

lemma card_objs: "slab_geom sl \<Longrightarrow> card (objs sl p) = count sl"
  unfolding objs_def by (subst card_image) (auto intro: inj_obj_at)

lemma finite_objs [simp]: "finite (objs sl p)"
  by (simp add: objs_def)

lemma geom_count: "slab_geom sl \<Longrightarrow> count sl \<le> 4096"
proof -
  assume g: "slab_geom sl"
  then have "1 * count sl \<le> obj_size sl * count sl" by (intro mult_le_mono1) (simp add: slab_geom_def)
  with g show ?thesis unfolding slab_geom_def by linarith
qed

lemma slab_setup_geom:
  assumes "n \<le> 4008"
  shows "slab_geom (slabs (slab_setup x n s) x)" and "n + SIZEOF_SLAB_OBJ \<le> obj_size (slabs (slab_setup x n s) x)"
    and "32 dvd obj_size (slabs (slab_setup x n s) x)" and "4096 < info_off (slabs (slab_setup x n s) x) + SIZEOF_SLAB_INFO + obj_size (slabs (slab_setup x n s) x)"
proof -
  define z where "z = roundup_nat (n + SIZEOF_SLAB_OBJ) 32"
  define c where "c = (4096 - SIZEOF_SLAB_INFO) div z"
  have sl: "slabs (slab_setup x n s) x = \<lparr>info_off = z * c, obj_size = z, count = c\<rparr>"
    by (simp add: slab_setup_def klist_init_def Let_def z_def c_def)
  have z: "n + 24 \<le> z" "32 dvd z" "z \<le> n + 55"
  proof -
    have "z = 32 * ((n + 55) div 32)" unfolding z_def roundup_nat_def SIZEOF_SLAB_OBJ_def by (simp add: minus_mod_eq_mult_div)
    then show "32 dvd z" "z \<le> n + 55" by simp_all
    have "(n + 55) mod 32 < 32" by simp
    then show "n + 24 \<le> z" unfolding z_def roundup_nat_def SIZEOF_SLAB_OBJ_def by simp
  qed
  have "z \<le> 4032"
  proof -
    obtain m where m: "z = 32 * m" using z(2) by blast
    with z(3) assms have "32 * m \<le> 4063" by simp
    then show ?thesis using m by simp
  qed
  then have c: "0 < c" "z * c \<le> 4048" "4048 < z * c + z"
    using z(1) div_greater_zero_iff [of 4048 z] dividend_less_times_div [of z 4048]
    by (simp_all add: c_def SIZEOF_SLAB_INFO_def)
  show "slab_geom (slabs (slab_setup x n s) x)" "n + SIZEOF_SLAB_OBJ \<le> obj_size (slabs (slab_setup x n s) x)"
    "32 dvd obj_size (slabs (slab_setup x n s) x)" "4096 < info_off (slabs (slab_setup x n s) x) + SIZEOF_SLAB_INFO + obj_size (slabs (slab_setup x n s) x)"
    unfolding sl using z c dvd_imp_le [OF z(2)] by (simp_all add: slab_geom_def SIZEOF_SLAB_OBJ_def SIZEOF_SLAB_INFO_def)
qed

section \<open>The invariant of one slab\<close>

text \<open>
  \<open>chunk_ok s L x p os\<close>: page \<open>p\<close> is a chunk of slab \<open>x\<close> whose free list holds the objects \<open>os\<close>. Its
  objects point to its footer, the footer to the slab, and an object in use is on no list.
\<close>

definition chunk_ok :: "'z kslab_scheme \<Rightarrow> (anchor \<rightharpoonup> anchor list) \<Rightarrow> nat \<Rightarrow> nat \<Rightarrow> nat list \<Rightarrow> bool" where
  "chunk_ok s L x p os \<longleftrightarrow>
     si_slab (sinfo s (info_at (slabs s x) p)) = x \<and> free_count (sinfo s (info_at (slabs s x) p)) = length os \<and>
     L (InfoFree (info_at (slabs s x) p)) = Some (map ObjNode os) \<and> set os \<subseteq> objs (slabs s x) p \<and>
     (\<forall>a\<in>objs (slabs s x) p. obj_info s a = info_at (slabs s x) p \<and> (a \<notin> set os \<longrightarrow> L (ObjNode a) = Some []))"

text \<open>\<open>slab_rel s L x ps fs F\<close>: slab \<open>x\<close> has the partial chunks \<open>ps\<close> and the full chunks \<open>fs\<close>, with free lists \<open>F\<close>.\<close>

definition slab_rel :: "'z kslab_scheme \<Rightarrow> (anchor \<rightharpoonup> anchor list) \<Rightarrow> nat \<Rightarrow> nat list \<Rightarrow> nat list \<Rightarrow> (nat \<Rightarrow> nat list) \<Rightarrow> bool" where
  "slab_rel s L x ps fs F \<longleftrightarrow> slab_geom (slabs s x) \<and> distinct (ps @ fs) \<and>
     L (SlabPartial x) = Some (map (\<lambda>p. InfoNode (info_at (slabs s x) p)) ps) \<and>
     L (SlabFull x) = Some (map (\<lambda>p. InfoNode (info_at (slabs s x) p)) fs) \<and>
     (\<forall>p\<in>set (ps @ fs). chunk_ok s L x p (F p)) \<and> (\<forall>p\<in>set ps. F p \<noteq> []) \<and> (\<forall>p\<in>set fs. F p = [])"

text \<open>The page an anchor of the slab allocator lies in, and the anchors an operation on slab \<open>x\<close> and page \<open>p\<close> may touch.\<close>

fun anchor_page :: "anchor \<Rightarrow> nat option" where
  "anchor_page (InfoNode i) = Some (i div 4096)"
| "anchor_page (InfoFree i) = Some (i div 4096)"
| "anchor_page (ObjNode i) = Some (i div 4096)"
| "anchor_page _ = None"

definition touched :: "nat \<Rightarrow> nat \<Rightarrow> anchor \<Rightarrow> bool" where
  "touched x p a \<longleftrightarrow> a = SlabPartial x \<or> a = SlabFull x \<or> anchor_page a = Some p"

definition slab_anchor :: "anchor \<Rightarrow> bool" where
  "slab_anchor a \<longleftrightarrow> anchor_page a \<noteq> None \<or> (\<exists>z. a = SlabPartial z \<or> a = SlabFull z)"

definition same_chunks :: "nat \<Rightarrow> 'z kslab_scheme \<Rightarrow> 'z kslab_scheme \<Rightarrow> bool" where
  "same_chunks p s s' \<longleftrightarrow> slabs s' = slabs s \<and> (\<forall>i. i div 4096 \<noteq> p \<longrightarrow> sinfo s' i = sinfo s i \<and> obj_info s' i = obj_info s i)"

lemma chunk_ok_frame:
  assumes ok: "chunk_ok s L x q os" and g: "slab_geom (slabs s x)" and ne: "q \<noteq> p" and s: "same_chunks p s s'"
    and L: "\<And>a. anchor_page a = Some q \<Longrightarrow> L' a = L a"
  shows "chunk_ok s' L' x q os"
proof -
  let ?sl = "slabs s x"
  have sl: "slabs s' x = ?sl" using s by (simp add: same_chunks_def)
  have i: "info_at ?sl q div 4096 = q" by (rule info_at_page [OF g])
  have o: "a div 4096 = q" if "a \<in> objs ?sl q" for a by (rule objs_bound(3) [OF g that])
  show ?thesis unfolding chunk_ok_def sl
    using ok s ne i o L [of "InfoFree (info_at ?sl q)"] L [of "ObjNode _"] by (auto simp: chunk_ok_def same_chunks_def)
qed

lemma slab_rel_frame:
  assumes rel: "slab_rel s L y ps fs F" and ne: "x \<noteq> y" "p \<notin> set (ps @ fs)" and s: "same_chunks p s s'"
    and L: "\<And>a. slab_anchor a \<Longrightarrow> \<not> touched x p a \<Longrightarrow> L' a = L a"
  shows "slab_rel s' L' y ps fs F"
proof -
  have g: "slab_geom (slabs s y)" and sl: "slabs s' y = slabs s y" using rel s by (auto simp: slab_rel_def same_chunks_def)
  have "chunk_ok s' L' y q (F q)" if q: "q \<in> set (ps @ fs)" for q
  proof (rule chunk_ok_frame [OF _ g _ s])
    show "chunk_ok s L y q (F q)" using rel q by (simp add: slab_rel_def)
    show "q \<noteq> p" using q ne(2) by auto
    show "L' a = L a" if "anchor_page a = Some q" for a
      using L [of a] that ne q by (cases a) (auto simp: touched_def slab_anchor_def)
  qed
  moreover have "L' (SlabPartial y) = L (SlabPartial y)" "L' (SlabFull y) = L (SlabFull y)"
    using L [of "SlabPartial y"] L [of "SlabFull y"] ne(1) by (auto simp: touched_def slab_anchor_def)
  ultimately show ?thesis using rel unfolding slab_rel_def sl by simp
qed

lemma klinks_rep: "klinks h L \<Longrightarrow> L a = Some xs \<Longrightarrow> is_list h a xs"
  by (rule rings.family_rep [OF klinks_family])

lemma klinks_hd: "klinks h L \<Longrightarrow> L a = Some (n # xs) \<Longrightarrow> nx h a = n"
  using is_list_head_nodes(1) [OF klinks_rep] by simp

lemma klinks_empty: "klinks h L \<Longrightarrow> L a = Some xs \<Longrightarrow> list_is_empty a h \<longleftrightarrow> xs = []"
  by (rule is_list_empty_iff [OF klinks_rep])

lemma klist_del_rok:
  assumes "klinks (lh s) L" and "L a = Some xs" and "n \<in> set xs"
  shows "\<exists>h. klist_del n s = Inr (s\<lparr>lh := h\<rparr>) \<and> klinks h (L(a \<mapsto> remove1 n xs, n \<mapsto> []))"
  using klinks_del [OF assms] by (auto simp: klist_del_def rok_iff)

lemma slab_rel_update:
  assumes rel: "slab_rel s L x ps fs F" and s: "same_chunks p s s'"
    and L: "\<And>a. slab_anchor a \<Longrightarrow> \<not> touched x p a \<Longrightarrow> L' a = L a"
    and ok: "chunk_ok s' L' x p os"
    and lists: "L' (SlabPartial x) = Some (map (\<lambda>p. InfoNode (info_at (slabs s x) p)) ps')"
      "L' (SlabFull x) = Some (map (\<lambda>p. InfoNode (info_at (slabs s x) p)) fs')"
    and sets: "distinct (ps' @ fs')" "\<And>q. q \<in> set ps' \<longleftrightarrow> (if q = p then os \<noteq> [] else q \<in> set ps)"
      "\<And>q. q \<in> set fs' \<longleftrightarrow> (if q = p then os = [] else q \<in> set fs)"
  shows "slab_rel s' L' x ps' fs' (F(p := os))"
proof -
  have g: "slab_geom (slabs s x)" and sl: "slabs s' x = slabs s x" using rel s by (auto simp: slab_rel_def same_chunks_def)
  have "chunk_ok s' L' x q (F q)" if q: "q \<in> set (ps' @ fs')" "q \<noteq> p" for q
  proof (rule chunk_ok_frame [OF _ g q(2) s])
    have "q \<in> set (ps @ fs)" using q sets(2,3) by auto
    then show "chunk_ok s L x q (F q)" using rel by (simp add: slab_rel_def)
    show "L' a = L a" if "anchor_page a = Some q" for a
      using L [of a] that q(2) by (cases a) (auto simp: touched_def slab_anchor_def)
  qed
  moreover have "F q \<noteq> []" if "q \<in> set ps'" "q \<noteq> p" for q using rel that sets(2) [of q] by (simp add: slab_rel_def)
  moreover have "F q = []" if "q \<in> set fs'" "q \<noteq> p" for q using rel that sets(3) [of q] by (simp add: slab_rel_def)
  ultimately show ?thesis using g sets(1) lists ok sets(2,3) [of p] unfolding slab_rel_def sl by auto
qed

lemma info_upd_simps [simp]:
  "lh (info_upd i f s) = lh s" "slabs (info_upd i f s) = slabs s" "obj_info (info_upd i f s) = obj_info s"
  "sinfo (info_upd i f s) j = (if j = i then f (sinfo s i) else sinfo s j)" "pages (info_upd i f s) = pages s" "pmem (info_upd i f s) = pmem s"
  "npages (info_upd i f s) = npages s" "this_cpu (info_upd i f s) = this_cpu s" "buddy_lock (info_upd i f s) = buddy_lock s"
  by (simp_all add: info_upd_def)

text \<open>What the operations on objects change.\<close>

definition slab_frame :: "nat \<Rightarrow> nat \<Rightarrow> 'z kslab_scheme \<Rightarrow> (anchor \<rightharpoonup> anchor list) \<Rightarrow> 'z kslab_scheme \<Rightarrow> (anchor \<rightharpoonup> anchor list) \<Rightarrow> bool" where
  "slab_frame x p s L s' L' \<longleftrightarrow> klinks (lh s') L' \<and> same_chunks p s s' \<and> ring_nodes L' \<subseteq> ring_nodes L \<and>
     (\<forall>a. \<not> touched x p a \<longrightarrow> L' a = L a) \<and> s' = s\<lparr>lh := lh s', pmem := pmem s', sinfo := sinfo s'\<rparr> \<and> (\<forall>f. f \<noteq> p \<longrightarrow> pmem s' f = pmem s f)"

lemma slab_take_spec:
  assumes rel: "slab_rel s L x (p # ps) fs F" and kl: "klinks (lh s) L" and F: "F p = a # os"
  shows "\<exists>s' L' ps' fs'. slab_take x s = Inr (Some (a + SIZEOF_SLAB_OBJ), s') \<and> slab_rel s' L' x ps' fs' (F(p := os)) \<and>
     set (ps' @ fs') = set (p # ps @ fs) \<and> slab_frame x p s L s' L' \<and> pmem s' = pmem s"
proof -
  let ?sl = "slabs s x"
  define i where "i = info_at ?sl p"
  have g: "slab_geom ?sl" and ok: "chunk_ok s L x p (a # os)" and pd: "p \<notin> set ps" "p \<notin> set fs" "distinct (ps @ fs)"
    using rel F by (auto simp: slab_rel_def)
  have ip: "i div 4096 = p" unfolding i_def by (rule info_at_page [OF g])
  have ap: "b div 4096 = p" if "b \<in> objs ?sl p" for b by (rule objs_bound(3) [OF g that])
  have LI: "L (InfoFree i) = Some (map ObjNode (a # os))" and a: "a \<in> objs ?sl p" and os: "set os \<subseteq> objs ?sl p"
    and fc: "free_count (sinfo s i) = Suc (length os)" and sx: "si_slab (sinfo s i) = x"
    using ok by (auto simp: chunk_ok_def i_def)
  have LP: "L (SlabPartial x) = Some (map (\<lambda>p. InfoNode (info_at ?sl p)) (p # ps))"
    and LF: "L (SlabFull x) = Some (map (\<lambda>p. InfoNode (info_at ?sl p)) fs)" using rel by (auto simp: slab_rel_def)
  have da: "distinct (a # os)" using klinks_rep [OF kl LI] by (auto simp: is_list_def distinct_map)
  have small: "length os < 2 ^ 64"
  proof -
    have "length os \<le> card (objs ?sl p)" using da os by (metis card_mono distinct.simps(2) distinct_card finite_objs)
    then show ?thesis using card_objs [OF g] geom_count [OF g] by simp
  qed
  have nx: "nx (lh s) (SlabPartial x) = InfoNode i" "nx (lh s) (InfoFree i) = ObjNode a"
    using klinks_hd [OF kl] LP LI by (auto simp: i_def)
  define L1 where "L1 = L(InfoFree i \<mapsto> map ObjNode os, ObjNode a \<mapsto> [])"
  obtain h1 where h1: "klist_del (ObjNode a) s = Inr (s\<lparr>lh := h1\<rparr>)" "klinks h1 L1"
    using klist_del_rok [OF kl LI, of "ObjNode a"] by (auto simp: L1_def)
  define s2 where "s2 = info_upd i (\<lambda>f. f\<lparr>free_count := (free_count f + (2 ^ 64 - 1)) mod 2 ^ 64\<rparr>) (s\<lparr>lh := h1\<rparr>)"
  have fc2: "free_count (sinfo s2 i) = length os" using fc small by (simp add: s2_def)
  have sc: "same_chunks p s s2" using ip by (auto simp: same_chunks_def s2_def)
  have rn1: "ring_nodes L1 \<subseteq> ring_nodes L" using ring_nodes_del [of L, OF LI, of "ObjNode a"] by (simp add: L1_def)
  have emp: "list_is_empty (InfoFree i) h1 \<longleftrightarrow> os = []" using klinks_empty [OF h1(2), of "InfoFree i"] by (simp add: L1_def)
  have chunk: "chunk_ok s' L' x p os"
    if "slabs s' = slabs s" "sinfo s' = sinfo s2" "obj_info s' = obj_info s" "\<And>b. L' (ObjNode b) = L1 (ObjNode b)" "L' (InfoFree i) = L1 (InfoFree i)" for s' :: "'a kslab_scheme" and L'
    using ok os fc2 that sx da by (auto simp: chunk_ok_def i_def [symmetric] L1_def s2_def)
  show ?thesis
  proof (cases "os = []")
    case False
    have run: "slab_take x s = Inr (Some (a + SIZEOF_SLAB_OBJ), s2)"
      unfolding slab_take_def nx using h1(1) emp False by (simp add: nx Let_def s2_def)
    have "slab_rel s2 L1 x (p # ps) fs (F(p := os))"
      by (rule slab_rel_update [OF rel sc]) (use chunk [of s2 L1] LP LF pd False ip ap [OF a] in \<open>auto simp: touched_def L1_def s2_def\<close>)
    moreover have "slab_frame x p s L s2 L1"
      using h1(2) sc rn1 ip ap [OF a] by (auto simp: slab_frame_def touched_def L1_def s2_def info_upd_def)
    ultimately show ?thesis using run by (intro exI [of _ s2] exI [of _ L1] exI [of _ "p # ps"] exI [of _ fs]) (simp add: s2_def)
  next
    case True
    have LP1: "L1 (SlabPartial x) = Some (InfoNode i # map (\<lambda>p. InfoNode (info_at ?sl p)) ps)" using LP by (simp add: L1_def i_def)
    define L2 where "L2 = L1(SlabPartial x \<mapsto> map (\<lambda>p. InfoNode (info_at ?sl p)) ps, InfoNode i \<mapsto> [])"
    have k2: "klinks (lh s2) L1" using h1(2) by (simp add: s2_def)
    obtain h2 where h2: "klist_del (InfoNode i) s2 = Inr (s2\<lparr>lh := h2\<rparr>)" "klinks h2 L2"
      using klist_del_rok [OF k2 LP1, of "InfoNode i"] by (auto simp: L2_def)
    define L3 where "L3 = L2(SlabFull x \<mapsto> InfoNode i # map (\<lambda>p. InfoNode (info_at ?sl p)) fs, InfoNode i := None)"
    have LF2: "L2 (SlabFull x) = Some (map (\<lambda>p. InfoNode (info_at ?sl p)) fs)" "L2 (InfoNode i) = Some []"
      using LF by (simp_all add: L2_def L1_def)
    have k3: "klinks (list_add (SlabFull x) (InfoNode i) h2) L3"
      using klinks_add [OF h2(2) LF2] by (simp add: L3_def)
    define s3 where "s3 = s2\<lparr>lh := list_add (SlabFull x) (InfoNode i) h2\<rparr>"
    have run: "slab_take x s = Inr (Some (a + SIZEOF_SLAB_OBJ), s3)"
      unfolding slab_take_def nx using h1(1) emp True h2(1) by (simp add: nx Let_def s2_def s3_def klist_add_def)
    have rn3: "ring_nodes L3 \<subseteq> ring_nodes L"
      using ring_nodes_add [of L2, OF LF2] ring_nodes_del [of L1, OF LP1, of "InfoNode i"] rn1 by (auto simp: L3_def L2_def)
    have sc3: "same_chunks p s s3" using sc by (simp add: same_chunks_def s3_def)
    have "slab_rel s3 L3 x ps (p # fs) (F(p := os))"
      by (rule slab_rel_update [OF rel sc3]) (use chunk [of s3 L3] pd True ip ap [OF a] in \<open>auto simp: touched_def L3_def L2_def L1_def s3_def s2_def i_def\<close>)
    moreover have "slab_frame x p s L s3 L3"
      using k3 sc3 rn3 ip ap [OF a] by (auto simp: slab_frame_def touched_def L3_def L2_def L1_def s3_def s2_def info_upd_def)
    ultimately show ?thesis using run by (intro exI [of _ s3] exI [of _ L3] exI [of _ ps] exI [of _ "p # fs"]) (auto simp: s3_def s2_def)
  qed
qed

text \<open>\<^verbatim>\<open>slab_free\<close> up to the test whether the chunk is empty.\<close>

lemma slab_free_spec:
  assumes rel: "slab_rel s L x ps fs F" and kl: "klinks (lh s) L" and p: "p \<in> set (ps @ fs)"
    and a: "a \<in> objs (slabs s x) p" "a \<notin> set (F p)"
  shows "\<exists>s' L' ps' fs'. slab_free (a + SIZEOF_SLAB_OBJ) s =
       (if count (slabs s x) \<le> Suc (length (F p)) then slab_free_chunk x (info_at (slabs s x) p) s' else Inr s') \<and>
     slab_rel s' L' x ps' fs' (F(p := a # F p)) \<and> set (ps' @ fs') = set (ps @ fs) \<and> slab_frame x p s L s' L'"
proof -
  let ?sl = "slabs s x"
  define i where "i = info_at ?sl p"
  have g: "slab_geom ?sl" and ok: "chunk_ok s L x p (F p)" and d: "distinct (ps @ fs)"
    and mem: "p \<in> set ps \<longleftrightarrow> F p \<noteq> []" "p \<in> set fs \<longleftrightarrow> F p = []"
    using rel p by (auto simp: slab_rel_def)
  have ip: "i div 4096 = p" unfolding i_def by (rule info_at_page [OF g])
  have ap: "a div 4096 = p" by (rule objs_bound(3) [OF g a(1)])
  have LI: "L (InfoFree i) = Some (map ObjNode (F p))" and os: "set (F p) \<subseteq> objs ?sl p" and La: "L (ObjNode a) = Some []"
    and fc: "free_count (sinfo s i) = length (F p)" and sx: "si_slab (sinfo s i) = x" and oa: "obj_info s a = i"
    using ok a by (auto simp: chunk_ok_def i_def)
  have LP: "L (SlabPartial x) = Some (map (\<lambda>p. InfoNode (info_at ?sl p)) ps)"
    and LF: "L (SlabFull x) = Some (map (\<lambda>p. InfoNode (info_at ?sl p)) fs)" using rel by (auto simp: slab_rel_def)
  have df: "distinct (F p)" using klinks_rep [OF kl LI] by (auto simp: is_list_def distinct_map)
  have small: "Suc (length (F p)) < 2 ^ 64"
  proof -
    have "length (F p) \<le> card (objs ?sl p)" using df os by (metis card_mono distinct_card finite_objs)
    then show ?thesis using card_objs [OF g] geom_count [OF g] by simp
  qed
  have page: "(a + SIZEOF_SLAB_OBJ) div 4096 = p"
  proof (rule div_nat_eqI)
    show "4096 * p \<le> a + SIZEOF_SLAB_OBJ" using objs_bound(1) [OF g a(1)] by simp
    show "a + SIZEOF_SLAB_OBJ < 4096 * Suc p" using objs_bound(2) [OF g a(1)] g by (simp add: slab_geom_def info_at_def)
  qed
  define s1 where "s1 = clear_words (a + SIZEOF_SLAB_OBJ) (obj_size ?sl - SIZEOF_SLAB_OBJ) s"
  have s1: "lh s1 = lh s" "slabs s1 = slabs s" "sinfo s1 = sinfo s" "obj_info s1 = obj_info s" "s1 = s\<lparr>pmem := pmem s1\<rparr>"
    "f \<noteq> p \<Longrightarrow> pmem s1 f = pmem s f" for f
    using page by (simp_all add: s1_def clear_words_def)
  define ps1 fs1 where "ps1 = (if F p = [] then p # ps else ps)" and "fs1 = (if F p = [] then remove1 p fs else fs)"
  define M where "M = (if F p = [] then L(SlabFull x \<mapsto> map (\<lambda>p. InfoNode (info_at ?sl p)) fs1, SlabPartial x \<mapsto> map (\<lambda>p. InfoNode (info_at ?sl p)) ps1) else L)"
  have move: "\<exists>h. (if list_is_empty (InfoFree i) (lh s1)
      then rbind (klist_del (InfoNode i) s1) (\<lambda>s. Inr (klist_add (SlabPartial x) (InfoNode i) s)) else Inr s1) = Inr (s1\<lparr>lh := h\<rparr>) \<and> klinks h (M(InfoNode i := (if F p = [] then None else L (InfoNode i)))) \<and>
      ring_nodes (M(InfoNode i := (if F p = [] then None else L (InfoNode i)))) \<subseteq> ring_nodes L"
  proof (cases "F p = []")
    case True
    have e: "list_is_empty (InfoFree i) (lh s1)" using klinks_empty [OF kl LI] True s1(1) by simp
    have inj: "inj (\<lambda>p. InfoNode (info_at ?sl p))" by (auto simp: inj_def info_at_def)
    have n: "InfoNode i \<in> set (map (\<lambda>p. InfoNode (info_at ?sl p)) fs)" using mem(2) True by (auto simp: i_def)
    have rm: "remove1 (InfoNode i) (map (\<lambda>p. InfoNode (info_at ?sl p)) fs) = map (\<lambda>p. InfoNode (info_at ?sl p)) fs1"
      using map_remove1_inj [OF inj, of p fs] True by (simp add: fs1_def i_def)
    define L2 where "L2 = L(SlabFull x \<mapsto> map (\<lambda>p. InfoNode (info_at ?sl p)) fs1, InfoNode i \<mapsto> [])"
    have k1: "klinks (lh s1) L" using kl s1(1) by simp
    obtain h2 where h2: "klist_del (InfoNode i) s1 = Inr (s1\<lparr>lh := h2\<rparr>)" "klinks h2 L2"
      using klist_del_rok [OF k1 LF n] by (auto simp: L2_def rm)
    have L2: "L2 (SlabPartial x) = Some (map (\<lambda>p. InfoNode (info_at ?sl p)) ps)" "L2 (InfoNode i) = Some []" using LP by (simp_all add: L2_def)
    have eq: "L2(SlabPartial x \<mapsto> InfoNode i # map (\<lambda>p. InfoNode (info_at ?sl p)) ps, InfoNode i := None) = M(InfoNode i := None)"
      using True by (auto simp: L2_def M_def ps1_def i_def fun_eq_iff)
    have "klinks (list_add (SlabPartial x) (InfoNode i) h2) (M(InfoNode i := None))"
      using klinks_add [OF h2(2) L2] unfolding eq by simp
    moreover have "ring_nodes (M(InfoNode i := None)) \<subseteq> ring_nodes L"
      using ring_nodes_add [of L2, OF L2] ring_nodes_del [of L, OF LF n] unfolding eq by (auto simp: L2_def rm)
    ultimately show ?thesis using e h2(1) True by (intro exI [of _ "list_add (SlabPartial x) (InfoNode i) h2"]) (simp add: klist_add_def)
  next
    case False
    have "\<not> list_is_empty (InfoFree i) (lh s1)" using klinks_empty [OF kl LI] False s1(1) by simp
    moreover have "s1\<lparr>lh := lh s1\<rparr> = s1" by simp
    ultimately show ?thesis using kl False s1(1) by (intro exI [of _ "lh s1"]) (simp add: M_def fun_upd_idem)
  qed
  define M1 where "M1 = M(InfoNode i := (if F p = [] then None else L (InfoNode i)))"
  obtain h where h: "(if list_is_empty (InfoFree i) (lh s1)
      then rbind (klist_del (InfoNode i) s1) (\<lambda>s. Inr (klist_add (SlabPartial x) (InfoNode i) s)) else Inr s1) = Inr (s1\<lparr>lh := h\<rparr>)"
    "klinks h M1" "ring_nodes M1 \<subseteq> ring_nodes L" using move unfolding M1_def by blast
  have M1: "M1 (InfoFree i) = Some (map ObjNode (F p))" "M1 (ObjNode a) = Some []" using LI La by (simp_all add: M1_def M_def)
  define L' where "L' = M1(InfoFree i \<mapsto> ObjNode a # map ObjNode (F p), ObjNode a := None)"
  define s' where "s' = info_upd i (\<lambda>f. f\<lparr>free_count := (free_count f + 1) mod 2 ^ 64\<rparr>) (s1\<lparr>lh := list_add (InfoFree i) (ObjNode a) h\<rparr>)"
  have k': "klinks (lh s') L'" using klinks_add [OF h(2) M1] by (simp add: L'_def s'_def)
  have rn: "ring_nodes L' \<subseteq> ring_nodes L" using ring_nodes_add [of M1, OF M1] h(3) unfolding L'_def by simp
  have fc': "free_count (sinfo s' i) = Suc (length (F p))" using fc small by (simp add: s'_def s1(1-4))
  have sc: "same_chunks p s s'" using ip by (auto simp: same_chunks_def s'_def s1(1-4))
  have run: "slab_free (a + SIZEOF_SLAB_OBJ) s = (if count ?sl \<le> Suc (length (F p)) then slab_free_chunk x i s' else Inr s')"
    unfolding slab_free_def Let_def add_diff_cancel_right' oa sx s1_def [symmetric] h(1)
    using fc' by (simp add: klist_add_def s'_def s1(1-4))
  have "slab_rel s' L' x ps1 fs1 (F(p := a # F p))"
  proof (rule slab_rel_update [OF rel sc])
    show "L' b = L b" if "slab_anchor b" "\<not> touched x p b" for b
      using that ip ap by (auto simp: L'_def M1_def M_def touched_def)
    show "chunk_ok s' L' x p (a # F p)"
      using ok os fc' a sx by (auto simp: chunk_ok_def i_def [symmetric] L'_def M1_def M_def s'_def s1(1-4))
  qed (use d mem LP LF in \<open>auto simp: L'_def M1_def M_def ps1_def fs1_def\<close>)
  moreover have "set (ps1 @ fs1) = set (ps @ fs)" using d mem p by (auto simp: ps1_def fs1_def)
  moreover have "slab_frame x p s L s' L'"
    unfolding slab_frame_def
  proof (intro conjI allI impI)
    show "s' = s\<lparr>lh := lh s', pmem := pmem s', sinfo := sinfo s'\<rparr>" unfolding s'_def by (subst s1(5)) (simp add: info_upd_def s1(3))
    show "L' b = L b" if "\<not> touched x p b" for b using that ip ap by (auto simp: L'_def M1_def M_def touched_def)
    show "pmem s' f = pmem s f" if "f \<noteq> p" for f using s1(6) [OF that] by (simp add: s'_def)
  qed (use k' sc rn in auto)
  ultimately show ?thesis using run unfolding i_def by blast
qed

section \<open>The invariant of the kernel heap\<close>

definition chunk_anchors :: "slab \<Rightarrow> nat \<Rightarrow> anchor set" where
  "chunk_anchors sl p = {InfoNode (info_at sl p), InfoFree (info_at sl p)} \<union> ObjNode ` objs sl p"

text \<open>
  The slabs \<open>X\<close> over the page allocator: every slab is well-formed, chunks belong to one slab and are
  not free pages, pages that are free or chunks are unreferenced and on no other list, and no list
  holds an anchor inside a page that is not a chunk.
\<close>

definition chunk_pages :: "nat set \<Rightarrow> (nat \<Rightarrow> nat list) \<Rightarrow> (nat \<Rightarrow> nat list) \<Rightarrow> nat set" where
  "chunk_pages X P Q = (\<Union>x\<in>X. set (P x @ Q x))"

definition heap_inv :: "'z kslab_scheme \<Rightarrow> (anchor \<rightharpoonup> anchor list) \<Rightarrow> nat set \<Rightarrow> (nat \<Rightarrow> nat list) \<Rightarrow> (nat \<Rightarrow> nat list) \<Rightarrow> (nat \<Rightarrow> nat list) \<Rightarrow> bool" where
  "heap_inv s L X P Q F \<longleftrightarrow> buddy_inv s L \<and> npages s \<le> 2 ^ 35 \<and> (\<forall>x\<in>X. slab_rel s L x (P x) (Q x) F) \<and>
     (\<forall>x\<in>X. \<forall>y\<in>X. x \<noteq> y \<longrightarrow> set (P x @ Q x) \<inter> set (P y @ Q y) = {}) \<and>
     (\<forall>p\<in>chunk_pages X P Q. p < npages s \<and> p \<notin> free_frames s \<and> pp_order (pages s p) = 0) \<and>
     (\<forall>p\<in>free_frames s \<union> chunk_pages X P Q. pp_ref (pages s p) = 0 \<and> L (SwapNode p) = Some []) \<and>
     (\<forall>a\<in>ring_nodes L. \<forall>p. anchor_page a = Some p \<longrightarrow> (\<exists>x\<in>X. p \<in> set (P x @ Q x) \<and> a \<in> chunk_anchors (slabs s x) p))"

text \<open>The objects in use, with their slab.\<close>

definition live :: "'z kslab_scheme \<Rightarrow> nat set \<Rightarrow> (nat \<Rightarrow> nat list) \<Rightarrow> (nat \<Rightarrow> nat list) \<Rightarrow> (nat \<Rightarrow> nat list) \<Rightarrow> (nat \<times> nat) set" where
  "live s X P Q F = {(x, a). x \<in> X \<and> a div 4096 \<in> set (P x @ Q x) \<and> a \<in> objs (slabs s x) (a div 4096) \<and> a \<notin> set (F (a div 4096))}"

lemma heap_invD:
  assumes "heap_inv s L X P Q F"
  shows "buddy_inv s L" and "klinks (lh s) L" and "x \<in> X \<Longrightarrow> slab_rel s L x (P x) (Q x) F" and "x \<in> X \<Longrightarrow> slab_geom (slabs s x)"
  using assms by (auto simp: heap_inv_def slab_rel_def buddy_inv_def dest: buddy_relD(2))

lemma heap_inv_disjoint: "heap_inv s L X P Q F \<Longrightarrow> x \<in> X \<Longrightarrow> y \<in> X \<Longrightarrow> x \<noteq> y \<Longrightarrow> set (P x @ Q x) \<inter> set (P y @ Q y) = {}"
  by (simp add: heap_inv_def)

lemma heap_inv_node:
  assumes "heap_inv s L X P Q F" and "a \<in> ring_nodes L" and "anchor_page a = Some p"
  shows "\<exists>x\<in>X. p \<in> set (P x @ Q x) \<and> a \<in> chunk_anchors (slabs s x) p" and "p \<in> chunk_pages X P Q"
proof -
  show "\<exists>x\<in>X. p \<in> set (P x @ Q x) \<and> a \<in> chunk_anchors (slabs s x) p" using assms by (simp add: heap_inv_def)
  then show "p \<in> chunk_pages X P Q" by (auto simp: chunk_pages_def)
qed

text \<open>An operation on one object of slab \<open>x\<close> keeps the whole heap well-formed.\<close>

lemma buddy_inv_frame:
  assumes inv: "buddy_inv s L" and fr: "slab_frame x p s L s' L'"
  shows "buddy_inv s' L'" and "free_frames s' = free_frames s" and "pages s' = pages s" and "npages s' = npages s"
proof -
  have e: "s' = s\<lparr>lh := lh s', pmem := pmem s', sinfo := sinfo s'\<rparr>" using fr by (simp add: slab_frame_def)
  have pg: "pages s' = pages s" "npages s' = npages s" "buddy_lock s' = buddy_lock s"
    using arg_cong [OF e, of pages] arg_cong [OF e, of npages] arg_cong [OF e, of buddy_lock] by simp_all
  then show "pages s' = pages s" "npages s' = npages s" "free_frames s' = free_frames s" by (simp_all add: free_frames_def)
  have "\<not> touched x p (BuddyHead k)" "\<not> touched x p (PpNode k)" for k by (simp_all add: touched_def)
  then show "buddy_inv s' L'" using inv fr pg by (simp add: buddy_inv_def buddy_rel_def slab_frame_def)
qed

lemma heap_inv_update:
  assumes inv: "heap_inv s L X P Q F" and x: "x \<in> X" and p: "p \<in> set (P x @ Q x)" and fr: "slab_frame x p s L s' L'"
    and rel: "slab_rel s' L' x ps' fs' (F(p := os))" and sets: "set (ps' @ fs') = set (P x @ Q x)"
  shows "heap_inv s' L' X (P(x := ps')) (Q(x := fs')) (F(p := os))"
proof -
  let ?P = "P(x := ps')" and ?Q = "Q(x := fs')" and ?F = "F(p := os)"
  note b = buddy_inv_frame [OF heap_invD(1) [OF inv] fr]
  have same: "set (?P y @ ?Q y) = set (P y @ Q y)" for y using sets by auto
  then have cp: "chunk_pages X ?P ?Q = chunk_pages X P Q" by (simp add: chunk_pages_def)
  have sc: "same_chunks p s s'" and L: "\<And>a. \<not> touched x p a \<Longrightarrow> L' a = L a" and rn: "ring_nodes L' \<subseteq> ring_nodes L" and sl: "slabs s' = slabs s"
    using fr by (auto simp: slab_frame_def same_chunks_def)
  have "slab_rel s' L' y (?P y) (?Q y) ?F" if y: "y \<in> X" for y
  proof (cases "y = x")
    case False
    have py: "p \<notin> set (P y @ Q y)" using inv x y p False unfolding heap_inv_def by blast
    have "slab_rel s' L' y (P y) (Q y) F" by (rule slab_rel_frame [OF heap_invD(3) [OF inv y] _ py sc]) (use False L in auto)
    moreover have "slab_rel s' L' y (P y) (Q y) ?F = slab_rel s' L' y (P y) (Q y) F" using py by (auto simp: slab_rel_def)
    ultimately show ?thesis using False by simp
  qed (use rel in simp)
  moreover have "\<forall>a\<in>ring_nodes L'. \<forall>p. anchor_page a = Some p \<longrightarrow> (\<exists>x\<in>X. p \<in> set (?P x @ ?Q x) \<and> a \<in> chunk_anchors (slabs s' x) p)"
    using inv rn unfolding same sl heap_inv_def by blast
  moreover have "L' (SwapNode q) = L (SwapNode q)" for q using L [of "SwapNode q"] by (simp add: touched_def)
  ultimately show ?thesis using inv b unfolding heap_inv_def cp same by auto
qed

lemma live_update:
  assumes inv: "heap_inv s L X P Q F" and x: "x \<in> X" and p: "p \<in> set (P x @ Q x)" and sets: "set (ps' @ fs') = set (P x @ Q x)"
    and sl: "slabs s' = slabs s"
  shows "live s' X (P(x := ps')) (Q(x := fs')) (F(p := os)) = live s X P Q F - {x} \<times> objs (slabs s x) p \<union> {x} \<times> (objs (slabs s x) p - set os)"
proof -
  have same: "set ((P(x := ps')) y @ (Q(x := fs')) y) = set (P y @ Q y)" for y using sets by auto
  have other: "p \<notin> set (P y @ Q y)" if "y \<in> X" "y \<noteq> x" for y using inv x p that unfolding heap_inv_def by blast
  have page: "a div 4096 = p" if "a \<in> objs (slabs s x) p" for a by (rule objs_bound(3) [OF heap_invD(4) [OF inv x] that])
  have "(y, a) \<in> live s' X (P(x := ps')) (Q(x := fs')) (F(p := os)) \<longleftrightarrow>
      (if y = x \<and> a \<in> objs (slabs s x) p then a \<notin> set os else (y, a) \<in> live s X P Q F)" for y a
  proof (cases "y = x \<and> a \<in> objs (slabs s x) p")
    case True
    then show ?thesis using x p page [of a] unfolding live_def same sl by simp
  next
    case False
    then have "y = x \<Longrightarrow> a \<in> objs (slabs s x) (a div 4096) \<Longrightarrow> a div 4096 \<noteq> p" by auto
    with False other [of y] show ?thesis unfolding live_def same sl by auto
  qed
  then show ?thesis by (auto split: if_splits)
qed

text \<open>
  What an allocation leaves alone outside the heap: every other list, the rest of the kernel's state,
  reference counts and all memory that is not free; up to \<open>n\<close> frames have left the free set.
\<close>

definition heap_rest :: "nat \<Rightarrow> 'z kslab_scheme \<Rightarrow> (anchor \<rightharpoonup> anchor list) \<Rightarrow> 'z kslab_scheme \<Rightarrow> (anchor \<rightharpoonup> anchor list) \<Rightarrow> bool" where
  "heap_rest n s L s' L' \<longleftrightarrow> (\<forall>a. \<not> buddy_anchor a \<longrightarrow> \<not> slab_anchor a \<longrightarrow> L' a = L a) \<and>
     free_frames s' \<subseteq> free_frames s \<and> card (free_frames s) \<le> n + card (free_frames s') \<and>
     (\<forall>i. pp_ref (pages s' i) = pp_ref (pages s i) \<and> pp_zero (pages s' i) = pp_zero (pages s i)) \<and>
     (\<forall>f. f \<notin> free_frames s - free_frames s' \<longrightarrow> pmem s' f = pmem s f) \<and>
     cr3 s' = cr3 s \<and> cur_task s' = cur_task s \<and> swap_lock s' = swap_lock s \<and> kslab.more s' = kslab.more s"

lemma heap_rest_trans: "heap_rest m s L s1 L1 \<Longrightarrow> heap_rest n s1 L1 s2 L2 \<Longrightarrow> heap_rest (m + n) s L s2 L2"
  by (fastforce simp: heap_rest_def)

lemma slab_frame_rest:
  assumes fr: "slab_frame x p s L s' L'" and inv: "buddy_inv s L" and mem: "pmem s' = pmem s"
  shows "heap_rest 0 s L s' L'"
proof -
  have e: "s' = s\<lparr>lh := lh s', pmem := pmem s', sinfo := sinfo s'\<rparr>" using fr by (simp add: slab_frame_def)
  note b = buddy_inv_frame [OF inv fr]
  have "cr3 s' = cr3 s" "cur_task s' = cur_task s" "swap_lock s' = swap_lock s" "kslab.more s' = kslab.more s"
    using arg_cong [OF e, of cr3] arg_cong [OF e, of cur_task] arg_cong [OF e, of swap_lock] arg_cong [OF e, of kslab.more] by simp_all
  moreover have "\<not> touched x p a" if "\<not> slab_anchor a" for a using that by (auto simp: touched_def slab_anchor_def)
  ultimately show ?thesis using fr b mem by (auto simp: heap_rest_def slab_frame_def)
qed

lemma heap_take:
  assumes inv: "heap_inv s L X P Q F" and x: "x \<in> X" and ne: "P x \<noteq> []"
  shows "rok (slab_take x s) (\<lambda>(r, s'). \<exists>a L' P' Q' F'. r = Some (a + SIZEOF_SLAB_OBJ) \<and> heap_inv s' L' X P' Q' F' \<and> slabs s' = slabs s \<and>
     (x, a) \<notin> live s X P Q F \<and> live s' X P' Q' F' = insert (x, a) (live s X P Q F) \<and>
     a div 4096 \<in> set (P x) \<and> kernel_pml4 s' = kernel_pml4 s \<and> npages s' = npages s \<and> this_cpu s' = this_cpu s \<and> nslabs s' = nslabs s \<and> pmem s' = pmem s \<and> heap_rest 0 s L s' L')"
proof -
  note rel = heap_invD(3) [OF inv x]
  obtain p ps where P: "P x = p # ps" using ne by (cases "P x") auto
  then obtain a os where F: "F p = a # os" using rel by (cases "F p") (auto simp: slab_rel_def)
  have p: "p \<in> set (P x @ Q x)" and ok: "chunk_ok s L x p (a # os)" using P rel F by (auto simp: slab_rel_def)
  obtain s' L' ps' fs' where t: "slab_take x s = Inr (Some (a + SIZEOF_SLAB_OBJ), s')" "slab_rel s' L' x ps' fs' (F(p := os))"
      "set (ps' @ fs') = set (P x @ Q x)" "slab_frame x p s L s' L'" "pmem s' = pmem s"
    using slab_take_spec [OF rel [unfolded P] heap_invD(2) [OF inv] F] P by auto
  have sl: "slabs s' = slabs s" using t(4) by (simp add: slab_frame_def same_chunks_def)
  have o: "set (a # os) \<subseteq> objs (slabs s x) p" and LI: "L (InfoFree (info_at (slabs s x) p)) = Some (map ObjNode (a # os))"
    using ok by (auto simp: chunk_ok_def)
  have d: "a \<notin> set os" using klinks_rep [OF heap_invD(2) [OF inv] LI] by (auto simp: is_list_def distinct_map)
  have sub: "live s X P Q F \<inter> {x} \<times> objs (slabs s x) p = {x} \<times> (objs (slabs s x) p - set (a # os))"
    using x p F objs_bound(3) [OF heap_invD(4) [OF inv x]] by (auto simp: live_def)
  then have new: "live s' X (P(x := ps')) (Q(x := fs')) (F(p := os)) = insert (x, a) (live s X P Q F)"
    unfolding live_update [OF inv x p t(3) sl] using o d by auto
  have e: "s' = s\<lparr>lh := lh s', pmem := pmem s', sinfo := sinfo s'\<rparr>" using t(4) by (simp add: slab_frame_def)
  have same: "kernel_pml4 s' = kernel_pml4 s" "npages s' = npages s" "this_cpu s' = this_cpu s" "nslabs s' = nslabs s"
    using arg_cong [OF e, of kernel_pml4] arg_cong [OF e, of npages] arg_cong [OF e, of this_cpu] arg_cong [OF e, of nslabs] by simp_all
  have ap: "a div 4096 \<in> set (P x)" using objs_bound(3) [OF heap_invD(4) [OF inv x], of a p] o P by simp
  have "(x, a) \<notin> live s X P Q F" using sub o by auto
  then have "heap_inv s' L' X (P(x := ps')) (Q(x := fs')) (F(p := os)) \<and> slabs s' = slabs s \<and> (x, a) \<notin> live s X P Q F \<and>
      live s' X (P(x := ps')) (Q(x := fs')) (F(p := os)) = insert (x, a) (live s X P Q F)"
    using heap_inv_update [OF inv x p t(4,2,3)] new sl by simp
  then show ?thesis unfolding t(1) rok_Inr prod.case using t(5) same ap slab_frame_rest [OF t(4) heap_invD(1) [OF inv] t(5)] by blast
qed

end
