(* ===== verification/Slab_Spec.thy ===== *)
theory Slab_Spec
  imports Slab_Inv
begin

text \<open>
  Growing and shrinking a slab: \<^verbatim>\<open>slab_alloc\<close> and \<^verbatim>\<open>slab_free\<close> on a well-formed
  heap, including the chunk taken from the page allocator when no free object is left and the chunk
  given back through \<^verbatim>\<open>page_lookup\<close> and \<^verbatim>\<open>page_free\<close> when its last object is freed.
\<close>

section \<open>Allocating a chunk\<close>

lemma klinks_restrict: "klinks h L \<Longrightarrow> klinks h (L |` S)"
  unfolding klinks_def ring_family_def ring_nodes_def restrict_map_def by (auto split: if_splits) blast+

lemma klinks_init:
  assumes kl: "klinks h L" and n: "n \<notin> ring_nodes L" "n \<notin> zero_area"
  shows "klinks (list_init n h) (L(n \<mapsto> []))"
proof -
  have out: "nx (list_init n h) y = nx h y" "pv (list_init n h) y = pv h y" if "y \<noteq> n" for y
    using that by (simp_all add: list_defs)
  have fam: "ring_family is_list (list_init n h) L"
    by (rule family_frame [OF klinks_family [OF kl]]) (use out n(1) in metis)
  have "n \<noteq> Null" using n(2) by (auto simp: zero_area_def)
  then have "is_list (list_init n h) n []" by (rule is_list_init)
  then have "ring_family is_list (list_init n h) (L(n \<mapsto> []))"
    using fam n(1) unfolding ring_family_def ring_nodes_def by auto
  moreover have "ring_nodes (L(n \<mapsto> [])) \<subseteq> insert n (ring_nodes L)" by (auto simp: ring_nodes_def split: if_splits)
  moreover have "nx (list_init n h) ZeroHead = nx h ZeroHead" using n(2) by (intro out) (auto simp: zero_area_def)
  ultimately show ?thesis using kl n(2) unfolding klinks_def by auto
qed

text \<open>Rings at anchors of the page allocator hold only such anchors, up to heads that do not matter.\<close>

lemma buddy_trim:
  assumes "buddy_inv s L"
  obtains L' where "buddy_inv s L'" and "\<And>a. \<not> buddy_anchor a \<Longrightarrow> L' a = L a"
    and "\<And>a xs n. buddy_anchor a \<Longrightarrow> L' a = Some xs \<Longrightarrow> n \<in> set (a # xs) \<Longrightarrow> buddy_anchor n"
proof -
  define S where "S = {a. \<not> buddy_anchor a} \<union> BuddyHead ` {..<BUDDY_MAX_ORDER} \<union> PpNode ` {i. i < npages s \<and> \<not> pp_free (pages s i)}"
  have rel: "buddy_rel s L {}" using assms by (simp add: buddy_inv_def)
  have "buddy_rel s (L |` S) {}"
    using rel klinks_restrict [OF buddy_relD(2) [OF rel], of S]
    unfolding buddy_rel_def by (auto simp: S_def freeset_def restrict_map_def)
  then have "buddy_inv s (L |` S)" using assms by (simp add: buddy_inv_def)
  moreover have "(L |` S) a = L a" if "\<not> buddy_anchor a" for a using that by (simp add: S_def)
  moreover have "buddy_anchor n" if a: "buddy_anchor a" "(L |` S) a = Some xs" "n \<in> set (a # xs)" for a xs n
  proof -
    from a(2) have "a \<in> S" "L a = Some xs" by (auto simp: restrict_map_def split: if_splits)
    then consider k where "a = BuddyHead k" "k < BUDDY_MAX_ORDER" | i where "a = PpNode i" "i < npages s" "\<not> pp_free (pages s i)"
      using a(1) by (auto simp: S_def)
    then show ?thesis
    proof cases
      case 1
      obtain ys where "L (BuddyHead k) = Some (map PpNode ys)" using buddy_rel_list [OF rel 1(2)] by blast
      with 1(1) \<open>L a = Some xs\<close> a(3) show ?thesis by (auto simp: buddy_anchor_def)
    next
      case 2
      then have "L a = Some []" using buddy_relD(3) [OF rel, of i] by (simp add: freeset_def)
      with \<open>L a = Some xs\<close> a(1,3) show ?thesis by simp
    qed
  qed
  ultimately show ?thesis using that by blast
qed

lemma slab_rel_cong:
  assumes "slabs s' = slabs s" "sinfo s' = sinfo s" "obj_info s' = obj_info s" "\<And>a. slab_anchor a \<Longrightarrow> L' a = L a"
  shows "slab_rel s' L' x ps fs F = slab_rel s L x ps fs F"
proof -
  have "chunk_ok s' L' x p os = chunk_ok s L x p os" for p os
    using assms by (simp add: chunk_ok_def slab_anchor_def)
  then show ?thesis using assms by (simp add: slab_rel_def slab_anchor_def)
qed

lemma kslab_more: "kmem.more s' = kmem.more s \<Longrightarrow> slabs s' = slabs s \<and> sinfo s' = sinfo s \<and> obj_info s' = obj_info s \<and> nslabs s' = nslabs s \<and> kernel_pml4 s' = kernel_pml4 s"
  for s s' :: "'z kslab_scheme"
  by (cases s; cases s') simp

lemma kslab_rest: "kmem.more s' = kmem.more s \<Longrightarrow> cr3 s' = cr3 s \<and> cur_task s' = cur_task s \<and> swap_lock s' = swap_lock s \<and> kslab.more s' = kslab.more s"
  for s s' :: "'z kslab_scheme"
  by (cases s; cases s') simp

lemma klist_slabs [simp]: "slabs (klist_init n s) = slabs s" "slabs (klist_add a n s) = slabs s"
  by (simp_all add: klist_init_def klist_add_def)

text \<open>The loop that threads the objects of a new chunk.\<close>

lemma chunk_fold:
  fixes s :: "'z kslab_scheme"
  assumes g: "slab_geom (slabs s x)" and kl: "klinks (lh s) L" and i: "i = info_at (slabs s x) p" and LI: "L (InfoFree i) = Some []"
    and fresh: "\<forall>a\<in>objs (slabs s x) p. ObjNode a \<notin> ring_nodes L" and fc: "free_count (sinfo s i) = 0"
  defines "t \<equiv> \<lambda>n. fold (chunk_obj x (4096 * p) i) [0..<n] s" and "ol \<equiv> \<lambda>n. rev (map (obj_at (slabs s x) p) [0..<n])"
  shows "n \<le> count (slabs s x) \<Longrightarrow> klinks (lh (t n)) (L(InfoFree i \<mapsto> map ObjNode (ol n))) \<and>
     t n = s\<lparr>lh := lh (t n), sinfo := (sinfo s)(i := (sinfo s i)\<lparr>free_count := n\<rparr>), obj_info := (\<lambda>a. if a \<in> set (ol n) then i else obj_info s a)\<rparr>"
proof (induction n)
  case 0
  have "(sinfo s i)\<lparr>free_count := 0\<rparr> = sinfo s i" using fc by (cases "sinfo s i") simp
  then show ?case using kl LI by (simp add: t_def ol_def fun_upd_idem)
next
  case (Suc n)
  let ?sl = "slabs s x"
  define a where "a = obj_at ?sl p n"
  let ?L = "L(InfoFree i \<mapsto> map ObjNode (ol n))"
  have both: "klinks (lh (t n)) ?L \<and> t n = s\<lparr>lh := lh (t n), sinfo := (sinfo s)(i := (sinfo s i)\<lparr>free_count := n\<rparr>), obj_info := (\<lambda>a. if a \<in> set (ol n) then i else obj_info s a)\<rparr>"
    by (rule Suc.IH) (use Suc.prems in simp)
  note IH = both [THEN conjunct1] and tn = both [THEN conjunct2]
  have sl: "slabs (t n) = slabs s" and si: "sinfo (t n) = (sinfo s)(i := (sinfo s i)\<lparr>free_count := n\<rparr>)" and oi: "obj_info (t n) = (\<lambda>a. if a \<in> set (ol n) then i else obj_info s a)"
    using arg_cong [OF tn, of slabs] arg_cong [OF tn, of sinfo] arg_cong [OF tn, of obj_info] by simp_all
  have a: "a \<in> objs ?sl p" using Suc.prems by (simp add: a_def objs_def)
  have "a \<notin> set (ol n)" using g by (auto simp: ol_def a_def obj_at_def slab_geom_def)
  then have an: "ObjNode a \<notin> ring_nodes ?L" using fresh a LI by (auto simp: ring_nodes_def split: if_splits)
  have La: "L (ObjNode a) = None" using fresh a by (auto simp: ring_nodes_def) (metis list.set_intros(1) not_None_eq)
  have k1: "klinks (list_init (ObjNode a) (lh (t n))) (?L(ObjNode a \<mapsto> []))"
    by (rule klinks_init [OF IH an]) (auto simp: zero_area_def)
  have k2: "klinks (list_add (InfoFree i) (ObjNode a) (list_init (ObjNode a) (lh (t n)))) (L(InfoFree i \<mapsto> map ObjNode (ol (Suc n))))"
  proof -
    have e: "(?L(ObjNode a \<mapsto> []))(InfoFree i \<mapsto> ObjNode a # map ObjNode (ol n), ObjNode a := None) = L(InfoFree i \<mapsto> map ObjNode (ol (Suc n)))"
      using La by (auto simp: fun_eq_iff ol_def a_def)
    show ?thesis using klinks_add [OF k1, of "InfoFree i" "map ObjNode (ol n)" "ObjNode a"] unfolding e by simp
  qed
  have cnt: "Suc n < 2 ^ 64" using Suc.prems geom_count [OF g] by simp
  have step: "t (Suc n) = info_upd i (\<lambda>f. f\<lparr>free_count := (free_count f + 1) mod 2 ^ 64\<rparr>)
      ((t n)\<lparr>obj_info := (obj_info (t n))(a := i), lh := list_add (InfoFree i) (ObjNode a) (list_init (ObjNode a) (lh (t n)))\<rparr>)"
    by (simp add: t_def chunk_obj_def klist_init_def klist_add_def Let_def a_def obj_at_def sl [unfolded t_def])
  have lhS: "lh (t (Suc n)) = list_add (InfoFree i) (ObjNode a) (list_init (ObjNode a) (lh (t n)))" by (simp add: step)
  have "t (Suc n) = s\<lparr>lh := lh (t (Suc n)), sinfo := (sinfo s)(i := (sinfo s i)\<lparr>free_count := Suc n\<rparr>), obj_info := (\<lambda>a. if a \<in> set (ol (Suc n)) then i else obj_info s a)\<rparr>"
  proof -
    have ob: "(obj_info (t n))(a := i) = (\<lambda>a. if a \<in> set (ol (Suc n)) then i else obj_info s a)" by (auto simp: oi ol_def a_def fun_eq_iff)
    have fi: "(sinfo (t n))(i := (sinfo (t n) i)\<lparr>free_count := (free_count (sinfo (t n) i) + 1) mod 2 ^ 64\<rparr>) = (sinfo s)(i := (sinfo s i)\<lparr>free_count := Suc n\<rparr>)"
      using cnt by (simp add: si)
    show ?thesis unfolding step info_upd_def using ob fi by (subst (1) tn) (simp add: si oi)
  qed
  with k2 show ?case unfolding lhS by blast
qed

lemma heap_inv_trim:
  assumes inv: "heap_inv s L X P Q F" and b: "buddy_inv s' M" and fr: "alloc_frame s L s' M"
    and ff: "\<And>q. q \<in> free_frames s' \<Longrightarrow> q \<notin> chunk_pages X P Q \<and> pp_ref (pages s q) = 0 \<and> L (SwapNode q) = Some []" and po: "\<And>p. p \<in> chunk_pages X P Q \<Longrightarrow> pp_order (pages s' p) = 0"
  obtains L' where "heap_inv s' L' X P Q F" and "\<And>a. \<not> buddy_anchor a \<Longrightarrow> L' a = L a"
proof -
  obtain L' where L': "buddy_inv s' L'" "\<And>a. \<not> buddy_anchor a \<Longrightarrow> L' a = M a"
    "\<And>a xs n. buddy_anchor a \<Longrightarrow> L' a = Some xs \<Longrightarrow> n \<in> set (a # xs) \<Longrightarrow> buddy_anchor n"
    using buddy_trim [OF b] by blast
  have same: "L' a = L a" if "\<not> buddy_anchor a" for a using L'(2) that fr by (simp add: alloc_frame_def)
  have k: "slabs s' = slabs s" "sinfo s' = sinfo s" "obj_info s' = obj_info s" "npages s' = npages s"
    using kslab_more [of s' s] fr by (auto simp: alloc_frame_def)
  have sa: "\<not> buddy_anchor a" if "slab_anchor a \<or> anchor_page a \<noteq> None" for a
    using that by (cases a) (auto simp: slab_anchor_def buddy_anchor_def)
  have rel: "slab_rel s' L' x (P x) (Q x) F = slab_rel s L x (P x) (Q x) F" for x
    by (rule slab_rel_cong) (use k same sa in auto)
  have "\<exists>x\<in>X. p \<in> set (P x @ Q x) \<and> a \<in> chunk_anchors (slabs s' x) p" if a: "a \<in> ring_nodes L'" "anchor_page a = Some p" for a p
  proof -
    obtain q xs where q: "L' q = Some xs" "a \<in> set (q # xs)" using a(1) by (auto simp: ring_nodes_def)
    have "\<not> buddy_anchor q" using L'(3) [OF _ q] sa [of a] a(2) by auto
    then have "a \<in> ring_nodes L" using q same by (auto simp: ring_nodes_def)
    then show ?thesis using inv a(2) unfolding heap_inv_def k by blast
  qed
  moreover have "\<forall>p\<in>free_frames s' \<union> chunk_pages X P Q. pp_ref (pages s' p) = 0 \<and> L' (SwapNode p) = Some []"
  proof
    fix p
    assume "p \<in> free_frames s' \<union> chunk_pages X P Q"
    then have "pp_ref (pages s p) = 0 \<and> L (SwapNode p) = Some []" using inv ff [of p] unfolding heap_inv_def by blast
    then show "pp_ref (pages s' p) = 0 \<and> L' (SwapNode p) = Some []" using fr same [of "SwapNode p"] by (simp add: alloc_frame_def buddy_anchor_def)
  qed
  ultimately have "heap_inv s' L' X P Q F" using inv L'(1) ff po unfolding heap_inv_def rel k(4) by auto
  with same that show ?thesis by blast
qed

lemma heap_chunk:
  assumes inv: "heap_inv s L X P Q F" and x: "x \<in> X" and P: "P x = []" and ne: "free_frames s \<noteq> {}"
  shows "rok (slab_alloc_chunk x s) (\<lambda>(r, s'). \<exists>p L' os. r = 0 \<and> heap_inv s' L' X (P(x := [p])) Q (F(p := os)) \<and> slabs s' = slabs s \<and>
     live s' X (P(x := [p])) Q (F(p := os)) = live s X P Q F \<and> p \<in> free_frames s \<and> free_frames s' = free_frames s - {p} \<and>
     kernel_pml4 s' = kernel_pml4 s \<and> npages s' = npages s \<and> this_cpu s' = this_cpu s \<and> nslabs s' = nslabs s \<and> (\<forall>f. f \<noteq> p \<longrightarrow> pmem s' f = pmem s f) \<and> heap_rest 1 s L s' L')"
proof -
  let ?sl = "slabs s x"
  obtain p s1 M where al: "page_alloc ALLOC_ZERO s = Inr (Some p, s1)" "alloc_post ALLOC_ZERO s L p s1 M"
    using page_alloc_spec(1) [OF heap_invD(1) [OF inv] ne, of ALLOC_ZERO] by (auto simp: rok_iff)
  have a1: "p \<in> free_frames s" "buddy_inv s1 M" "free_frames s1 = free_frames s - {p}" "pp_order (pages s1 p) = 0" "alloc_frame s L s1 M"
    and mem: "\<And>f. f \<noteq> p \<Longrightarrow> pmem s1 f = pmem s f"
    using al(2) by (auto simp: alloc_post_def ALLOC_ZERO_def)
  have pc: "p \<notin> chunk_pages X P Q" using inv a1(1) unfolding heap_inv_def by blast
  have pn: "p < npages s1" "npages s1 \<le> 2 ^ 35" using a1(1,5) inv frames_bound [OF buddy_relD(1), of s L "{}"]
    by (auto simp: heap_inv_def buddy_inv_def free_frames_def alloc_frame_def)
  have po: "pp_order (pages s1 q) = 0" if "q \<in> chunk_pages X P Q" for q
  proof -
    have "q \<notin> free_frames s" "pp_order (pages s q) = 0" using inv that unfolding heap_inv_def by blast+
    then show ?thesis using al(2) by (simp add: alloc_post_def)
  qed
  have fq: "q \<notin> chunk_pages X P Q \<and> pp_ref (pages s q) = 0 \<and> L (SwapNode q) = Some []" if "q \<in> free_frames s1" for q
    using inv that a1(3) unfolding heap_inv_def by blast
  obtain L1 where inv1: "heap_inv s1 L1 X P Q F" and L1: "\<And>a. \<not> buddy_anchor a \<Longrightarrow> L1 a = L a"
    using heap_inv_trim [OF inv a1(2,5) fq po] by blast
  have k1: "slabs s1 = slabs s" using kslab_more [of s1 s] a1(5) by (simp add: alloc_frame_def)
  have g: "slab_geom ?sl" by (rule heap_invD(4) [OF inv x])
  define i where "i = info_at ?sl p"
  have ip: "i div 4096 = p" unfolding i_def by (rule info_at_page [OF g])
  have fresh: "a \<notin> ring_nodes L1" if "anchor_page a = Some p" for a
    using heap_inv_node(2) [OF inv1 _ that] pc by blast
  have rel1: "slab_rel s1 L1 x [] (Q x) F" using heap_invD(3) [OF inv1 x] P by simp
  define L4 where "L4 = L1(SlabPartial x \<mapsto> [InfoNode i], InfoFree i \<mapsto> [])"
  define t where "t = info_upd i (\<lambda>f. f\<lparr>free_count := 0\<rparr>) (klist_init (InfoFree i) (klist_add (SlabPartial x) (InfoNode i)
      (klist_init (InfoNode i) (info_upd i (\<lambda>f. f\<lparr>si_slab := x\<rparr>) s1))))"
  have tf: "slabs t = slabs s1" "obj_info t = obj_info s1" "sinfo t = (sinfo s1)(i := (sinfo s1 i)\<lparr>si_slab := x, free_count := 0\<rparr>)"
      "pages t = pages s1" "npages t = npages s1" "buddy_lock t = buddy_lock s1" "pmem t = pmem s1"
      "lh t = list_init (InfoFree i) (list_add (SlabPartial x) (InfoNode i) (list_init (InfoNode i) (lh s1)))"
    by (simp_all add: t_def klist_init_def klist_add_def info_upd_def)
  have k4: "klinks (lh t) L4" "ring_nodes L4 \<subseteq> ring_nodes L1 \<union> {InfoNode i, InfoFree i}"
  proof -
    let ?L2 = "L1(InfoNode i \<mapsto> [])"
    have 2: "klinks (list_init (InfoNode i) (lh s1)) ?L2"
      by (rule klinks_init [OF heap_invD(2) [OF inv1] fresh]) (use ip in \<open>auto simp: zero_area_def\<close>)
    have LP: "?L2 (SlabPartial x) = Some []" "?L2 (InfoNode i) = Some []" using rel1 by (simp_all add: slab_rel_def)
    have none: "L1 (InfoNode i) = None" using fresh [of "InfoNode i"] ip ring_nodesD [of L1 "InfoNode i"] by (cases "L1 (InfoNode i)") auto
    then have e: "?L2(SlabPartial x \<mapsto> [InfoNode i], InfoNode i := None) = L1(SlabPartial x \<mapsto> [InfoNode i])" by (auto simp: fun_eq_iff)
    have 3: "klinks (list_add (SlabPartial x) (InfoNode i) (list_init (InfoNode i) (lh s1))) (L1(SlabPartial x \<mapsto> [InfoNode i]))"
      using klinks_add [OF 2 LP] unfolding e by simp
    have rn: "ring_nodes (L1(SlabPartial x \<mapsto> [InfoNode i])) \<subseteq> ring_nodes L1 \<union> {InfoNode i}"
      using LP(1) by (auto simp: ring_nodes_def split: if_splits)
    have "InfoFree i \<notin> ring_nodes (L1(SlabPartial x \<mapsto> [InfoNode i]))" using rn fresh [of "InfoFree i"] ip by auto
    from klinks_init [OF 3 this] show "klinks (lh t) L4" unfolding tf(8) L4_def by (auto simp: zero_area_def)
    show "ring_nodes L4 \<subseteq> ring_nodes L1 \<union> {InfoNode i, InfoFree i}"
      using rn unfolding L4_def by (auto simp: ring_nodes_def split: if_splits)
  qed
  define os where "os = rev (map (obj_at ?sl p) [0..<count ?sl])"
  have os: "set os = objs ?sl p" "length os = count ?sl" "os \<noteq> []" using g by (auto simp: os_def objs_def slab_geom_def)
  define s' where "s' = fold (chunk_obj x (4096 * p) i) [0..<count ?sl] t"
  define L5 where "L5 = L4(InfoFree i \<mapsto> map ObjNode os)"
  have "\<forall>a\<in>objs (slabs t x) p. ObjNode a \<notin> ring_nodes L4"
    using k4(2) fresh objs_bound(3) [OF g] by (auto simp: tf k1)
  then have fold: "klinks (lh s') L5" "s' = t\<lparr>lh := lh s', sinfo := (sinfo t)(i := (sinfo t i)\<lparr>free_count := count ?sl\<rparr>), obj_info := (\<lambda>a. if a \<in> set os then i else obj_info t a)\<rparr>"
    using chunk_fold [of t x L4 i p "count ?sl"] g k4(1) unfolding s'_def L5_def os_def
    by (auto simp: tf k1 i_def L4_def)
  have sf: "slabs s' = slabs s" "sinfo s' = (sinfo t)(i := (sinfo t i)\<lparr>free_count := count ?sl\<rparr>)" "obj_info s' = (\<lambda>a. if a \<in> set os then i else obj_info t a)"
    "pages s' = pages s1" "npages s' = npages s1" "buddy_lock s' = buddy_lock s1" "pmem s' = pmem s1"
    using arg_cong [OF fold(2), of slabs] arg_cong [OF fold(2), of sinfo] arg_cong [OF fold(2), of obj_info] arg_cong [OF fold(2), of pages]
      arg_cong [OF fold(2), of npages] arg_cong [OF fold(2), of buddy_lock] arg_cong [OF fold(2), of pmem] by (simp_all add: tf k1)
  have run: "slab_alloc_chunk x s = Inr (0, s')"
  proof -
    have "pp_ref (pages s1 p) = 0" using inv a1(1,5) unfolding heap_inv_def by (simp add: alloc_frame_def)
    moreover have "KADDR (page2pa p) s1 = Inr p" using page2pa_addr(2) [of p] pn by (simp add: KADDR_def)
    ultimately show ?thesis unfolding slab_alloc_chunk_def al(1)
      using sf(2) by (simp add: k1 Let_def info_at_def [symmetric] i_def [symmetric] t_def [symmetric] tf s'_def [symmetric] sf)
  qed
  have ff: "free_frames s' = free_frames s - {p}" using a1(3) sf by (simp add: free_frames_def)
  have sc: "same_chunks p s1 s'" using ip objs_bound(3) [OF g] os(1) by (auto simp: same_chunks_def sf tf k1)
  have L5: "L5 a = L1 a" if "\<not> touched x p a" for a using that ip by (auto simp: L5_def L4_def touched_def)
  let ?P = "P(x := [p])" and ?F = "F(p := os)"
  have cp: "chunk_pages X ?P Q = insert p (chunk_pages X P Q)" 
  proof -
    have "set (?P y @ Q y) = (if y = x then insert p (set (P y @ Q y)) else set (P y @ Q y))" for y using P by auto
    then show ?thesis unfolding chunk_pages_def using x by (auto split: if_splits)
  qed
  have rel: "slab_rel s' L5 y (?P y) (Q y) ?F" if y: "y \<in> X" for y
  proof (cases "y = x")
    case True
    have ok5: "chunk_ok s' L5 x p os"
      using os ip objs_bound(3) [OF g] by (auto simp: chunk_ok_def sf tf k1 i_def [symmetric] L5_def)
    have pq: "p \<notin> set (Q x)" "distinct (Q x)" using pc x rel1 by (auto simp: chunk_pages_def slab_rel_def)
    have LF5: "L5 (SlabFull x) = Some (map (\<lambda>p. InfoNode (info_at (slabs s1 x) p)) (Q x))" using rel1 by (simp add: slab_rel_def L5_def L4_def)
    have LP5: "L5 (SlabPartial x) = Some (map (\<lambda>p. InfoNode (info_at (slabs s1 x) p)) [p])" by (simp add: L5_def L4_def i_def k1)
    have "slab_rel s' L5 x [p] (Q x) ?F"
      by (rule slab_rel_update [OF rel1 sc L5 ok5 LP5 LF5]) (use os(3) pq in auto)
    with True show ?thesis by simp
  next
    case False
    have py: "p \<notin> set (P y @ Q y)" using pc y by (auto simp: chunk_pages_def)
    have "slab_rel s' L5 y (P y) (Q y) F" by (rule slab_rel_frame [OF heap_invD(3) [OF inv1 y] _ py sc]) (use False L5 in auto)
    moreover have "slab_rel s' L5 y (P y) (Q y) ?F = slab_rel s' L5 y (P y) (Q y) F" using py by (auto simp: slab_rel_def)
    ultimately show ?thesis using False by simp
  qed
  have nodes: "\<exists>y\<in>X. q \<in> set (?P y @ Q y) \<and> a \<in> chunk_anchors (slabs s' y) q" if a: "a \<in> ring_nodes L5" "anchor_page a = Some q" for a q
  proof -
    have "a \<in> ring_nodes L1 \<or> a \<in> chunk_anchors ?sl p"
      using a(1) k4(2) os(1) unfolding L5_def chunk_anchors_def i_def [symmetric] by (auto simp: ring_nodes_def split: if_splits)
    then show ?thesis
    proof
      assume "a \<in> ring_nodes L1"
      from heap_inv_node(1) [OF inv1 this a(2)] obtain y where y: "y \<in> X" "q \<in> set (P y @ Q y)" "a \<in> chunk_anchors (slabs s1 y) q" by blast
      then show ?thesis using P by (intro bexI [of _ y]) (auto simp: sf k1)
    next
      assume c: "a \<in> chunk_anchors ?sl p"
      then have "q = p" using a(2) ip objs_bound(3) [OF g] by (auto simp: chunk_anchors_def i_def)
      with c x show ?thesis by (intro bexI [of _ x]) (simp_all add: sf)
    qed
  qed
  have b5: "buddy_inv s' L5"
  proof -
    have "\<not> touched x p (BuddyHead k)" "\<not> touched x p (PpNode k)" for k by (simp_all add: touched_def)
    then show ?thesis using heap_invD(1) [OF inv1] fold(1) L5 sf by (simp add: buddy_inv_def buddy_rel_def)
  qed
  have dis: "set (?P y @ Q y) \<inter> set (?P z @ Q z) = {}" if "y \<in> X" "z \<in> X" "y \<noteq> z" for y z
  proof -
    have "set (P y @ Q y) \<inter> set (P z @ Q z) = {}" using inv that unfolding heap_inv_def by blast
    moreover have "p \<notin> set (P y @ Q y)" "p \<notin> set (P z @ Q z)" using pc that by (auto simp: chunk_pages_def)
    ultimately show ?thesis using that P by (auto split: if_splits)
  qed
  have pages: "q < npages s' \<and> q \<notin> free_frames s' \<and> pp_order (pages s' q) = 0" if "q \<in> chunk_pages X ?P Q" for q
  proof -
    have "q = p \<or> q < npages s1 \<and> q \<notin> free_frames s1 \<and> pp_order (pages s1 q) = 0"
      using that inv1 unfolding cp heap_inv_def by blast
    then show ?thesis using pn(1) a1(3,4) ff by (auto simp: sf)
  qed
  have refs: "pp_ref (pages s' q) = 0 \<and> L5 (SwapNode q) = Some []" if "q \<in> free_frames s' \<union> chunk_pages X ?P Q" for q
  proof -
    have "q \<in> free_frames s \<union> chunk_pages X P Q" using that a1(1) ff unfolding cp by auto
    then have "pp_ref (pages s q) = 0 \<and> L (SwapNode q) = Some []" using inv unfolding heap_inv_def by blast
    then show ?thesis using a1(5) L1 [of "SwapNode q"] L5 [of "SwapNode q"] by (simp add: sf alloc_frame_def buddy_anchor_def touched_def)
  qed
  have inv5: "heap_inv s' L5 X ?P Q ?F"
    unfolding heap_inv_def using b5 pn(2) rel dis pages refs nodes by (simp add: sf(5))
  have "live s' X ?P Q ?F = live s X P Q F"
  proof -
    have "(y, a) \<in> live s' X ?P Q ?F \<longleftrightarrow> (y, a) \<in> live s X P Q F" for y a
    proof (cases "y \<in> X \<and> a div 4096 = p")
      case True
      then have "(y, a) \<notin> live s X P Q F" using pc by (auto simp: live_def chunk_pages_def)
      moreover have "(y, a) \<notin> live s' X ?P Q ?F" using True pc os(1) by (auto simp: live_def sf chunk_pages_def split: if_splits)
      ultimately show ?thesis by simp
    qed (use P in \<open>auto simp: live_def sf split: if_splits\<close>)
    then show ?thesis by auto
  qed
  moreover have "kernel_pml4 s' = kernel_pml4 s" "npages s' = npages s" "this_cpu s' = this_cpu s" "nslabs s' = nslabs s"
    using arg_cong [OF fold(2), of kernel_pml4] arg_cong [OF fold(2), of npages] arg_cong [OF fold(2), of this_cpu] arg_cong [OF fold(2), of nslabs]
      kslab_more [of s1 s] a1(5) by (auto simp: alloc_frame_def t_def klist_init_def klist_add_def info_upd_def)
  moreover have "heap_rest 1 s L s' L5"
  proof -
    have "cr3 s' = cr3 s" "cur_task s' = cur_task s" "swap_lock s' = swap_lock s" "kslab.more s' = kslab.more s"
      using arg_cong [OF fold(2), of cr3] arg_cong [OF fold(2), of cur_task] arg_cong [OF fold(2), of swap_lock] arg_cong [OF fold(2), of kslab.more]
        kslab_rest [of s1 s] a1(5) by (auto simp: alloc_frame_def t_def klist_init_def klist_add_def info_upd_def)
    moreover have "L5 a = L a" if "\<not> buddy_anchor a" "\<not> slab_anchor a" for a
      using L5 [of a] L1 [of a] that by (auto simp: touched_def slab_anchor_def)
    moreover have "pp_ref (pages s' i) = pp_ref (pages s i) \<and> pp_zero (pages s' i) = pp_zero (pages s i)" for i
      using al(2) by (simp add: sf alloc_post_def alloc_frame_def)
    moreover have "card (free_frames s) \<le> 1 + card (free_frames s')" using ff a1(1) finite_free_frames [of s] by (simp add: card_Diff_singleton)
    moreover have "pmem s' f = pmem s f" if "f \<notin> free_frames s - free_frames s'" for f using that mem [of f] sf(7) ff a1(1) by auto
    ultimately show ?thesis using ff unfolding heap_rest_def by blast
  qed
  ultimately show ?thesis using run inv5 ff a1(1) mem sf(1,7) unfolding run rok_Inr prod.case by (intro exI [of _ p] exI [of _ L5] exI [of _ os]) simp
qed

text \<open>An allocation takes its object from a chunk or a free page and writes to no other page.\<close>

definition alloc_kept :: "'z kslab_scheme \<Rightarrow> nat set \<Rightarrow> (nat \<Rightarrow> nat list) \<Rightarrow> (nat \<Rightarrow> nat list) \<Rightarrow> nat \<Rightarrow> 'z kslab_scheme \<Rightarrow> bool" where
  "alloc_kept s X P Q a s' \<longleftrightarrow> a div 4096 \<in> free_frames s \<union> chunk_pages X P Q \<and> kernel_pml4 s' = kernel_pml4 s \<and> npages s' = npages s \<and>
     this_cpu s' = this_cpu s \<and> nslabs s' = nslabs s \<and> (\<forall>f. f \<noteq> a div 4096 \<longrightarrow> pmem s' f = pmem s f)"

lemma heap_rest_mono: "heap_rest 0 s L s' L' \<Longrightarrow> heap_rest 1 s L s' L'"
  by (auto simp: heap_rest_def)

lemma heap_alloc_rest:
  assumes inv: "heap_inv s L X P Q F" and x: "x \<in> X"
  shows "P x \<noteq> [] \<or> free_frames s \<noteq> {} \<Longrightarrow> rok (slab_alloc x s) (\<lambda>(r, s'). \<exists>a L' P' Q' F'. r = Some (a + SIZEOF_SLAB_OBJ) \<and>
      heap_inv s' L' X P' Q' F' \<and> slabs s' = slabs s \<and> (x, a) \<notin> live s X P Q F \<and> live s' X P' Q' F' = insert (x, a) (live s X P Q F) \<and>
      alloc_kept s X P Q a s' \<and> heap_rest 1 s L s' L')"
    and "P x = [] \<Longrightarrow> free_frames s = {} \<Longrightarrow> slab_alloc x s = Inl KPanic"
proof -
  have e: "list_is_empty (SlabPartial x) (lh s) \<longleftrightarrow> P x = []"
    using klinks_empty [OF heap_invD(2) [OF inv], of "SlabPartial x"] heap_invD(3) [OF inv x] by (simp add: slab_rel_def)
  show "slab_alloc x s = Inl KPanic" if "P x = []" "free_frames s = {}"
    using page_alloc_spec(2) [OF heap_invD(1) [OF inv] that(2)] that(1) e by (simp add: slab_alloc_def slab_alloc_chunk_def)
  show "rok (slab_alloc x s) (\<lambda>(r, s'). \<exists>a L' P' Q' F'. r = Some (a + SIZEOF_SLAB_OBJ) \<and>
      heap_inv s' L' X P' Q' F' \<and> slabs s' = slabs s \<and> (x, a) \<notin> live s X P Q F \<and> live s' X P' Q' F' = insert (x, a) (live s X P Q F) \<and>
      alloc_kept s X P Q a s' \<and> heap_rest 1 s L s' L')"
    if "P x \<noteq> [] \<or> free_frames s \<noteq> {}"
  proof (cases "P x = []")
    case False
    then have run: "slab_alloc x s = slab_take x s" using e by (simp add: slab_alloc_def)
    have sub: "set (P x) \<subseteq> chunk_pages X P Q" using x by (auto simp: chunk_pages_def)
    show ?thesis unfolding run
    proof (rule rok_mono [OF heap_take [OF inv x False]], clarify, intro exI conjI)
      fix a s' L' assume "a div 4096 \<in> set (P x)" "kernel_pml4 s' = kernel_pml4 s" "npages s' = npages s" "this_cpu s' = this_cpu s" "nslabs s' = nslabs s" "pmem s' = pmem s"
        and r: "heap_rest 0 s L s' L'"
      then show "alloc_kept s X P Q a s'" using sub by (auto simp: alloc_kept_def)
      show "heap_rest 1 s L s' L'" by (rule heap_rest_mono [OF r])
    qed (rule refl | assumption)+
  next
    case True
    then have "free_frames s \<noteq> {}" using that by simp
    from heap_chunk [OF inv x True this] obtain s1 p L1 os where c: "slab_alloc_chunk x s = Inr (0, s1)"
        "heap_inv s1 L1 X (P(x := [p])) Q (F(p := os))" "slabs s1 = slabs s" "live s1 X (P(x := [p])) Q (F(p := os)) = live s X P Q F"
        "p \<in> free_frames s" "kernel_pml4 s1 = kernel_pml4 s" "npages s1 = npages s" "this_cpu s1 = this_cpu s" "nslabs s1 = nslabs s" "\<forall>f. f \<noteq> p \<longrightarrow> pmem s1 f = pmem s f" "heap_rest 1 s L s1 L1"
      by (auto simp: rok_iff)
    have run: "slab_alloc x s = slab_take x s1" using e True c(1) by (simp add: slab_alloc_def)
    have "(P(x := [p])) x \<noteq> []" by simp
    from heap_take [OF c(2) x this] show ?thesis unfolding run c(3,4)
      by (rule rok_mono) (use c heap_rest_trans [OF c(11)] in \<open>clarsimp simp: alloc_kept_def, fastforce\<close>)
  qed
qed

lemma heap_alloc:
  assumes "heap_inv s L X P Q F" and "x \<in> X"
  shows "P x \<noteq> [] \<or> free_frames s \<noteq> {} \<Longrightarrow> rok (slab_alloc x s) (\<lambda>(r, s'). \<exists>a L' P' Q' F'. r = Some (a + SIZEOF_SLAB_OBJ) \<and>
      heap_inv s' L' X P' Q' F' \<and> slabs s' = slabs s \<and> (x, a) \<notin> live s X P Q F \<and> live s' X P' Q' F' = insert (x, a) (live s X P Q F) \<and>
      alloc_kept s X P Q a s')"
  by (rule rok_mono [OF heap_alloc_rest(1) [OF assms]]) blast+

section \<open>Freeing a chunk\<close>

text \<open>The kernel maps page \<open>p\<close> at its place in the direct map, through tables that are not the page itself.\<close>

definition direct_map :: "'z kslab_scheme \<Rightarrow> nat \<Rightarrow> bool" where
  "direct_map s p \<longleftrightarrow> (let va = KERNEL_VMA + of_nat (4096 * p) in
     \<exists>t3 t2 t1. link s (kernel_pml4 s) 0 va = Some t3 \<and> link s t3 1 va = Some t2 \<and> link s t2 2 va = Some t1 \<and>
       present (rd (t1, ix 3 va) s) \<and> entry_frame (rd (t1, ix 3 va) s) = p \<and>
       p \<notin> {kernel_pml4 s, t3, t2, t1} \<and> t3 < npages s \<and> t2 < npages s \<and> t1 < npages s)"

lemma direct_va:
  assumes "p < 2 ^ 35"
  shows "canonical (KERNEL_VMA + of_nat (4096 * p))" and "page_aligned (KERNEL_VMA + of_nat (4096 * p))"
proof -
  let ?x = "of_nat (4096 * p) :: u64"
  have u: "unat ?x = 4096 * p" by (subst unat_of_nat) (use assms in simp)
  have sum: "unat (KERNEL_VMA + ?x) = unat KERNEL_VMA + 4096 * p"
  proof -
    have "unat KERNEL_VMA + unat ?x < 2 ^ LENGTH(64)" using assms unfolding u by (simp add: KERNEL_VMA_def)
    then show ?thesis using u by (simp only: unat_word_ariths) simp
  qed
  then have ge: "\<not> KERNEL_VMA + ?x < USER_LIM" by (simp add: word_less_nat_alt KERNEL_VMA_def USER_LIM_def)
  have "unat (take_bit 47 ?x) = unat ?x" unfolding unsigned_take_bit_eq u using assms by (simp add: take_bit_eq_mod)
  then have tb: "?x AND mask 47 = ?x" by (simp only: word_unat_eq_iff take_bit_eq_mask)
  have "KERNEL_VMA AND ?x = KERNEL_VMA AND (?x AND mask 47)" unfolding tb ..
  also have "\<dots> = (KERNEL_VMA AND mask 47) AND ?x" by (simp only: and.assoc and.commute and.left_commute)
  also have "KERNEL_VMA AND mask 47 = 0" by (simp add: KERNEL_VMA_def mask_eq_exp_minus_1)
  finally have or: "KERNEL_VMA + ?x = KERNEL_VMA OR ?x" by (simp add: disjunctive_add_eq_or)
  have "0xFFFF000000000000 OR (KERNEL_VMA OR ?x) = (0xFFFF000000000000 OR KERNEL_VMA) OR ?x" by (simp add: or.assoc)
  also have "0xFFFF000000000000 OR KERNEL_VMA = KERNEL_VMA" by (simp add: KERNEL_VMA_def)
  finally show "canonical (KERNEL_VMA + ?x)" using ge or by (simp add: canonical_def sign_extend_def)
  have "unat (take_bit 12 (KERNEL_VMA + ?x)) = 0"
    unfolding unsigned_take_bit_eq sum by (simp add: take_bit_eq_mod KERNEL_VMA_def)
  then have "(KERNEL_VMA + ?x) AND mask 12 = 0" by (simp add: take_bit_eq_mask unat_eq_0)
  then show "page_aligned (KERNEL_VMA + ?x)" by (simp add: page_aligned_def PAGE_SIZE_def mask_eq_exp_minus_1)
qed

lemma direct_map_lookup:
  assumes dm: "direct_map s p" and n: "npages s \<le> 2 ^ 35" "p < npages s"
    and s': "kernel_pml4 s' = kernel_pml4 s" "npages s' = npages s" "\<And>f. f \<noteq> p \<Longrightarrow> pmem s' f = pmem s f"
  shows "page_lookup (kernel_pml4 s') (KERNEL_VMA + of_nat (4096 * p)) None s' = Inr (Some p, None)"
proof -
  define va :: u64 where "va = KERNEL_VMA + of_nat (4096 * p)"
  obtain t3 t2 t1 where d: "link s (kernel_pml4 s) 0 va = Some t3" "link s t3 1 va = Some t2" "link s t2 2 va = Some t1"
      "present (rd (t1, ix 3 va) s)" "entry_frame (rd (t1, ix 3 va) s) = p" "p \<notin> {kernel_pml4 s, t3, t2, t1}" "t3 < npages s" "t2 < npages s" "t1 < npages s"
    using dm unfolding direct_map_def Let_def va_def by blast
  have rd: "rd (t, j) s' = rd (t, j) s" if "t \<noteq> p" for t j using s'(3) [OF that] by (simp add: rd_def)
  have link: "link s' t k va = link s t k va" if "t \<noteq> p" for t k using rd [OF that] by (simp add: link_def)
  have l': "link s' (kernel_pml4 s') 0 va = Some t3" "link s' t3 1 va = Some t2" "link s' t2 2 va = Some t1"
    using d link s'(1) by auto
  have "translate s' (kernel_pml4 s') va = Some p"
    using l' d(4-6) rd [of t1] by (simp add: translate_def mapped_def leaf_def)
  moreover have "path_in_memory s' (kernel_pml4 s') va" using l' d(7-9) s'(2) by (simp add: path_in_memory_def)
  ultimately show ?thesis
    using page_lookup_spec(1) [OF direct_va(2,1), of p s' "kernel_pml4 s'"] n s'(2) unfolding va_def by simp
qed

lemma slab_rel_drop:
  fixes s s' :: "'z kslab_scheme"
  assumes rel: "slab_rel s L x ps fs F" and s: "slabs s' = slabs s" "sinfo s' = sinfo s" "obj_info s' = obj_info s"
    and L: "\<And>a. slab_anchor a \<Longrightarrow> \<not> touched x p a \<Longrightarrow> L' a = L a" "L' (SlabFull x) = L (SlabFull x)"
    and LP: "L' (SlabPartial x) = Some (map (\<lambda>p. InfoNode (info_at (slabs s x) p)) (remove1 p ps))" and p: "p \<notin> set fs"
  shows "slab_rel s' L' x (remove1 p ps) fs F"
proof -
  have g: "slab_geom (slabs s x)" and d: "distinct (ps @ fs)" using rel by (auto simp: slab_rel_def)
  have sub: "set (remove1 p ps) = set ps - {p}" using d by auto
  have "chunk_ok s' L' x q (F q)" if q: "q \<in> set (remove1 p ps @ fs)" for q
  proof -
    have qp: "q \<noteq> p" "q \<in> set (ps @ fs)" using q sub p by auto
    show ?thesis
    proof (rule chunk_ok_frame [OF _ g qp(1)])
      show "chunk_ok s L x q (F q)" using rel qp(2) by (simp add: slab_rel_def)
      show "same_chunks p s s'" using s by (simp add: same_chunks_def)
      show "L' a = L a" if "anchor_page a = Some q" for a
        using L(1) [of a] that qp(1) by (cases a) (auto simp: touched_def slab_anchor_def)
    qed
  qed
  then show ?thesis using rel d sub LP L(2) s(1) unfolding slab_rel_def by (auto simp: distinct_remove1)
qed

text \<open>Taking an empty chunk out of its slab: no list holds an anchor inside its page any more.\<close>

lemma heap_drop:
  assumes inv: "heap_inv s L X P Q F" and x: "x \<in> X" and p: "p \<in> set (P x)" and all: "set (F p) = objs (slabs s x) p"
  defines "i \<equiv> info_at (slabs s x) p"
  shows "\<exists>h L'. klist_del (InfoNode i) s = Inr (s\<lparr>lh := h\<rparr>) \<and> heap_inv (s\<lparr>lh := h\<rparr>) L' X (P(x := remove1 p (P x))) Q F \<and>
    L' (SwapNode p) = Some [] \<and> p \<notin> chunk_pages X (P(x := remove1 p (P x))) Q"
proof -
  let ?sl = "slabs s x" and ?P = "P(x := remove1 p (P x))"
  note rel = heap_invD(3) [OF inv x] and kl = heap_invD(2) [OF inv] and g = heap_invD(4) [OF inv x]
  have ip: "i div 4096 = p" unfolding i_def by (rule info_at_page [OF g])
  have ok: "chunk_ok s L x p (F p)" and d: "distinct (P x @ Q x)" using rel p by (auto simp: slab_rel_def)
  have LP: "L (SlabPartial x) = Some (map (\<lambda>p. InfoNode (info_at ?sl p)) (P x))" using rel by (simp add: slab_rel_def)
  have inj: "inj (\<lambda>p. InfoNode (info_at ?sl p))" by (auto simp: inj_def info_at_def)
  have n: "InfoNode i \<in> set (map (\<lambda>p. InfoNode (info_at ?sl p)) (P x))" using p by (auto simp: i_def)
  have rm: "remove1 (InfoNode i) (map (\<lambda>p. InfoNode (info_at ?sl p)) (P x)) = map (\<lambda>p. InfoNode (info_at ?sl p)) (remove1 p (P x))"
    using map_remove1_inj [OF inj, of p "P x"] by (simp add: i_def)
  define L1 where "L1 = L(SlabPartial x \<mapsto> map (\<lambda>p. InfoNode (info_at ?sl p)) (remove1 p (P x)), InfoNode i \<mapsto> [])"
  obtain h where h: "klist_del (InfoNode i) s = Inr (s\<lparr>lh := h\<rparr>)" "klinks h L1"
    using klist_del_rok [OF kl LP n] unfolding rm L1_def by blast
  define L2 where "L2 = L1 |` {a. anchor_page a \<noteq> Some p}"
  let ?s = "s\<lparr>lh := h\<rparr>"
  have L2: "L2 a = L a" if "\<not> touched x p a" for a
    using that ip by (auto simp: L2_def L1_def touched_def restrict_map_def)
  have sets: "set (?P y @ Q y) = (if y = x then set (P y @ Q y) - {p} else set (P y @ Q y))" for y using d p by auto
  have other: "p \<notin> set (P y @ Q y)" if "y \<in> X" "y \<noteq> x" for y using inv x p that unfolding heap_inv_def by fastforce
  have cp: "chunk_pages X ?P Q = chunk_pages X P Q - {p}" unfolding chunk_pages_def sets using other by (auto split: if_splits)
  have rels: "slab_rel ?s L2 y (?P y) (Q y) F" if y: "y \<in> X" for y
  proof (cases "y = x")
    case True
    have "slab_rel ?s L2 x (remove1 p (P x)) (Q x) F"
      by (rule slab_rel_drop [OF rel]) (use L2 d p in \<open>auto simp: L2_def L1_def restrict_map_def\<close>)
    with True show ?thesis by simp
  next
    case False
    have "slab_rel ?s L2 y (P y) (Q y) F"
      by (rule slab_rel_frame [OF heap_invD(3) [OF inv y] _ other [OF y False]]) (use False L2 in \<open>auto simp: same_chunks_def\<close>)
    with False show ?thesis by simp
  qed
  have rn: "ring_nodes L2 \<subseteq> ring_nodes L"
  proof -
    have "ring_nodes L2 \<subseteq> ring_nodes L1" by (auto simp: L2_def ring_nodes_def restrict_map_def split: if_splits)
    also have "\<dots> \<subseteq> ring_nodes L" using ring_nodes_del [of L, OF LP n] unfolding rm L1_def by simp
    finally show ?thesis .
  qed
  have clear: "anchor_page a \<noteq> Some p" if a: "a \<in> ring_nodes L2" for a
  proof
    assume ap: "anchor_page a = Some p"
    obtain y where y: "y \<in> X" "p \<in> set (P y @ Q y)" "a \<in> chunk_anchors (slabs s y) p" using heap_inv_node(1) [OF inv _ ap] a rn by blast
    have "y = x" using other y(1,2) by blast
    then have "a = InfoNode i \<or> a = InfoFree i \<or> a \<in> set (map ObjNode (F p))" using y(3) all by (auto simp: chunk_anchors_def i_def)
    moreover have "L1 (InfoNode i) = Some []" "L1 (InfoFree i) = Some (map ObjNode (F p))" using ok by (auto simp: L1_def chunk_ok_def i_def)
    ultimately obtain b bs where b: "L1 b = Some bs" "a \<in> set (b # bs)" "anchor_page b = Some p" using ip by fastforce
    obtain q ys where q: "L1 q = Some ys" "a \<in> set (q # ys)" "anchor_page q \<noteq> Some p"
      using a by (auto simp: L2_def ring_nodes_def restrict_map_def split: if_splits)
    have "q \<noteq> b" using b(3) q(3) by auto
    from rings.family_disjoint [OF klinks_family [OF h(2)] q(1) b(1) this] b(2) q(2) show False by blast
  qed
  have nodes: "\<exists>y\<in>X. q \<in> set (?P y @ Q y) \<and> a \<in> chunk_anchors (slabs ?s y) q" if a: "a \<in> ring_nodes L2" "anchor_page a = Some q" for a q
  proof -
    have "q \<noteq> p" using clear [OF a(1)] a(2) by auto
    moreover obtain y where "y \<in> X" "q \<in> set (P y @ Q y)" "a \<in> chunk_anchors (slabs s y) q" using heap_inv_node(1) [OF inv _ a(2)] a(1) rn by blast
    ultimately show ?thesis unfolding sets by (intro bexI [of _ y]) auto
  qed
  have b2: "buddy_inv ?s L2"
  proof -
    have "\<not> touched x p (BuddyHead k)" "\<not> touched x p (PpNode k)" for k by (simp_all add: touched_def)
    moreover have "klinks h L2" unfolding L2_def by (rule klinks_restrict [OF h(2)])
    ultimately show ?thesis using heap_invD(1) [OF inv] L2 by (simp add: buddy_inv_def buddy_rel_def)
  qed
  have sw: "L2 (SwapNode q) = L (SwapNode q)" for q using L2 [of "SwapNode q"] by (simp add: touched_def)
  have pcp: "p \<in> chunk_pages X P Q" using x p by (auto simp: chunk_pages_def)
  have dis: "set (?P y @ Q y) \<inter> set (?P z @ Q z) = {}" if "y \<in> X" "z \<in> X" "y \<noteq> z" for y z
  proof -
    have "set (P y @ Q y) \<inter> set (P z @ Q z) = {}" using inv that unfolding heap_inv_def by blast
    then show ?thesis unfolding sets by auto
  qed
  have same: "free_frames ?s = free_frames s" by (simp add: free_frames_def)
  have facts: "npages s \<le> 2 ^ 35" "\<forall>q\<in>chunk_pages X P Q. q < npages s \<and> q \<notin> free_frames s \<and> pp_order (pages s q) = 0"
      "\<forall>q\<in>free_frames s \<union> chunk_pages X P Q. pp_ref (pages s q) = 0 \<and> L (SwapNode q) = Some []"
    using inv unfolding heap_inv_def by blast+
  have "heap_inv ?s L2 X ?P Q F"
    unfolding heap_inv_def cp same using b2 rels dis nodes facts by (simp add: sw) blast
  moreover have "L2 (SwapNode p) = Some []" using facts(3) pcp sw by simp
  ultimately show ?thesis using h(1) cp by blast
qed

lemma heap_free_chunk:
  assumes inv: "heap_inv s L X P Q F" and x: "x \<in> X" and p: "p \<in> set (P x)" and all: "set (F p) = objs (slabs s x) p" and dm: "direct_map s p"
  shows "rok (slab_free_chunk x (info_at (slabs s x) p) s) (\<lambda>s'. \<exists>L'. heap_inv s' L' X (P(x := remove1 p (P x))) Q F \<and> slabs s' = slabs s \<and>
     free_frames s' = insert p (free_frames s))"
proof -
  let ?i = "info_at (slabs s x) p" and ?P = "P(x := remove1 p (P x))"
  obtain h L1 where h: "klist_del (InfoNode ?i) s = Inr (s\<lparr>lh := h\<rparr>)" "heap_inv (s\<lparr>lh := h\<rparr>) L1 X ?P Q F" "L1 (SwapNode p) = Some []"
      "p \<notin> chunk_pages X ?P Q"
    using heap_drop [OF inv x p all] by blast
  let ?s = "s\<lparr>lh := h\<rparr>"
  have pc: "p \<in> chunk_pages X P Q" using x p by (auto simp: chunk_pages_def)
  have f: "npages s \<le> 2 ^ 35" "p < npages s" "p \<notin> free_frames s" "pp_order (pages s p) = 0" "pp_ref (pages s p) = 0"
    using inv pc unfolding heap_inv_def by blast+
  have lk: "page_lookup (kernel_pml4 ?s) (KERNEL_VMA + of_nat (4096 * p)) None ?s = Inr (Some p, None)"
    by (rule direct_map_lookup [OF dm f(1,2)]) simp_all
  have va: "?i - info_off (slabs ?s x) = 4096 * p" by (simp add: info_at_def)
  have run: "slab_free_chunk x ?i s = page_free p ?s"
    unfolding slab_free_chunk_def h(1) using lk va by simp
  have ff: "free_frames ?s = free_frames s" by (simp add: free_frames_def)
  have blk: "blk (pages ?s) p = {p}" using f(4) by (auto simp: blk_def)
  have "freeable ?s p" using f ff blk by (simp add: freeable_def BUDDY_MAX_ORDER_def)
  then have "rok (page_free p ?s) (\<lambda>s'. \<exists>L'. free_post ?s L1 p s' L')"
    using page_free_spec [OF heap_invD(1) [OF h(2)], of p] f(5) h(3) by (simp add: swap_known_def)
  then show ?thesis unfolding run
  proof (rule rok_mono, elim exE)
    fix s' M
    assume fp: "free_post ?s L1 p s' M"
    have sr: "swap_removed p L1 = L1" using h(3) by (simp add: swap_removed_def)
    have fr: "buddy_inv s' M" "alloc_frame ?s L1 s' M" and ff': "free_frames s' = insert p (free_frames s)"
      and po: "\<And>q. q \<notin> free_frames s' \<Longrightarrow> pp_order (pages s' q) = pp_order (pages s q)"
      using fp blk ff unfolding free_post_def sr by auto
    have "q \<notin> chunk_pages X ?P Q \<and> pp_ref (pages ?s q) = 0 \<and> L1 (SwapNode q) = Some []" if "q \<in> free_frames s'" for q
    proof (cases "q = p")
      case False
      then have "q \<in> free_frames ?s" using that ff' ff by simp
      then show ?thesis using h(2) unfolding heap_inv_def by blast
    qed (use h f in simp)
    moreover have "pp_order (pages s' q) = 0" if "q \<in> chunk_pages X ?P Q" for q
    proof -
      have q: "q \<notin> free_frames ?s" "pp_order (pages ?s q) = 0" using h(2) that unfolding heap_inv_def by blast+
      then have "q \<notin> free_frames s'" using ff' ff h(4) that by auto
      then show ?thesis using po q by simp
    qed
    ultimately obtain L' where "heap_inv s' L' X ?P Q F" using heap_inv_trim [OF h(2) fr] by blast
    moreover have "slabs s' = slabs s" using kslab_more [of s' ?s] fr(2) by (simp add: alloc_frame_def)
    ultimately show "\<exists>L'. heap_inv s' L' X ?P Q F \<and> slabs s' = slabs s \<and> free_frames s' = insert p (free_frames s)" using ff' by blast
  qed
qed

lemma direct_map_cong:
  assumes "direct_map s p" and s': "kernel_pml4 s' = kernel_pml4 s" "npages s' = npages s" "\<And>f. f \<noteq> p \<Longrightarrow> pmem s' f = pmem s f"
  shows "direct_map s' p"
proof -
  have rd: "rd (t, j) s' = rd (t, j) s" if "t \<noteq> p" for t j using s'(3) [OF that] by (simp add: rd_def)
  have link: "link s' t k va = link s t k va" if "t \<noteq> p" for t k va using rd [OF that] by (simp add: link_def)
  define va :: u64 where "va = KERNEL_VMA + of_nat (4096 * p)"
  obtain t3 t2 t1 where d: "link s (kernel_pml4 s) 0 va = Some t3" "link s t3 1 va = Some t2" "link s t2 2 va = Some t1"
      "present (rd (t1, ix 3 va) s)" "entry_frame (rd (t1, ix 3 va) s) = p" "p \<notin> {kernel_pml4 s, t3, t2, t1}" "t3 < npages s" "t2 < npages s" "t1 < npages s"
    using assms(1) unfolding direct_map_def Let_def va_def by blast
  then show ?thesis unfolding direct_map_def Let_def s'(1,2) va_def [symmetric]
    by (intro exI [of _ t3] exI [of _ t2] exI [of _ t1]) (auto simp: rd link)
qed

lemma live_page:
  assumes inv: "heap_inv s L X P Q F" and x: "x \<in> X" and p: "p \<in> set (P x @ Q x)"
  shows "live s X P Q F \<inter> {x} \<times> objs (slabs s x) p = {x} \<times> (objs (slabs s x) p - set (F p))"
  using x p objs_bound(3) [OF heap_invD(4) [OF inv x]] by (auto simp: live_def)

lemma heap_free:
  assumes inv: "heap_inv s L X P Q F" and l: "(x, a) \<in> live s X P Q F"
    and dm: "Suc (length (F (a div 4096))) = count (slabs s x) \<longrightarrow> direct_map s (a div 4096)"
  shows "rok (slab_free (a + SIZEOF_SLAB_OBJ) s) (\<lambda>s'. \<exists>L' P' Q' F'. heap_inv s' L' X P' Q' F' \<and> slabs s' = slabs s \<and>
     live s' X P' Q' F' = live s X P Q F - {(x, a)})"
proof -
  let ?sl = "slabs s x"
  define p where "p = a div 4096"
  have x: "x \<in> X" and p: "p \<in> set (P x @ Q x)" and a: "a \<in> objs ?sl p" "a \<notin> set (F p)" using l by (auto simp: live_def p_def)
  note rel = heap_invD(3) [OF inv x] and g = heap_invD(4) [OF inv x]
  obtain s1 L1 ps' fs' where r: "slab_free (a + SIZEOF_SLAB_OBJ) s = (if count ?sl \<le> Suc (length (F p)) then slab_free_chunk x (info_at ?sl p) s1 else Inr s1)"
      "slab_rel s1 L1 x ps' fs' (F(p := a # F p))" "set (ps' @ fs') = set (P x @ Q x)" "slab_frame x p s L s1 L1"
    using slab_free_spec [OF rel heap_invD(2) [OF inv] p a] by blast
  let ?P = "P(x := ps')" and ?Q = "Q(x := fs')" and ?F = "F(p := a # F p)"
  have inv1: "heap_inv s1 L1 X ?P ?Q ?F" by (rule heap_inv_update [OF inv x p r(4,2,3)])
  have sl: "slabs s1 = slabs s" using r(4) by (simp add: slab_frame_def same_chunks_def)
  have lv: "live s1 X ?P ?Q ?F = live s X P Q F - {(x, a)}"
    unfolding live_update [OF inv x p r(3) sl] using live_page [OF inv x p] a l by auto
  show ?thesis
  proof (cases "count ?sl \<le> Suc (length (F p))")
    case False
    then show ?thesis unfolding r(1) using inv1 sl lv by auto
  next
    case True
    have ok: "chunk_ok s L x p (F p)" using rel p by (auto simp: slab_rel_def)
    have sub: "set (a # F p) \<subseteq> objs ?sl p" and LI: "L (InfoFree (info_at ?sl p)) = Some (map ObjNode (F p))" using ok a by (auto simp: chunk_ok_def)
    have d: "distinct (a # F p)" using klinks_rep [OF heap_invD(2) [OF inv] LI] a(2) by (auto simp: is_list_def distinct_map)
    have c: "card (set (a # F p)) = Suc (length (F p))" using distinct_card [OF d] by simp
    then have len: "Suc (length (F p)) = count ?sl" using card_mono [OF _ sub] card_objs [OF g] True by simp
    then have all: "set (?F p) = objs (slabs s1 x) p" using card_subset_eq [OF _ sub] c card_objs [OF g] sl by simp
    have e: "s1 = s\<lparr>lh := lh s1, pmem := pmem s1, sinfo := sinfo s1\<rparr>" "\<And>f. f \<noteq> p \<Longrightarrow> pmem s1 f = pmem s f"
      using r(4) by (simp_all add: slab_frame_def)
    have "kernel_pml4 s1 = kernel_pml4 s" "npages s1 = npages s"
      using arg_cong [OF e(1), of kernel_pml4] arg_cong [OF e(1), of npages] by simp_all
    then have dm1: "direct_map s1 p" using direct_map_cong [of s p s1] e(2) dm len by (simp add: p_def)
    have pp: "p \<in> set (?P x)"
    proof -
      have "p \<in> set (ps' @ fs')" using p unfolding r(3) .
      moreover have "p \<notin> set fs'" using r(2) by (force simp: slab_rel_def)
      ultimately show ?thesis by simp
    qed
    have "rok (slab_free_chunk x (info_at ?sl p) s1) (\<lambda>s'. \<exists>L'. heap_inv s' L' X (?P(x := remove1 p ps')) ?Q ?F \<and> slabs s' = slabs s)"
      by (rule rok_mono [OF heap_free_chunk [OF inv1 x pp all dm1, unfolded sl fun_upd_same]]) blast
    then show ?thesis unfolding r(1) if_P [OF True]
    proof (rule rok_mono, elim exE conjE)
      fix s' L'
      assume s': "heap_inv s' L' X (?P(x := remove1 p ps')) ?Q ?F" "slabs s' = slabs s"
      have dp: "distinct (ps' @ fs')" using r(2) by (simp add: slab_rel_def)
      have "(y, b) \<in> live s' X (?P(x := remove1 p ps')) ?Q ?F \<longleftrightarrow> (y, b) \<in> live s1 X ?P ?Q ?F" for y b
        using all dp unfolding live_def s'(2) sl by (auto split: if_splits)
      then have "live s' X (?P(x := remove1 p ps')) ?Q ?F = live s X P Q F - {(x, a)}" using lv by auto
      with s' show "\<exists>L' P' Q' F'. heap_inv s' L' X P' Q' F' \<and> slabs s' = slabs s \<and> live s' X P' Q' F' = live s X P Q F - {(x, a)}" by blast
    qed
  qed
qed

end
