(* ===== verification/Slab_Props.thy ===== *)
theory Slab_Props
  imports Slab_Spec
begin

text \<open>
  The size classes of kernel/mem/kmem.c, a concrete heap for the witnesses, and the properties of
  \<^verbatim>\<open>kmem_init\<close>, \<^verbatim>\<open>kmalloc\<close> and \<^verbatim>\<open>kfree\<close>.
\<close>

section \<open>The size classes\<close>

lemma heap_setup:
  assumes inv: "heap_inv s L X (\<lambda>_. []) (\<lambda>_. []) F" and x: "x \<notin> X" and fresh: "SlabPartial x \<notin> ring_nodes L" "SlabFull x \<notin> ring_nodes L" and n: "n \<le> 4008"
  shows "\<exists>L'. heap_inv (slab_setup x n s) L' (insert x X) (\<lambda>_. []) (\<lambda>_. []) F \<and> ring_nodes L' \<subseteq> ring_nodes L \<union> {SlabPartial x, SlabFull x} \<and>
     (\<forall>a. \<not> slab_anchor a \<longrightarrow> L' a = L a)"
proof -
  let ?s = "slab_setup x n s"
  define L' where "L' = L(SlabFull x \<mapsto> [], SlabPartial x \<mapsto> [])"
  have lh: "lh ?s = list_init (SlabPartial x) (list_init (SlabFull x) (lh s))" and sl: "y \<noteq> x \<Longrightarrow> slabs ?s y = slabs s y"
    and same: "pages ?s = pages s" "npages ?s = npages s" "buddy_lock ?s = buddy_lock s" "sinfo ?s = sinfo s" "obj_info ?s = obj_info s" for y
    by (simp_all add: slab_setup_def klist_init_def Let_def)
  have k1: "klinks (list_init (SlabFull x) (lh s)) (L(SlabFull x \<mapsto> []))"
    by (rule klinks_init [OF heap_invD(2) [OF inv] fresh(2)]) (auto simp: zero_area_def)
  have "SlabPartial x \<notin> ring_nodes (L(SlabFull x \<mapsto> []))" using fresh(1) by (auto simp: ring_nodes_def split: if_splits)
  from klinks_init [OF k1 this] have k2: "klinks (lh ?s) L'" unfolding lh L'_def by (auto simp: zero_area_def)
  have rn: "ring_nodes L' \<subseteq> ring_nodes L \<union> {SlabPartial x, SlabFull x}" by (auto simp: L'_def ring_nodes_def split: if_splits)
  have "buddy_inv ?s L'" using heap_invD(1) [OF inv] k2 by (simp add: buddy_inv_def buddy_rel_def same L'_def)
  moreover have "slab_rel ?s L' y [] [] F" if "y \<in> insert x X" for y
  proof (cases "y = x")
    case True
    then show ?thesis using slab_setup_geom(1) [OF n, of x s] by (simp add: slab_rel_def L'_def)
  next
    case False
    then show ?thesis using that heap_invD(3) [OF inv, of y] sl [of y] by (simp add: slab_rel_def L'_def)
  qed
  moreover have "free_frames ?s = free_frames s" by (simp add: free_frames_def same)
  moreover have "anchor_page a \<noteq> Some p" if "a \<in> ring_nodes L'" for a p
    using rn that heap_inv_node(1) [OF inv, of a p] by auto
  ultimately have "heap_inv ?s L' (insert x X) (\<lambda>_. []) (\<lambda>_. []) F"
    using inv unfolding heap_inv_def chunk_pages_def same by (auto simp: L'_def)
  moreover have "L' a = L a" if "\<not> slab_anchor a" for a using that by (auto simp: L'_def slab_anchor_def)
  ultimately show ?thesis using rn by blast
qed

definition heap_fresh :: "'z kslab_scheme \<Rightarrow> (anchor \<rightharpoonup> anchor list) \<Rightarrow> bool" where
  "heap_fresh s L \<longleftrightarrow> buddy_inv s L \<and> npages s \<le> 2 ^ 35 \<and> (\<forall>a\<in>ring_nodes L. \<not> slab_anchor a) \<and>
     (\<forall>f\<in>free_frames s. pp_ref (pages s f) = 0 \<and> L (SwapNode f) = Some [])"

definition class_sizes :: "'z kslab_scheme \<Rightarrow> nat \<Rightarrow> nat \<Rightarrow> bool" where
  "class_sizes s cpu n \<longleftrightarrow> (\<forall>i<n. (i + 1) * SLAB_ALIGN + SIZEOF_SLAB_OBJ \<le> obj_size (slabs s (slab_ptr cpu i)))"

lemma kmem_init_fold:
  assumes "heap_fresh s L" and "n \<le> 32"
  defines "t \<equiv> fold (\<lambda>i s. slab_setup (slab_ptr (this_cpu s) i) ((i + 1) * SLAB_ALIGN) s) [0..<n] s"
  shows "\<exists>L'. heap_inv t L' (slab_ptr (this_cpu s) ` {..<n}) (\<lambda>_. []) (\<lambda>_. []) F \<and>
      (\<forall>a\<in>ring_nodes L'. slab_anchor a \<longrightarrow> (\<exists>i<n. a = SlabPartial (slab_ptr (this_cpu s) i) \<or> a = SlabFull (slab_ptr (this_cpu s) i))) \<and>
      class_sizes t (this_cpu s) n \<and> this_cpu t = this_cpu s \<and> nslabs t = nslabs s \<and> (\<forall>a. \<not> slab_anchor a \<longrightarrow> L' a = L a)"
  using assms(2) unfolding t_def
proof (induction n)
  case 0
  have "heap_inv s L {} (\<lambda>_. []) (\<lambda>_. []) F"
    using assms(1) by (auto simp: heap_fresh_def heap_inv_def chunk_pages_def slab_anchor_def)
  then show ?case using assms(1) by (auto simp: heap_fresh_def class_sizes_def)
next
  case (Suc n)
  let ?c = "this_cpu s"
  define t where "t = fold (\<lambda>i s. slab_setup (slab_ptr (this_cpu s) i) ((i + 1) * SLAB_ALIGN) s) [0..<n] s"
  obtain L1 where L1: "heap_inv t L1 (slab_ptr ?c ` {..<n}) (\<lambda>_. []) (\<lambda>_. []) F"
      "\<forall>a\<in>ring_nodes L1. slab_anchor a \<longrightarrow> (\<exists>i<n. a = SlabPartial (slab_ptr ?c i) \<or> a = SlabFull (slab_ptr ?c i))"
      "class_sizes t ?c n" "this_cpu t = ?c" "nslabs t = nslabs s" "\<forall>a. \<not> slab_anchor a \<longrightarrow> L1 a = L a"
    using Suc.IH Suc.prems unfolding t_def by auto
  let ?x = "slab_ptr ?c n" and ?t = "slab_setup (slab_ptr ?c n) ((n + 1) * SLAB_ALIGN) t"
  have ne: "i < n \<Longrightarrow> slab_ptr ?c i \<noteq> ?x" for i by (simp add: slab_ptr_def)
  have fr: "SlabPartial ?x \<notin> ring_nodes L1" "SlabFull ?x \<notin> ring_nodes L1" using L1(2) ne by (fastforce simp: slab_anchor_def)+
  have "(n + 1) * SLAB_ALIGN \<le> 4008" using Suc.prems by (simp add: SLAB_ALIGN_def)
  from heap_setup [OF L1(1) _ fr this] ne obtain L2 where L2: "heap_inv ?t L2 (insert ?x (slab_ptr ?c ` {..<n})) (\<lambda>_. []) (\<lambda>_. []) F"
      "ring_nodes L2 \<subseteq> ring_nodes L1 \<union> {SlabPartial ?x, SlabFull ?x}" "\<forall>a. \<not> slab_anchor a \<longrightarrow> L2 a = L1 a" by force
  have X: "insert ?x (slab_ptr ?c ` {..<n}) = slab_ptr ?c ` {..<Suc n}" by (auto simp: lessThan_Suc)
  have keep: "slabs ?t (slab_ptr ?c i) = slabs t (slab_ptr ?c i)" if "i < n" for i
    using ne [OF that] by (simp add: slab_setup_def klist_init_def Let_def)
  have cs: "class_sizes ?t ?c (Suc n)"
    using L1(3) keep slab_setup_geom(2) [OF \<open>(n + 1) * SLAB_ALIGN \<le> 4008\<close>, of ?x t] by (auto simp: class_sizes_def less_Suc_eq)
  have tc: "this_cpu ?t = ?c" "nslabs ?t = nslabs s" using L1(4,5) by (simp_all add: slab_setup_def klist_init_def Let_def)
  have nodes: "\<forall>a\<in>ring_nodes L2. slab_anchor a \<longrightarrow> (\<exists>i<Suc n. a = SlabPartial (slab_ptr ?c i) \<or> a = SlabFull (slab_ptr ?c i))"
    using L2(2) L1(2) less_Suc_eq by blast
  have step: "fold (\<lambda>i s. slab_setup (slab_ptr (this_cpu s) i) ((i + 1) * SLAB_ALIGN) s) [0..<Suc n] s = ?t"
    using L1(4) unfolding t_def by simp
  show ?case unfolding step using L2(1) [unfolded X] nodes cs tc L1(6) L2(3) by (metis (no_types, lifting))
qed

lemma live_apart:
  assumes inv: "heap_inv s L X P Q F" and l: "(x, a) \<in> live s X P Q F" "(y, b) \<in> live s X P Q F" "(x, a) \<noteq> (y, b)"
  shows "a + obj_size (slabs s x) \<le> b \<or> b + obj_size (slabs s y) \<le> a"
proof (rule objs_apart)
  have m: "x \<in> X" "y \<in> X" "a div 4096 \<in> set (P x @ Q x)" "b div 4096 \<in> set (P y @ Q y)" using l(1,2) by (auto simp: live_def)
  show "slab_geom (slabs s x)" "slab_geom (slabs s y)" using heap_invD(4) [OF inv] m by auto
  show "a \<in> objs (slabs s x) (a div 4096)" "b \<in> objs (slabs s y) (b div 4096)" using l(1,2) by (auto simp: live_def)
  have "x \<noteq> y \<Longrightarrow> a div 4096 \<noteq> b div 4096" using heap_inv_disjoint [OF inv m(1,2)] m(3,4) by auto
  then show "a div 4096 \<noteq> b div 4096 \<or> slabs s x = slabs s y \<and> a \<noteq> b" using l(3) by auto
qed

text \<open>The rounding of sizes in \<^verbatim>\<open>kmalloc\<close>, including sizes for which it wraps around.\<close>

lemma kmalloc_index:
  fixes sz :: u64
  shows "1024 < sz \<Longrightarrow> 32 \<le> ROUNDUP sz 32 div 32 - 1"
    and "0 < sz \<Longrightarrow> sz \<le> 1024 \<Longrightarrow> unat (ROUNDUP sz 32 div 32 - 1) = (unat sz + 31) div 32 - 1"
proof -
  have down: "unat (ROUNDDOWN a 32) = unat a div 32 * 32" for a :: u64
  proof -
    have "a mod 32 \<le> a" by (simp add: word_le_nat_alt unat_mod)
    then have "unat (a - a mod 32) = unat a - unat a mod 32" by (simp add: unat_sub unat_mod)
    then show ?thesis by (simp add: ROUNDDOWN_def minus_mod_eq_div_mult)
  qed
  have dv: "unat (ROUNDUP sz 32 div 32) = unat (sz + 31) div 32" 
  proof -
    have "sz + 32 - 1 = sz + 31" by simp
    then show ?thesis unfolding ROUNDUP_def by (simp only: unat_div down) simp
  qed
  show "32 \<le> ROUNDUP sz 32 div 32 - 1" if "1024 < sz"
  proof (cases "unat sz + 31 < 2 ^ 64")
    case True
    then have "unat (sz + 31) = unat sz + 31" by (simp add: unat_word_ariths)
    moreover have "1024 < unat sz" using that by (simp add: word_less_nat_alt)
    ultimately have "33 \<le> unat (ROUNDUP sz 32 div 32)" unfolding dv by simp
    then show ?thesis by (simp add: word_le_nat_alt unat_sub)
  next
    case False
    have "unat sz < 2 ^ 64" using unsigned_less [of sz, where 'a = nat] by simp
    then have "(unat sz + 31) mod 2 ^ 64 < 32" using False by (subst le_mod_geq) simp_all
    then have "unat (sz + 31) < 32" by (simp add: unat_word_ariths)
    then have "ROUNDUP sz 32 div 32 = 0" using dv by (simp add: unat_eq_0 flip: unat_eq_0)
    then show ?thesis by simp
  qed
  show "unat (ROUNDUP sz 32 div 32 - 1) = (unat sz + 31) div 32 - 1" if "0 < sz" "sz \<le> 1024"
  proof -
    have "0 < unat sz" "unat sz \<le> 1024" using that by (simp_all add: word_le_nat_alt word_less_nat_alt)
    then have s: "unat (sz + 31) = unat sz + 31" by (simp add: unat_word_ariths)
    have "1 \<le> unat (ROUNDUP sz 32 div 32)" unfolding dv s using \<open>0 < unat sz\<close> by simp
    then have "1 \<le> ROUNDUP sz 32 div 32" by (simp add: word_le_nat_alt)
    then show ?thesis using dv s by (simp add: unat_sub)
  qed
qed

lemma slab_setup_same [simp]:
  "pages (slab_setup x n s) = pages s" "npages (slab_setup x n s) = npages s" "pmem (slab_setup x n s) = pmem s"
  "kernel_pml4 (slab_setup x n s) = kernel_pml4 s"
  by (simp_all add: slab_setup_def klist_init_def Let_def)

lemma kmem_init_same:
  "pages (kmem_init s) = pages s" "npages (kmem_init s) = npages s" "pmem (kmem_init s) = pmem s" "kernel_pml4 (kmem_init s) = kernel_pml4 s"
proof -
  let ?f = "fold (\<lambda>i s. slab_setup (slab_ptr (this_cpu s) i) ((i + 1) * SLAB_ALIGN) s)"
  have f: "pages (?f is t) = pages t \<and> npages (?f is t) = npages t \<and> pmem (?f is t) = pmem t \<and> kernel_pml4 (?f is t) = kernel_pml4 t" for "is" and t :: "'a kslab_scheme"
    by (induction "is" arbitrary: t) simp_all
  let ?s = "s\<lparr>nslabs := (nslabs s)(this_cpu s := 32)\<rparr>"
  have "kmem_init s = ?f [0..<32] ?s" unfolding kmem_init_def Let_def by simp
  with f [of "[0..<32]" ?s] show "pages (kmem_init s) = pages s" "npages (kmem_init s) = npages s" "pmem (kmem_init s) = pmem s" "kernel_pml4 (kmem_init s) = kernel_pml4 s"
    by simp_all
qed

section \<open>A concrete heap\<close>

text \<open>The page tables of the witness: tables 600 to 603 map the first 512 frames into the kernel.\<close>

definition demo_tables :: "nat \<Rightarrow> nat \<Rightarrow> u64" where
  "demo_tables f i = (if f = 600 \<and> i = 256 then page2pa 601 OR 1 else if f = 601 \<and> i = 0 then page2pa 602 OR 1
     else if f = 602 \<and> i = 0 then page2pa 603 OR 1 else if f = 603 then page2pa i OR 1 else 0)"

definition demo_slab :: kslab where
  "demo_slab = kmem.extend (demo_kmem\<lparr>pmem := demo_tables\<rparr>)
     \<lparr>cr3 = page2pa 600, tlb_log = [], swap_lock = buddy_lock demo_kmem, cur_task = None, next_free = 0, kernel_end = 0, kernel_pml4 = 600,
      slabs = (\<lambda>_. \<lparr>info_off = 0, obj_size = 0, count = 0\<rparr>), sinfo = (\<lambda>_. \<lparr>si_slab = 0, free_count = 0\<rparr>), obj_info = (\<lambda>_. 0), nslabs = (\<lambda>_. 0)\<rparr>"

lemma demo_slab_fields [simp]:
  "lh demo_slab = lh demo_kmem" "pages demo_slab = pages demo_kmem" "npages demo_slab = 1024" "pmem demo_slab = demo_tables"
  "buddy_lock demo_slab = buddy_lock demo_kmem" "kernel_pml4 demo_slab = 600" "this_cpu demo_slab = 0"
  by (simp_all add: demo_slab_def kmem.extend_def demo_kmem_def)

lemma demo_slab_frames: "free_frames demo_slab = {..<512}"
  unfolding demo_frames [symmetric] by (rule free_frames_same) (simp_all add: demo_pages)

lemma demo_slab_fresh: "heap_fresh demo_slab demo_links"
proof -
  have "buddy_inv demo_slab demo_links" by (rule vm_ok_change(1) [OF demo_inv]) (simp_all add: demo_pages)
  moreover have "\<not> slab_anchor a" if "a \<in> ring_nodes demo_links" for a
    using that demo_links_cases unfolding ring_nodes_def slab_anchor_def by fastforce
  ultimately show ?thesis by (simp add: heap_fresh_def demo_slab_frames demo_pages demo_links_def)
qed

lemma index_unat: "unat (drop_bit k (va :: u64) AND 511) = unat va div 2 ^ k mod 512"
proof -
  have "drop_bit k va AND 511 = take_bit 9 (drop_bit k va)" by (simp add: take_bit_eq_mask mask_eq_exp_minus_1)
  then show ?thesis by (simp only: unsigned_take_bit_eq unat_drop_bit_eq) (simp add: take_bit_eq_mod drop_bit_eq_div)
qed

lemma demo_direct_map:
  assumes "p < 512"
  shows "direct_map demo_slab p"
proof -
  define va :: u64 where "va = KERNEL_VMA + of_nat (4096 * p)"
  have u: "unat va = 18446603336221196288 + 4096 * p"
  proof -
    have "unat (of_nat (4096 * p) :: u64) = 4096 * p" by (subst unat_of_nat) (use assms in simp)
    moreover have "unat KERNEL_VMA = 18446603336221196288" by (simp add: KERNEL_VMA_def)
    ultimately show ?thesis unfolding va_def using assms by (simp only: unat_word_ariths) simp
  qed
  have q: "(18446603336221196288 + 4096 * p) div 549755813888 = 33554176" "(18446603336221196288 + 4096 * p) div 1073741824 = 17179738112"
      "(18446603336221196288 + 4096 * p) div 2097152 = 8796025913344" "(18446603336221196288 + 4096 * p) div 4096 = 4503565267632128 + p"
    by (rule div_nat_eqI; use assms in simp)+
  have m: "(4503565267632128 + p) mod 512 = p"
    using mod_mult_self2 [of p 512 8796025913344] assms by (simp add: add.commute)
  have ix: "ix 0 va = 256" "ix 1 va = 0" "ix 2 va = 0" "ix 3 va = p"
    using q m unfolding ix.simps ix_num PML4_INDEX_def PDPT_INDEX_def PAGE_DIR_INDEX_def PAGE_TABLE_INDEX_def index_unat u by simp_all
  have e: "present (page2pa f OR 1)" "\<not> is_huge (page2pa f OR 1)" "entry_frame (page2pa f OR 1) = f" if "f < 2 ^ 35" for f
  proof -
    show "present (page2pa f OR 1)" by (simp add: present_bit bit_or_iff)
    have "bit (page2pa f OR 1) 7 = False" by (simp add: page2pa_def bit_or_iff bit_push_bit_iff bit_1_iff)
    then have "(page2pa f OR 1) AND push_bit 7 1 = 0" by (intro bit_word_eqI) (simp only: bit_and_iff bit_push_bit_iff bit_1_iff, auto)
    then show "\<not> is_huge (page2pa f OR 1)" by (simp add: is_huge_def PAGE_HUGE_def push_bit_eq_mult)
    show "entry_frame (page2pa f OR 1) = f"
      using entry_addr [of f 1] page2pa_addr(2) [of f] that by (simp add: entry_frame_def PAGE_ADDR_def PAGE_MASK_def)
  qed
  show ?thesis unfolding direct_map_def Let_def va_def [symmetric]
    using ix e [of 601] e [of 602] e [of 603] e [of p] assms
    by (intro exI [of _ 601] exI [of _ 602] exI [of _ 603]) (simp add: link_def rd_def demo_tables_def)
qed

lemma demo_heap_ready:
  obtains L where "heap_inv (kmem_init demo_slab) L (slab_ptr 0 ` {..<32}) (\<lambda>_. []) (\<lambda>_. []) F" and "class_sizes (kmem_init demo_slab) 0 32"
    and "nslabs (kmem_init demo_slab) 0 = 32" and "this_cpu (kmem_init demo_slab) = 0"
proof -
  let ?s = "demo_slab\<lparr>nslabs := (nslabs demo_slab)(this_cpu demo_slab := 32)\<rparr>"
  have "heap_fresh ?s demo_links" using demo_slab_fresh by (simp add: heap_fresh_def buddy_inv_def buddy_rel_def free_frames_def)
  from kmem_init_fold [OF this, of 32 F] that show ?thesis by (auto simp: kmem_init_def)
qed

lemma demo_heap_frames: "free_frames (kmem_init demo_slab) = {..<512}"
  using demo_slab_frames by (simp add: free_frames_def kmem_init_same)

section \<open>Properties\<close>

text \<open>
  C26: \<^verbatim>\<open>kmem_init\<close> on a running page allocator establishes the invariant of the kernel heap: 32 slabs whose
  objects hold 32, 64, ..., 1024 bytes behind their header, with no object in use.
\<close>

theorem kmem_init_establishes:
  assumes "heap_fresh s L"
  shows "\<exists>L'. heap_inv (kmem_init s) L' (slab_ptr (this_cpu s) ` {..<32}) (\<lambda>_. []) (\<lambda>_. []) F \<and> class_sizes (kmem_init s) (this_cpu s) 32 \<and>
     live (kmem_init s) (slab_ptr (this_cpu s) ` {..<32}) (\<lambda>_. []) (\<lambda>_. []) F = {} \<and> nslabs (kmem_init s) (this_cpu s) = 32 \<and> this_cpu (kmem_init s) = this_cpu s \<and>
     free_frames (kmem_init s) = free_frames s"
proof -
  let ?s = "s\<lparr>nslabs := (nslabs s)(this_cpu s := 32)\<rparr>"
  have "heap_fresh ?s L" using assms by (simp add: heap_fresh_def buddy_inv_def buddy_rel_def free_frames_def)
  from kmem_init_fold [OF this, of 32 F] show ?thesis
    unfolding free_frames_def kmem_init_same by (auto simp: kmem_init_def live_def)
qed

theorem kmem_init_establishes_witness:
  "\<exists>L'. heap_inv (kmem_init demo_slab) L' (slab_ptr 0 ` {..<32}) (\<lambda>_. []) (\<lambda>_. []) (\<lambda>_. []) \<and> nslabs (kmem_init demo_slab) 0 = 32"
  using kmem_init_establishes [OF demo_slab_fresh, of "\<lambda>_. []"] by auto

text \<open>
  C27: \<^verbatim>\<open>kmalloc\<close> on a well-formed heap with a free page: a size of 0, or above 1024 (also where rounding it up
  wraps around), gives null and changes nothing; every other size gives an object of a slab of its CPU
  that was not in use, is now, is large enough for the size behind its header, and shares no byte with
  any other object in use. The heap stays well-formed.
\<close>

theorem kmalloc_allocates:
  assumes "heap_inv s L X P Q F" and "X = slab_ptr (this_cpu s) ` {..<32}" and "nslabs s (this_cpu s) = 32"
    and "class_sizes s (this_cpu s) 32" and "free_frames s \<noteq> {}"
  shows "if sz = 0 \<or> 1024 < sz then kmalloc sz s = Inr (None, s)
    else rok (kmalloc sz s) (\<lambda>(r, s'). \<exists>x\<in>X. \<exists>a L' P' Q' F'. r = Some (a + SIZEOF_SLAB_OBJ) \<and> heap_inv s' L' X P' Q' F' \<and>
      slabs s' = slabs s \<and> (x, a) \<notin> live s X P Q F \<and> live s' X P' Q' F' = insert (x, a) (live s X P Q F) \<and> alloc_kept s X P Q a s' \<and>
      unat sz + SIZEOF_SLAB_OBJ \<le> obj_size (slabs s x) \<and>
      (\<forall>(y, b)\<in>live s X P Q F. a + obj_size (slabs s x) \<le> b \<or> b + obj_size (slabs s y) \<le> a))"
proof (cases "sz = 0 \<or> 1024 < sz")
  case True
  then have "kmalloc sz s = Inr (None, s)" using assms(3) kmalloc_index(1) [of sz] by (auto simp: kmalloc_def Let_def)
  with True show ?thesis by simp
next
  case False
  then have sz: "0 < sz" "sz \<le> 1024" "0 < unat sz" "unat sz \<le> 1024" by (simp_all add: word_neq_0_conv word_le_nat_alt word_less_nat_alt)
  define i where "i = unat (ROUNDUP sz 32 div 32 - 1)"
  define x where "x = slab_ptr (this_cpu s) i"
  have i: "i = (unat sz + 31) div 32 - 1" unfolding i_def by (rule kmalloc_index(2) [OF sz(1,2)])
  then have i32: "i < 32" "unat sz \<le> (i + 1) * 32" using sz(3,4) by auto
  have x: "x \<in> X" using i32(1) by (auto simp: x_def assms(2))
  have big: "unat sz + SIZEOF_SLAB_OBJ \<le> obj_size (slabs s x)"
    using assms(4) i32 unfolding class_sizes_def x_def SLAB_ALIGN_def by (metis add_le_mono1 le_trans)
  have run: "kmalloc sz s = slab_alloc x s"
    using False i32(1) by (simp add: kmalloc_def Let_def assms(3) word_le_nat_alt x_def i_def not_le)
  have "rok (slab_alloc x s) (\<lambda>(r, s'). \<exists>a L' P' Q' F'. r = Some (a + SIZEOF_SLAB_OBJ) \<and>
      heap_inv s' L' X P' Q' F' \<and> slabs s' = slabs s \<and> (x, a) \<notin> live s X P Q F \<and> live s' X P' Q' F' = insert (x, a) (live s X P Q F) \<and> alloc_kept s X P Q a s')"
    using heap_alloc(1) [OF assms(1) x] assms(5) by blast
  moreover have "a + obj_size (slabs s x) \<le> b \<or> b + obj_size (slabs s y) \<le> a"
    if "heap_inv s' L' X P' Q' F'" "slabs s' = slabs s" "(x, a) \<notin> live s X P Q F" "live s' X P' Q' F' = insert (x, a) (live s X P Q F)" "(y, b) \<in> live s X P Q F"
    for s' :: "'a kslab_scheme" and a b y L' P' Q' F'
    using live_apart [OF that(1), of x a y b] that(2-5) by auto
  ultimately have "rok (slab_alloc x s) (\<lambda>(r, s'). \<exists>a L' P' Q' F'. r = Some (a + SIZEOF_SLAB_OBJ) \<and> heap_inv s' L' X P' Q' F' \<and>
      slabs s' = slabs s \<and> (x, a) \<notin> live s X P Q F \<and> live s' X P' Q' F' = insert (x, a) (live s X P Q F) \<and> alloc_kept s X P Q a s' \<and>
      unat sz + SIZEOF_SLAB_OBJ \<le> obj_size (slabs s x) \<and>
      (\<forall>(y, b)\<in>live s X P Q F. a + obj_size (slabs s x) \<le> b \<or> b + obj_size (slabs s y) \<le> a))"
    by (elim rok_mono) (use big in blast)
  then show ?thesis unfolding if_not_P [OF False] run by (rule rok_mono) (use x in blast)
qed

theorem kmalloc_allocates_witness:
  "kmalloc 0 (kmem_init demo_slab) = Inr (None, kmem_init demo_slab) \<and> kmalloc 0xFFFFFFFFFFFFFFF0 (kmem_init demo_slab) = Inr (None, kmem_init demo_slab) \<and>
   rok (kmalloc 100 (kmem_init demo_slab)) (\<lambda>(r, s'). \<exists>a. r = Some (a + 24))"
proof -
  obtain L where h: "heap_inv (kmem_init demo_slab) L (slab_ptr 0 ` {..<32}) (\<lambda>_. []) (\<lambda>_. []) (\<lambda>_. [])" "class_sizes (kmem_init demo_slab) 0 32"
      "nslabs (kmem_init demo_slab) 0 = 32" "this_cpu (kmem_init demo_slab) = 0"
    by (rule demo_heap_ready)
  have ne: "free_frames (kmem_init demo_slab) \<noteq> {}" unfolding demo_heap_frames by (auto simp: set_eq_iff intro!: exI [of _ 0])
  note k = kmalloc_allocates [OF h(1), unfolded h(4), OF refl h(3,2) ne]
  have "rok (kmalloc 100 (kmem_init demo_slab)) (\<lambda>(r, s'). \<exists>a. r = Some (a + 24))"
    using k [of 100] by (auto simp: SIZEOF_SLAB_OBJ_def elim!: rok_mono)
  then show ?thesis using k [of 0] k [of "0xFFFFFFFFFFFFFFF0"] by simp
qed



end
