(* ===== verification/Fault_Spec.thy ===== *)
theory Fault_Spec
  imports Fault Slab_Props Page_Table_Props
begin

text \<open>
  Facts about page faults: what populating one page does to the page tables and the frames, the
  walk of a task's areas that the handler makes for one page, and the copy that \<^verbatim>\<open>copy_on_write\<close>
  makes of a shared page.
\<close>

section \<open>Populating one page\<close>

text \<open>A zeroed frame leaves the free set; nothing else changes.\<close>

definition zero_alloc :: "nat \<Rightarrow> 'z kvm_scheme \<Rightarrow> 'z kvm_scheme \<Rightarrow> bool" where
  "zero_alloc p s s' \<longleftrightarrow> p \<in> free_frames s \<and> free_frames s' = free_frames s - {p} \<and> vm_ok s' \<and> npages s' = npages s \<and>
     kmem.more s' = kmem.more s \<and> (\<forall>i. pp_ref (pages s' i) = pp_ref (pages s i)) \<and> pmem s' = (pmem s)(p := (\<lambda>_. 0))"

lemma page_alloc_zero:
  assumes ok: "vm_ok s" and ne: "free_frames s \<noteq> {}"
  shows "rok (page_alloc ALLOC_ZERO s) (\<lambda>(q, s'). \<exists>p. q = Some p \<and> zero_alloc p s s')"
proof -
  obtain L where inv: "buddy_inv s L" and sw: "swap_rings (npages s) L" using ok by (auto simp: vm_ok_def)
  have "zero_alloc p s s'" if post: "alloc_post ALLOC_ZERO s L p s' L'" for p s' L'
  proof -
    have z: "pmem s' = (pmem s)(p := (\<lambda>_. 0))" and p: "p \<in> free_frames s" "free_frames s' = free_frames s - {p}"
      using post ok by (auto simp: alloc_post_def vm_ok_def ALLOC_ZERO_def fun_upd_idem)
    have "swap_rings (npages s) L'"
      by (rule swap_rings_same [OF sw]) (use post in \<open>auto simp: alloc_post_def alloc_frame_def\<close>)
    then have "vm_ok s'" using post ok z by (auto simp: alloc_post_def alloc_frame_def vm_ok_def)
    then show ?thesis using post z p by (auto simp: zero_alloc_def alloc_post_def alloc_frame_def)
  qed
  then show ?thesis using page_alloc_spec(1) [OF inv ne, of ALLOC_ZERO] by (fastforce elim!: rok_mono)
qed

lemma zero_alloc_rd: "zero_alloc p s s' \<Longrightarrow> fst x \<notin> free_frames s \<Longrightarrow> rd x s' = rd x s"
  by (auto simp: zero_alloc_def rd_def)

lemma zero_alloc_desc:
  assumes d: "desc 3 s0 va pml4 s ts" and a: "zero_alloc p s s'"
  shows "desc 3 s' va pml4 s' ts"
proof -
  have v: "visited_ok s ts" and g: "good_from 0 s va ts" and ch: "chain s va ts"
    using d by (auto simp: desc_def dest: good_from_visited)
  have t: "t \<notin> free_frames s" if "t \<in> set ts" for t using v that by (auto simp: visited_ok_def)
  have "ts \<noteq> []" using d by (auto simp: desc_def)
  then have "rd (cur_entry va ts) s' = rd (cur_entry va ts) s"
    using zero_alloc_rd [OF a] t by (simp add: cur_entry_def)
  moreover have "visited_ok s' ts" using v a by (auto simp: visited_ok_def zero_alloc_def)
  ultimately have "good_from 0 s' va ts" using g by simp
  moreover have "u \<in> set ts" if "u \<in> set (tl ts)" for u using that by (cases ts) auto
  then have "chain s' va ts" by (intro chain_same [OF ch] zero_alloc_rd [OF a]) (simp add: t)
  ultimately show ?thesis using d a by (auto simp: desc_def zero_alloc_def grow_def)
qed

text \<open>
  The state after a page has been populated: the entry names a frame that was free, is zero now
  and has its first reference; entries that were present and other counts are what they were.
\<close>

definition populated :: "'z kvm_scheme \<Rightarrow> nat \<Rightarrow> u64 \<Rightarrow> u64 \<Rightarrow> nat \<Rightarrow> 'z kvm_scheme \<Rightarrow> bool" where
  "populated s pml4 va flags p s' \<longleftrightarrow> p \<in> free_frames s \<and> p \<notin> free_frames s' \<and> vm_ok s' \<and> npages s' = npages s \<and>
     (\<exists>e. mapped s' pml4 va = Some e \<and> rd e s' = page2pa p OR flags OR PAGE_PRESENT) \<and> pmem s' p = (\<lambda>_. 0) \<and>
     free_frames s' \<subseteq> free_frames s \<and> card (free_frames s) \<le> 4 + card (free_frames s') \<and>
     (\<forall>i. i \<notin> free_frames s \<longrightarrow> pp_ref (pages s' i) = pp_ref (pages s i)) \<and>
     (\<forall>x. fst x \<notin> free_frames s \<longrightarrow> present (rd x s) \<longrightarrow> rd x s' = rd x s) \<and>
     lock_free (swap_lock s') \<and> cr3 s' = cr3 s \<and> cur_task s' = cur_task s \<and> kvm.more s' = kvm.more s"

lemma tlb_simps [simp]:
  "rd e (s\<lparr>tlb_log := l\<rparr>) = rd e s" "mapped (s\<lparr>tlb_log := l\<rparr>) = mapped s" "vm_ok (s\<lparr>tlb_log := l\<rparr>) = vm_ok s"
  "free_frames (s\<lparr>tlb_log := l\<rparr>) = free_frames s"
proof -
  show rd: "rd e (s\<lparr>tlb_log := l\<rparr>) = rd e s" for e by (simp add: rd_def)
  show "free_frames (s\<lparr>tlb_log := l\<rparr>) = free_frames s" by (simp add: free_frames_def)
  then show "vm_ok (s\<lparr>tlb_log := l\<rparr>) = vm_ok s" by (simp add: vm_ok_def buddy_inv_def buddy_rel_def)
  show "mapped (s\<lparr>tlb_log := l\<rparr>) = mapped s" by (intro ext) (simp only: mapped_def leaf_def link_def rd)
qed

lemma populated_tlb: "populated s0 pml4 va flags p (tlb_invalidate k b s) = populated s0 pml4 va flags p s"
  by (simp add: populated_def tlb_invalidate_def)

lemma populate_leaf:
  assumes d: "desc 3 s0 va pml4 s ts" and a: "zero_alloc p s s1" and r: "rmap_set p r s1 s2" and v: "v = page2pa p OR flags OR PAGE_PRESENT"
  shows "populated s0 pml4 va flags p (tlb_invalidate k b (wr (hd ts, ix 3 va) v (ref_inc p s2)))"
proof -
  let ?e = "(hd ts, ix 3 va)"
  let ?s = "wr ?e v (ref_inc p s2)"
  have d1: "desc 3 s1 va pml4 s1 ts" by (rule zero_alloc_desc [OF d a])
  have p: "p \<in> free_frames s" "free_frames s1 = free_frames s - {p}" "pmem s1 p = (\<lambda>_. 0)" using a by (auto simp: zero_alloc_def)
  have m: "map_post s1 pml4 va p flags ?s" by (rule insert_leaf [OF d1 r _ refl v]) (use p in simp)
  have g: "grow 3 s0 s" using d by (simp add: desc_def)
  have sub: "free_frames ?s \<subseteq> free_frames s - {p}" "free_frames s \<subseteq> free_frames s0" using m p g by (auto simp: map_post_def grow_def)
  have hd: "hd ts \<notin> free_frames s" by (rule desc_leaf(3) [OF d])
  have st: "kmem.more s1 = kmem.more s0" using a g by (simp add: zero_alloc_def grow_def)
  obtain h l where s2: "s2 = (pp_upd p (\<lambda>q. q\<lparr>pp_rmap := r\<rparr>) s1)\<lparr>lh := h, swap_lock := l\<rparr>" using r by (auto simp: rmap_set_def)
  have ff2: "free_frames ?s = free_frames s1"
    by (rule free_frames_same) (auto simp: s2 ref_inc_def pp_upd_def)
  have card: "card (free_frames s0) \<le> 4 + card (free_frames ?s)"
    using g p finite_free_frames [of s] unfolding ff2 by (auto simp: grow_def card_Diff_singleton)
  have zero: "pmem ?s p = (\<lambda>_. 0)" using p hd by (auto simp: s2 wr_def ref_inc_def pp_upd_def)
  have refs: "pp_ref (pages ?s i) = pp_ref (pages s0 i)" if "i \<notin> free_frames s0" for i
  proof -
    have "i \<notin> free_frames s1" "i \<noteq> p" using that p sub by auto
    then have "pp_ref (pages ?s i) = pp_ref (pages s1 i)" using m by (simp add: map_post_def)
    then show ?thesis using a g that by (simp add: zero_alloc_def grow_def)
  qed
  have keep: "rd x ?s = rd x s0" if "fst x \<notin> free_frames s0" "present (rd x s0)" for x
  proof -
    have "rd x s = rd x s0" using g that unfolding grow_def by blast
    moreover have x: "fst x \<notin> free_frames s" using that sub by auto
    ultimately have "rd x s1 = rd x s0" using zero_alloc_rd [OF a x] by simp
    moreover have "\<forall>x. fst x \<notin> free_frames s1 \<longrightarrow> present (rd x s1) \<longrightarrow> rd x ?s = rd x s1" using m unfolding map_post_def by blast
    ultimately show ?thesis using that x p by (metis DiffD1)
  qed
  have more: "kvm.more ?s = kvm.more s0" using kvm_more [OF st] by (simp add: s2 wr_def ref_inc_def pp_upd_def)
  have mp: "vm_ok ?s" "npages ?s = npages s1" "\<exists>e. mapped ?s pml4 va = Some e \<and> rd e ?s = page2pa p OR flags OR PAGE_PRESENT"
    "lock_free (swap_lock ?s)" "cr3 ?s = cr3 s1" "cur_task ?s = cur_task s1"
    using m unfolding map_post_def by blast+
  have n: "npages s1 = npages s0" "p \<in> free_frames s0" "free_frames ?s \<subseteq> free_frames s0" "p \<notin> free_frames ?s"
    using a g sub p by (auto simp: zero_alloc_def grow_def)
  show ?thesis
    unfolding populated_tlb unfolding populated_def
    using mp n card zero refs keep more kvm_more [OF st] by (intro conjI) simp_all
qed

lemma populate_pte_leaf:
  assumes d: "desc 3 s0 va pml4 s ts" and room: "4 \<le> card (free_frames s0)" and lock: "lock_free (swap_lock s0)"
    and u: "flags AND PAGE_USER \<noteq> 0 \<Longrightarrow> cur_task s0 \<noteq> None \<and> (\<exists>r. \<forall>t. kmem.more t = kmem.more s0 \<longrightarrow> fv t va = Some r)"
  shows "rok (one_pte (populate_walker fv) va (hd ts) (\<lparr>pop_flags = flags, pop_kernel_pml4 = k\<rparr>, s))
     (\<lambda>(ret, us). ret = 0 \<and> (\<exists>p. populated s0 pml4 va flags p (snd us)))"
proof -
  note leaf = desc_leaf [OF d]
  let ?i = "\<lparr>pop_flags = flags, pop_kernel_pml4 = k\<rparr>" and ?e = "(hd ts, PAGE_TABLE_INDEX va)"
  have ok: "vm_ok s" and g: "grow 3 s0 s" using d by (auto simp: desc_def)
  then have "free_frames s \<noteq> {}" using room by (auto simp: grow_def)
  from page_alloc_zero [OF ok this] obtain p s1 where al: "page_alloc ALLOC_ZERO s = Inr (Some p, s1)" and z: "zero_alloc p s s1"
    by (auto simp: rok_iff)
  have k1: "kmem.more s1 = kmem.more s0" and ok1: "vm_ok s1" using z g by (auto simp: zero_alloc_def grow_def)
  have pn: "p < npages s1"
    using z ok frames_bound [OF buddy_relD(1), of s _ "{}"] by (auto simp: zero_alloc_def vm_ok_def buddy_inv_def free_frames_def)
  note st = kvm_more [OF k1]
  let ?m = "if flags AND PAGE_USER \<noteq> 0 then kassert (cur_task s1 \<noteq> None) (attach_vma fv va p s1)
      else Inr (pp_upd p (\<lambda>q. q\<lparr>pp_rmap := None\<rparr>) s1)"
  have "rok ?m (\<lambda>s2. \<exists>r. rmap_set p r s1 s2)"
  proof (cases "flags AND PAGE_USER = 0")
    case True
    with rmap_none [OF ok1] lock st show ?thesis by auto
  next
    case False
    with u k1 obtain r where r: "fv s1 va = Some r" and c: "cur_task s0 \<noteq> None" by blast
    with False st lock pn attach_vma_spec [OF ok1, of p fv va r] show ?thesis
      by (auto simp: rok_kassert elim!: rok_mono)
  qed
  then obtain s2 r where s2: "?m = Inr s2" "rmap_set p r s1 s2" by (auto simp: rok_iff)
  let ?v = "page2pa p OR flags OR PAGE_PRESENT"
  have "populate_pte fv ?e va (va + 4091) (?i, s) = Inr (0, ?i, tlb_invalidate k va (wr ?e ?v (ref_inc p s2)))"
    using leaf(2) s2(1) al by (cases "flags AND PAGE_USER = 0") (simp_all add: populate_pte_def Let_def ref_inc_def or.assoc)
  then have "one_pte (populate_walker fv) va (hd ts) (?i, s) = Inr (0, ?i, tlb_invalidate k va (wr ?e ?v (ref_inc p s2)))"
    by (simp add: one_pte_def ptbl_body_def Let_def ret0_def populate_walker_def no_walker_def)
  moreover have "populated s0 pml4 va flags p (tlb_invalidate k va (wr ?e ?v (ref_inc p s2)))"
    using populate_leaf [OF d z s2(2), of ?v flags k va] by simp
  ultimately show ?thesis by auto
qed

lemma populate_region_spec:
  assumes va: "page_aligned va" "canonical va" and ok: "vm_ok s" and good: "good_from 3 s va [pml4]"
    and room: "4 \<le> card (free_frames s)" and lock: "lock_free (swap_lock s)"
    and u: "flags AND PAGE_USER \<noteq> 0 \<Longrightarrow> cur_task s \<noteq> None \<and> (\<exists>r. \<forall>t. kmem.more t = kmem.more s \<longrightarrow> fv t va = Some r)"
  shows "rok (populate_region fv k pml4 va PAGE_SIZE flags s) (\<lambda>s'. \<exists>p. populated s pml4 va flags p s')"
proof -
  have d: "desc 0 s va pml4 s [pml4]" using ok good by (simp add: desc_def grow_refl)
  have "rok (walk_page_range pml4 va (va + PAGE_SIZE) (populate_walker fv) (\<lparr>pop_flags = flags, pop_kernel_pml4 = k\<rparr>, s))
      (\<lambda>(ret, us). ret = 0 \<and> (\<exists>p. populated s pml4 va flags p (snd us)))"
  proof (rule desc_walk [OF va alloc_walkers(2) d])
    fix s' ts
    assume "desc 3 s va pml4 s' ts"
    then show "rok (one_pte (populate_walker fv) va (hd ts) (\<lparr>pop_flags = flags, pop_kernel_pml4 = k\<rparr>, s'))
        (\<lambda>(ret, us). ret = 0 \<and> (\<exists>p. populated s pml4 va flags p (snd us)))"
      using room lock u by (rule populate_pte_leaf) auto
  qed (use room in simp)
  then show ?thesis unfolding populate_region_def rok_rbind by (rule rok_mono) auto
qed

section \<open>Free virtual pages\<close>

lemma good_from_keep:
  assumes "good_from n s va ts" and "ts \<noteq> []" and mem: "\<And>f. f \<notin> free_frames s \<Longrightarrow> pmem s' f = pmem s f"
    and ff: "free_frames s' \<subseteq> free_frames s" and n: "npages s' = npages s"
  shows "good_from n s' va ts"
  using assms(1,2)
proof (induction n arbitrary: ts)
  case 0
  then have "hd ts \<notin> free_frames s" by (auto simp: visited_ok_def disjoint_iff)
  then show ?case using 0 ff n mem [of "hd ts"] by (auto simp: visited_ok_def cur_entry_def rd_def)
next
  case (Suc m)
  then have "hd ts \<notin> free_frames s" by (auto simp: visited_ok_def disjoint_iff)
  then have "rd (hd ts, i) s' = rd (hd ts, i) s" for i using mem [of "hd ts"] by (simp add: rd_def)
  then show ?case using Suc ff n by (auto simp: visited_ok_def cur_entry_def link_def)
qed

lemma good_from_unmapped:
  assumes "good_from 3 s va [pml4]"
  shows "mapped s pml4 va = None" and "path_in_memory s pml4 va"
proof -
  have g: "\<exists>t. link s u k va = Some t \<and> good_from n s va (t # ts)" if "good_from (Suc n) s va ts" "hd ts = u" "length ts = Suc k" "link s u k va \<noteq> None" for n u k ts
  proof -
    have "present (rd (u, ix k va) s)" using that(4) by (auto simp: link_def Let_def split: if_splits)
    then show ?thesis using that by (auto simp: cur_entry_def)
  qed
  have m: "t < npages s" if "good_from n s va (t # ts)" for n t ts using good_from_visited [OF that] by (simp add: visited_ok_def)
  have 3: "good_from (Suc (Suc (Suc 0))) s va [pml4]" using assms by (simp add: numeral_3_eq_3)
  show "path_in_memory s pml4 va"
    unfolding path_in_memory_def
  proof (intro allI impI conjI)
    fix t3 t2 t1
    assume "link s pml4 0 va = Some t3"
    with g [OF 3, of pml4 0] have 2: "good_from (Suc (Suc 0)) s va [t3, pml4]" by auto
    then show "t3 < npages s" by (rule m)
    assume "link s t3 1 va = Some t2"
    with g [OF 2, of t3 1] have 1: "good_from (Suc 0) s va [t2, t3, pml4]" by auto
    then show "t2 < npages s" by (rule m)
    assume "link s t2 2 va = Some t1"
    with g [OF 1, of t2 2] have "good_from 0 s va [t1, t2, t3, pml4]" by (auto simp: numeral_2_eq_2)
    then show "t1 < npages s" by (rule m)
  qed
  have "\<not> present (rd (t1, ix 3 va) s)" if "link s pml4 0 va = Some t3" "link s t3 1 va = Some t2" "link s t2 2 va = Some t1" for t3 t2 t1
  proof -
    have 2: "good_from (Suc (Suc 0)) s va [t3, pml4]" using g [OF 3, of pml4 0] that(1) by auto
    have 1: "good_from (Suc 0) s va [t2, t3, pml4]" using g [OF 2, of t3 1] that(2) by auto
    have "good_from 0 s va [t1, t2, t3, pml4]" using g [OF 1, of t2 2] that(3) by (auto simp: numeral_2_eq_2)
    then show ?thesis by (simp add: cur_entry_def numeral_3_eq_3)
  qed
  then show "mapped s pml4 va = None" by (auto simp: mapped_def leaf_def split: option.splits bind_splits)
qed

section \<open>The handler\<close>

text \<open>
  A kernel that is ready for a page fault: the heap is well-formed and its size classes are set up,
  the page replacement list is a ring, frames marked as zeroed are zero, and the list of areas of
  the task is one of the rings.
\<close>

definition fault_ready :: "'z kvma_scheme \<Rightarrow> (anchor \<rightharpoonup> anchor list) \<Rightarrow> nat \<Rightarrow> nat list \<Rightarrow> bool" where
  "fault_ready s L t xs \<longleftrightarrow> (\<exists>P Q F. heap_inv s L (slab_ptr (this_cpu s) ` {..<32}) P Q F) \<and> nslabs s (this_cpu s) = 32 \<and>
     swap_rings (npages s) L \<and> (\<forall>i\<in>free_frames s. pp_zero (pages s i) \<noteq> 0 \<longrightarrow> pmem s i = (\<lambda>_. 0)) \<and> lock_free (swap_lock s) \<and>
     L (TaskMmap t) = Some (map VmMmap xs) \<and> vma_space s t xs"

lemma fault_ready_vm: "fault_ready s L t xs \<Longrightarrow> vm_ok s"
  by (auto simp: fault_ready_def vm_ok_def heap_inv_def)

lemma kmalloc_word:
  assumes r: "fault_ready s L t xs" and ne: "free_frames s \<noteq> {}"
  shows "rok (kmalloc 8 s) (\<lambda>(obj, s'). \<exists>a L'. obj = Some a \<and> fault_ready s' L' t xs \<and> heap_rest 1 s L s' L' \<and> npages s' = npages s)"
proof -
  obtain P Q F where inv: "heap_inv s L (slab_ptr (this_cpu s) ` {..<32}) P Q F" and n: "nslabs s (this_cpu s) = 32"
    using r by (auto simp: fault_ready_def)
  have run: "kmalloc 8 s = slab_alloc (slab_ptr (this_cpu s) 0) s" using n by (simp add: kmalloc_def ROUNDUP_def ROUNDDOWN_def)
  have x: "slab_ptr (this_cpu s) 0 \<in> slab_ptr (this_cpu s) ` {..<32}" by auto
  show ?thesis unfolding run
  proof (rule rok_mono [OF heap_alloc_rest(1) [OF inv x]], use ne in simp, clarify)
    fix s' a L' P' Q' F'
    assume h: "heap_inv s' L' (slab_ptr (this_cpu s) ` {..<32}) P' Q' F'" "alloc_kept s (slab_ptr (this_cpu s) ` {..<32}) P Q a s'" "heap_rest 1 s L s' L'"
    have k: "this_cpu s' = this_cpu s" "nslabs s' = nslabs s" "npages s' = npages s" using h(2) by (simp_all add: alloc_kept_def)
    have L: "L' b = L b" if "\<not> buddy_anchor b" "\<not> slab_anchor b" for b using h(3) that by (simp add: heap_rest_def)
    have sw: "swap_rings (npages s') L'"
      using r k(3) L by (auto simp: fault_ready_def swap_rings_def swap_known_def swap_linked_def buddy_anchor_def slab_anchor_def)
    have LT: "L' (TaskMmap t) = Some (map VmMmap xs)" using r L [of "TaskMmap t"] by (simp add: fault_ready_def buddy_anchor_def slab_anchor_def)
    have more: "kslab.more s' = kslab.more s" using h(3) by (simp add: heap_rest_def)
    have vm: "vmas s' = vmas s" "rbn s' = rbn s" "task_rb s' = task_rb s" using more by (cases s; cases s'; simp)+
    have "vma_space s' t xs"
      by (rule vma_space_frame [of s]) (use r vm LT klinks_rep [OF heap_invD(2) [OF h(1)]] in \<open>auto simp: fault_ready_def\<close>)
    moreover have "pmem s' i = (\<lambda>_. 0)" if "i \<in> free_frames s'" "pp_zero (pages s' i) \<noteq> 0" for i
    proof -
      have "i \<in> free_frames s" "pp_zero (pages s i) \<noteq> 0" "pmem s' i = pmem s i" using h(3) that by (auto simp: heap_rest_def)
      then show ?thesis using r by (simp add: fault_ready_def)
    qed
    moreover have "lock_free (swap_lock s')" using h(3) r by (simp add: heap_rest_def fault_ready_def)
    ultimately have "fault_ready s' L' t xs" using h(1) k r sw LT unfolding fault_ready_def by auto
    with h(3) k(3) show "\<exists>a' L'. Some (a + SIZEOF_SLAB_OBJ) = Some a' \<and> fault_ready s' L' t xs \<and> heap_rest 1 s L s' L' \<and> npages s' = npages s" by blast
  qed
qed

lemma first_after_in:
  "ordered V xs \<Longrightarrow> v \<in> set xs \<Longrightarrow> vm_base (V v) \<le> addr \<Longrightarrow> addr < vm_end (V v) \<Longrightarrow> first_after V addr xs d = v"
  by (induction xs) (auto dest: order.strict_trans2)

lemma is_list_next:
  assumes "is_list h p (xs @ a # ys)"
  shows "list_next p a h = (if ys = [] then Null else hd ys)"
proof -
  have "linked h a ys p" "p \<notin> set ys" using assms by (auto simp: is_list_def)
  from linked_nx [OF this(1)] this(2) show ?thesis by (cases ys) (auto simp: list_next_def)
qed

text \<open>A walk over a range inside one area calls its function on this area only.\<close>

lemma walk_one_area:
  assumes sp: "vma_space s t xs" and v: "v \<in> set xs" "vm_base (vmas s v) \<le> base" "base < base + sz" "base + sz \<le> vm_end (vmas s v)"
    and get: "rok (get t base sz v s) (\<lambda>(ret, s'). ret \<le> 0 \<and> vmas s' = vmas s \<and> Q ret s')"
  shows "rok (walk_vma_range get t base sz s) (\<lambda>(ret, s'). Q ret s')"
proof -
  have o: "ordered (vmas s) xs" and l: "is_list (lh s) (TaskMmap t) (map VmMmap xs)" using sp by (auto simp: vma_space_def)
  obtain ys zs where xs: "xs = ys @ v # zs" using v(1) by (meson split_list)
  have nz: "v \<noteq> 0" using vma_space_nonzero [OF sp] v(1) by metis
  have "base < vm_end (vmas s v)" using v(3,4) by (rule order.strict_trans2)
  then have f: "first_after (vmas s) base xs 0 = v" using first_after_in [OF o v(1,2)] by simp
  obtain par dir where fv: "find_vma (vmas s) (tree_of t s) base = Inr (v, par, dir)"
    using find_vma_space [OF sp, of base] f by auto
  have lo: "vm_base (vmas s v) < base + sz" using v(2,3) by (rule order.strict_trans1)
  obtain ret s' where g: "get t base sz v s = Inr (ret, s')" "ret \<le> 0" "vmas s' = vmas s" "Q ret s'" using get by (auto simp: rok_iff)
  have nx: "list_next (TaskMmap t) (VmMmap v) (lh s) = (if zs = [] then Null else VmMmap (hd zs))"
    using is_list_next [of "lh s" "TaskMmap t" "map VmMmap ys" "VmMmap v" "map VmMmap zs"] l xs by (auto simp: hd_map)
  have stop: "\<not> vm_base (vmas s (hd zs)) < base + sz" if "zs \<noteq> []"
  proof -
    have "vm_end (vmas s v) \<le> vm_base (vmas s (hd zs))" using o that by (auto simp: xs)
    with v(4) show ?thesis by (simp add: not_less order.trans)
  qed
  have "walk_vma_loop (get t base sz) t (base + sz) v (list_next (TaskMmap t) (VmMmap v) (lh s)) s = Some (Inr (ret, s'))"
  proof (cases "ret < 0")
    case True
    then show ?thesis by (subst walk_vma_loop.simps) (simp add: nz lo g(1))
  next
    case False
    with g(2) have "ret = 0" by simp
    then show ?thesis using stop unfolding nx
      by (subst walk_vma_loop.simps) (auto simp: nz lo g(1,3) vma_of_def walk_vma_loop.simps [of _ _ _ "hd zs"])
  qed
  then show ?thesis using fv nz lo g(4) by (auto simp: walk_vma_range_def Let_def not_le)
qed

definition rights :: "vma \<Rightarrow> u64" where
  "rights v = convert_flags_from_vma_to_pages (vm_flags v) OR PAGE_USER"

lemma kvma_more: "kvm.more s' = kvm.more s \<Longrightarrow> vmas s' = vmas s \<and> rbn s' = rbn s \<and> task_rb s' = task_rb s \<and> task_pml4 s' = task_pml4 s"
  for s s' :: "'z kvma_scheme"
  by (cases s; cases s') simp

lemma cur_find_same:
  assumes "kvm.more s' = kvm.more s" and "cur_task s' = cur_task s"
  shows "cur_find_vma s' a = cur_find_vma s a"
proof -
  have e: "cur_task s' = cur_task s" "vmas s' = vmas s" "rbn s' = rbn s" "task_rb s' = task_rb s" using assms kvma_more [of s' s] by simp_all
  then have f: "task_find_vma t a s' = task_find_vma t a s" for t by (simp add: task_find_vma_def tree_of_def)
  show ?thesis unfolding cur_find_vma_def e f ..
qed

lemma populate_one:
  assumes r: "fault_ready s L t xs" and v: "v \<in> set xs" "vm_src (vmas s v) = 0" and va: "page_aligned va" "canonical va"
    and lim: "vm_base (vmas s v) \<le> va" "va < va + PAGE_SIZE" "va + PAGE_SIZE \<le> vm_end (vmas s v)"
    and cur: "cur_task s = Some t" and good: "good_from 3 s va [task_pml4 s t]" and room: "4 \<le> card (free_frames s)"
  shows "rok (populate_vma_range t va PAGE_SIZE flags s) (\<lambda>(ret, s').
    if check_vma_permissions (vmas s v) flags < 0 then ret = - 1 \<and> s' = s
    else ret = 0 \<and> (\<exists>p. populated s (task_pml4 s t) va (rights (vmas s v)) p s'))"
proof -
  have sp: "vma_space s t xs" using r by (simp add: fault_ready_def)
  have "va < vm_end (vmas s v)" using lim(2,3) by (rule order.strict_trans2)
  then have "task_find_vma t va s = Inr v" using space.find_unique [OF sp v(1) lim(1)] by simp
  moreover have "v \<noteq> 0" using vma_space_nonzero [OF sp] v(1) by metis
  ultimately obtain q where q: "cur_find_vma s va = Some q" by (simp add: cur_find_vma_def cur)
  have "rok (populate_region cur_find_vma (kernel_pml4 s) (task_pml4 s t) va PAGE_SIZE (rights (vmas s v)) s)
      (\<lambda>s'. \<exists>p. populated s (task_pml4 s t) va (rights (vmas s v)) p s')"
  proof (rule populate_region_spec [OF va fault_ready_vm [OF r] good room])
    show "lock_free (swap_lock s)" using r by (simp add: fault_ready_def)
    have "\<forall>t'. kmem.more t' = kmem.more s \<longrightarrow> cur_find_vma t' va = Some q" using cur_find_same [of _ s va] kvm_more [of _ s] q by metis
    then show "cur_task s \<noteq> None \<and> (\<exists>r. \<forall>t'. kmem.more t' = kmem.more s \<longrightarrow> cur_find_vma t' va = Some r)" using cur by auto
  qed
  then obtain s1 p where p: "populate_region cur_find_vma (kernel_pml4 s) (task_pml4 s t) va PAGE_SIZE (rights (vmas s v)) s = Inr s1"
    "populated s (task_pml4 s t) va (rights (vmas s v)) p s1" by (auto simp: rok_iff)
  have base: "(if vm_base (vmas s v) < va then va else vm_base (vmas s v)) = va" "(if va + PAGE_SIZE < vm_end (vmas s v) then va + PAGE_SIZE else vm_end (vmas s v)) = va + PAGE_SIZE"
    using lim by (auto simp: not_less)
  have run: "do_populate_vma flags t va PAGE_SIZE v s =
      (if check_vma_permissions (vmas s v) flags < 0 then Inr (- 1, s) else Inr (0, s1))"
    using p(1) unfolding do_populate_vma_def Let_def base rights_def [symmetric] v(2) by simp
  have "vmas s1 = vmas s" using p(2) kvma_more [of s1 s] by (simp add: populated_def)
  then show ?thesis unfolding populate_vma_range_def
    by (intro walk_one_area [OF sp v(1) lim]) (use p(2) in \<open>auto simp: run\<close>)
qed

text \<open>
  What the handler does on a virtual page that is not mapped: a permitted access to an anonymous
  area populates the page, every other access is refused.
\<close>

definition permitted :: "'z kvma_scheme \<Rightarrow> nat list \<Rightarrow> u64 \<Rightarrow> u32 \<Rightarrow> nat \<Rightarrow> bool" where
  "permitted s xs va flags v \<longleftrightarrow> v \<in> set xs \<and> vm_base (vmas s v) \<le> va \<and> va < vm_end (vmas s v) \<and> check_vma_permissions (vmas s v) flags = 0"

lemma page_base:
  fixes va :: u64
  shows "page_aligned (ROUNDDOWN va PAGE_SIZE)" and "ROUNDDOWN va PAGE_SIZE \<le> va"
    and "page_aligned b \<Longrightarrow> b \<le> va \<Longrightarrow> b \<le> ROUNDDOWN va PAGE_SIZE"
    and "page_aligned e \<Longrightarrow> va < e \<Longrightarrow> ROUNDDOWN va PAGE_SIZE < ROUNDDOWN va PAGE_SIZE + PAGE_SIZE \<and> ROUNDDOWN va PAGE_SIZE + PAGE_SIZE \<le> e"
proof -
  have m: "va mod 4096 \<le> va" by (simp add: word_le_nat_alt unat_mod)
  then have "unat (va - va mod 4096) = unat va - unat va mod 4096" by (simp only: unat_sub unat_mod) simp
  then have d: "unat (ROUNDDOWN va PAGE_SIZE) = unat va div 4096 * 4096"
    unfolding ROUNDDOWN_def PAGE_SIZE_def by (simp only: minus_mod_eq_div_mult)
  have al: "page_aligned b \<longleftrightarrow> unat b mod 4096 = 0" for b :: u64
    unfolding page_aligned_mod by (simp add: word_unat_eq_iff unat_mod)
  show "page_aligned (ROUNDDOWN va PAGE_SIZE)" unfolding al d by simp
  show "ROUNDDOWN va PAGE_SIZE \<le> va" unfolding word_le_nat_alt d by simp
  show "b \<le> ROUNDDOWN va PAGE_SIZE" if "page_aligned b" "b \<le> va"
  proof -
    have "unat b div 4096 \<le> unat va div 4096" using that(2) by (intro div_le_mono) (simp add: word_le_nat_alt)
    then show ?thesis using that(1) unfolding word_le_nat_alt d al by (metis add.right_neutral div_mult_mod_eq mult_le_mono1)
  qed
  show "ROUNDDOWN va PAGE_SIZE < ROUNDDOWN va PAGE_SIZE + PAGE_SIZE \<and> ROUNDDOWN va PAGE_SIZE + PAGE_SIZE \<le> e" if "page_aligned e" "va < e"
  proof -
    have e: "unat e = unat e div 4096 * 4096" using that(1) unfolding al by (metis add.right_neutral div_mult_mod_eq)
    have "unat va < unat e" using that(2) by (simp add: word_less_nat_alt)
    then have "unat va div 4096 < unat e div 4096" using e by (metis div_less_iff_less_mult zero_less_numeral)
    then have le: "unat va div 4096 * 4096 + 4096 \<le> unat e" using e by simp
    have "unat e < 2 ^ 64" using unsigned_less [of e, where 'a = nat] by simp
    with le have "unat (ROUNDDOWN va PAGE_SIZE + PAGE_SIZE) = unat va div 4096 * 4096 + 4096"
      by (simp only: unat_word_ariths d) (simp add: PAGE_SIZE_def)
    then show ?thesis using le unfolding word_le_nat_alt word_less_nat_alt d by simp
  qed
qed

lemma fault_unmapped:
  assumes r: "fault_ready s L t xs" and va: "canonical (ROUNDDOWN va PAGE_SIZE)" and cur: "cur_task s = Some t"
    and good: "good_from 3 s (ROUNDDOWN va PAGE_SIZE) [task_pml4 s t]" and room: "5 \<le> card (free_frames s)"
    and anon: "\<forall>v\<in>set xs. vm_src (vmas s v) = 0 \<and> page_aligned (vm_base (vmas s v)) \<and> page_aligned (vm_end (vmas s v))"
  shows "rok (task_page_fault_handler t va flags s) (\<lambda>(ret, s').
     \<exists>s1 L1. heap_rest 1 s L s1 L1 \<and> fault_ready s1 L1 t xs \<and>
      (if \<exists>v. permitted s xs va flags v
       then ret = 0 \<and> (\<exists>v p. permitted s xs va flags v \<and> populated s1 (task_pml4 s t) (ROUNDDOWN va PAGE_SIZE) (rights (vmas s v)) p s')
       else ret = - 1 \<and> s' = s1))"
proof -
  let ?b = "ROUNDDOWN va PAGE_SIZE" and ?pml4 = "task_pml4 s t"
  have "free_frames s \<noteq> {}" using room by auto
  from kmalloc_word [OF r this] obtain a s1 L1 where k: "kmalloc 8 s = Inr (Some a, s1)" "fault_ready s1 L1 t xs" "heap_rest 1 s L s1 L1" "npages s1 = npages s"
    by (auto simp: rok_iff)
  have kr: "free_frames s1 \<subseteq> free_frames s" "card (free_frames s) \<le> 1 + card (free_frames s1)" "\<And>f. f \<notin> free_frames s \<Longrightarrow> pmem s1 f = pmem s f" "cur_task s1 = Some t"
    using k(3) cur by (auto simp: heap_rest_def)
  have "kslab.more s1 = kslab.more s" using k(3) by (simp add: heap_rest_def)
  then have vm: "vmas s1 = vmas s" "task_pml4 s1 = task_pml4 s" by (cases s; cases s1; simp)+
  have g1: "good_from 3 s1 ?b [?pml4]" by (rule good_from_keep [OF good _ kr(3,1) k(4)]) simp
  have sp: "vma_space s1 t xs" using k(2) by (simp add: fault_ready_def)
  have n1: "npages s1 \<le> 2 ^ 35" using fault_ready_vm [OF k(2)] by (simp add: vm_ok_def)
  have look: "page_lookup ?pml4 ?b (Some (Some (word_at a))) s1 = Inr (None, Some (Some (word_at a)))"
    using page_lookup_spec(2) [OF page_base(1) va good_from_unmapped(2) [OF g1] n1, of "word_at a"] good_from_unmapped(1) [OF g1]
    by (simp add: translate_def)
  obtain v where f: "task_find_vma t va s1 = Inr v" and v: "if v = 0 then \<forall>a\<in>set xs. \<not> (vm_base (vmas s a) \<le> va \<and> va < vm_end (vmas s a))
     else v \<in> set xs \<and> vm_base (vmas s v) \<le> va \<and> va < vm_end (vmas s v)"
    using task_find_vma_ok [OF sp, of va] unfolding vm(1) by blast
  show ?thesis
  proof (cases "v = 0")
    case True
    then have "\<not> (\<exists>v. permitted s xs va flags v)" using v by (auto simp: permitted_def)
    then show ?thesis using k(2,3) f True by (auto simp: task_page_fault_handler_def k(1))
  next
    case False
    with v have vx: "v \<in> set xs" "vm_base (vmas s v) \<le> va" "va < vm_end (vmas s v)" by auto
    have al: "vm_src (vmas s v) = 0" "page_aligned (vm_base (vmas s v))" "page_aligned (vm_end (vmas s v))" using anon vx(1) by auto
    have run: "task_page_fault_handler t va flags s = populate_vma_range t ?b PAGE_SIZE flags s1"
      using f False look by (simp add: task_page_fault_handler_def k(1) vm)
    have uniq: "w = v" if "permitted s xs va flags w" for w
      using that vx ordered_disjoint [of "vmas s" xs w v va] sp vm by (auto simp: permitted_def vma_space_def)
    have chk: "check_vma_permissions (vmas s v) flags = 0 \<or> check_vma_permissions (vmas s v) flags < 0" by (simp add: check_vma_permissions_def)
    have "rok (populate_vma_range t ?b PAGE_SIZE flags s1) (\<lambda>(ret, s').
        if check_vma_permissions (vmas s v) flags < 0 then ret = - 1 \<and> s' = s1
        else ret = 0 \<and> (\<exists>p. populated s1 ?pml4 ?b (rights (vmas s v)) p s'))"
      using populate_one [OF k(2) vx(1) _ page_base(1) va, unfolded vm, OF al(1) page_base(3) [OF al(2) vx(2)] _ _ kr(4) g1, of flags]
        page_base(4) [OF al(3) vx(3)] kr(2) room by simp
    moreover have "(\<exists>v. permitted s xs va flags v) \<longleftrightarrow> \<not> check_vma_permissions (vmas s v) flags < 0"
      using chk uniq vx by (auto simp: permitted_def)
    moreover have "permitted s xs va flags v" if "\<not> check_vma_permissions (vmas s v) flags < 0"
      using that chk vx by (auto simp: permitted_def)
    ultimately show ?thesis unfolding run by (elim rok_mono) (use k(2,3) in \<open>fastforce split: if_splits\<close>)
  qed
qed

section \<open>Replacing a page\<close>

text \<open>A walk whose callbacks above the last level leave entries that are present alone.\<close>

definition still_cb :: "('u, 'z) map_pte option \<Rightarrow> bool" where
  "still_cb cb \<longleftrightarrow> (\<forall>e b en u s. present (rd e s) \<longrightarrow> call_pte cb e b en (u, s) = Inr (0, u, s))"

definition still_walker :: "('u, 'z) page_walker \<Rightarrow> bool" where
  "still_walker w \<longleftrightarrow> still_cb (pde_callback w) \<and> still_cb (pdpte_callback w) \<and> still_cb (pml4e_callback w) \<and>
     pde_unmap w = None \<and> pdpte_unmap w = None \<and> pml4e_unmap w = None"

lemma alloc_still:
  fixes w :: "('u, 'z) page_walker"
  shows "alloc_walker w \<Longrightarrow> still_walker w"
proof -
  have "still_cb cb" if "alloc_cb cb" for cb :: "('u, 'z) map_pte option"
    unfolding still_cb_def
  proof (intro allI impI)
    fix e b en and u :: 'u and s :: "'z kvm_scheme"
    assume "present (rd e s)"
    then have "ptbl_alloc e b en (u, s) = Inr (0, u, s)" by (simp add: ptbl_alloc_def)
    then show "call_pte cb e b en (u, s) = Inr (0, u, s)" using alloc_cb_rok [OF that, of e b en u s "\<lambda>u' s'. u' = u \<and> s' = s"] by (auto simp: rok_iff)
  qed
  then show "alloc_walker w \<Longrightarrow> still_walker w" by (simp add: alloc_walker_def still_walker_def)
qed

lemma protect_still: "still_walker protect_walker"
  by (simp add: still_walker_def still_cb_def protect_walker_def no_walker_def protect_pde_def call_pte_def)

definition tables_for :: "'z kmem_scheme \<Rightarrow> nat \<Rightarrow> u64 \<Rightarrow> nat \<times> nat \<times> nat \<Rightarrow> bool" where
  "tables_for s pml4 va = (\<lambda>(t3, t2, t1). link s pml4 0 va = Some t3 \<and> link s t3 1 va = Some t2 \<and> link s t2 2 va = Some t1 \<and>
     t3 < npages s \<and> t2 < npages s \<and> t1 < npages s)"

lemma present_walk:
  assumes va: "page_aligned va" "canonical va" and w: "still_walker w" and t: "tables_for s pml4 va (t3, t2, t1)"
    and below: "rok (one_pte w va t1 (u, s)) (\<lambda>(ret, us). ret = 0 \<and> P us)"
  shows "rok (walk_page_range pml4 va (va + PAGE_SIZE) w (u, s)) (\<lambda>(ret, us). ret = 0 \<and> P us)"
proof -
  have w': "pml4e_unmap w = None" "pdpte_unmap w = None" "pde_unmap w = None"
    and q: "present (rd e s) \<Longrightarrow> call_pte (pml4e_callback w) e b en (u, s) = Inr (0, u, s)"
      "present (rd e s) \<Longrightarrow> call_pte (pdpte_callback w) e b en (u, s) = Inr (0, u, s)"
      "present (rd e s) \<Longrightarrow> call_pte (pde_callback w) e b en (u, s) = Inr (0, u, s)" for e b en
    using w unfolding still_walker_def still_cb_def by blast+
  have l: "link s pml4 0 va = Some t3" "link s t3 1 va = Some t2" "link s t2 2 va = Some t1" and n: "t3 < npages s" "t2 < npages s" "t1 < npages s"
    using t by (auto simp: tables_for_def)
  have p2: "present (rd (t2, PAGE_DIR_INDEX va) s)" "\<not> is_huge (rd (t2, PAGE_DIR_INDEX va) s)" "PAGE_INDEX (PAGE_ADDR (rd (t2, PAGE_DIR_INDEX va) s)) = t1"
    using l(3) by (auto simp: link_unfold entry_frame_def split: if_splits)
  have "one_pde w va t2 (u, s) = ok_then (ok_then (one_pte w va t1 (u, s)) (\<lambda>s. Inr (0, s))) (\<lambda>s. Inr (0, s))"
    using p2 n w' q(3) [OF p2(1)] by (simp add: one_pde_def pdir_body_def ret0_def KADDR_def walk_one_levels(1) [OF va])
  with below have 2: "rok (one_pde w va t2 (u, s)) (\<lambda>(ret, us). ret = 0 \<and> P us)" by (simp add: rok_ret0)
  have p1: "present (rd (t3, PDPT_INDEX va) s)" "\<not> is_huge (rd (t3, PDPT_INDEX va) s)" "PAGE_INDEX (PAGE_ADDR (rd (t3, PDPT_INDEX va) s)) = t2"
    using linkD(2) [OF l(2)] by auto
  have "one_pdpte w va t3 (u, s) = ok_then (ok_then (one_pde w va t2 (u, s)) (\<lambda>s. Inr (0, s))) (\<lambda>s. Inr (0, s))"
    using p1 n w' q(2) [OF p1(1)] by (simp add: one_pdpte_def pdpt_body_def ret0_def KADDR_def walk_one_levels(2) [OF va])
  with 2 have 3: "rok (one_pdpte w va t3 (u, s)) (\<lambda>(ret, us). ret = 0 \<and> P us)" by (simp add: rok_ret0)
  have p0: "present (rd (pml4, PML4_INDEX va) s)" "PAGE_INDEX (PAGE_ADDR (rd (pml4, PML4_INDEX va) s)) = t3" using linkD(1) [OF l(1)] by auto
  have "walk_page_range pml4 va (va + PAGE_SIZE) w (u, s) = ok_then (ok_then (one_pdpte w va t3 (u, s)) (\<lambda>s. Inr (0, s))) (\<lambda>s. Inr (0, s))"
    unfolding walk_one_page [OF va] using p0 n w' q(1) [OF p0(1)] by (simp add: pml4_body_def ret0_def KADDR_def walk_one_levels(3) [OF va])
  with 3 show ?thesis by (simp add: rok_ret0)
qed

lemma vm_ok_memory:
  assumes ok: "vm_ok s" and n: "npages s' = npages s" and lh: "lh s' = lh s" and lock: "buddy_lock s' = buddy_lock s"
    and pg: "\<And>i. pp_order (pages s' i) = pp_order (pages s i) \<and> pp_free (pages s' i) = pp_free (pages s i) \<and> pp_zero (pages s' i) = pp_zero (pages s i)"
    and mem: "\<And>i. i \<in> free_frames s \<Longrightarrow> pmem s' i = pmem s i"
  shows "vm_ok s'" and "free_frames s' = free_frames s"
proof -
  obtain L where inv: "buddy_inv s L" "swap_rings (npages s) L" using ok by (auto simp: vm_ok_def)
  have pg': "\<And>i. pp_order (pages s' i) = pp_order (pages s i) \<and> pp_free (pages s' i) = pp_free (pages s i)" using pg by simp
  note c = vm_ok_change [OF inv(1) n lh lock pg']
  show "free_frames s' = free_frames s" by (rule c(2))
  then show "vm_ok s'" using c(1) inv(2) ok n pg mem by (auto simp: vm_ok_def)
qed

lemma replace_leaf:
  assumes ok: "vm_ok s" and e: "fst e \<notin> free_frames s" "present (rd e s)" and q: "q = entry_frame (rd e s)" "q < npages s" "1 < pp_ref (pages s q)"
    and p: "p < npages s" "p \<notin> free_frames s" "p \<noteq> q" and lock: "lock_free (swap_lock s)" and u: "cur_task s \<noteq> None" "va < USER_LIM" "flags AND PAGE_USER \<noteq> 0"
    and fv: "\<forall>t. cur_task t = cur_task s \<and> kvm.more t = kvm.more s \<longrightarrow> fv t va = Some r"
  defines "f \<equiv> (\<lambda>i. if i = q then pp_ref (pages s q) - 1 else if i = p then pp_ref (pages s p) + 1 else pp_ref (pages s i))"
  shows "rok (insert_pte fv e va en (\<lparr>ins_pml4 = k, ins_page = p, ins_flags = flags\<rparr>, s)) (\<lambda>(ret, us). ret = 0 \<and> vm_ok (snd us) \<and>
     free_frames (snd us) = free_frames s \<and> pmem (snd us) = (pmem s)(fst e := (pmem s (fst e))(snd e := page2pa p OR flags OR PAGE_PRESENT)) \<and>
     (\<forall>i. pp_ref (pages (snd us) i) = f i) \<and> npages (snd us) = npages s)"
proof -
  let ?i = "\<lparr>ins_pml4 = k, ins_page = p, ins_flags = flags\<rparr>"
  let ?d = "pp_upd q (\<lambda>x. x\<lparr>pp_ref := pp_ref x - 1\<rparr>) s"
  let ?s1 = "tlb_invalidate k va ?d"
  have old: "pa2page (PAGE_ADDR (rd e s)) s = Inr q" using q by (simp add: pa2page_def entry_frame_def)
  have "pp_ref (pages s q) - 1 \<noteq> 0" using q(3) by auto
  then have dec: "page_decref q s = Inr ?d" using q(2) by (simp add: page_decref_def pp_upd_def)
  have s1: "vm_ok ?s1" "free_frames ?s1 = free_frames s"
    by (rule vm_ok_memory [OF ok]; simp add: tlb_invalidate_def pp_upd_def)+
  have st: "cur_task ?s1 = cur_task s" "kvm.more ?s1 = kvm.more s" "swap_lock ?s1 = swap_lock s" "npages ?s1 = npages s"
    by (simp_all add: tlb_invalidate_def pp_upd_def)
  obtain s2 where s2: "attach_vma fv va p ?s1 = Inr s2" "rmap_set p r ?s1 s2"
    using attach_vma_spec [OF s1(1), of p fv va r] fv st p(1) lock by (auto simp: rok_iff)
  obtain h l where e2: "s2 = (pp_upd p (\<lambda>q. q\<lparr>pp_rmap := r\<rparr>) ?s1)\<lparr>lh := h, swap_lock := l\<rparr>" and ok2: "vm_ok s2" using s2(2) by (auto simp: rmap_set_def)
  have ff2: "free_frames s2 = free_frames s" unfolding s1(2) [symmetric] by (rule free_frames_same) (auto simp: e2 pp_upd_def)
  let ?v = "page2pa p OR flags OR PAGE_PRESENT"
  let ?s3 = "wr e ?v (ref_inc p s2)"
  have run: "insert_pte fv e va en (?i, s) = Inr (0, ?i, ?s3)"
    using e(2) p(1) old dec s2(1) st u by (simp add: insert_pte_def Let_def ref_inc_def or.assoc)
  have s3: "vm_ok ?s3" "free_frames ?s3 = free_frames s2"
    by (rule vm_ok_memory [OF ok2]; use e(1) ff2 in \<open>auto simp: ref_inc_def pp_upd_def wr_def\<close>)+
  have "pmem s2 = pmem s" "npages s2 = npages s" by (simp_all add: e2 tlb_invalidate_def pp_upd_def)
  moreover have "pp_ref (pages ?s3 i) = f i" for i
    using p(3) by (auto simp: f_def e2 ref_inc_def tlb_invalidate_def pp_upd_def)
  ultimately show ?thesis unfolding run using s3 ff2 by (simp add: wr_def ref_inc_def pp_upd_def)
qed

text \<open>
  After a copy: the entry names a frame that was free and now holds what the shared page holds; the
  shared page has lost one reference, and nothing else in memory has changed.
\<close>

definition copied :: "'z kvm_scheme \<Rightarrow> pte \<Rightarrow> u64 \<Rightarrow> nat \<Rightarrow> nat \<Rightarrow> 'z kvm_scheme \<Rightarrow> bool" where
  "copied s e flags q p s' \<longleftrightarrow> vm_ok s' \<and> p \<in> free_frames s \<and> free_frames s' = free_frames s - {p} \<and>
     pmem s' = ((pmem s)(p := pmem s q))(fst e := (pmem s (fst e))(snd e := page2pa p OR flags OR PAGE_PRESENT)) \<and>
     pp_ref (pages s' q) = pp_ref (pages s q) - 1 \<and> pp_ref (pages s' p) = pp_ref (pages s p) + 1 \<and>
     (\<forall>i. i \<noteq> p \<longrightarrow> i \<noteq> q \<longrightarrow> pp_ref (pages s' i) = pp_ref (pages s i))"

lemma copy_on_write_shared:
  assumes ok: "vm_ok s" and lock: "lock_free (swap_lock s)" and va: "canonical (ROUNDDOWN va PAGE_SIZE)" "ROUNDDOWN va PAGE_SIZE < USER_LIM"
    and t: "tables_for s (task_pml4 s t) (ROUNDDOWN va PAGE_SIZE) (t3, t2, t1)" "task_pml4 s t \<notin> free_frames s" "t3 \<notin> free_frames s" "t2 \<notin> free_frames s" "t1 \<notin> free_frames s"
    and e: "e = (t1, ix 3 (ROUNDDOWN va PAGE_SIZE))" "present (rd e s)" and q: "q = entry_frame (rd e s)" "q < npages s" "1 < pp_ref (pages s q)" "q \<notin> free_frames s"
    and cur: "cur_task s = Some t'" and fv: "cur_find_vma s (ROUNDDOWN va PAGE_SIZE) = Some r" and ne: "free_frames s \<noteq> {}"
  shows "rok (copy_on_write t va q e v s) (\<lambda>(ret, s'). ret = 0 \<and> (\<exists>p. copied s e (rights (vmas s v)) q p s'))"
proof -
  let ?b = "ROUNDDOWN va PAGE_SIZE" and ?pml4 = "task_pml4 s t" and ?f = "rights (vmas s v)"
  obtain p s1 where al: "page_alloc ALLOC_ZERO s = Inr (Some p, s1)" and z: "zero_alloc p s s1" using page_alloc_zero [OF ok ne] by (auto simp: rok_iff)
  have zz: "p \<in> free_frames s" "free_frames s1 = free_frames s - {p}" "vm_ok s1" "npages s1 = npages s" "kmem.more s1 = kmem.more s" "\<And>i. pp_ref (pages s1 i) = pp_ref (pages s i)"
      "pmem s1 = (pmem s)(p := (\<lambda>_. 0))" using z by (auto simp: zero_alloc_def)
  have pn: "p < npages s" "npages s \<le> 2 ^ 35"
    using zz(1) ok frames_bound [OF buddy_relD(1), of s _ "{}"] by (auto simp: vm_ok_def buddy_inv_def free_frames_def)
  let ?s2 = "copy_frame p q s1"
  have s2: "vm_ok ?s2" "free_frames ?s2 = free_frames s - {p}"
    unfolding zz(2) [symmetric] by (rule vm_ok_memory [OF zz(3)]; use zz(2) in \<open>auto simp: copy_frame_def\<close>)+
  have rd2: "rd x ?s2 = rd x s" if "fst x \<notin> free_frames s" for x using that zz(1,7) by (auto simp: rd_def copy_frame_def)
  have m2: "vmas ?s2 = vmas s" "task_pml4 ?s2 = task_pml4 s" "cur_task ?s2 = cur_task s" "swap_lock ?s2 = swap_lock s" "npages ?s2 = npages s" "kmem.more ?s2 = kmem.more s"
    using zz(4,5) by (cases s; cases s1; simp add: copy_frame_def)+
  have tb: "tables_for ?s2 ?pml4 ?b (t3, t2, t1)"
    using t rd2 [of "(?pml4, ix 0 ?b)"] rd2 [of "(t3, ix 1 ?b)"] rd2 [of "(t2, ix 2 ?b)"] m2(5) by (simp add: tables_for_def link_def)
  have ka: "KADDR (page2pa i) s1 = Inr i" if "i < npages s" for i using page2pa_addr(2) [of i] pn(2) that zz(4) by (simp add: KADDR_def)
  have fv2: "\<forall>t. cur_task t = cur_task ?s2 \<and> kvm.more t = kvm.more ?s2 \<longrightarrow> cur_find_vma t ?b = Some r"
  proof (intro allI impI)
    fix u :: "'a kvma_scheme" assume u: "cur_task u = cur_task ?s2 \<and> kvm.more u = kvm.more ?s2"
    have "kvm.more u = kvm.more s" "cur_task u = cur_task s" using u kvm_more [OF m2(6)] by simp_all
    then show "cur_find_vma u ?b = Some r" using cur_find_same [of u s ?b] fv by simp
  qed
  have u: "?f AND PAGE_USER \<noteq> 0" by (simp add: rights_def PAGE_USER_def bit.conj_disj_distrib2)
  have qs: "pages ?s2 = pages s1" "pmem ?s2 = (pmem s)(p := pmem s q)" using zz(7) zz(1) q(4) by (auto simp: copy_frame_def)
  have e2: "fst e \<notin> free_frames s" "rd e ?s2 = rd e s" using e(1) t(5) rd2 [of e] by auto
  let ?i = "\<lparr>ins_pml4 = ?pml4, ins_page = p, ins_flags = ?f\<rparr>"
  have pq: "p \<noteq> q" "p \<noteq> fst e" using zz(1) q(4) e2(1) by auto
  have "rok (insert_pte cur_find_vma e ?b (?b + 4091) (?i, ?s2)) (\<lambda>(ret, us). ret = 0 \<and> copied s e ?f q p (snd us))"
    by (rule rok_mono [OF replace_leaf [OF s2(1), of e q p ?b ?f cur_find_vma r]])
      (use e(2) e2 q pn(1) pq lock va(2) cur u fv2 m2 zz s2 qs in \<open>auto simp: copied_def\<close>)
  then have one: "rok (one_pte (insert_walker cur_find_vma) ?b t1 (?i, ?s2)) (\<lambda>(ret, us). ret = 0 \<and> copied s e ?f q p (snd us))"
    using e(1) by (auto simp: one_pte_def ptbl_body_def Let_def ret0_def insert_walker_def no_walker_def rok_ok_then elim!: rok_mono)
  have "rok (page_insert cur_find_vma ?pml4 p ?b ?f ?s2) (\<lambda>(ret, s'). ret = 0 \<and> copied s e ?f q p s')"
    unfolding page_insert_def rok_rbind
    by (rule rok_mono [OF present_walk [OF page_base(1) va(1) alloc_still [OF alloc_walkers(1)] tb one]]) auto
  moreover have "copy_on_write t va q e v s = page_insert cur_find_vma ?pml4 p ?b ?f ?s2"
    using q(2,3) pn(1) al ka m2(1,2) by (auto simp: copy_on_write_def rights_def)
  ultimately show ?thesis by (auto elim!: rok_mono)
qed

end
