(* ===== verification/Fault_Props.thy ===== *)
theory Fault_Props
  imports Fault_Spec
begin

text \<open>
  Properties of the page fault handler and of copy-on-write, with a task of one writable area of
  two pages on which they are evaluated.
\<close>

section \<open>A concrete task\<close>

text \<open>A task with one writable anonymous area of two pages and an empty page table in frame 600.\<close>

definition fault_heap :: lheap where
  "fault_heap = list_add (TaskMmap 1) (VmMmap 10) (list_init (VmMmap 10) (list_init (TaskMmap 1) (lh demo_kmem)))"

definition fault_links :: "anchor \<rightharpoonup> anchor list" where
  "fault_links = demo_links(TaskMmap 1 \<mapsto> [VmMmap 10])"

definition demo_fault :: kvma where
  "demo_fault = kmem.extend (demo_kmem\<lparr>pmem := (\<lambda>_ _. 0), lh := fault_heap\<rparr>)
     \<lparr>cr3 = page2pa 600, tlb_log = [], swap_lock = buddy_lock demo_kmem, cur_task = Some 1, next_free = 0, kernel_end = 0, kernel_pml4 = 601,
      slabs = (\<lambda>_. \<lparr>info_off = 0, obj_size = 0, count = 0\<rparr>), sinfo = (\<lambda>_. \<lparr>si_slab = 0, free_count = 0\<rparr>), obj_info = (\<lambda>_. 0), nslabs = (\<lambda>_. 0),
      vmas = (\<lambda>_. zero_vma\<lparr>vm_base := 0x400000, vm_end := 0x402000, vm_flags := VM_READ OR VM_WRITE, vm_task := 1\<rparr>),
      rbn = (\<lambda>_. \<lparr>parent = 0, child = (\<lambda>_. 0), color = RB_BLACK\<rparr>), task_rb = (\<lambda>_. 10), task_pml4 = (\<lambda>_. 600),
      rmap_lock = (\<lambda>_. buddy_lock demo_kmem)\<rparr>"

lemma demo_fault_fields [simp]:
  "lh demo_fault = fault_heap" "pages demo_fault = pages demo_kmem" "npages demo_fault = 1024" "pmem demo_fault = (\<lambda>_ _. 0)"
  "buddy_lock demo_fault = buddy_lock demo_kmem" "this_cpu demo_fault = 0" "cur_task demo_fault = Some 1" "swap_lock demo_fault = buddy_lock demo_kmem"
  "vmas demo_fault = (\<lambda>_. zero_vma\<lparr>vm_base := 0x400000, vm_end := 0x402000, vm_flags := VM_READ OR VM_WRITE, vm_task := 1\<rparr>)"
  "rbn demo_fault = (\<lambda>_. \<lparr>parent = 0, child = (\<lambda>_. 0), color = RB_BLACK\<rparr>)" "task_rb demo_fault = (\<lambda>_. 10)" "task_pml4 demo_fault = (\<lambda>_. 600)"
  by (simp_all add: demo_fault_def kmem.extend_def demo_kmem_def)

lemma demo_fault_frames: "free_frames demo_fault = {..<512}"
  unfolding demo_frames [symmetric] by (rule free_frames_same) (simp_all add: demo_pages)

lemma fault_links_ok: "klinks fault_heap fault_links"
proof -
  have none: "TaskMmap 1 \<notin> ring_nodes demo_links" "VmMmap 10 \<notin> ring_nodes demo_links" "demo_links (VmMmap 10) = None"
    using demo_links_cases unfolding ring_nodes_def by (fastforce simp: demo_links_def)+
  have k0: "klinks (lh demo_kmem) demo_links" using demo_inv by (auto simp: buddy_inv_def dest: buddy_relD(2))
  have k1: "klinks (list_init (TaskMmap 1) (lh demo_kmem)) (demo_links(TaskMmap 1 \<mapsto> []))"
    by (rule klinks_init [OF k0 none(1)]) (auto simp: zero_area_def)
  have "VmMmap 10 \<notin> ring_nodes (demo_links(TaskMmap 1 \<mapsto> []))" using none(2) by (auto simp: ring_nodes_def split: if_splits)
  from klinks_init [OF k1 this] have k2: "klinks (list_init (VmMmap 10) (list_init (TaskMmap 1) (lh demo_kmem))) (demo_links(TaskMmap 1 \<mapsto> [], VmMmap 10 \<mapsto> []))"
    by (auto simp: zero_area_def)
  have "(demo_links(TaskMmap 1 \<mapsto> [], VmMmap 10 \<mapsto> []))(TaskMmap 1 \<mapsto> [VmMmap 10], VmMmap 10 := None) = fault_links"
    using none(3) by (auto simp: fault_links_def fun_eq_iff)
  with klinks_add [OF k2, of "TaskMmap 1" "[]" "VmMmap 10"] show ?thesis by (simp add: fault_heap_def)
qed

lemma demo_fault_fresh: "heap_fresh demo_fault fault_links"
proof -
  let ?s = "demo_fault\<lparr>lh := lh demo_kmem\<rparr>"
  have "buddy_inv ?s demo_links" by (rule vm_ok_change(1) [OF demo_inv]) (simp_all add: demo_pages)
  moreover have "fault_links a = demo_links a" if "buddy_anchor a" for a using that by (auto simp: fault_links_def buddy_anchor_def)
  ultimately have "buddy_inv (?s\<lparr>lh := fault_heap\<rparr>) fault_links"
    using buddy_rel_links [of ?s demo_links "{}" fault_heap fault_links] fault_links_ok by (simp add: buddy_inv_def)
  then have "buddy_inv demo_fault fault_links" by (rule vm_ok_change(1)) simp_all
  moreover have "\<not> slab_anchor a" if "a \<in> ring_nodes fault_links" for a
  proof -
    have "a \<in> ring_nodes demo_links \<or> a = TaskMmap 1 \<or> a = VmMmap 10" using that by (auto simp: ring_nodes_def fault_links_def split: if_splits)
    then show ?thesis using demo_links_cases unfolding ring_nodes_def slab_anchor_def by fastforce
  qed
  ultimately show ?thesis by (simp add: heap_fresh_def demo_fault_frames demo_pages demo_links_def fault_links_def)
qed

lemma slab_setup_rest [simp]:
  "cr3 (slab_setup x n s) = cr3 s" "cur_task (slab_setup x n s) = cur_task s" "swap_lock (slab_setup x n s) = swap_lock s" "kslab.more (slab_setup x n s) = kslab.more s"
  by (simp_all add: slab_setup_def klist_init_def Let_def)

lemma kmem_init_rest:
  "cur_task (kmem_init s) = cur_task s" "swap_lock (kmem_init s) = swap_lock s" "kslab.more (kmem_init s) = kslab.more s"
proof -
  let ?f = "fold (\<lambda>i s. slab_setup (slab_ptr (this_cpu s) i) ((i + 1) * SLAB_ALIGN) s)"
  have f: "cur_task (?f is t) = cur_task t \<and> swap_lock (?f is t) = swap_lock t \<and> kslab.more (?f is t) = kslab.more t" for "is" and t :: "'a kslab_scheme"
    by (induction "is" arbitrary: t) simp_all
  let ?s = "s\<lparr>nslabs := (nslabs s)(this_cpu s := 32)\<rparr>"
  have "kmem_init s = ?f [0..<32] ?s" unfolding kmem_init_def Let_def by simp
  with f [of "[0..<32]" ?s] show "cur_task (kmem_init s) = cur_task s" "swap_lock (kmem_init s) = swap_lock s" "kslab.more (kmem_init s) = kslab.more s"
    by simp_all
qed

lemma kslab_kvma: "kslab.more s' = kslab.more s \<Longrightarrow> vmas s' = vmas s \<and> rbn s' = rbn s \<and> task_rb s' = task_rb s \<and> task_pml4 s' = task_pml4 s"
  for s s' :: "'z kvma_scheme"
  by (cases s; cases s') simp

lemma demo_fault_ready: "\<exists>L. fault_ready (kmem_init demo_fault) L 1 [10]"
proof -
  let ?t = "demo_fault\<lparr>nslabs := (nslabs demo_fault)(this_cpu demo_fault := 32)\<rparr>" and ?s = "kmem_init demo_fault"
  have "heap_fresh ?t fault_links" using demo_fault_fresh by (simp add: heap_fresh_def buddy_inv_def buddy_rel_def free_frames_def)
  from kmem_init_fold [OF this, of 32 "\<lambda>_. []"] obtain L where L: "heap_inv ?s L (slab_ptr 0 ` {..<32}) (\<lambda>_. []) (\<lambda>_. []) (\<lambda>_. [])"
      "this_cpu ?s = 0" "nslabs ?s = nslabs ?t" "\<forall>a. \<not> slab_anchor a \<longrightarrow> L a = fault_links a"
    by (auto simp: kmem_init_def)
  have more: "vmas ?s = vmas demo_fault" "rbn ?s = rbn demo_fault" "task_rb ?s = task_rb demo_fault"
    using kslab_kvma [OF kmem_init_rest(3) [of demo_fault]] by simp_all
  have LT: "L (TaskMmap 1) = Some (map VmMmap [10])" using L(4) by (simp add: slab_anchor_def fault_links_def)
  have "rb_ok (tree_of 1 ?s) (Node Leaf 10 Leaf)" by (simp add: rb_ok_def represents_def tree_of_def more)
  moreover have "ordered (vmas ?s) [10]" by (simp add: more)
  ultimately have sp: "vma_space ?s 1 [10]"
    using klinks_rep [OF heap_invD(2) [OF L(1)] LT] unfolding vma_space_def by (intro conjI exI [of _ "Node Leaf 10 Leaf"]) simp_all
  have "swap_rings 1024 L" using L(4) by (auto simp: swap_rings_def swap_known_def swap_linked_def slab_anchor_def fault_links_def demo_links_def)
  then have "fault_ready ?s L 1 [10]"
    using L(1-3) LT sp unfolding fault_ready_def
    by (auto simp: kmem_init_same kmem_init_rest lock_free_def demo_kmem_def)
  then show ?thesis by blast
qed

lemma demo_fault_state:
  "free_frames (kmem_init demo_fault) = {..<512}" "task_pml4 (kmem_init demo_fault) = (\<lambda>_. 600)" "cur_task (kmem_init demo_fault) = Some 1"
  "vmas (kmem_init demo_fault) = vmas demo_fault" "good_from 3 (kmem_init demo_fault) va [600]"
proof -
  show ff: "free_frames (kmem_init demo_fault) = {..<512}" using demo_fault_frames by (simp add: free_frames_def kmem_init_same)
  show "task_pml4 (kmem_init demo_fault) = (\<lambda>_. 600)" "vmas (kmem_init demo_fault) = vmas demo_fault"
    using kslab_kvma [OF kmem_init_rest(3) [of demo_fault]] by simp_all
  show "cur_task (kmem_init demo_fault) = Some 1" by (simp add: kmem_init_rest)
  have "rd x (kmem_init demo_fault) = 0" for x by (simp add: rd_def kmem_init_same)
  then show "good_from 3 (kmem_init demo_fault) va [600]"
    by (simp add: numeral_3_eq_3 visited_ok_def ff present_def kmem_init_same)
qed

text \<open>The same task with its second page mapped read-only to frame 700, which another task shares.\<close>

definition cow_tables :: "nat \<Rightarrow> nat \<Rightarrow> u64" where
  "cow_tables f i = (if f = 600 \<and> i = 0 then page2pa 601 OR table_flags else if f = 601 \<and> i = 0 then page2pa 602 OR table_flags
     else if f = 602 \<and> i = 2 then page2pa 603 OR table_flags else if f = 603 \<and> i = 1 then page2pa 700 OR table_flags
     else if f = 700 then 42 else 0)"

definition demo_cow :: kvma where
  "demo_cow = (pp_upd 700 (\<lambda>p. p\<lparr>pp_ref := 2\<rparr>) demo_fault)\<lparr>pmem := cow_tables\<rparr>"

lemma demo_cow_fields [simp]:
  "npages demo_cow = 1024" "pmem demo_cow = cow_tables" "lh demo_cow = fault_heap" "buddy_lock demo_cow = buddy_lock demo_kmem"
  "cur_task demo_cow = Some 1" "swap_lock demo_cow = buddy_lock demo_kmem" "vmas demo_cow = vmas demo_fault" "task_pml4 demo_cow = (\<lambda>_. 600)"
  "rbn demo_cow = rbn demo_fault" "task_rb demo_cow = (\<lambda>_. 10)" "pp_ref (pages demo_cow 700) = 2"
  by (simp_all add: demo_cow_def pp_upd_def)

lemma demo_cow_ok: "vm_ok demo_cow" and demo_cow_frames: "free_frames demo_cow = {..<512}"
proof -
  have z: "pp_zero (pages demo_cow i) = 0" for i by (simp add: demo_cow_def pp_upd_def demo_pages)
  have inv: "buddy_inv demo_fault fault_links" using demo_fault_fresh by (simp add: heap_fresh_def)
  have c: "buddy_inv demo_cow fault_links" "free_frames demo_cow = free_frames demo_fault"
    by (rule vm_ok_change [OF inv]; simp add: demo_cow_def pp_upd_def)+
  then show "free_frames demo_cow = {..<512}" by (simp add: demo_fault_frames)
  have "swap_rings 1024 fault_links" by (simp add: swap_rings_def swap_known_def fault_links_def demo_links_def)
  with c(1) z show "vm_ok demo_cow" by (auto simp: vm_ok_def)
qed

lemma demo_find:
  assumes "lh s = fault_heap" and "vmas s = vmas demo_fault" and "rbn s = rbn demo_fault" and "task_rb s = (\<lambda>_. 10)" and "cur_task s = Some 1"
  shows "cur_find_vma s 0x401000 = Some None"
proof -
  have l: "is_list fault_heap (TaskMmap 1) (map VmMmap [10])"
    using klinks_rep [OF fault_links_ok, of "TaskMmap 1" "[VmMmap 10]"] by (simp add: fault_links_def)
  have "rb_ok (tree_of 1 s) (Node Leaf 10 Leaf)" by (simp add: rb_ok_def represents_def tree_of_def assms)
  then have sp: "vma_space s 1 [10]"
    using l unfolding vma_space_def by (intro conjI exI [of _ "Node Leaf 10 Leaf"]) (simp_all add: assms)
  have "task_find_vma 1 0x401000 s = Inr 10"
    by (rule space.find_unique [OF sp]) (simp_all add: zero_vma_def assms)
  then show ?thesis by (simp add: cur_find_vma_def zero_vma_def assms)
qed

lemmas demo_cow_find = demo_find [of demo_cow, simplified]

lemma demo_ix: "ix 0 0x401000 = 0" "ix 1 0x401000 = 0" "ix 2 0x401000 = 2" "ix 3 0x401000 = 1"
  by (simp_all add: numeral_2_eq_2 numeral_3_eq_3) (simp_all add: PML4_INDEX_def PDPT_INDEX_def PAGE_DIR_INDEX_def PAGE_TABLE_INDEX_def index_unat)

lemma demo_cow_tables: "tables_for demo_cow 600 0x401000 (601, 602, 603)" and demo_cow_entry: "rd (603, ix 3 0x401000) demo_cow = page2pa 700 OR table_flags"
proof -
  show "rd (603, ix 3 0x401000) demo_cow = page2pa 700 OR table_flags" by (simp only: demo_ix) (simp add: rd_def cow_tables_def)
  have r: "rd (600, ix 0 0x401000) demo_cow = page2pa 601 OR table_flags" "rd (601, ix 1 0x401000) demo_cow = page2pa 602 OR table_flags"
      "rd (602, ix 2 0x401000) demo_cow = page2pa 603 OR table_flags"
    by (simp_all only: demo_ix) (simp_all add: rd_def cow_tables_def)
  show "tables_for demo_cow 600 0x401000 (601, 602, 603)" using link_table [OF r(1)] link_table [OF r(2)] link_table [OF r(3)] by (simp add: tables_for_def)
qed

section \<open>Properties\<close>



text \<open>
  C6: \<^verbatim>\<open>copy_on_write\<close> on a mapped page: the only owner just gets the write bit; otherwise the entry is redirected, with the
  rights of the area, to a frame that was free and now holds a copy of the shared page, the shared page loses one reference, and no
  other word of an allocated frame and no other reference count of one changes.
\<close>

theorem copy_on_write_isolates:
  assumes "vm_ok s" and "lock_free (swap_lock s)" and "canonical (ROUNDDOWN va PAGE_SIZE)" and "ROUNDDOWN va PAGE_SIZE < USER_LIM"
    and "tables_for s (task_pml4 s t) (ROUNDDOWN va PAGE_SIZE) (t3, t2, t1)" and "{task_pml4 s t, t3, t2, t1} \<inter> free_frames s = {}"
    and "e = (t1, ix 3 (ROUNDDOWN va PAGE_SIZE))" and "present (rd e s)" and "q = entry_frame (rd e s)" and "q < npages s"
    and "0 < pp_ref (pages s q)" and "q \<notin> free_frames s" and "q \<noteq> t1"
    and "cur_task s = Some t'" and "cur_find_vma s (ROUNDDOWN va PAGE_SIZE) = Some r" and "free_frames s \<noteq> {}"
  shows "if pp_ref (pages s q) = 1 then copy_on_write t va q e v s = Inr (0, wr e (rd e s OR PAGE_WRITE) s)
     else rok (copy_on_write t va q e v s) (\<lambda>(ret, s'). ret = 0 \<and> vm_ok s' \<and> (\<exists>p. p \<in> free_frames s \<and> free_frames s' = free_frames s - {p} \<and>
        rd e s' = page2pa p OR rights (vmas s v) OR PAGE_PRESENT \<and> pmem s' p = pmem s q \<and> pmem s' q = pmem s q \<and>
        (\<forall>x. fst x \<notin> free_frames s \<longrightarrow> x \<noteq> e \<longrightarrow> rd x s' = rd x s) \<and> pp_ref (pages s' q) = pp_ref (pages s q) - 1 \<and>
        (\<forall>i. i \<notin> free_frames s \<longrightarrow> i \<noteq> q \<longrightarrow> pp_ref (pages s' i) = pp_ref (pages s i))))"
proof (cases "pp_ref (pages s q) = 1")
  case True
  then show ?thesis by (simp add: copy_on_write_def)
next
  case False
  have "0 < unat (pp_ref (pages s q))" using assms(11) by (simp add: word_less_nat_alt)
  moreover have "unat (pp_ref (pages s q)) \<noteq> 1" using False by (metis unat_1 word_unat_eq_iff)
  ultimately have "1 < pp_ref (pages s q)" unfolding word_less_nat_alt unat_1 by linarith
  have f: "task_pml4 s t \<notin> free_frames s" "t3 \<notin> free_frames s" "t2 \<notin> free_frames s" "t1 \<notin> free_frames s" using assms(6) by auto
  have c: "rok (copy_on_write t va q e v s) (\<lambda>(ret, s'). ret = 0 \<and> (\<exists>p. copied s e (rights (vmas s v)) q p s'))"
    by (rule copy_on_write_shared [OF assms(1-5) f assms(7-10) \<open>1 < pp_ref (pages s q)\<close> assms(12,14,15,16)])
  show ?thesis unfolding if_not_P [OF False]
  proof (rule rok_mono [OF c], clarify, intro conjI exI)
    fix ret s' p
    assume c: "copied s e (rights (vmas s v)) q p s'"
    have p: "p \<in> free_frames s" "p \<noteq> t1" "p \<noteq> q" using c f assms(12) by (auto simp: copied_def)
    have m: "pmem s' = ((pmem s)(p := pmem s q))(t1 := (pmem s t1)(ix 3 (ROUNDDOWN va PAGE_SIZE) := page2pa p OR rights (vmas s v) OR PAGE_PRESENT))"
      using c assms(7) by (simp add: copied_def)
    show "vm_ok s'" "p \<in> free_frames s" "free_frames s' = free_frames s - {p}" "pp_ref (pages s' q) = pp_ref (pages s q) - 1" using c by (simp_all add: copied_def)
    show "rd e s' = page2pa p OR rights (vmas s v) OR PAGE_PRESENT" "pmem s' p = pmem s q" "pmem s' q = pmem s q" using p assms(7,13) by (simp_all add: m rd_def)
    show "\<forall>x. fst x \<notin> free_frames s \<longrightarrow> x \<noteq> e \<longrightarrow> rd x s' = rd x s" using p assms(7) by (auto simp: m rd_def)
    show "\<forall>i. i \<notin> free_frames s \<longrightarrow> i \<noteq> q \<longrightarrow> pp_ref (pages s' i) = pp_ref (pages s i)" using c p by (auto simp: copied_def)
  qed (rule refl)
qed

theorem copy_on_write_isolates_witness:
  "rok (copy_on_write 1 0x401234 700 (603, ix 3 0x401000) 10 demo_cow) (\<lambda>(ret, s'). ret = 0 \<and> pp_ref (pages s' 700) = 1 \<and> (\<exists>p<512. pmem s' p = (\<lambda>_. 42)))"
proof -
  have b: "ROUNDDOWN 0x401234 PAGE_SIZE = 0x401000" by (simp add: ROUNDDOWN_def PAGE_SIZE_def)
  have c: "canonical 0x401000" "0x401000 < USER_LIM" by (simp_all add: canonical_def sign_extend_def USER_LIM_def)
  have l: "lock_free (swap_lock demo_cow)" by (simp add: lock_free_def demo_kmem_def)
  have e: "present (rd (603, ix 3 0x401000) demo_cow)" "700 = entry_frame (rd (603, ix 3 0x401000) demo_cow)"
    unfolding demo_cow_entry by (simp_all add: table_entry)
  have d: "{task_pml4 demo_cow 1, 601, 602, 603} \<inter> free_frames demo_cow = {}" "700 \<notin> free_frames demo_cow" "free_frames demo_cow \<noteq> {}"
    by (auto simp: demo_cow_frames set_eq_iff intro!: exI [of _ 0])
  have t: "tables_for demo_cow (task_pml4 demo_cow 1) 0x401000 (601, 602, 603)" using demo_cow_tables by simp
  have r: "pp_ref (pages demo_cow 700) \<noteq> 1" "0 < pp_ref (pages demo_cow 700)" "700 < npages demo_cow" "(700::nat) \<noteq> 603" by simp_all
  note w = copy_on_write_isolates [OF demo_cow_ok l, where va = "0x401234" and v = 10 and t = 1 and q = 700 and t' = 1 and r = None and e = "(603, ix 3 0x401000)",
      unfolded b if_not_P [OF r(1)], OF c t d(1) refl e r(3,2) d(2) r(4) demo_cow_fields(5) demo_cow_find d(3)]
  have "pmem demo_cow 700 = (\<lambda>_. 42)" by (simp add: fun_eq_iff cow_tables_def)
  with w show ?thesis by (intro rok_mono [OF w]) (auto simp: demo_cow_frames)
qed

end
