(* ===== verification/Sched_Props.thy ===== *)
theory Sched_Props
  imports Sched_Spec Fault_Props
begin

text \<open>
  Properties of the scheduler, with a CPU that has one task in each queue on which they are evaluated.
\<close>

section \<open>A concrete scheduler\<close>

text \<open>Task 1 is running, task 2 is in the local queue, task 3 in the global queue.\<close>

definition demo_queues :: lheap where
  "demo_queues = list_add_tail (CpuRunq 0) (TaskNode 2) (list_add_tail RunqHead (TaskNode 3)
     (list_init (CpuNextq 0) (list_init (CpuRunq 0) (list_init RunqHead (list_init (TaskNode 1) (list_init (TaskNode 2) (list_init (TaskNode 3) (lh demo_fault))))))))"

definition demo_task :: "int \<Rightarrow> task_status \<Rightarrow> task" where
  "demo_task pid st = zero_task\<lparr>task_pid := pid, task_status := st\<rparr>"

definition demo_sched :: ktask where
  "demo_sched = kvma.extend (demo_fault\<lparr>lh := demo_queues\<rparr>)
     \<lparr>tcb = (\<lambda>t. demo_task (int t) (if t = 1 then TASK_RUNNING else TASK_RUNNABLE)), tasks = (\<lambda>pid. if pid \<in> {1, 2, 3} then pid else 0),
      nuser_tasks = 3, nkernel_tasks = 0, runq_len = (\<lambda>_. 1), ncpus = 1, runq_lock = buddy_lock demo_kmem, sched_start = 0, time_elapsed = 0\<rparr>"

lemma demo_sched_fields [simp]:
  "lh demo_sched = demo_queues" "this_cpu demo_sched = 0" "cur_task demo_sched = Some 1" "nuser_tasks demo_sched = 3" "nkernel_tasks demo_sched = 0"
  "runq_len demo_sched = (\<lambda>_. 1)" "ncpus demo_sched = 1" "runq_lock demo_sched = buddy_lock demo_kmem"
  "tcb demo_sched = (\<lambda>t. demo_task (int t) (if t = 1 then TASK_RUNNING else TASK_RUNNABLE))" "task_pml4 demo_sched = (\<lambda>_. 600)"
  by (simp_all add: demo_sched_def kvma.extend_def demo_fault_def kmem.extend_def demo_kmem_def)

lemma demo_queued: "queued demo_sched [3] [2] [] (Some 1)"
proof -
  let ?h = "list_init (CpuNextq 0) (list_init (CpuRunq 0) (list_init RunqHead (list_init (TaskNode 1) (list_init (TaskNode 2) (list_init (TaskNode 3) (lh demo_fault))))))"
  let ?L = "(\<lambda>a. if a \<in> {CpuNextq 0, CpuRunq 0, RunqHead, TaskNode 1, TaskNode 2, TaskNode 3} then Some [] else None)"
  have "ring_family is_list ?h ?L" by (auto simp: ring_family_def is_list_def list_defs)
  from rings.family_add_tail [OF this, of RunqHead "[]" "TaskNode 3"]
  have f1: "ring_family is_list (list_add_tail RunqHead (TaskNode 3) ?h) (?L(RunqHead \<mapsto> [TaskNode 3], TaskNode 3 := None))" by simp
  from rings.family_add_tail [OF f1, of "CpuRunq 0" "[]" "TaskNode 2"]
  have "ring_family is_list demo_queues (?L(RunqHead \<mapsto> [TaskNode 3], TaskNode 3 := None, CpuRunq 0 \<mapsto> [TaskNode 2], TaskNode 2 := None))"
    by (simp add: demo_queues_def)
  then show ?thesis unfolding queued_def demo_sched_fields
    by (rule ring_family_sub) (auto simp: sched_links_def split: anchor.splits if_splits)
qed

lemma demo_sched_ok: "sched_ok demo_sched ([3], [2], [], Some 1)"
  using demo_queued
  by (simp add: sched_ok_def sched_inv_def opt_list_def ready_def status_of_def demo_task_def runq_avail_def lock_free_def demo_kmem_def)

section \<open>Properties\<close>

text \<open>
  C7: \<^verbatim>\<open>sched_yield\<close> refines a round-robin machine on three queues: the current task goes to the end of the next queue, the oldest
  task of the local queue runs; an empty local queue is refilled with the next queue, which is balanced with the global queue
  to the CPU's share when the lock of that queue can be had. The chosen task is entered with its saved
  registers in its own address space, and no task is lost, duplicated or given other registers. When no
  task is ready the CPU repeats with empty local queues.
\<close>

theorem sched_yield_round_robin:
  assumes "sched_ok s q" and "rr_step (runq_avail s) (task_goal s) q = q'"
  shows "case q' of
      (G', R', N', Some x) \<Rightarrow> rok (sched_yield (Suc n) s) (\<lambda>(f, s'). f = Iret (task_frame (tcb s x)) \<and> sched_ok s' q' \<and>
        status_of s' x = TASK_RUNNING \<and> cr3 s' = page2pa (task_pml4 s x) \<and> (\<forall>t. task_frame (tcb s' t) = task_frame (tcb s t)))
    | (G', R', N', None) \<Rightarrow> \<exists>s'. sched_yield (Suc n) s = sched_yield n s' \<and> sched_inv s' G' R' N' None \<and> tcb s' = tcb s"
proof -
  obtain G R N u where q: "q = (G, R, N, u)" by (cases q) auto
  obtain G' R' N' u' where q': "q' = (G', R', N', u')" by (cases q') auto
  show ?thesis
  proof (cases u')
    case (Some x)
    show ?thesis unfolding q' Some prod.case option.case
      by (rule rok_mono [OF yield_step [OF assms [unfolded q q' Some], of n]]) auto
  next
    case None
    have R: "R = []" using assms(2) by (cases R) (auto simp: q q' None rr_step_def)
    obtain G1 Q where b: "balanced (runq_avail s) (task_goal s) (G, N @ opt_list u) = (G1, Q)" by fastforce
    then have "Q = []" "q' = (G1, [], [], None)" using assms(2) by (auto simp: q q' None R rr_step_def split: list.splits)
    with yield_reload [OF assms(1) [unfolded q R] b, of n] stepped_same(2) show ?thesis by (auto simp del: sched_yield.simps)
  qed
qed

theorem sched_yield_round_robin_witness:
  "rok (sched_yield 1 demo_sched) (\<lambda>(f, s'). sched_ok s' ([3], [], [1], Some 2) \<and> status_of s' 2 = TASK_RUNNING)"
proof -
  have "rr_step (runq_avail demo_sched) (task_goal demo_sched) ([3], [2], [], Some 1) = ([3], [], [1], Some 2)"
    by (simp add: rr_step_def opt_list_def)
  from sched_yield_round_robin [OF demo_sched_ok this, of 0] show ?thesis
    unfolding prod.case option.case One_nat_def by (rule rok_mono) auto
qed

text \<open>
  C8: No task starves on a single CPU: when the scheduler's counter of tasks is right, every task in any queue is the current task after at
  most as many calls of \<^verbatim>\<open>sched_yield\<close> as there are tasks in the global and the next queue, twice those in the local
  queue, and two; all these calls end in a task.
\<close>

theorem sched_no_starvation:
  assumes "sched_ok s (G, R, N, u)" and "runq_avail s" and "ncpus s = 1" and "nuser_tasks s = of_nat (length (G @ R @ N @ opt_list u))"
    and "t \<in> set (G @ R @ N @ opt_list u)"
  shows "\<exists>k \<le> length G + 2 * length R + length N + 2. rok (repeat_res (tick (Suc n)) k s) (\<lambda>s'. cur_task s' = Some t)"
proof -
  have "length (opt_list u) \<le> 1" by (simp add: opt_list_def split: option.split)
  then have "length (G @ R @ N @ opt_list u) < 2 ^ 64" using assms(1) by (simp add: sched_ok_def)
  then have "unat (of_nat (length (G @ R @ N @ opt_list u)) :: u64) = length (G @ R @ N @ opt_list u)"
    unfolding unsigned_of_nat by (subst take_bit_nat_eq_self) simp_all
  then have "task_goal s = length (G @ R @ N @ opt_list u)" using assms(3,4) by (simp add: task_goal_def)
  from rr.all_run [OF assms(1,2) this assms(5), of n] obtain k where
    k: "k \<le> length G + 2 * length R + length N + 2" "rok (repeat_res (tick (Suc n)) k s) (\<lambda>s'. \<exists>G' R' N'. sched_ok s' (G', R', N', Some t))" by blast
  from k(2) have "rok (repeat_res (tick (Suc n)) k s) (\<lambda>s'. cur_task s' = Some t)" by (rule rok_mono) (auto simp: sched_ok_def)
  with k(1) show ?thesis by blast
qed

theorem sched_no_starvation_witness:
  "\<exists>k \<le> 5. rok (repeat_res (tick 1) k demo_sched) (\<lambda>s'. cur_task s' = Some 3)"
proof -
  have "runq_avail demo_sched" by (simp add: runq_avail_def lock_free_def demo_kmem_def)
  from sched_no_starvation [OF demo_sched_ok this, of 3 0] show ?thesis by (simp add: opt_list_def numeral_eq_Suc)
qed

end
