(* ===== verification/Trap_Props.thy ===== *)
theory Trap_Props
  imports Trap Sched_Props
begin

text \<open>
  Properties of the ways into the kernel: page faults of user code, errors of the system calls and the
  interrupt table.
\<close>

section \<open>Changing a task structure\<close>

text \<open>The memory of the kernel does not depend on the task structures.\<close>

lemma tcb_upd_mem [simp]:
  "pages (tcb_upd t f s) = pages s" "npages (tcb_upd t f s) = npages s" "pmem (tcb_upd t f s) = pmem s" "lh (tcb_upd t f s) = lh s"
  "buddy_lock (tcb_upd t f s) = buddy_lock s" "this_cpu (tcb_upd t f s) = this_cpu s" "cr3 (tcb_upd t f s) = cr3 s"
  "swap_lock (tcb_upd t f s) = swap_lock s" "cur_task (tcb_upd t f s) = cur_task s" "vmas (tcb_upd t f s) = vmas s"
  "task_pml4 (tcb_upd t f s) = task_pml4 s" "rbn (tcb_upd t f s) = rbn s" "task_rb (tcb_upd t f s) = task_rb s"
  "slabs (tcb_upd t f s) = slabs s" "sinfo (tcb_upd t f s) = sinfo s" "obj_info (tcb_upd t f s) = obj_info s" "nslabs (tcb_upd t f s) = nslabs s"
  "kernel_pml4 (tcb_upd t f s) = kernel_pml4 s" "tasks (tcb_upd t f s) = tasks s"
  by (simp_all add: tcb_upd_def)

lemma tcb_upd_frames [simp]: "free_frames (tcb_upd t f s) = free_frames s" "rd x (tcb_upd t f s) = rd x s" "tree_of u (tcb_upd t f s) = tree_of u s"
  by (simp_all add: free_frames_def rd_def tree_of_def)

lemma tcb_upd_heap [simp]: "heap_inv (tcb_upd t f s) L X P Q F \<longleftrightarrow> heap_inv s L X P Q F"
  by (simp add: heap_inv_def buddy_inv_def buddy_rel_def slab_rel_def chunk_ok_def)

lemma tcb_upd_ready [simp]: "fault_ready (tcb_upd t f s) L u xs \<longleftrightarrow> fault_ready s L u xs"
  by (simp add: fault_ready_def vma_space_def)

lemma tcb_upd_good [simp]: "good_from n (tcb_upd t f s) va ts \<longleftrightarrow> good_from n s va ts"
  by (induction n arbitrary: ts) (simp_all add: visited_ok_def link_def)

lemma tcb_upd_permitted [simp]: "permitted (tcb_upd t f s) xs va flags v \<longleftrightarrow> permitted s xs va flags v"
  by (simp add: permitted_def)

lemma ktask_more:
  fixes s s' :: "'z ktask_scheme"
  shows "kslab.more s' = kslab.more s \<Longrightarrow> tcb s' = tcb s \<and> tasks s' = tasks s \<and> task_pml4 s' = task_pml4 s"
    and "kvm.more s' = kvm.more s \<Longrightarrow> tcb s' = tcb s \<and> tasks s' = tasks s \<and> task_pml4 s' = task_pml4 s"
  by (cases s; cases s'; simp)+

lemma tcb_upd_tcb [simp]: "tcb (tcb_upd t f s) = (tcb s)(t := f (tcb s t))"
  by (simp add: tcb_upd_def)

lemma mapped_same: "(\<And>x. rd x s' = rd x s) \<Longrightarrow> mapped s' pml4 va = mapped s pml4 va"
  by (simp add: mapped_def leaf_def link_def cong: option.case_cong)

section \<open>Page faults of user code\<close>

definition fault_flags :: "kenv \<Rightarrow> int_frame \<Rightarrow> u32" where
  "fault_flags env frame = VM_READ OR (if f_err_code frame AND 2 \<noteq> 0 then VM_WRITE else 0) OR (if f_rip frame = env_cr2 env then VM_EXEC else 0)"

lemma task_run_current:
  assumes "cur_task s = Some t" and "status_of s t = TASK_RUNNING" and "t \<noteq> 0" and "0 < task_pid (tcb s t)"
  shows "rok (task_run yield t s) (\<lambda>(f, s'). f = Iret (task_frame (tcb s t)) \<and> cur_task s' = Some t \<and> status_of s' t = TASK_RUNNING \<and>
    cr3 s' = page2pa (task_pml4 s t) \<and> pmem s' = pmem s)"
  using assms by (simp add: task_run_def fbind_def task_pop_frame_def tcb_defs Let_def)


text \<open>The task of the page fault example, running with PID 1.\<close>

definition demo_trap :: ktask where
  "demo_trap = kvma.extend (kmem_init demo_fault)
     \<lparr>tcb = (\<lambda>t. demo_task (int t) TASK_RUNNING), tasks = (\<lambda>pid. if pid = 1 then 1 else 0), nuser_tasks = 1, nkernel_tasks = 0,
      runq_len = (\<lambda>_. 0), ncpus = 1, runq_lock = buddy_lock demo_kmem, sched_start = 0, time_elapsed = 0\<rparr>"

lemma demo_trap_fields [simp]:
  "tcb demo_trap = (\<lambda>t. demo_task (int t) TASK_RUNNING)" "cur_task demo_trap = Some 1" "task_pml4 demo_trap = (\<lambda>_. 600)" "vmas demo_trap = vmas demo_fault"
  "tasks demo_trap = (\<lambda>pid. if pid = 1 then 1 else 0)" "this_cpu demo_trap = this_cpu (kmem_init demo_fault)"
  by (simp_all add: demo_trap_def kvma.extend_def demo_fault_state)

lemma demo_trap_frames: "free_frames demo_trap = {..<512}"
  using demo_fault_state(1) by (simp add: demo_trap_def kvma.extend_def free_frames_def)

lemma extend_heap: "heap_inv (kvma.extend s x) L X P Q F \<longleftrightarrow> heap_inv s L X P Q F"
  by (simp add: heap_inv_def buddy_inv_def buddy_rel_def slab_rel_def chunk_ok_def free_frames_def kvma.extend_def)

lemma demo_trap_ready: "\<exists>L. fault_ready demo_trap L 1 [10]"
proof -
  obtain L where "fault_ready (kmem_init demo_fault) L 1 [10]" using demo_fault_ready by blast
  then have "fault_ready demo_trap L 1 [10]"
    by (simp add: demo_trap_def fault_ready_def extend_heap) (simp add: kvma.extend_def free_frames_def vma_space_def tree_of_def)
  then show ?thesis by blast
qed

lemma demo_trap_good: "good_from 3 demo_trap va [600]"
proof -
  have "rd x demo_trap = 0" for x by (simp add: rd_def demo_trap_def kvma.extend_def kmem_init_same)
  moreover have "npages demo_trap = 1024" by (simp add: demo_trap_def kvma.extend_def kmem_init_same)
  ultimately show ?thesis by (simp add: numeral_3_eq_3 visited_ok_def demo_trap_frames present_def)
qed

definition demo_env :: "u64 \<Rightarrow> kenv" where
  "demo_env cr2 = \<lparr>env_tsc0 = 0, env_tsc1 = 0, env_cr2 = cr2, env_rflags = 0, env_key = 0, env_lit = (\<lambda>_. 0), env_str = (\<lambda>_. []), env_entry = None, env_flags = 0\<rparr>"


section \<open>Errors of the system calls\<close>

text \<open>
  C15: Error results: a system call number outside the table returns -ENOSYS, \<^verbatim>\<open>waitpid\<close> without children or on the caller itself
  returns -ECHILD, and \<^verbatim>\<open>kill\<close> on a PID above the limit, on a free PID or on a task that is neither the caller nor a child
  of it returns -1; none of them changes the state.
\<close>

theorem syscall_errors:
  assumes "cur_task s = Some t" and "lock_free (task_lock (tcb s t))"
  shows "(14 \<le> k \<longrightarrow> syscall env n k a1 a2 a3 a4 s = Inr (Returns (- 7), s)) \<and>
    (list_is_empty (TaskChildren t) (lh s) \<or> pid_arg a1 = task_pid (tcb s t) \<longrightarrow>
      rok (syscall env n 11 a1 a2 a3 a4 s) (\<lambda>(f, s'). f = Returns (- 2) \<and> (\<exists>l. lock_free l \<and> s' = tcb_upd t (\<lambda>a. a\<lparr>task_lock := l\<rparr>) s))) \<and>
    (0 < pid_arg a1 \<longrightarrow> pid_arg a1 \<ge> 65536 \<or> tasks s (nat (pid_arg a1)) = 0 \<or>
        tasks s (nat (pid_arg a1)) \<noteq> t \<and> task_ppid (tcb s (tasks s (nat (pid_arg a1)))) \<noteq> task_pid (tcb s t) \<longrightarrow>
      syscall env n 3 a1 a2 a3 a4 s = Inr (Returns (- 1), s))"
proof (intro conjI impI)
  assume k: "14 \<le> k"
  have "sysno_of k = (if k = 14 then Some NSYSCALLS else None)"
  proof (cases "k = 14")
    case True
    then show ?thesis by (simp add: sysno_of_def sysnos_def)
  next
    case False
    then have "unat k \<noteq> 14" by (simp add: word_unat_eq_iff)
    moreover have "14 \<le> unat k" using k by (simp add: word_le_nat_alt)
    ultimately show ?thesis using False by (simp add: sysno_of_def sysnos_def)
  qed
  then show "syscall env n k a1 a2 a3 a4 s = Inr (Returns (- 7), s)" by (simp add: syscall_def ENOSYS_def)
next
  assume c: "list_is_empty (TaskChildren t) (lh s) \<or> pid_arg a1 = task_pid (tcb s t)"
  obtain l where l: "spin_lock (task_lock (tcb s t)) (this_cpu s) [] 0 = Inr l" "holding l (this_cpu s)"
    using spin_lock_free [OF assms(2), of "this_cpu s" "[]" 0] by (auto simp: rok_iff)
  obtain l' where l': "spin_unlock l (this_cpu s) = Inr l'" "lock_free l'" using spin_unlock_holding [OF l(2)] by (auto simp: rok_iff)
  have "sysno_of 11 = Some SYS_waitpid" by (simp add: sysno_of_def sysnos_def)
  then show "rok (syscall env n 11 a1 a2 a3 a4 s) (\<lambda>(f, s'). f = Returns (- 2) \<and> (\<exists>l. lock_free l \<and> s' = tcb_upd t (\<lambda>a. a\<lparr>task_lock := l\<rparr>) s))"
    using c l(1) l' assms(1)
    by (auto simp: syscall_def ret_int_def sys_waitpid_def lock_task_def unlock_task_def fbind_def tcb_upd_def ECHILD_def intro!: exI [of _ l'])
next
  assume p: "0 < pid_arg a1" and c: "pid_arg a1 \<ge> 65536 \<or> tasks s (nat (pid_arg a1)) = 0 \<or>
        tasks s (nat (pid_arg a1)) \<noteq> t \<and> task_ppid (tcb s (tasks s (nat (pid_arg a1)))) \<noteq> task_pid (tcb s t)"
  have "sysno_of 3 = Some SYS_kill" by (simp add: sysno_of_def sysnos_def)
  moreover have "pid2task (pid_arg a1) True s = Inr 0" using p c assms(1) by (auto simp: pid2task_def pid_max_def Let_def)
  ultimately show "syscall env n 3 a1 a2 a3 a4 s = Inr (Returns (- 1), s)" by (simp add: syscall_def ret_int_def sys_kill_def fbind_def)
qed

theorem syscall_errors_witness:
  "syscall (demo_env 0) 0 14 0 0 0 0 demo_trap = Inr (Returns (- 7), demo_trap) \<and> syscall (demo_env 0) 0 3 2 0 0 0 demo_trap = Inr (Returns (- 1), demo_trap)"
proof -
  have l: "lock_free (task_lock (tcb demo_trap 1))" by (simp add: lock_free_def demo_task_def zero_task_def)
  show ?thesis using syscall_errors [OF demo_trap_fields(2) l, of 14 "demo_env 0" 0 2 0 0 0] syscall_errors [OF demo_trap_fields(2) l, of 14 "demo_env 0" 0 0 0 0 0]
    by (simp add: pid_arg_def)
qed

section \<open>Descriptor tables\<close>

definition gate_offset :: "idt_entry \<Rightarrow> u64" where
  "gate_offset e = push_bit 16 (offset_hi e) OR ucast (offset_lo e)"

definition gate_dpl :: "idt_entry \<Rightarrow> u16" where
  "gate_dpl e = drop_bit 13 (idt_flags e) AND 3"

lemma fold_upd_notin: "v \<notin> set vs \<Longrightarrow> fold (\<lambda>v m. m(v := g v (m v))) vs m v = m v"
  by (induction vs arbitrary: m) auto

lemma fold_upd_in: "distinct vs \<Longrightarrow> v \<in> set vs \<Longrightarrow> fold (\<lambda>v m. m(v := g v (m v))) vs m v = g v (m v)"
  by (induction vs arbitrary: m) (auto simp: fold_upd_notin)

lemma idt_init_at:
  "idt_init isr entries v =
     (if v \<in> set idt_vectors
      then set_idt_entry (isr v) (if v = 3 \<or> v = 128 then IDT_PRESENT OR IDT_PRIVL 3 OR IDT_INT_GATE32 else IDT_PRESENT OR IDT_PRIVL 0 OR IDT_INT_GATE32)
        GDT_KCODE (entries v)
      else entries v)"
proof -
  let ?g = "\<lambda>v. set_idt_entry (isr v) (if v = 3 \<or> v = 128 then IDT_PRESENT OR IDT_PRIVL 3 OR IDT_INT_GATE32 else IDT_PRESENT OR IDT_PRIVL 0 OR IDT_INT_GATE32) GDT_KCODE"
  have "distinct idt_vectors" by (simp add: idt_vectors_def)
  then show ?thesis unfolding idt_init_def Let_def using fold_upd_in [of idt_vectors v ?g entries] fold_upd_notin [of v idt_vectors ?g entries] by auto
qed

lemma gate_offset_set: "gate_offset (set_idt_entry a flags sel e) = a"
proof (rule bit_word_eqI)
  have m: "(0xFFFF :: u64) = mask 16" "(0xFFFFFFFFFFFF :: u64) = mask 48" by (simp_all add: mask_eq_exp_minus_1)
  show "bit (gate_offset (set_idt_entry a flags sel e)) n = bit a n" if "n < LENGTH(64)" for n
    using that unfolding gate_offset_def set_idt_entry_def m by (auto simp: bit_simps)
qed


end
