(* ===== verification/Task_Props.thy ===== *)
theory Task_Props
  imports Trap_Props
begin

text \<open>
  Properties of creating tasks: the PID map, the address space of a new task, and the pages that \<^verbatim>\<open>fork\<close> shares.
\<close>

section \<open>Address spaces of new tasks\<close>

lemma pml4_index_kernel: "PML4_INDEX KERNEL_VMA = 256"
  by (simp add: PML4_INDEX_def KERNEL_VMA_def)

lemma fold_copy:
  assumes "p \<noteq> k" and "kernel_pml4 s = k"
  shows "fold (\<lambda>i s. wr (p, i) (rd (kernel_pml4 s, i) s) s) js s = s\<lparr>pmem := (pmem s)(p := (\<lambda>i. if i \<in> set js then pmem s k i else pmem s p i))\<rparr>"
  using assms(2)
proof (induction js arbitrary: s)
  case (Cons j js)
  let ?s = "s\<lparr>pmem := (pmem s)(p := (pmem s p)(j := pmem s k j))\<rparr>"
  define g where "g = (\<lambda>i. if i \<in> set (j # js) then pmem s k i else pmem s p i)"
  have w: "wr (p, j) (rd (kernel_pml4 s, j) s) s = ?s" using Cons.prems by (simp add: wr_def rd_def)
  have g: "(\<lambda>i. if i \<in> set js then pmem ?s k i else pmem ?s p i) = g"
    using assms(1) by (auto simp: fun_eq_iff g_def)
  have "fold (\<lambda>i s. wr (p, i) (rd (kernel_pml4 s, i) s) s) js ?s = ?s\<lparr>pmem := (pmem ?s)(p := (\<lambda>i. if i \<in> set js then pmem ?s k i else pmem ?s p i))\<rparr>"
    by (rule Cons.IH) (use Cons.prems in simp)
  also have "\<dots> = s\<lparr>pmem := (pmem s)(p := g)\<rparr>" unfolding g by simp
  finally show ?case unfolding g_def [symmetric] by (simp only: fold_simps w)
qed simp

text \<open>The kernel half of a new page table is that of the kernel, the user half is empty.\<close>

definition kernel_half :: "'z ktask_scheme \<Rightarrow> nat \<Rightarrow> nat \<Rightarrow> u64" where
  "kernel_half s p i = (if 256 \<le> i \<and> i < 512 then pmem s (kernel_pml4 s) i else pmem s p i)"

lemma copy_kernel_entries_eq:
  "p \<noteq> kernel_pml4 s \<Longrightarrow> copy_kernel_entries p s = s\<lparr>pmem := (pmem s)(p := kernel_half s p)\<rparr>"
  unfolding copy_kernel_entries_def pml4_index_kernel
  by (subst fold_copy [OF _ refl]) (simp_all add: kernel_half_def [abs_def] del: upt_rec_numeral)

definition new_pml4 :: "nat \<Rightarrow> nat \<Rightarrow> 'z ktask_scheme \<Rightarrow> 'z ktask_scheme \<Rightarrow> bool" where
  "new_pml4 t p s s' \<longleftrightarrow> p \<in> free_frames s \<and> free_frames s' = free_frames s - {p} \<and> vm_ok s' \<and> npages s' = npages s \<and> task_pml4 s' = (task_pml4 s)(t := p) \<and>
     pmem s' = (pmem s)(p := (\<lambda>i. if 256 \<le> i \<and> i < 512 then pmem s (kernel_pml4 s) i else 0)) \<and>
     (\<forall>i. pp_ref (pages s' i) = (if i = p then pp_ref (pages s i) + 1 else pp_ref (pages s i))) \<and>
     tcb s' = tcb s \<and> tasks s' = tasks s \<and> kernel_pml4 s' = kernel_pml4 s"

lemma kmem_more_ktask:
  fixes s s' :: "'z ktask_scheme"
  shows "kmem.more s' = kmem.more s \<Longrightarrow> tcb s' = tcb s \<and> tasks s' = tasks s \<and> task_pml4 s' = task_pml4 s \<and> kernel_pml4 s' = kernel_pml4 s"
  by (cases s; cases s'; simp)

lemma setup_vas:
  assumes ok: "vm_ok s" and ne: "free_frames s \<noteq> {}" and k: "kernel_pml4 s \<notin> free_frames s"
  shows "rok (task_setup_vas t s) (\<lambda>(ret, s'). ret = 0 \<and> (\<exists>p. new_pml4 t p s s'))"
  unfolding task_setup_vas_def rok_rbind
proof (rule rok_mono [OF page_alloc_zero [OF ok ne]], clarify)
  fix s1 p
  assume a: "zero_alloc p s s1"
  let ?s = "pp_upd p (\<lambda>q. q\<lparr>pp_ref := pp_ref q + 1\<rparr>) s1"
  let ?s2 = "?s\<lparr>task_pml4 := (task_pml4 ?s)(t := p)\<rparr>"
  have z: "p \<in> free_frames s" "free_frames s1 = free_frames s - {p}" "vm_ok s1" "npages s1 = npages s" "pmem s1 = (pmem s)(p := (\<lambda>_. 0))"
      "\<And>i. pp_ref (pages s1 i) = pp_ref (pages s i)" using a by (simp_all add: zero_alloc_def)
  have "kmem.more s1 = kmem.more s" using a by (simp add: zero_alloc_def)
  note more = kmem_more_ktask [OF this]
  have pk: "p \<noteq> kernel_pml4 s" using z(1) k by blast
  have pn: "p < npages s"
    using z(1) ok frames_bound [OF buddy_relD(1), of s _ "{}"] by (auto simp: vm_ok_def buddy_inv_def free_frames_def)
  then have kaddr: "KADDR (page2pa p) ?s = Inr p" using z(4) page2pa_addr(2) [of p] ok by (simp add: KADDR_def pp_upd_def vm_ok_def)
  have c: "copy_kernel_entries p ?s2 = ?s2\<lparr>pmem := (pmem ?s2)(p := kernel_half ?s2 p)\<rparr>"
    by (rule copy_kernel_entries_eq) (use pk more in \<open>simp add: pp_upd_def\<close>)
  define s' where "s' = ?s2\<lparr>pmem := (pmem ?s2)(p := kernel_half ?s2 p)\<rparr>"
  have v: "vm_ok s'" "free_frames s' = free_frames s1"
    by (rule vm_ok_memory [OF z(3)]; use z(2) in \<open>auto simp: s'_def pp_upd_def\<close>)+
  have m: "kernel_half ?s2 p = (\<lambda>i. if 256 \<le> i \<and> i < 512 then pmem s (kernel_pml4 s) i else 0)"
    using z(5) more pk by (simp add: kernel_half_def pp_upd_def fun_eq_iff)
  have "pmem s' = (pmem s)(p := (\<lambda>i. if 256 \<le> i \<and> i < 512 then pmem s (kernel_pml4 s) i else 0))"
    unfolding s'_def m using z(5) by (simp add: pp_upd_def)
  moreover have "npages s' = npages s" "task_pml4 s' = (task_pml4 s)(t := p)" "tcb s' = tcb s" "tasks s' = tasks s" "kernel_pml4 s' = kernel_pml4 s"
    "\<forall>i. pp_ref (pages s' i) = (if i = p then pp_ref (pages s i) + 1 else pp_ref (pages s i))"
    using z(4,6) more by (simp_all add: s'_def pp_upd_def)
  ultimately have "new_pml4 t p s s'" using z(1,2) v by (simp add: new_pml4_def)
  then show "rok (case Some p of None \<Rightarrow> Inr (- ENOMEM, s1)
     | Some p \<Rightarrow> let s = pp_upd p (\<lambda>q. q\<lparr>pp_ref := pp_ref q + 1\<rparr>) s1
       in rbind (KADDR (page2pa p) s) (\<lambda>pml4. Inr (0, copy_kernel_entries pml4 (s\<lparr>task_pml4 := (task_pml4 s)(t := pml4)\<rparr>))))
     (\<lambda>(ret, s'). ret = 0 \<and> (\<exists>p. new_pml4 t p s s'))"
    using kaddr c [folded s'_def] by (auto simp: Let_def)
qed


section \<open>Identifiers of tasks\<close>

text \<open>
  The objects of the kernel heap in use, and a well-formed PID map: every PID between 1 and the limit that is
  taken names an object in use whose structure carries this PID.
\<close>

definition heap_objs :: "'z kslab_scheme \<Rightarrow> nat set \<Rightarrow> (nat \<Rightarrow> nat list) \<Rightarrow> (nat \<Rightarrow> nat list) \<Rightarrow> (nat \<Rightarrow> nat list) \<Rightarrow> nat set" where
  "heap_objs s X P Q F = (\<lambda>(x, a). a + SIZEOF_SLAB_OBJ) ` live s X P Q F"

definition pid_map_ok :: "'z ktask_scheme \<Rightarrow> nat set \<Rightarrow> bool" where
  "pid_map_ok s U \<longleftrightarrow> (\<forall>pid. tasks s pid \<noteq> 0 \<longrightarrow> 1 \<le> pid \<and> pid < nat pid_max \<and> tasks s pid \<in> U \<and> task_pid (tcb s (tasks s pid)) = int pid)"

lemma pid_map_inj: "pid_map_ok s U \<Longrightarrow> tasks s p = tasks s q \<Longrightarrow> tasks s p \<noteq> 0 \<Longrightarrow> p = q"
  unfolding pid_map_ok_def by (metis of_nat_eq_iff)

lemma kmalloc_task:
  assumes inv: "heap_inv s L (slab_ptr (this_cpu s) ` {..<32}) P Q F" and n: "nslabs s (this_cpu s) = 32" and sw: "swap_rings (npages s) L"
    and zero: "\<forall>i\<in>free_frames s. pp_zero (pages s i) \<noteq> 0 \<longrightarrow> pmem s i = (\<lambda>_. 0)" and ne: "free_frames s \<noteq> {}"
  shows "rok (kmalloc SIZEOF_TASK s) (\<lambda>(r, s'). \<exists>t L' P' Q' F'. r = Some t \<and> t \<noteq> 0 \<and> t \<notin> heap_objs s (slab_ptr (this_cpu s) ` {..<32}) P Q F \<and>
     heap_objs s' (slab_ptr (this_cpu s) ` {..<32}) P' Q' F' = insert t (heap_objs s (slab_ptr (this_cpu s) ` {..<32}) P Q F) \<and>
     heap_inv s' L' (slab_ptr (this_cpu s) ` {..<32}) P' Q' F' \<and> vm_ok s' \<and> heap_rest 1 s L s' L' \<and> kernel_pml4 s' = kernel_pml4 s)"
proof -
  let ?X = "slab_ptr (this_cpu s) ` {..<32}" and ?x = "slab_ptr (this_cpu s) 11"
  have run: "kmalloc SIZEOF_TASK s = slab_alloc ?x s" using n by (simp add: kmalloc_def SIZEOF_TASK_def ROUNDUP_def ROUNDDOWN_def)
  have x: "?x \<in> ?X" by auto
  show ?thesis unfolding run
  proof (rule rok_mono [OF heap_alloc_rest(1) [OF inv x]], use ne in simp, clarify, intro exI conjI)
    fix s' a L' P' Q' F'
    assume h: "heap_inv s' L' ?X P' Q' F'" "(?x, a) \<notin> live s ?X P Q F" "live s' ?X P' Q' F' = insert (?x, a) (live s ?X P Q F)"
      "alloc_kept s ?X P Q a s'" "heap_rest 1 s L s' L'"
    have "y = ?x" if "(y, a) \<in> live s ?X P Q F" for y
    proof (rule ccontr)
      assume "y \<noteq> ?x"
      have l: "(y, a) \<in> live s' ?X P' Q' F'" "(?x, a) \<in> live s' ?X P' Q' F'" using h(3) that by auto
      then have "a div 4096 \<in> set (P' y @ Q' y)" "a div 4096 \<in> set (P' ?x @ Q' ?x)" "y \<in> ?X" by (auto simp: live_def)
      then show False using h(1) x \<open>y \<noteq> ?x\<close> unfolding heap_inv_def by blast
    qed
    then show "a + SIZEOF_SLAB_OBJ \<notin> heap_objs s ?X P Q F" using h(2) by (auto simp: heap_objs_def)
    show "heap_objs s' ?X P' Q' F' = insert (a + SIZEOF_SLAB_OBJ) (heap_objs s ?X P Q F)" by (simp add: heap_objs_def h(3))
    have k: "npages s' = npages s" "kernel_pml4 s' = kernel_pml4 s" using h(4) by (simp_all add: alloc_kept_def)
    then show "kernel_pml4 s' = kernel_pml4 s" by simp
    have L: "L' b = L b" if "\<not> buddy_anchor b" "\<not> slab_anchor b" for b using h(5) that by (simp add: heap_rest_def)
    have "swap_rings (npages s') L'"
      using sw k L by (auto simp: swap_rings_def swap_known_def swap_linked_def buddy_anchor_def slab_anchor_def)
    moreover have "pmem s' i = (\<lambda>_. 0)" if "i \<in> free_frames s'" "pp_zero (pages s' i) \<noteq> 0" for i
    proof -
      have "i \<in> free_frames s" "pp_zero (pages s i) \<noteq> 0" "pmem s' i = pmem s i" using h(5) that by (auto simp: heap_rest_def)
      then show ?thesis using zero by simp
    qed
    ultimately show "vm_ok s'" using h(1) by (auto simp: vm_ok_def heap_inv_def)
    show "heap_inv s' L' ?X P' Q' F'" "heap_rest 1 s L s' L'" by (rule h)+
  qed (simp_all add: SIZEOF_SLAB_OBJ_def)
qed

lemma find_skip: "(\<And>x. x \<in> set xs \<Longrightarrow> \<not> Q x) \<Longrightarrow> find Q (xs @ ys) = find Q ys"
  by (induction xs) auto

lemma find_first:
  assumes "1 \<le> pid" and "pid < n" and "Q pid" and "\<And>q. 1 \<le> q \<Longrightarrow> q < pid \<Longrightarrow> \<not> Q q"
  shows "find Q [1..<n] = Some pid"
proof -
  have "[1..<n] = [1..<pid] @ [pid..<n]" using upt_add_eq_append [OF assms(1), of "n - pid"] assms(2) by simp
  then have "[1..<n] = [1..<pid] @ pid # [Suc pid..<n]" using assms(2) by (simp add: upt_conv_Cons)
  then show ?thesis using assms(3,4) find_skip [of "[1..<pid]" Q "pid # [Suc pid..<n]"] by simp
qed


lemma init_lists:
  "lh (init_task_lists t s) = list_init (TaskZombies t) (list_init (TaskChildren t) (list_init (TaskChild t) (list_init (TaskNode t) (list_init (TaskMmap t) (lh s)))))"
  "tcb (init_task_lists t s) = tcb s" "tasks (init_task_lists t s) = tasks s" "task_pml4 (init_task_lists t s) = task_pml4 s"
  "pmem (init_task_lists t s) = pmem s" "task_rb (init_task_lists t s) = (task_rb s)(t := 0)" "kernel_pml4 (init_task_lists t s) = kernel_pml4 s"
  "pages (init_task_lists t s) = pages s" "npages (init_task_lists t s) = npages s"
  by (simp_all add: init_task_lists_def klist_init_def Let_def)

text \<open>A task as \<^verbatim>\<open>task_alloc\<close> leaves it.\<close>

definition new_task :: "nat \<Rightarrow> nat \<Rightarrow> int \<Rightarrow> 'z ktask_scheme \<Rightarrow> 'z ktask_scheme \<Rightarrow> bool" where
  "new_task t pid ppid s s' \<longleftrightarrow>
     tcb s' = (tcb s)(t := zero_task\<lparr>task_pid := int pid, task_ppid := ppid, task_status := TASK_RUNNABLE, task_frame := user_frame\<rparr>) \<and>
     tasks s' = (tasks s)(pid := t) \<and> pid2task (int pid) False s' = Inr t \<and> task_rb s' t = 0 \<and>
     (\<forall>a \<in> {TaskMmap t, TaskNode t, TaskChild t, TaskChildren t, TaskZombies t}. is_list (lh s') a []) \<and>
     task_pml4 s' t \<in> free_frames s \<and> task_pml4 s' t \<notin> free_frames s' \<and> pp_ref (pages s' (task_pml4 s' t)) = pp_ref (pages s (task_pml4 s' t)) + 1 \<and>
     (\<forall>i. rd (task_pml4 s' t, i) s' = (if 256 \<le> i \<and> i < 512 then rd (kernel_pml4 s, i) s else 0)) \<and>
     (\<forall>f. f \<notin> free_frames s \<longrightarrow> pmem s' f = pmem s f)"

text \<open>
  C9: \<^verbatim>\<open>task_alloc\<close> with memory and a PID to spare: the result is a new object of the kernel heap, registered under the least free PID; the
  PID map stays well-formed, so that distinct PIDs name distinct tasks; the task is runnable with the registers of a fresh user
  program, has no areas, children or zombies, and an address space whose kernel half is the kernel's and whose user
  half is empty; no other allocated frame and no other task changes.
\<close>

theorem task_alloc_fresh:
  assumes "heap_inv s L (slab_ptr (this_cpu s) ` {..<32}) P Q F" and "nslabs s (this_cpu s) = 32" and "swap_rings (npages s) L"
    and "\<forall>i\<in>free_frames s. pp_zero (pages s i) \<noteq> 0 \<longrightarrow> pmem s i = (\<lambda>_. 0)" and "2 \<le> card (free_frames s)" and "kernel_pml4 s \<notin> free_frames s"
    and "pid_map_ok s (heap_objs s (slab_ptr (this_cpu s) ` {..<32}) P Q F)"
    and "1 \<le> pid" and "pid < 65536" and "tasks s pid = 0" and "\<forall>q. 1 \<le> q \<and> q < pid \<longrightarrow> tasks s q \<noteq> 0"
  shows "rok (task_alloc ppid s) (\<lambda>(t, s'). t \<noteq> 0 \<and> t \<notin> heap_objs s (slab_ptr (this_cpu s) ` {..<32}) P Q F \<and>
    pid_map_ok s' (insert t (heap_objs s (slab_ptr (this_cpu s) ` {..<32}) P Q F)) \<and> new_task t pid ppid s s')"
proof -
  let ?X = "slab_ptr (this_cpu s) ` {..<32}"
  let ?U = "heap_objs s ?X P Q F"
  have "free_frames s \<noteq> {}" using assms(5) by auto
  from kmalloc_task [OF assms(1-4) this] obtain t s1 L1 where k: "kmalloc SIZEOF_TASK s = Inr (Some t, s1)" "t \<noteq> 0" "t \<notin> ?U" "vm_ok s1" "heap_rest 1 s L s1 L1"
      "kernel_pml4 s1 = kernel_pml4 s" by (auto simp: rok_iff)
  let ?s1 = "tcb_upd t (\<lambda>_. zero_task) s1"
  have r: "free_frames s1 \<subseteq> free_frames s" "card (free_frames s) \<le> 1 + card (free_frames s1)" "\<And>i. pp_ref (pages s1 i) = pp_ref (pages s i)"
      "\<And>f. f \<notin> free_frames s \<Longrightarrow> pmem s1 f = pmem s f" "kslab.more s1 = kslab.more s"
    using k(5) by (auto simp: heap_rest_def)
  note more = ktask_more(1) [OF r(5)]
  have "vm_ok ?s1" using k(4) by (simp add: vm_ok_def buddy_inv_def buddy_rel_def)
  moreover have "free_frames ?s1 \<noteq> {}" "kernel_pml4 ?s1 \<notin> free_frames ?s1" using r(1,2) assms(5,6) k(6) by auto
  ultimately obtain s2 p where s2: "task_setup_vas t ?s1 = Inr (0, s2)" "new_pml4 t p ?s1 s2"
    using setup_vas [of ?s1 t] by (auto simp: rok_iff)
  have n: "p \<in> free_frames s1" "free_frames s2 = free_frames s1 - {p}" "task_pml4 s2 = (task_pml4 s)(t := p)" "tcb s2 = (tcb s)(t := zero_task)" "tasks s2 = tasks s"
      "pmem s2 = (pmem s1)(p := (\<lambda>i. if 256 \<le> i \<and> i < 512 then pmem s1 (kernel_pml4 s) i else 0))" "\<And>i. pp_ref (pages s2 i) = (if i = p then pp_ref (pages s i) + 1 else pp_ref (pages s i))"
    using s2(2) more k(6) r(3) by (simp_all add: new_pml4_def cong: if_cong)
  have f: "find (\<lambda>q. tasks s2 q = 0) [1..<nat pid_max] = Some pid"
    by (rule find_first) (use assms(8-11) in \<open>auto simp: n(5) pid_max_def\<close>)
  define s' where "s' = init_task_lists t (tcb_upd t (\<lambda>a. a\<lparr>task_pid := int pid, task_ppid := ppid, task_status := TASK_RUNNABLE, task_runs := 0, task_frame := user_frame\<rparr>) (s2\<lparr>tasks := (tasks s2)(pid := t)\<rparr>))"
  have run: "task_alloc ppid s = Inr (t, s')" using k(1) s2(1) f by (simp add: task_alloc_def s'_def)
  have s': "tcb s' = (tcb s)(t := zero_task\<lparr>task_pid := int pid, task_ppid := ppid, task_status := TASK_RUNNABLE, task_frame := user_frame\<rparr>)"
      "tasks s' = (tasks s)(pid := t)" "task_pml4 s' = (task_pml4 s)(t := p)" "pmem s' = pmem s2" "pages s' = pages s2" "npages s' = npages s2" "task_rb s' t = 0"
    by (simp_all add: s'_def init_lists n zero_task_def)
  have ff: "free_frames s' = free_frames s2" using s'(5,6) by (simp add: free_frames_def)
  have "is_list (lh s') a []" if "a \<in> {TaskMmap t, TaskNode t, TaskChild t, TaskChildren t, TaskZombies t}" for a
    using that by (auto simp: s'_def init_lists is_list_def list_defs)
  moreover have "pid2task (int pid) False s' = Inr t" using assms(8,9) k(2) s'(2) by (simp add: pid2task_def pid_max_def)
  moreover have "rd (p, i) s' = (if 256 \<le> i \<and> i < 512 then rd (kernel_pml4 s, i) s else 0)" for i
    using s'(4) n(6) r(4) [OF assms(6)] by (simp add: rd_def)
  moreover have "pmem s' f = pmem s f" if "f \<notin> free_frames s" for f using that s'(4) n(1,6) r(1,4) by auto
  ultimately have new: "new_task t pid ppid s s'" unfolding new_task_def using s' ff n(1,2,7) r(1) by auto
  have "pid_map_ok s' (insert t ?U)"
    using assms(7-9) k(3) unfolding pid_map_ok_def s' by (auto simp: pid_max_def)
  with new run k(2,3) show ?thesis by simp
qed


text \<open>The machine of the page fault example before any task has been created.\<close>

definition demo_new :: ktask where
  "demo_new = demo_trap\<lparr>tasks := (\<lambda>_. 0)\<rparr>"

theorem task_alloc_fresh_witness:
  "rok (task_alloc 0 demo_new) (\<lambda>(t, s'). t \<noteq> 0 \<and> tasks s' = (\<lambda>_. 0)(1 := t) \<and> task_pid (tcb s' t) = 1 \<and> (\<forall>i < 256. rd (task_pml4 s' t, i) s' = 0))"
proof -
  have same: "free_frames demo_new = {..<512}" "this_cpu demo_new = this_cpu demo_trap" "tasks demo_new = (\<lambda>_. 0)"
    using demo_trap_frames by (simp_all add: demo_new_def free_frames_def)
  obtain L where L: "fault_ready demo_new L 1 [10]"
    using demo_trap_ready
    by (auto simp: demo_new_def fault_ready_def heap_inv_def buddy_inv_def buddy_rel_def slab_rel_def chunk_ok_def free_frames_def vma_space_def tree_of_def)
  then obtain P Q F where inv: "heap_inv demo_new L (slab_ptr (this_cpu demo_new) ` {..<32}) P Q F" and n: "nslabs demo_new (this_cpu demo_new) = 32"
      and sw: "swap_rings (npages demo_new) L" and z: "\<forall>i\<in>free_frames demo_new. pp_zero (pages demo_new i) \<noteq> 0 \<longrightarrow> pmem demo_new i = (\<lambda>_. 0)"
    by (auto simp: fault_ready_def)
  have k: "kernel_pml4 demo_new = 601" by (simp add: demo_new_def demo_trap_def kvma.extend_def kmem_init_same demo_fault_def kmem.extend_def)
  have ok: "pid_map_ok demo_new U" for U by (simp add: pid_map_ok_def same)
  have "rok (task_alloc 0 demo_new) (\<lambda>(t, s'). t \<noteq> 0 \<and> t \<notin> heap_objs demo_new (slab_ptr (this_cpu demo_new) ` {..<32}) P Q F \<and>
    pid_map_ok s' (insert t (heap_objs demo_new (slab_ptr (this_cpu demo_new) ` {..<32}) P Q F)) \<and> new_task t 1 0 demo_new s')"
    by (rule task_alloc_fresh [OF inv n sw z _ _ ok]) (simp_all add: same k)
  then show ?thesis by (rule rok_mono) (auto simp: new_task_def same)
qed

section \<open>Sharing the pages of a task\<close>

text \<open>Rewriting the flags of a present entry changes no translation.\<close>

definition same_target :: "u64 \<Rightarrow> u64 \<Rightarrow> bool" where
  "same_target v x \<longleftrightarrow> present v = present x \<and> is_huge v = is_huge x \<and> entry_frame v = entry_frame x"

lemma mapped_rewrite:
  assumes "same_target v (rd e s)"
  shows "mapped (wr e v s) pml4 va = mapped s pml4 va"
proof -
  have l: "link (wr e v s) t k va = link s t k va" for t k
    using assms by (cases "e = (t, ix k va)") (auto simp: link_def rd_wr same_target_def Let_def)
  have "present (rd x (wr e v s)) = present (rd x s)" for x using assms by (simp add: rd_wr same_target_def)
  then show ?thesis by (simp add: mapped_def leaf_def l cong: option.case_cong)
qed

text \<open>The flags that \<^verbatim>\<open>copy_page_range\<close> gives to both entries of a page that is writable or executable.\<close>

definition cow_flags :: "u64 \<Rightarrow> u64" where
  "cow_flags x = (if x AND PAGE_WRITE \<noteq> 0 then PAGE_PRESENT OR PAGE_NO_EXEC OR PAGE_USER else PAGE_PRESENT OR PAGE_USER)"

definition protected :: "u64 \<Rightarrow> u64 \<Rightarrow> u64" where
  "protected x f = (if x AND 0x8000000000000007 = f then x else x AND NOT 0x8000000000000007 OR f OR PAGE_PRESENT)"

lemma cow_flags_cases: "cow_flags x = 0x8000000000000005 \<or> cow_flags x = 5"
  by (simp add: cow_flags_def flag_defs)

lemma protected_cow:
  assumes "present x"
  shows "same_target (protected x (cow_flags y)) x" and "protected x (cow_flags y) AND PAGE_WRITE = 0" and "protected x (cow_flags y) AND PAGE_USER \<noteq> 0"
proof -
  let ?f = "cow_flags y"
  have "PAGE_ADDR (x AND NOT 0x8000000000000007 OR ?f OR PAGE_PRESENT) = PAGE_ADDR x" "(x AND NOT 0x8000000000000007 OR ?f OR PAGE_PRESENT) AND PAGE_HUGE = x AND PAGE_HUGE"
    "(x AND NOT 0x8000000000000007 OR ?f OR PAGE_PRESENT) AND PAGE_WRITE = 0" "(x AND NOT 0x8000000000000007 OR ?f OR PAGE_PRESENT) AND PAGE_USER = 4"
    using cow_flags_cases [of y] by (auto simp: PAGE_ADDR_def flag_defs word_ao_dist and.assoc)
  moreover have "x AND PAGE_WRITE = 0" "x AND PAGE_USER = 4" if "x AND 0x8000000000000007 = ?f"
  proof -
    have "(x AND 0x8000000000000007) AND 2 = ?f AND 2" "(x AND 0x8000000000000007) AND 4 = ?f AND 4" using that by simp_all
    then show "x AND PAGE_WRITE = 0" "x AND PAGE_USER = 4" using cow_flags_cases [of y] by (auto simp: and.assoc flag_defs)
  qed
  ultimately show "same_target (protected x ?f) x" "protected x ?f AND PAGE_WRITE = 0" "protected x ?f AND PAGE_USER \<noteq> 0"
    using assms by (auto simp: protected_def same_target_def present_or present_PRESENT is_huge_def entry_frame_def)
qed

lemma protect_one:
  assumes va: "page_aligned va" "canonical va" and t: "tables_for s pml4 va (t3, t2, t1)" and e: "e = (t1, ix 3 va)"
    and p: "present (rd e s)" and f: "present f"
  shows "\<exists>l. protect_region pml4 va PAGE_SIZE f s = Inr ((wr e (protected (rd e s) f) s)\<lparr>tlb_log := l\<rparr>)"
proof -
  let ?i = "\<lparr>prot_pml4 = pml4, prot_flags = f\<rparr>"
  let ?s = "if rd e s AND 0x8000000000000007 = f then s else tlb_invalidate pml4 va (wr e (rd e s AND NOT 0x8000000000000007 OR f OR PAGE_PRESENT) s)"
  have cb: "protect_pte e va (va + 4091) (?i, s) = Inr (0, ?i, ?s)"
    unfolding protect_pte_def prot_flags_val Let_def by (simp add: or.assoc)
  have "\<exists>l. ?s = (wr e (protected (rd e s) f) s)\<lparr>tlb_log := l\<rparr>"
    by (auto simp: protected_def tlb_invalidate_def wr_def rd_def intro: exI [of _ "tlb_log s"])
  moreover have "rok (one_pte protect_walker va t1 (?i, s)) (\<lambda>(ret, us). ret = 0 \<and> us = (?i, ?s))"
    using cb e by (simp add: one_pte_def ptbl_body_def Let_def ret0_def protect_walker_def no_walker_def)
  from present_walk [OF va protect_still t this]
  have "protect_region pml4 va PAGE_SIZE f s = Inr ?s" by (auto simp: protect_region_def rok_iff)
  ultimately show ?thesis by simp
qed

lemma new_cow_entry:
  assumes "q < 2 ^ 35"
  shows "entry_frame (page2pa q OR cow_flags y OR PAGE_PRESENT) = q" and "(page2pa q OR cow_flags y OR PAGE_PRESENT) AND PAGE_WRITE = 0"
proof -
  show "entry_frame (page2pa q OR cow_flags y OR PAGE_PRESENT) = q" unfolding entry_frame_def or.assoc
    using cow_flags_cases [of y] assms by (subst entry_addr) (auto simp: page2pa_addr PAGE_ADDR_def flag_defs)
  have "(page2pa q AND 4095) AND 2 = 0" using page2pa_aligned [of q] by (simp add: page_aligned_def PAGE_SIZE_def)
  then have "page2pa q AND 2 = 0" by (simp add: and.assoc)
  then show "(page2pa q OR cow_flags y OR PAGE_PRESENT) AND PAGE_WRITE = 0" using cow_flags_cases [of y] by (auto simp: or.assoc word_ao_dist flag_defs)
qed

text \<open>What an insertion into another page table keeps of the tables and the entry of an address.\<close>

lemma tables_keep:
  assumes "tables_for s pml4 va (t3, t2, t1)" and "{pml4, t3, t2, t1} \<inter> free_frames s = {}" and "npages s1 = npages s"
    and keep: "\<And>x. fst x \<notin> free_frames s \<Longrightarrow> present (rd x s) \<Longrightarrow> rd x s1 = rd x s"
  shows "tables_for s1 pml4 va (t3, t2, t1)"
proof -
  have "link s1 h k va = Some u" if "link s h k va = Some u" "h \<notin> free_frames s" for h k u
    using that keep [of "(h, ix k va)"] by (auto simp: link_def Let_def split: if_splits)
  then show ?thesis using assms(1-3) by (auto simp: tables_for_def)
qed

text \<open>
  C10: One page of \<^verbatim>\<open>copy_page_range\<close>: when the parent maps a page, writable or executable, and the child does not yet, both tasks then translate the
  address to the parent's frame, neither entry allows writing, the frame has one more reference, and no other
  present entry in an allocated frame changes.
\<close>

theorem copy_page_shares:
  assumes "vm_ok s" and "lock_free (swap_lock s)" and "page_aligned va" and "canonical va" and "va < USER_LIM" and "3 \<le> card (free_frames s)"
    and "tables_for s (task_pml4 s par) va (t3, t2, t1)" and "{task_pml4 s par, t3, t2, t1} \<inter> free_frames s = {}"
    and "e = (t1, ix 3 va)" and "present (rd e s)" and "rd e s AND PAGE_WRITE \<noteq> 0 \<or> rd e s AND PAGE_NO_EXEC = 0"
    and "q = entry_frame (rd e s)" and "q < npages s" and "q \<notin> free_frames s"
    and "good_from 3 s va [task_pml4 s kid]" and "cur_task s = Some t" and "cur_find_vma s va = Some r"
  shows "rok (copy_page par kid va (False, Some e0, fl, s)) (\<lambda>(failed, _, _, s'). \<not> failed \<and> vm_ok s' \<and>
    mapped s' (task_pml4 s par) va = Some e \<and> entry_frame (rd e s') = q \<and> rd e s' AND PAGE_WRITE = 0 \<and>
    (\<exists>ec. mapped s' (task_pml4 s kid) va = Some ec \<and> entry_frame (rd ec s') = q \<and> rd ec s' AND PAGE_WRITE = 0) \<and>
    pp_ref (pages s' q) = pp_ref (pages s q) + 1 \<and>
    (\<forall>x. fst x \<notin> free_frames s \<longrightarrow> x \<noteq> e \<longrightarrow> present (rd x s) \<longrightarrow> rd x s' = rd x s))"
proof -
  let ?pp = "task_pml4 s par" and ?pc = "task_pml4 s kid" and ?f = "cow_flags (rd e s)"
  have l: "link s ?pp 0 va = Some t3" "link s t3 1 va = Some t2" "link s t2 2 va = Some t1" "t3 < npages s" "t2 < npages s" "t1 < npages s"
    using assms(7) by (auto simp: tables_for_def)
  have m: "mapped s ?pp va = Some e" using l assms(9,10) by (simp add: mapped_def leaf_def)
  have tr: "translate s ?pp va = Some q" using m assms(12) by (simp add: translate_def)
  have pim: "path_in_memory s ?pp va" using l by (auto simp: path_in_memory_def)
  have "npages s \<le> 2 ^ 35" using assms(1) by (simp add: vm_ok_def)
  from page_lookup_spec(2) [OF assms(3,4) pim this, of e0] have look: "page_lookup ?pp va (Some (Some e0)) s = Inr (Some q, Some (Some e))"
    using tr m assms(13) by simp
  have fv: "cur_find_vma u va = Some r" if "kmem.more u = kmem.more s" for u
    using cur_find_same [of u s va] kvm_more [OF that] assms(17) by simp
  have "rok (page_insert cur_find_vma ?pc q va ?f s) (\<lambda>(ret, s'). ret = 0 \<and> map_post s ?pc va q ?f s')"
    by (rule page_insert_spec [OF assms(3,4,1,15,6,13,14,2)]) (use assms(5,16) fv in auto)
  then obtain s1 where s1: "page_insert cur_find_vma ?pc q va ?f s = Inr (0, s1)" "map_post s ?pc va q ?f s1" by (auto simp: rok_iff)
  obtain ec where ec: "mapped s1 ?pc va = Some ec" "rd ec s1 = page2pa q OR ?f OR PAGE_PRESENT" using s1(2) by (auto simp: map_post_def)
  have post: "vm_ok s1" "npages s1 = npages s" "kvm.more s1 = kvm.more s" "free_frames s1 \<subseteq> free_frames s" "pp_ref (pages s1 q) = pp_ref (pages s q) + 1"
      "\<And>x. fst x \<notin> free_frames s \<Longrightarrow> present (rd x s) \<Longrightarrow> rd x s1 = rd x s" using s1(2) by (auto simp: map_post_def)
  have pm: "task_pml4 s1 = task_pml4 s" using ktask_more(2) [OF post(3)] by simp
  note t1 = tables_keep [OF assms(7,8) post(2,6)]
  have re: "rd e s1 = rd e s" using post(6) [of e] assms(8,9,10) by simp
  let ?v = "protected (rd e s) ?f"
  have pf: "present ?f" using cow_flags_cases [of "rd e s"] by (auto simp: present_def flag_defs)
  from protect_one [OF assms(3,4) t1 assms(9) _ pf] obtain lg where
    pr: "protect_region ?pp va PAGE_SIZE ?f s1 = Inr ((wr e ?v s1)\<lparr>tlb_log := lg\<rparr>)" using assms(10) re by auto
  define s2 where "s2 = (wr e ?v s1)\<lparr>tlb_log := lg\<rparr>"
  have "copy_page par kid va (False, Some e0, fl, s) = Inr (False, Some e, ?f, s2)"
    using look assms(10,11) s1(1) pr pm by (auto simp: copy_page_def s2_def cow_flags_def Let_def)
  note run = this
  note pc = protected_cow [OF assms(10), of "rd e s"]
  have mp: "mapped s2 pml4 va = mapped s1 pml4 va" for pml4 using mapped_rewrite [of ?v e s1] pc(1) re by (simp add: s2_def)
  have rd2: "rd x s2 = (if x = e then ?v else rd x s1)" for x by (simp add: s2_def rd_wr)
  have "vm_ok s2" unfolding s2_def tlb_simps
    by (rule vm_ok_memory(1) [OF post(1)]) (use assms(8,9) post(4) in \<open>auto simp: wr_def\<close>)
  moreover have "mapped s2 ?pp va = Some e" using mp t1 assms(9,10) re by (simp add: mapped_def leaf_def tables_for_def)
  moreover have "entry_frame ?v = q" using pc(1) assms(12) by (simp add: same_target_def)
  moreover have ce: "entry_frame (rd ec s2) = q \<and> rd ec s2 AND PAGE_WRITE = 0"
    using pc \<open>entry_frame ?v = q\<close> ec(2) new_cow_entry [of q "rd e s"] assms(1,13) by (auto simp: rd2 vm_ok_def)
  moreover have "rd x s2 = rd x s" if "fst x \<notin> free_frames s" "x \<noteq> e" "present (rd x s)" for x using that post(6) by (simp add: rd2)
  moreover have "pp_ref (pages s2 q) = pp_ref (pages s q) + 1" using post(5) by (simp add: s2_def wr_def)
  moreover have "\<exists>ec. mapped s2 ?pc va = Some ec \<and> entry_frame (rd ec s2) = q \<and> rd ec s2 AND PAGE_WRITE = 0" using mp ec(1) ce by auto
  moreover have "rd e s2 = ?v" by (simp add: rd2)
  ultimately show ?thesis using run pc(2) by simp
qed

text \<open>The task of the copy-on-write example with a new task 2, whose page table is the empty frame 610.\<close>

definition demo_fork :: ktask where
  "demo_fork = kvma.extend (demo_cow\<lparr>task_pml4 := (\<lambda>t. if t = 2 then 610 else 600)\<rparr>)
     \<lparr>tcb = (\<lambda>t. demo_task (int t) TASK_RUNNING), tasks = (\<lambda>pid. if pid = 1 then 1 else 0), nuser_tasks = 1, nkernel_tasks = 0,
      runq_len = (\<lambda>_. 0), ncpus = 1, runq_lock = buddy_lock demo_kmem, sched_start = 0, time_elapsed = 0\<rparr>"

lemma demo_fork_fields [simp]:
  "npages demo_fork = 1024" "pmem demo_fork = cow_tables" "pages demo_fork = pages demo_cow" "swap_lock demo_fork = buddy_lock demo_kmem" "cur_task demo_fork = Some 1"
  "task_pml4 demo_fork = (\<lambda>t. if t = 2 then 610 else 600)" "free_frames demo_fork = {..<512}" "rd e demo_fork = rd e demo_cow"
  using demo_cow_frames by (simp_all add: demo_fork_def kvma.extend_def free_frames_def rd_def)

lemma demo_fork_state: "vm_ok demo_fork" "cur_find_vma demo_fork 0x401000 = Some None" "good_from 3 demo_fork va [610]"
proof -
  show "vm_ok demo_fork" using demo_cow_ok by (simp add: demo_fork_def kvma.extend_def vm_ok_def buddy_inv_def buddy_rel_def free_frames_def)
  show "cur_find_vma demo_fork 0x401000 = Some None" by (rule demo_find) (simp_all add: demo_fork_def kvma.extend_def)
  have "rd (610, i) demo_cow = 0" for i by (simp add: rd_def cow_tables_def)
  then show "good_from 3 demo_fork va [610]" by (simp add: numeral_3_eq_3 visited_ok_def cur_entry_def present_def)
qed

theorem copy_page_shares_witness:
  "rok (copy_page 1 2 0x401000 (False, Some (0, 0), 0, demo_fork)) (\<lambda>(failed, _, _, s'). \<not> failed \<and>
     (\<exists>ec. mapped s' 610 0x401000 = Some ec \<and> entry_frame (rd ec s') = 700 \<and> rd ec s' AND PAGE_WRITE = 0) \<and> pp_ref (pages s' 700) = 3)"
proof -
  let ?e = "(603, ix 3 0x401000)"
  have e: "present (rd ?e demo_fork)" "700 = entry_frame (rd ?e demo_fork)" "rd ?e demo_fork AND PAGE_WRITE \<noteq> 0 \<or> rd ?e demo_fork AND PAGE_NO_EXEC = 0"
    using demo_cow_entry by (simp_all add: table_entry) (simp add: page2pa_def flag_defs table_flags_def)
  have c: "page_aligned 0x401000" "canonical 0x401000" "0x401000 < USER_LIM" by (simp_all add: page_aligned_def PAGE_SIZE_def canonical_def sign_extend_def USER_LIM_def)
  have t: "tables_for demo_fork (task_pml4 demo_fork 1) 0x401000 (601, 602, 603)"
    using demo_cow_tables by (simp add: tables_for_def link_def)
  have l: "lock_free (swap_lock demo_fork)" by (simp add: lock_free_def demo_kmem_def)
  have d: "3 \<le> card (free_frames demo_fork)" "{task_pml4 demo_fork 1, 601, 602, 603} \<inter> free_frames demo_fork = {}" "700 < npages demo_fork"
      "700 \<notin> free_frames demo_fork" "good_from 3 demo_fork 0x401000 [task_pml4 demo_fork 2]" using demo_fork_state(3) by auto
  note w = copy_page_shares [OF demo_fork_state(1) l c d(1) t d(2) refl e(1,3,2) d(3-5) demo_fork_fields(5) demo_fork_state(2)]
  show ?thesis by (rule rok_mono [OF w]) auto
qed

end
