(* ===== verification/Boot_Props.thy ===== *)
theory Boot_Props
  imports Boot
begin

text \<open>
  Correctness of the memory initialisation: the boot allocator bumps its pointer by whole pages,
  the aligned memory map covers exactly the right frames, and \<^verbatim>\<open>page_init\<close> establishes the
  allocator's invariant on exactly the usable frames.
\<close>

section \<open>Rounding\<close>

lemma unat_ROUNDDOWN: "unat (ROUNDDOWN a PAGE_SIZE) = unat a div 4096 * 4096"
proof -
  have "a mod 4096 \<le> a" by (simp add: word_le_nat_alt unat_mod)
  then have "unat (a - a mod 4096) = unat a - unat a mod 4096" by (simp add: unat_sub unat_mod)
  then show ?thesis by (simp add: ROUNDDOWN_def PAGE_SIZE_def minus_mod_eq_div_mult)
qed

lemma unat_ROUNDUP:
  assumes "unat a + 4095 < 2 ^ 64"
  shows "unat (ROUNDUP a PAGE_SIZE) = (unat a + 4095) div 4096 * 4096"
proof -
  have "unat (a + 4095) = unat a + 4095" by (subst unat_add_lem [THEN iffD1]) (use assms in simp_all)
  then show ?thesis
    using unat_ROUNDDOWN [of "a + 4095"] by (simp add: ROUNDUP_def PAGE_SIZE_def add.commute)
qed

lemma unat_plus: "unat (a :: u64) + unat b < 2 ^ 64 \<Longrightarrow> unat (a + b) = unat a + unat b"
  by (subst unat_add_lem [THEN iffD1]) simp_all

lemma unat_page2pa: "f < 2 ^ 52 \<Longrightarrow> unat (page2pa f) = 4096 * f"
  by (simp add: page2pa_def push_bit_eq_mult unat_word_ariths unat_of_nat)

lemma page2pa_next: "page2pa f + PAGE_SIZE = page2pa (Suc f)"
  by (simp add: page2pa_def push_bit_eq_mult PAGE_SIZE_def algebra_simps)

lemma PAGE_INDEX_unat: "PAGE_INDEX a = unat a div 4096"
  by (simp add: PAGE_INDEX_def drop_bit_eq_div unat_div)

lemma PAGE_INDEX_page2pa: "f < 2 ^ 52 \<Longrightarrow> PAGE_INDEX (page2pa f) = f"
  using unat_page2pa [of f] by (simp add: PAGE_INDEX_unat)

lemma aligned_page2pa:
  assumes "page_aligned a"
  shows "a = page2pa (PAGE_INDEX a)" and "PAGE_INDEX a < 2 ^ 52"
proof -
  have "unat a < 2 ^ 64" using unsigned_less [of a] by simp
  then show lt: "PAGE_INDEX a < 2 ^ 52" by (simp add: PAGE_INDEX_unat)
  have "unat (a mod 4096) = 0" using assms by (simp add: page_aligned_mod)
  then have "unat a mod 4096 = 0" by (simp add: unat_mod)
  then have "4096 * (unat a div 4096) = unat a" by auto
  with unat_page2pa [OF lt] show "a = page2pa (PAGE_INDEX a)"
    by (simp add: PAGE_INDEX_unat word_unat_eq_iff)
qed

lemma page_aligned_unat: "page_aligned a \<longleftrightarrow> unat a mod 4096 = 0"
  by (simp add: page_aligned_mod word_unat_eq_iff unat_mod)

section \<open>The memory map\<close>

text \<open>The frames the loops of \<^verbatim>\<open>page_init\<close> visit in a region.\<close>

definition me_end :: "mmap_entry \<Rightarrow> u64" where
  "me_end e = me_addr e + me_len e"

definition region_frames :: "mmap_entry \<Rightarrow> nat set" where
  "region_frames e = {f. unat (me_addr e) \<le> 4096 * f \<and> 4096 * f < unat (me_end e)}"

definition aligned_entry :: "mmap_entry \<Rightarrow> bool" where
  "aligned_entry e \<longleftrightarrow> page_aligned (me_addr e) \<and> page_aligned (me_end e)"

lemma align_entry_bounds:
  "me_type (align_entry e) = me_type e"
  "me_type e = MMAP_FREE \<Longrightarrow> me_addr (align_entry e) = ROUNDUP (me_addr e) PAGE_SIZE"
  "me_type e = MMAP_FREE \<Longrightarrow> me_end (align_entry e) = ROUNDDOWN (me_addr e + me_len e) PAGE_SIZE"
  "me_type e \<noteq> MMAP_FREE \<Longrightarrow> me_addr (align_entry e) = ROUNDDOWN (me_addr e) PAGE_SIZE"
  "me_type e \<noteq> MMAP_FREE \<Longrightarrow> me_end (align_entry e) = ROUNDUP (me_addr e + me_len e) PAGE_SIZE"
  by (simp_all add: align_entry_def Let_def me_end_def add.commute)

lemma align_entry_aligned: 
  assumes "unat (me_addr e) + unat (me_len e) + 4095 < 2 ^ 64"
  shows "aligned_entry (align_entry e)"
proof -
  have u: "unat (me_addr e + me_len e) = unat (me_addr e) + unat (me_len e)"
    using assms by (intro unat_plus) simp
  show ?thesis
    using assms by (cases "me_type e = MMAP_FREE")
      (simp_all add: aligned_entry_def page_aligned_unat align_entry_bounds unat_ROUNDUP unat_ROUNDDOWN u)
qed

lemma page_bounds:
  "(x + 4095) div 4096 * 4096 \<le> 4096 * f \<longleftrightarrow> x \<le> 4096 * (f :: nat)"
  "4096 * f < x div 4096 * 4096 \<longleftrightarrow> 4096 * Suc f \<le> x"
  "x div 4096 * 4096 \<le> 4096 * f \<longleftrightarrow> x < 4096 * Suc f"
  "4096 * f < (x + 4095) div 4096 * 4096 \<longleftrightarrow> 4096 * f < x"
  by auto

text \<open>
  After \<^verbatim>\<open>align_boot_info\<close> a free region covers exactly the page frames that lie wholly inside
  the region the boot loader reported (none if the region holds no whole frame, although its length
  then wraps around), and every other region covers exactly the frames that it touches.
\<close>

theorem align_boot_info_exact:
  assumes "unat (me_addr e) + unat (me_len e) + 4095 < 2 ^ 64" and "me_len e > 0"
  shows "f \<in> region_frames (align_entry e) \<longleftrightarrow>
     (if me_type e = MMAP_FREE
      then unat (me_addr e) \<le> 4096 * f \<and> 4096 * Suc f \<le> unat (me_addr e) + unat (me_len e)
      else unat (me_addr e) < 4096 * Suc f \<and> 4096 * f < unat (me_addr e) + unat (me_len e))"
proof -
  have u: "unat (me_addr e + me_len e) = unat (me_addr e) + unat (me_len e)"
    using assms by (intro unat_plus) simp
  show ?thesis
  proof (cases "me_type e = MMAP_FREE")
    case True
    have "f \<in> region_frames (align_entry e) \<longleftrightarrow>
        (unat (me_addr e) + 4095) div 4096 * 4096 \<le> 4096 * f \<and> 4096 * f < (unat (me_addr e) + unat (me_len e)) div 4096 * 4096"
      using assms(1) True by (simp add: region_frames_def align_entry_bounds unat_ROUNDUP unat_ROUNDDOWN u)
    with True show ?thesis by (simp only: page_bounds if_P) auto
  next
    case False
    have "f \<in> region_frames (align_entry e) \<longleftrightarrow>
        unat (me_addr e) div 4096 * 4096 \<le> 4096 * f \<and> 4096 * f < (unat (me_addr e) + unat (me_len e) + 4095) div 4096 * 4096"
      using assms(1) False by (simp add: region_frames_def align_entry_bounds unat_ROUNDUP unat_ROUNDDOWN u)
    with False show ?thesis by (simp only: page_bounds if_False) auto
  qed
qed

theorem align_boot_info_exact_witness:
  "3 \<in> region_frames (align_entry \<lparr>me_addr = 0x2100, me_len = 0x2000, me_type = MMAP_FREE\<rparr>) \<and>
   4 \<notin> region_frames (align_entry \<lparr>me_addr = 0x2100, me_len = 0x2000, me_type = MMAP_FREE\<rparr>)"
  by (subst align_boot_info_exact, simp, simp, subst align_boot_info_exact, simp, simp, simp)

section \<open>The boot allocator\<close>

lemma kernel_addr_negative: "KERNEL_VMA \<le> p \<Longrightarrow> sint p < 0"
proof -
  assume "KERNEL_VMA \<le> p"
  then have ge: "2 ^ 63 \<le> unat p" by (simp add: word_le_nat_alt KERNEL_VMA_def)
  have "unat p < 2 ^ 64" using unsigned_less [of p] by simp
  with ge have "unat p div 2 ^ 63 = 1" by (intro div_nat_eqI) simp_all
  then have "odd (unat p div 2 ^ 63)" by simp
  then have "bit (unat p) 63" unfolding bit_iff_odd .
  then have "bit p 63" by (simp add: bit_unsigned_iff)
  then show ?thesis using bit_last_iff [of p] by simp
qed

text \<open>
  Once the boot allocator works on kernel addresses, a request for \<open>n\<close> bytes never panics, however
  little memory is left: it returns the page-aligned current position and moves it up by
  \<open>n\<close> rounded up to whole pages, so that the blocks of successive requests do not overlap.
\<close>

theorem boot_alloc_bump:
  assumes "KERNEL_VMA \<le> next_free s" and "page_aligned (next_free s)"
    and "unat n \<le> 0xFFFFF000" and "unat (next_free s) + 0xFFFFF000 < 2 ^ 64"
  shows "\<exists>s'. boot_alloc n s = Inr (next_free s, s') \<and>
      unat (next_free s') = unat (next_free s) + (unat n + 4095) div 4096 * 4096 \<and>
      page_aligned (next_free s') \<and> KERNEL_VMA \<le> next_free s' \<and> s' = s\<lparr>next_free := next_free s'\<rparr>"
proof -
  define r where "r = (unat n + 4095) div 4096 * 4096"
  have "(unat n + 4095) div 4096 \<le> 0xFFFFF" using assms(3) by linarith
  then have rb: "r \<le> 0xFFFFF000" "unat n = 0 \<Longrightarrow> r = 0" by (simp_all add: r_def)
  have "unat n < 2 ^ 64" using assms(3) by simp
  then have un: "unat (ucast n :: u64) = unat n"
    by (simp only: unsigned_ucast_eq) (simp add: take_bit_nat_eq_self)
  have "unat (ROUNDUP (ucast n) PAGE_SIZE) = r"
    unfolding r_def by (subst unat_ROUNDUP) (use assms(3) un in simp_all)
  then have "unat (ucast (ROUNDUP32 n PAGE_SIZE) :: u64) = r"
    using rb(1) by (simp add: ROUNDUP32_def unsigned_ucast_eq unsigned_take_bit_eq take_bit_nat_eq_self)
  then have nf: "unat (next_free s + ucast (ROUNDUP32 n PAGE_SIZE)) = unat (next_free s) + r"
    using assms(4) rb(1) by (subst unat_plus) simp_all
  define q where "q = (if n > 0 then next_free s + ucast (ROUNDUP32 n PAGE_SIZE) else next_free s)"
  have q: "unat q = unat (next_free s) + r"
    using nf rb(2) by (simp add: q_def word_gt_0 unat_eq_zero)
  have "KERNEL_VMA \<le> q" using assms(1) q by (simp add: word_le_nat_alt)
  moreover have "page_aligned q" using assms(2) q by (simp add: page_aligned_unat r_def)
  moreover have "next_free s \<noteq> 0" using assms(1) by (auto simp: KERNEL_VMA_def)
  moreover have "\<not> sint q > sint BOOT_MAP_LIM"
    using kernel_addr_negative [OF \<open>KERNEL_VMA \<le> q\<close>] by (simp add: BOOT_MAP_LIM_def)
  ultimately show ?thesis
    using q by (simp add: boot_alloc_def Let_def q_def [symmetric] r_def)
qed

section \<open>Handing the frames to the allocator\<close>

lemma page_loop_frames:
  assumes step: "\<And>f s. a \<le> f \<Longrightarrow> f < b \<Longrightarrow> Inv f s \<Longrightarrow> rok (body (page2pa f) s) (Inv (Suc f))"
    and "Inv a s" and "a \<le> b" and b: "b < 2 ^ 52"
  shows "rok (page_loop body (page2pa a) (page2pa b) s) (Inv b)"
  using assms(1-3)
proof (induction "b - a" arbitrary: a s)
  case 0
  then show ?case by (simp add: page_loop.simps)
next
  case (Suc d)
  then have ab: "a < b" "Suc a \<le> b" by simp_all
  have "page2pa a < page2pa b" "\<not> page2pa (Suc a) < page2pa a"
    using ab b by (simp_all add: word_less_nat_alt unat_page2pa)
  moreover have "rok (page_loop body (page2pa (Suc a)) (page2pa b) s') (Inv b)" if "Inv (Suc a) s'" for s'
    by (rule Suc.hyps(1)) (use Suc that ab in auto)
  moreover have "rok (body (page2pa a) s) (Inv (Suc a))" using Suc.prems ab by simp
  ultimately show ?case
    by (subst page_loop.simps) (auto simp: page2pa_next rok_rbind elim!: rok_mono)
qed

text \<open>The state while \<^verbatim>\<open>page_init\<close> runs: the frames \<open>A\<close> are free, all others untouched.\<close>

definition boot_state :: "nat \<Rightarrow> nat set \<Rightarrow> 'z kmem_scheme \<Rightarrow> bool" where
  "boot_state n A s \<longleftrightarrow> npages s = n \<and> free_frames s = A \<and> (\<forall>i<n. pp_ref (pages s i) = 0) \<and>
     (\<forall>i<n. i \<notin> A \<longrightarrow> pp_order (pages s i) = 0) \<and> (\<exists>L. buddy_inv s L \<and> (\<forall>i<n. L (SwapNode i) = Some []))"

lemma boot_state_free:
  assumes st: "boot_state n A s" and f: "f < n" "f \<notin> A"
  shows "rok (page_free f s) (boot_state n (insert f A))"
proof -
  obtain L where inv: "buddy_inv s L" and sw: "\<forall>i<n. L (SwapNode i) = Some []"
    using st by (auto simp: boot_state_def)
  have o: "pp_order (pages s f) = 0" "npages s = n" "free_frames s = A" using st f by (simp_all add: boot_state_def)
  then have blk: "blk (pages s) f = {f}" by (auto simp: blk_def)
  have "freeable s f" using f o blk by (simp add: freeable_def BUDDY_MAX_ORDER_def)
  moreover have "swap_known L f" using sw f by (simp add: swap_known_def)
  moreover have "pp_ref (pages s f) = 0" using st f by (simp add: boot_state_def)
  ultimately have "rok (page_free f s) (\<lambda>s'. \<exists>L'. free_post s L f s' L')"
    using page_free_spec [OF inv] by simp
  then show ?thesis
  proof (rule rok_mono, elim exE)
    fix s' L' assume p: "free_post s L f s' L'"
    have "swap_removed f L = L" using sw f by (simp add: swap_removed_def)
    with p have "\<forall>i<n. L' (SwapNode i) = Some []"
      using sw by (simp add: free_post_def alloc_frame_def buddy_anchor_def)
    then show "boot_state n (insert f A) s'"
      using p st o blk by (auto simp: free_post_def boot_state_def alloc_frame_def)
  qed
qed

text \<open>The frames below the boot limit that \<^verbatim>\<open>page_init\<close> does not regard as reserved.\<close>

definition usable_frame :: "boot_info \<Rightarrow> u64 \<Rightarrow> nat \<Rightarrow> bool" where
  "usable_frame bi lim f \<longleftrightarrow> f < 2048 \<and> f \<noteq> 0 \<and> page2pa f \<noteq> PAGE_ADDR (bi_self bi - KERNEL_VMA) \<and>
     page2pa f \<noteq> bi_elf_hdr bi \<and> (page2pa f < KERNEL_LMA \<or> lim \<le> page2pa f)"

lemma page_init_body_frame:
  assumes "f < 2 ^ 52" and self: "KERNEL_VMA \<le> bi_self bi"
  shows "page_init_body bi lim (page2pa f) s =
     (if usable_frame bi lim f then page_free f s else Inr s)"
proof -
  have "page2pa f < BOOT_MAP_LIM \<longleftrightarrow> f < 2048" "page2pa f = 0 \<longleftrightarrow> f = 0"
    using unat_page2pa [OF assms(1)] by (auto simp: word_less_nat_alt BOOT_MAP_LIM_def word_unat_eq_iff)
  moreover have "PADDR (bi_self bi) = Inr (bi_self bi - KERNEL_VMA)"
    using self by (simp add: PADDR_def not_less)
  ultimately show ?thesis
    by (auto simp: page_init_body_def usable_frame_def PAGE_INDEX_page2pa [OF assms(1)])
qed

lemma page_init_region:
  assumes st: "boot_state n A s" and al: "aligned_entry e" and self: "KERNEL_VMA \<le> bi_self bi"
    and inside: "\<And>f. f \<in> region_frames e \<Longrightarrow> usable_frame bi lim f \<Longrightarrow> f < n \<and> f \<notin> A"
  shows "rok (page_loop (page_init_body bi lim) (me_addr e) (me_end e) s)
     (boot_state n (A \<union> {f \<in> region_frames e. usable_frame bi lim f}))"
proof -
  define a b where "a = PAGE_INDEX (me_addr e)" and "b = PAGE_INDEX (me_end e)"
  have ab: "me_addr e = page2pa a" "me_end e = page2pa b" "a < 2 ^ 52" "b < 2 ^ 52"
    using al aligned_page2pa by (simp_all add: a_def b_def aligned_entry_def)
  have rf: "region_frames e = {a..<b}"
    unfolding region_frames_def ab(1,2) unat_page2pa [OF ab(3)] unat_page2pa [OF ab(4)] by auto
  let ?U = "\<lambda>f. A \<union> {g \<in> {a..<f}. usable_frame bi lim g}"
  show ?thesis
  proof (cases "a \<le> b")
    case True
    have "rok (page_loop (page_init_body bi lim) (page2pa a) (page2pa b) s) (\<lambda>s. boot_state n (?U b) s)"
    proof (rule page_loop_frames [OF _ _ True ab(4)])
      show "boot_state n (?U a) s" using st by simp
    next
      fix f t assume f: "a \<le> f" "f < b" and t: "boot_state n (?U f) t"
      have U: "?U (Suc f) = (if usable_frame bi lim f then insert f (?U f) else ?U f)"
        using f(1) by (auto simp: atLeastLessThanSuc)
      have "f < 2 ^ 52" using f ab(4) by simp
      moreover have "rok (page_free f t) (boot_state n (insert f (?U f)))" if "usable_frame bi lim f"
        using boot_state_free [OF t, of f] inside [of f] f that by (simp add: rf)
      ultimately show "rok (page_init_body bi lim (page2pa f) t) (boot_state n (?U (Suc f)))"
        unfolding U using t by (simp add: page_init_body_frame self)
    qed
    then show ?thesis by (simp add: ab(1,2) rf)
  next
    case False
    then have "\<not> page2pa a < page2pa b" using ab(3,4) by (simp add: word_less_nat_alt unat_page2pa)
    with False st show ?thesis by (simp add: ab(1,2) rf page_loop.simps)
  qed
qed

definition free_entry :: "mmap_entry \<Rightarrow> bool" where
  "free_entry e \<longleftrightarrow> me_type e = MMAP_FREE"

lemma page_init_entries:
  fixes s :: "'z kmem_scheme"
  assumes "boot_state n A s" and self: "KERNEL_VMA \<le> bi_self bi"
    and "\<And>e. e \<in> set es \<Longrightarrow> free_entry e \<Longrightarrow> aligned_entry e"
    and "\<And>e f. e \<in> set es \<Longrightarrow> free_entry e \<Longrightarrow> f \<in> region_frames e \<Longrightarrow> usable_frame bi lim f \<Longrightarrow> f < n \<and> f \<notin> A"
    and "sorted_wrt (\<lambda>e e'. region_frames e \<inter> region_frames e' = {}) (filter free_entry es)"
  shows "rok (free_entries (page_init_body bi lim) es s)
     (boot_state n (A \<union> {f. \<exists>e\<in>set es. free_entry e \<and> f \<in> region_frames e \<and> usable_frame bi lim f}))"
  using assms(1,3-5)
proof (induction es arbitrary: A s)
  case (Cons e es)
  let ?R = "{f \<in> region_frames e. usable_frame bi lim f}"
  show ?case
  proof (cases "free_entry e")
    case True
    have "rok (page_loop (page_init_body bi lim) (me_addr e) (me_end e) s) (boot_state n (A \<union> ?R))"
      by (rule page_init_region) (use Cons.prems True self in auto)
    moreover have "rok (free_entries (page_init_body bi lim) es t)
        (boot_state n (A \<union> ?R \<union> {f. \<exists>e\<in>set es. free_entry e \<and> f \<in> region_frames e \<and> usable_frame bi lim f}))"
      if "boot_state n (A \<union> ?R) t" for t :: "'z kmem_scheme"
    proof (rule Cons.IH [OF that])
      fix e' f assume "e' \<in> set es" "free_entry e'" "f \<in> region_frames e'" "usable_frame bi lim f"
      moreover from this have "region_frames e \<inter> region_frames e' = {}" using Cons.prems(4) True by auto
      ultimately show "f < n \<and> f \<notin> A \<union> ?R" using Cons.prems(3) [of e' f] by auto
    qed (use Cons.prems in \<open>auto split: if_splits\<close>)
    moreover have "A \<union> ?R \<union> {f. \<exists>e\<in>set es. free_entry e \<and> f \<in> region_frames e \<and> usable_frame bi lim f}
        = A \<union> {f. \<exists>e'\<in>set (e # es). free_entry e' \<and> f \<in> region_frames e' \<and> usable_frame bi lim f}"
      using True by auto
    ultimately show ?thesis
      using True by (auto simp: rok_rbind free_entry_def me_end_def Let_def elim!: rok_mono)
  next
    case False
    then have ne: "me_type e \<noteq> MMAP_FREE" by (simp add: free_entry_def)
    have "rok (free_entries (page_init_body bi lim) es s)
        (boot_state n (A \<union> {f. \<exists>e\<in>set es. free_entry e \<and> f \<in> region_frames e \<and> usable_frame bi lim f}))"
      by (rule Cons.IH) (use Cons.prems False in auto)
    with False ne show ?thesis by simp
  qed
qed simp

lemma fold_init_page:
  fixes s :: "'z kmem_scheme"
  shows "fold init_page_info [0..<n] s = s\<lparr>
     pages := (\<lambda>i. if i < n then (pages s i)\<lparr>pp_ref := 0, pp_free := False, pp_order := 0\<rparr> else pages s i),
     lh := fold (\<lambda>i h. list_init (SwapNode i) (list_init (PpNode i) h)) [0..<n] (lh s)\<rparr>"
proof (induction n)
  case (Suc n)
  then show ?case by (simp add: init_page_info_def pp_upd_def fun_eq_iff less_Suc_eq)
qed simp

lemma fold_init_links:
  assumes "h' = fold (\<lambda>i h. list_init (SwapNode i) (list_init (PpNode i) h)) [0..<n] h"
  shows "i < n \<Longrightarrow> nx h' (PpNode i) = PpNode i \<and> pv h' (PpNode i) = PpNode i"
    and "i < n \<Longrightarrow> nx h' (SwapNode i) = SwapNode i \<and> pv h' (SwapNode i) = SwapNode i"
    and "a \<notin> range PpNode \<union> range SwapNode \<Longrightarrow> nx h' a = nx h a \<and> pv h' a = pv h a"
  using assms
  by (induction n arbitrary: h') (auto simp: list_init_def set_next_def set_prev_def less_Suc_eq)

text \<open>What \<^verbatim>\<open>mem_init\<close> has set up when it calls \<^verbatim>\<open>page_init\<close>.\<close>

definition boot_ready :: "boot_info \<Rightarrow> 'z kboot_scheme \<Rightarrow> bool" where
  "boot_ready bi s \<longleftrightarrow> 512 dvd npages s \<and> lock_free (buddy_lock s) \<and> nx (lh s) ZeroHead \<in> zero_area \<and>
     (\<forall>k<BUDDY_MAX_ORDER. nx (lh s) (BuddyHead k) = BuddyHead k \<and> pv (lh s) (BuddyHead k) = BuddyHead k) \<and>
     KERNEL_VMA \<le> next_free s \<and> KERNEL_VMA \<le> bi_self bi \<and> PAGE_INDEX (ucast (bi_mmap_addr bi)) < npages s"

text \<open>
  The aligned memory map: free regions hold whole frames, do not overlap, and lie, as far as they
  are below the boot limit, in the memory that \<^verbatim>\<open>pages[]\<close> describes.
\<close>

definition map_ok :: "mmap_entry list \<Rightarrow> nat \<Rightarrow> bool" where
  "map_ok es n \<longleftrightarrow> (\<forall>e\<in>set es. free_entry e \<longrightarrow> aligned_entry e \<and> region_frames e \<inter> {..<2048} \<subseteq> {..<n}) \<and>
     sorted_wrt (\<lambda>e e'. region_frames e \<inter> region_frames e' = {}) (filter free_entry es)"

lemma boot_state_start:
  fixes s :: "'z kboot_scheme"
  assumes r: "boot_ready bi s"
  shows "boot_state (npages s) {} (fold init_page_info [0..<npages s] s)" (is "boot_state ?n {} ?t")
proof -
  define h where "h = fold (\<lambda>i h. list_init (SwapNode i) (list_init (PpNode i) h)) [0..<?n] (lh s)"
  note links = fold_init_links [OF h_def]
  define P where "P = (\<lambda>i. if i < ?n then (pages s i)\<lparr>pp_ref := 0, pp_free := False, pp_order := 0\<rparr> else pages s i)"
  have t: "?t = s\<lparr>pages := P, lh := h\<rparr>" by (simp add: fold_init_page P_def h_def)
  let ?A = "BuddyHead ` {..<BUDDY_MAX_ORDER} \<union> PpNode ` {..<?n} \<union> SwapNode ` {..<?n}"
  define L where "L a = (if a \<in> ?A then Some ([] :: anchor list) else None)" for a
  have F: "freeset ?n P = {}" by (simp add: freeset_def P_def)
  have dis: "?A \<inter> zero_area = {}" by (auto simp: zero_area_def)
  have head: "nx h (BuddyHead k) = nx (lh s) (BuddyHead k)" "pv h (BuddyHead k) = pv (lh s) (BuddyHead k)" for k
    using links(3) [of "BuddyHead k"] by auto
  have "ring_family is_list h L"
    using r links(1,2) by (auto simp: ring_family_def L_def is_list_def boot_ready_def head split: if_splits)
  moreover have "ring_nodes L \<inter> zero_area = {}"
    using dis by (auto simp: ring_nodes_def L_def split: if_splits)
  moreover have "ZeroHead \<notin> range PpNode \<union> range SwapNode" by auto
  then have "nx h ZeroHead \<in> zero_area" using r links(3) [of ZeroHead] by (simp add: boot_ready_def)
  moreover have "pages_ok ?n P" using r F by (simp add: pages_ok_def boot_ready_def)
  ultimately have "buddy_inv ?t L"
    using F r unfolding t by (simp add: buddy_inv_def buddy_rel_def klinks_def L_def boot_ready_def image_iff)
  moreover have "\<forall>i<?n. L (SwapNode i) = Some []" by (simp add: L_def)
  moreover have "free_frames ?t = {}" using F by (simp add: t free_frames_def frames_def)
  ultimately show ?thesis unfolding boot_state_def by (auto simp: t P_def)
qed

text \<open>
  C20: \<^verbatim>\<open>page_init\<close> returns with the allocator's invariant established and hands it exactly the frames of
  the free regions below the boot limit that are not the first frame, the frame of the boot
  information, the frame of the ELF header or part of the kernel image and boot allocations.
\<close>

theorem page_init_frees_usable:
  assumes "boot_ready bi s" and "map_ok (bi_mmap bi) (npages s)"
  shows "rok (page_init bi s) (\<lambda>s'. (\<exists>L. buddy_inv s' L) \<and> npages s' = npages s \<and>
      (\<forall>i<npages s. pp_ref (pages s' i) = 0) \<and>
      free_frames s' = {f. usable_frame bi (next_free s - KERNEL_VMA) f \<and>
        (\<exists>e\<in>set (bi_mmap bi). me_type e = MMAP_FREE \<and> f \<in> region_frames e)})"
proof -
  let ?t = "fold init_page_info [0..<npages s] s"
  let ?lim = "next_free s - KERNEL_VMA"
  have same: "npages ?t = npages s" "next_free ?t = next_free s" by (simp_all add: fold_init_page)
  have st: "boot_state (npages s) {} ?t" by (rule boot_state_start [OF assms(1)])
  have "next_free s \<noteq> 0" "KERNEL_VMA \<le> next_free s" "KERNEL_VMA \<le> bi_self bi"
    using assms(1) by (auto simp: boot_ready_def KERNEL_VMA_def)
  note nf = this
  have "boot_alloc 0 ?t = Inr (next_free s, ?t)"
    using nf kernel_addr_negative [OF nf(2)] by (simp add: boot_alloc_def same Let_def BOOT_MAP_LIM_def)
  then have eq: "page_init bi s = free_entries (page_init_body bi ?lim) (bi_mmap bi) ?t"
    using assms(1) nf by (simp add: page_init_def Let_def KADDR_def PADDR_def same boot_ready_def not_less)
  have "rok (page_init bi s) (boot_state (npages s)
      ({} \<union> {f. \<exists>e\<in>set (bi_mmap bi). free_entry e \<and> f \<in> region_frames e \<and> usable_frame bi ?lim f}))"
    unfolding eq
    by (rule page_init_entries [OF st nf(3)]) (use assms(2) in \<open>auto simp: map_ok_def usable_frame_def\<close>)
  then show ?thesis
    by (rule rok_mono) (auto simp: boot_state_def free_entry_def)
qed

text \<open>A machine with 2 MB of memory described by one free region.\<close>

definition demo_bi :: boot_info where
  "demo_bi = \<lparr>bi_self = KERNEL_VMA + 0x7000, bi_mmap_addr = 0x8000,
     bi_mmap = [\<lparr>me_addr = 0, me_len = 0x200000, me_type = MMAP_FREE\<rparr>],
     bi_elf_hdr = 0x10000, bi_hdrs = []\<rparr>"

definition demo_boot :: kboot where
  "demo_boot = kmem.extend demo_full \<lparr>cr3 = 0, tlb_log = [], swap_lock = buddy_lock demo_kmem,
     cur_task = None, next_free = KERNEL_VMA + 0x110000, kernel_end = KERNEL_VMA + 0x110000, kernel_pml4 = 0\<rparr>"

lemma demo_boot_ready: "boot_ready demo_bi demo_boot" "map_ok (bi_mmap demo_bi) (npages demo_boot)"
  by (auto simp: boot_ready_def map_ok_def demo_boot_def demo_bi_def demo_full_def demo_kmem_def kmem.defs
      zero_area_def lock_free_def paging_consts PAGE_INDEX_def page_aligned_def aligned_entry_def me_end_def region_frames_def free_entry_def)

theorem page_init_frees_usable_witness:
  "rok (page_init demo_bi demo_boot) (\<lambda>s'. (\<exists>L. buddy_inv s' L) \<and> 5 \<in> free_frames s' \<and> 7 \<notin> free_frames s')"
  by (rule rok_mono [OF page_init_frees_usable [OF demo_boot_ready]])
    (auto simp: usable_frame_def demo_bi_def page2pa_def paging_consts PAGE_ADDR_def KERNEL_LMA_def region_frames_def me_end_def)

theorem boot_alloc_bump_witness:
  "\<exists>s'. boot_alloc 5000 demo_boot = Inr (KERNEL_VMA + 0x110000, s') \<and> next_free s' = KERNEL_VMA + 0x112000"
proof -
  have nf: "next_free demo_boot = 0xFFFF800000110000" by (simp add: demo_boot_def kmem.defs KERNEL_VMA_def)
  show ?thesis
    using boot_alloc_bump [of demo_boot 5000] unfolding nf
    by (auto simp: KERNEL_VMA_def page_aligned_def PAGE_SIZE_def word_unat_eq_iff)
qed

end
