(* ===== verification/Range_Props.thy ===== *)
theory Range_Props
  imports Swap Walk_Range Task_Props Boot_Props
begin

text \<open>
  Walks over ranges of pages. The walkers of \<^verbatim>\<open>protect.c\<close> and \<^verbatim>\<open>oom.c\<close> are interpretations of the
  locale \<open>page_visitor\<close>, so that a walk through the four levels is an induction over the pages of the range: what
  \<^verbatim>\<open>protect_region\<close> does to a range, and which task \<^verbatim>\<open>oom_kill\<close> takes. The last property is about the way a page would
  come back from the disk.
\<close>

section \<open>Protecting a range\<close>

interpretation prot: page_visitor protect_walker s U for s :: "'z kvm_scheme" and U
proof
  fix e a f and us us' :: "protect_info \<times> 'z kvm_scheme" and r
  assume "fst e \<notin> U" "agree U s us" "call_pte (pte_callback protect_walker) e a f us = Inr (r, us')"
  then show "agree U s us'"
    by (cases us) (auto simp: protect_walker_def no_walker_def protect_pte_def Let_def agree_def wr_def tlb_invalidate_def split: if_splits)
qed (simp_all add: protect_walker_def no_walker_def protect_pde_def protect_pte_def)

text \<open>Walks over whole pages: the range that \<^verbatim>\<open>walk_page_range\<close> passes to the first level.\<close>

lemma page_range:
  assumes "page_aligned va" and "page_aligned b" and "va < b"
  shows "walk_page_range pml4 va b w us = pml4_walk_range pml4 va (b - 1) w us" and "4 < unat (b - 1) mod 4096"
    and "pages_in va (b - 1) = pages_in va b"
proof -
  show "walk_page_range pml4 va b w us = pml4_walk_range pml4 va (b - 1) w us"
    by (simp add: walk_page_range_def ROUNDDOWN_aligned [OF assms(1)] ROUNDUP_aligned [OF assms(2)])
  have al: "unat b mod 4096 = 0" using assms(2) by (simp add: page_aligned_unat)
  have pos: "0 < unat b" using assms(3) by (simp add: word_less_nat_alt)
  then have "1 \<le> b" by (simp add: word_le_nat_alt)
  from unat_sub [OF this] have u: "unat (b - 1) = unat b - 1" by simp
  show "4 < unat (b - 1) mod 4096" unfolding u using mod_dvd_diff_1 [of 4096 "unat b" 5] al pos by auto
  have "p < b - 1 \<longleftrightarrow> p < b" if "page_ok p" for p
  proof -
    have "unat p + 2 \<le> unat b" if "unat p < unat b" by (rule page_room) (use that al \<open>page_ok p\<close> in \<open>auto simp: page_ok_def\<close>)
    then show ?thesis unfolding word_less_nat_alt u by linarith
  qed
  then show "pages_in va (b - 1) = pages_in va b" by (auto simp: pages_in_def)
qed

lemma visit_ok: "Q A us \<Longrightarrow> rok (Inr (0 :: int, us)) (\<lambda>(r, us'). \<not> r < 0 \<and> Q A us')"
  by simp

lemma protected_twice: "protected (protected x f) f = protected x f"
proof -
  let ?M = "0x8000000000000007 :: u64" and ?y = "x AND NOT 0x8000000000000007 OR f OR PAGE_PRESENT"
  have "?y AND NOT ?M OR f OR PAGE_PRESENT = ?y"
    by (rule bit_eqI) (auto simp: bit_or_iff bit_and_iff bit_not_iff)
  then show ?thesis by (simp add: protected_def)
qed


section \<open>The killer for the lack of memory\<close>

interpretation oom: page_visitor oom_walker s U for s :: "'z kvm_scheme" and U
proof
  fix e a f and us us' :: "int \<times> 'z kvm_scheme" and r
  assume "agree U s us" "call_pte (pte_callback oom_walker) e a f us = Inr (r, us')"
  then show "agree U s us'"
    by (cases us) (auto simp: oom_walker_def no_walker_def read_all_pte_def kdefined_eq_Inr agree_def split: if_splits)
qed (simp_all add: oom_walker_def no_walker_def read_all_pte_def)

text \<open>The pages that a task has mapped, the kernel's included.\<close>

definition resident :: "'z kvma_scheme \<Rightarrow> nat \<Rightarrow> u64 set" where
  "resident s t = {p \<in> pages_in 0 KERNEL_LIM. mapped s (task_pml4 s t) p \<noteq> None}"

lemma oom_score:
  assumes up: "\<forall>p\<in>pages_in 0 KERNEL_LIM. upper_in U s 3 (task_pml4 s t) p" and small: "card (resident s t) < 2 ^ 31"
  shows "get_oom_score t s = Inr (int (card (resident s t)), s)"
proof -
  let ?t = "task_pml4 s t" and ?Q = "\<lambda>A (n, s'). s' = s \<and> n = int (card {p \<in> A. mapped s (task_pml4 s t) p \<noteq> None})"
  have z: "page_ok 0" and k: "4 < unat KERNEL_LIM mod 4096" by (simp_all add: page_ok_def KERNEL_LIM_def)
  have "rok (pml4_walk_range ?t 0 KERNEL_LIM oom_walker (0, s)) (\<lambda>(r, us'). r = 0 \<and> agree U s us' \<and> ?Q (pages_in 0 KERNEL_LIM) us')"
  proof (rule oom.range_induct [where Q = ?Q, OF z k])
    fix p us
    assume p: "p \<in> pages_in 0 KERNEL_LIM" and Q: "?Q (pages_in 0 p) us"
    let ?A = "{q \<in> pages_in 0 p. mapped s ?t q \<noteq> None}"
    have us: "us = (int (card ?A), s)" using Q by (cases us) simp
    have new: "{q \<in> insert p (pages_in 0 p). mapped s ?t q \<noteq> None} = (if mapped s ?t p \<noteq> None then insert p ?A else ?A)" by auto
    have notin: "p \<notin> ?A" by (simp add: pages_in_def)
    show "case leaf s ?t p of None \<Rightarrow> ?Q (insert p (pages_in 0 p)) us
      | Some e \<Rightarrow> rok (call_pte (pte_callback oom_walker) e p 0 us) (\<lambda>(r, us'). \<not> r < 0 \<and> ?Q (insert p (pages_in 0 p)) us')"
    proof (cases "leaf s ?t p")
      case None
      then have "{q \<in> insert p (pages_in 0 p). mapped s ?t q \<noteq> None} = ?A" unfolding new by (simp add: mapped_def)
      then show ?thesis unfolding us None by (simp only: option.case prod.case)
    next
      case (Some e)
      show ?thesis
      proof (cases "present (rd e s)")
        case False
        then have A: "{q \<in> insert p (pages_in 0 p). mapped s ?t q \<noteq> None} = ?A" unfolding new using Some by (simp add: mapped_def)
        have "call_pte (pte_callback oom_walker) e p 0 us = Inr (0, us)" using False by (simp add: us oom_walker_def no_walker_def read_all_pte_def)
        then show ?thesis unfolding Some option.case us A by simp
      next
        case True
        then have A: "{q \<in> insert p (pages_in 0 p). mapped s ?t q \<noteq> None} = insert p ?A" unfolding new using Some by (simp add: mapped_def)
        have "insert p ?A \<subseteq> resident s t" using p Some True by (auto simp: resident_def mapped_def pages_in_def)
        then have "card (insert p ?A) \<le> card (resident s t)" by (rule card_mono [OF finite])
        then have "int (card ?A) < 2 ^ 31 - 1" using small notin by simp
        then have "call_pte (pte_callback oom_walker) e p 0 us = Inr (0, int (card ?A) + 1, s)" using True by (simp add: us oom_walker_def no_walker_def read_all_pte_def)
        then show ?thesis unfolding Some option.case A using notin by simp
      qed
    qed
  qed (use up in \<open>auto simp: agree_def\<close>)
  then show ?thesis by (auto simp: get_oom_score_def walk_all_pages_def rok_iff resident_def)
qed

text \<open>The tasks that \<^verbatim>\<open>oom_kill\<close> considers, and what it needs of their page tables.\<close>

definition candidate :: "'z ktask_scheme \<Rightarrow> nat \<Rightarrow> bool" where
  "candidate s pid \<longleftrightarrow> 1 \<le> pid \<and> pid < 65536 \<and> tasks s pid \<noteq> 0 \<and> task_type (tcb s (tasks s pid)) \<noteq> TASK_TYPE_KERNEL"

definition measurable :: "'z ktask_scheme \<Rightarrow> nat \<Rightarrow> bool" where
  "measurable s t \<longleftrightarrow> card (resident s t) < 2 ^ 31 \<and> (\<exists>U. \<forall>p\<in>pages_in 0 KERNEL_LIM. upper_in U s 3 (task_pml4 s t) p)"

lemma oom_candidate_step:
  assumes "1 \<le> pid" and "pid < 65536" and "candidate s pid \<Longrightarrow> measurable s (tasks s pid)"
  shows "oom_candidate pid best s = Inr (if candidate s pid \<and> int (card (resident s (tasks s pid))) > snd best
    then (tasks s pid, int (card (resident s (tasks s pid)))) else best, s)"
proof -
  have "pid2task (int pid) False s = Inr (tasks s pid)" using assms(1,2) by (simp add: pid2task_def pid_max_def Let_def)
  moreover have "get_oom_score (tasks s pid) s = Inr (int (card (resident s (tasks s pid))), s)" if "candidate s pid"
    using assms(3) [OF that] oom_score by (auto simp: measurable_def)
  ultimately show ?thesis using assms(1,2) by (auto simp: oom_candidate_def candidate_def)
qed

lemma oom_select_max:
  assumes "\<And>pid. pid \<in> set pids \<Longrightarrow> 1 \<le> pid \<and> pid < 65536 \<and> (candidate s pid \<longrightarrow> measurable s (tasks s pid))"
  shows "\<exists>t n. oom_select pids best s = Inr ((t, n), s) \<and> snd best \<le> n \<and>
    (\<forall>pid\<in>set pids. candidate s pid \<longrightarrow> int (card (resident s (tasks s pid))) \<le> n) \<and>
    ((t, n) = best \<or> (\<exists>pid\<in>set pids. candidate s pid \<and> t = tasks s pid \<and> n = int (card (resident s t)) \<and> snd best < n))"
  using assms
proof (induction pids arbitrary: best)
  case Nil
  then show ?case by (cases best) simp
next
  case (Cons pid pids)
  let ?r = "int (card (resident s (tasks s pid)))"
  let ?b = "if candidate s pid \<and> ?r > snd best then (tasks s pid, ?r) else best"
  have "oom_candidate pid best s = Inr (?b, s)" by (rule oom_candidate_step) (use Cons.prems [of pid] in auto)
  moreover obtain t n where "oom_select pids ?b s = Inr ((t, n), s)" "snd ?b \<le> n"
      "\<forall>pid\<in>set pids. candidate s pid \<longrightarrow> int (card (resident s (tasks s pid))) \<le> n"
      "(t, n) = ?b \<or> (\<exists>pid\<in>set pids. candidate s pid \<and> t = tasks s pid \<and> n = int (card (resident s t)) \<and> snd ?b < n)"
    using Cons.IH [of ?b] Cons.prems by auto
  ultimately show ?case by (intro exI [of _ t] exI [of _ n]) (auto split: if_splits)
qed

lemma upper_in_same: "pmem s' = pmem s \<Longrightarrow> npages s' = npages s \<Longrightarrow> upper_in U s' d t p = upper_in U s d t p"
  by (induction d arbitrary: t) (simp_all add: link_def rd_def)

lemma console_same:
  "candidate (s\<lparr>console_lock := l\<rparr>) pid = candidate s pid" "resident (s\<lparr>console_lock := l\<rparr>) t = resident s t" "measurable (s\<lparr>console_lock := l\<rparr>) t = measurable s t"
proof -
  show "candidate (s\<lparr>console_lock := l\<rparr>) pid = candidate s pid" by (simp add: candidate_def)
  have "mapped (s\<lparr>console_lock := l\<rparr>) x p = mapped s x p" for x p by (rule mapped_same) (simp add: rd_def)
  then show r: "resident (s\<lparr>console_lock := l\<rparr>) t = resident s t" by (simp add: resident_def)
  have "upper_in U (s\<lparr>console_lock := l\<rparr>) d x p = upper_in U s d x p" for U d x p by (rule upper_in_same) simp_all
  then show "measurable (s\<lparr>console_lock := l\<rparr>) t = measurable s t" by (simp add: measurable_def r)
qed



section \<open>Examples\<close>

text \<open>The tables of the copy-on-write example: the upper ones are the frames 600, 601 and 602, and one page is mapped.\<close>

lemma demo_rd:
  assumes "pmem s = cow_tables"
  shows "rd (600, i) s = (if i = 0 then page2pa 601 OR table_flags else 0)" "rd (601, i) s = (if i = 0 then page2pa 602 OR table_flags else 0)"
    "rd (602, i) s = (if i = 2 then page2pa 603 OR table_flags else 0)" "rd (603, 1) s = page2pa 700 OR table_flags" "rd (700, 0) s = 42"
  using assms by (simp_all add: rd_def cow_tables_def)

lemma not_present_0: "\<not> present 0"
  by (simp add: present_def)

lemma demo_link:
  assumes "pmem s = cow_tables"
  shows "link s 600 0 p = (if ix 0 p = 0 then Some 601 else None)" "link s 601 (Suc 0) p = (if ix 1 p = 0 then Some 602 else None)"
    "link s 602 2 p = (if ix 2 p = 2 then Some 603 else None)"
  by (simp_all add: link_def demo_rd [OF assms] table_entry not_present_0)

lemma demo_upper: "pmem s = cow_tables \<Longrightarrow> npages s = 1024 \<Longrightarrow> upper_in {600, 601, 602} s 3 600 p"
  by (simp add: numeral_3_eq_3 demo_link)

lemma demo_leaf:
  assumes "pmem s = cow_tables"
  shows "leaf s 600 0x401000 = Some (603, 1)"
proof -
  have "ix (Suc 0) 0x401000 = 0" using demo_ix(2) by (simp only: One_nat_def)
  then show ?thesis by (simp only: leaf_def demo_link [OF assms] demo_ix if_True bind.simps refl One_nat_def)
qed


text \<open>The same task beside the state of the page replacement.\<close>

definition demo_swap :: kswap where
  "demo_swap = ktask.extend demo_fork \<lparr>free_disk_addr = 0, console_lock = buddy_lock demo_kmem\<rparr>"

lemma demo_swap_fields [simp]:
  "npages demo_swap = 1024" "pmem demo_swap = cow_tables" "task_pml4 demo_swap (Suc 0) = 600" "tasks demo_swap pid = (if pid = 1 then 1 else 0)"
  "swap_lock demo_swap = buddy_lock demo_kmem" "console_lock demo_swap = buddy_lock demo_kmem" "free_frames demo_swap = {..<512}"
  "task_type (tcb demo_swap (Suc 0)) = task_type (demo_task 1 TASK_RUNNING)"
  using demo_fork_fields(7) by (simp_all add: demo_swap_def demo_fork_def ktask.extend_def kvma.extend_def free_frames_def)

lemma low_page:
  assumes "page_ok p" and "ix 0 p = 0"
  shows "unat p < 2 ^ 39"
proof -
  have m: "unat p div 2 ^ 39 mod 512 = 0" using assms(2) by (simp add: PML4_INDEX_def index_unat)
  show ?thesis
  proof (cases "unat p < 2 ^ 47")
    case True
    then have "unat p div 2 ^ 39 < 256" by (simp add: div_less_iff_less_mult)
    then show ?thesis using m by (simp add: div_eq_0_iff)
  next
    case False
    then have "2 ^ 64 - 2 ^ 47 \<le> unat p" using assms(1) by (simp add: page_ok_def)
    moreover have "unat p < 2 ^ 64" using unsigned_less [of p] by simp
    ultimately have q: "unat p div 2 ^ 39 < 33554432" "33554176 \<le> unat p div 2 ^ 39" by (simp_all add: div_less_iff_less_mult less_eq_div_iff_mult_less_eq)
    obtain k where "unat p div 2 ^ 39 = 512 * k" using m by auto
    then show ?thesis using q by simp
  qed
qed

lemma demo_measurable: "measurable demo_swap 1"
proof -
  have m: "pmem demo_swap = cow_tables" "npages demo_swap = 1024" by simp_all
  have "resident demo_swap 1 \<subseteq> (\<lambda>i. of_nat (4096 * i)) ` {..<2 ^ 27}"
  proof
    fix p assume "p \<in> resident demo_swap 1"
    then have p: "page_ok p" "leaf demo_swap 600 p \<noteq> None" by (auto simp: resident_def pages_in_def mapped_def split: option.splits)
    then have "ix 0 p = 0" using demo_link [OF m(1), of p] by (auto simp: leaf_def split: if_splits)
    from low_page [OF p(1) this] have "unat p div 4096 < 2 ^ 27" by (simp add: div_less_iff_less_mult)
    moreover have "p = of_nat (4096 * (unat p div 4096))" using p(1) mult_div_mod_eq [of 4096 "unat p"] by (simp only: page_ok_def add_0_right) simp
    ultimately show "p \<in> (\<lambda>i. of_nat (4096 * i)) ` {..<2 ^ 27}" by blast
  qed
  from card_mono [OF _ this] have "card (resident demo_swap 1) \<le> card ((\<lambda>i. of_nat (4096 * i) :: u64) ` {..<2 ^ 27})" by simp
  also have "\<dots> \<le> 2 ^ 27" using card_image_le [of "{..<2 ^ 27}" "\<lambda>i. of_nat (4096 * i) :: u64"] by simp
  finally have "card (resident demo_swap 1) < 2 ^ 31" by simp
  then show ?thesis using demo_upper [OF m] by (auto simp: measurable_def)
qed


text \<open>A disk that is ready and reads zeroes.\<close>

definition demo_disk :: "kswap disk_ops" where
  "demo_disk = \<lparr>op_poll = (\<lambda>s. (1, s)), op_stat = (\<lambda>s. s), op_read = (\<lambda>p n a s. (4096, s\<lparr>pmem := (pmem s)(p := (\<lambda>_. 0))\<rparr>)), op_write = (\<lambda>p n a s. (4096, s))\<rparr>"


end
