(* ===== verification/Ports.thy ===== *)
theory Ports
  imports Prelude
begin

text \<open>
  Port input and output and the devices that are only ports: the interrupt controller of kernel/pic.c, the clock of
  kernel/rtc.c and the conversion of lib/time.c. The instructions \<^verbatim>\<open>in\<close> and \<^verbatim>\<open>out\<close> (include/x86-64/asm.h) are a record of operations
  on the state of the devices, an argument of the functions that use it.
\<close>

record 'd io =
  in8 :: "u16 \<Rightarrow> 'd \<Rightarrow> u8 \<times> 'd"
  out8 :: "u16 \<Rightarrow> u8 \<Rightarrow> 'd \<Rightarrow> 'd"
  in16 :: "u16 \<Rightarrow> 'd \<Rightarrow> u16 \<times> 'd"
  out16 :: "u16 \<Rightarrow> u16 \<Rightarrow> 'd \<Rightarrow> 'd"
  in32 :: "u16 \<Rightarrow> 'd \<Rightarrow> u32 \<times> 'd"
  out32 :: "u16 \<Rightarrow> u32 \<Rightarrow> 'd \<Rightarrow> 'd"

section \<open>kernel/pic.c\<close>

definition PIC1_CMD :: u16 where "PIC1_CMD = 0x20"
definition PIC1_DATA :: u16 where "PIC1_DATA = 0x21"
definition PIC2_CMD :: u16 where "PIC2_CMD = 0xa0"
definition PIC2_DATA :: u16 where "PIC2_DATA = 0xa1"
definition PIC_EOI :: u8 where "PIC_EOI = 0x20"
definition PIC_ICW1_ICW4 :: u8 where "PIC_ICW1_ICW4 = 0x01"
definition PIC_ICW1_INIT :: u8 where "PIC_ICW1_INIT = 0x10"
definition PIC_ICW4_8086 :: u8 where "PIC_ICW4_8086 = 0x01"
definition PIC_ICW4_AUTO :: u8 where "PIC_ICW4_AUTO = 0x02"
definition PIC_READ_IRR :: u8 where "PIC_READ_IRR = 0x0a"
definition PIC_READ_ISR :: u8 where "PIC_READ_ISR = 0x0b"
definition IRQ_SLAVE :: nat where "IRQ_SLAVE = 2"
definition IRQ_OFFSET :: u8 where "IRQ_OFFSET = 32"

definition pic_remap :: "'d io \<Rightarrow> u8 \<Rightarrow> u8 \<Rightarrow> 'd \<Rightarrow> 'd" where
  "pic_remap io offset1 offset2 d =
     (let (mask0, d) = in8 io PIC1_DATA d;
          (mask1, d) = in8 io PIC2_DATA d;
          d = out8 io PIC1_CMD (PIC_ICW1_INIT OR PIC_ICW1_ICW4) d;
          d = out8 io PIC2_CMD (PIC_ICW1_INIT OR PIC_ICW1_ICW4) d;
          d = out8 io PIC1_DATA offset1 d;
          d = out8 io PIC2_DATA offset2 d;
          d = out8 io PIC1_DATA (push_bit IRQ_SLAVE 1) d;
          d = out8 io PIC2_DATA (of_nat IRQ_SLAVE) d;
          d = out8 io PIC1_DATA (PIC_ICW4_8086 OR PIC_ICW4_AUTO) d;
          d = out8 io PIC2_DATA PIC_ICW4_8086 d;
          d = out8 io PIC1_DATA mask0 d
      in out8 io PIC2_DATA mask1 d)"

text \<open>The order in which C evaluates the two reads is not fixed; the model takes the one that is written.\<close>

definition pic_get_reg :: "'d io \<Rightarrow> u8 \<Rightarrow> 'd \<Rightarrow> u16 \<times> 'd" where
  "pic_get_reg io ocw3 d =
     (let d = out8 io PIC1_CMD ocw3 d;
          d = out8 io PIC2_CMD ocw3 d;
          (hi, d) = in8 io PIC2_CMD d;
          (lo, d) = in8 io PIC1_CMD d
      in (push_bit 8 (ucast hi) OR ucast lo, d))"

definition pic_get_irr :: "'d io \<Rightarrow> 'd \<Rightarrow> u16 \<times> 'd" where
  "pic_get_irr io d = pic_get_reg io PIC_READ_IRR d"

definition pic_get_isr :: "'d io \<Rightarrow> 'd \<Rightarrow> u16 \<times> 'd" where
  "pic_get_isr io d = pic_get_reg io PIC_READ_ISR d"

definition pic_disable_all_irqs :: "'d io \<Rightarrow> 'd \<Rightarrow> 'd" where
  "pic_disable_all_irqs io d = out8 io PIC2_DATA 0xff (out8 io PIC1_DATA 0xff d)"

text \<open>The data port and the line of an interrupt; a shift by a negative amount is undefined.\<close>

definition pic_line :: "int \<Rightarrow> (u16 \<times> nat) res" where
  "pic_line irq =
     (let (port, irq) = (if irq < 8 then (PIC1_DATA, irq) else (PIC2_DATA, irq - 8))
      in kdefined (0 \<le> irq \<and> irq < 31) (Inr (port, nat irq)))"

definition pic_enable_irq :: "'d io \<Rightarrow> int \<Rightarrow> 'd \<Rightarrow> 'd res" where
  "pic_enable_irq io irq d =
     rbind (pic_line irq) (\<lambda>(port, line).
     let (v, d) = in8 io port d
     in Inr (out8 io port (v AND NOT (push_bit line 1)) d))"

definition pic_disable_irq :: "'d io \<Rightarrow> int \<Rightarrow> 'd \<Rightarrow> 'd res" where
  "pic_disable_irq io irq d =
     rbind (pic_line irq) (\<lambda>(port, line).
     let (v, d) = in8 io port d
     in Inr (out8 io port (v OR push_bit line 1) d))"

definition pic_eoi :: "'d io \<Rightarrow> int \<Rightarrow> 'd \<Rightarrow> 'd" where
  "pic_eoi io irq d = out8 io PIC1_CMD PIC_EOI (if irq \<ge> 8 then out8 io PIC2_CMD PIC_EOI d else d)"

definition pic_init :: "'d io \<Rightarrow> 'd \<Rightarrow> 'd res" where
  "pic_init io d =
     (let d = pic_disable_all_irqs io d;
          d = pic_remap io IRQ_OFFSET (IRQ_OFFSET + 8) d;
          (_, d) = pic_get_irr io d
      in pic_enable_irq io (int IRQ_SLAVE) d)"

section \<open>kernel/rtc.c\<close>

definition CMOS_ADDR :: u16 where "CMOS_ADDR = 0x70"
definition CMOS_DATA :: u16 where "CMOS_DATA = 0x71"

record tm =
  tm_sec :: int
  tm_min :: int
  tm_hour :: int
  tm_mday :: int
  tm_mon :: int
  tm_year :: int

definition rtc_busy :: "'d io \<Rightarrow> 'd \<Rightarrow> bool \<times> 'd" where
  "rtc_busy io d = (let (v, d) = in8 io CMOS_DATA (out8 io CMOS_ADDR 0x0a d) in (v AND 0x80 \<noteq> 0, d))"

definition rtc_read_reg :: "'d io \<Rightarrow> u8 \<Rightarrow> 'd \<Rightarrow> u8 \<times> 'd" where
  "rtc_read_reg io reg d = in8 io CMOS_DATA (out8 io CMOS_ADDR reg d)"

definition bcd_to_int :: "u8 \<Rightarrow> u8" where
  "bcd_to_int val = (val AND 0x0f) + (val div 16) * 10"

partial_function (option) rtc_wait :: "'d io \<Rightarrow> 'd \<Rightarrow> 'd option" where
  "rtc_wait io d = (case rtc_busy io d of (busy, d) \<Rightarrow> if busy then rtc_wait io d else Some d)"

text \<open>The end of \<^verbatim>\<open>rtc_get_time\<close>: the registers as numbers. The arithmetic on the hour is done in \<^verbatim>\<open>int\<close>.\<close>

definition rtc_decode :: "u8 \<Rightarrow> u8 \<Rightarrow> u8 \<Rightarrow> u8 \<Rightarrow> u8 \<Rightarrow> u8 \<Rightarrow> u8 \<Rightarrow> tm" where
  "rtc_decode reg_b sec mins hour day mon year =
     (let conv = (if reg_b AND 0x04 = 0 then bcd_to_int else id);
          hour = conv hour;
          hour = (if reg_b AND 0x02 = 0 \<and> hour AND 0x80 \<noteq> 0 then of_int ((uint (hour AND 0x7f) + 12) mod 24) else hour)
      in \<lparr>tm_sec = uint (conv sec), tm_min = uint (conv mins), tm_hour = uint hour, tm_mday = uint (conv day),
          tm_mon = uint (conv mon) - 1, tm_year = 100 + uint (conv year)\<rparr>)"

definition rtc_get_time :: "'d io \<Rightarrow> 'd \<Rightarrow> (tm \<times> 'd) option" where
  "rtc_get_time io d =
     (case rtc_wait io d of None \<Rightarrow> None
      | Some d \<Rightarrow>
        (let (sec, d) = rtc_read_reg io 0x00 d;
             (mins, d) = rtc_read_reg io 0x02 d;
             (hour, d) = rtc_read_reg io 0x04 d;
             (day, d) = rtc_read_reg io 0x07 d;
             (mon, d) = rtc_read_reg io 0x08 d;
             (year, d) = rtc_read_reg io 0x09 d;
             (reg_b, d) = rtc_read_reg io 0x0b d
         in Some (rtc_decode reg_b sec mins hour day mon year, d)))"

section \<open>lib/time.c\<close>

text \<open>
  Division of C rounds towards zero; \<open>cdiv\<close> and \<open>cmod\<close> are its quotient and remainder. The year has 64 bits, the number of leap days and
  the number of the day have 32: \<open>to_int\<close> is the conversion. The sum of the hours, minutes and seconds of a clock stays far inside its type.
\<close>

definition to_int :: "int \<Rightarrow> int" where
  "to_int x = signed_take_bit 31 x"

definition cdiv :: "int \<Rightarrow> int \<Rightarrow> int" where
  "cdiv a b = sgn a * sgn b * (\<bar>a\<bar> div \<bar>b\<bar>)"

definition cmod :: "int \<Rightarrow> int \<Rightarrow> int" where
  "cmod a b = a - b * cdiv a b"

definition Q_div :: "int \<Rightarrow> int \<Rightarrow> int" where
  "Q_div a b = (if a > 0 then cdiv a b else - cdiv (b - a - 1) b)"

definition days_at_month :: "int list" where
  "days_at_month = [0, 31, 59, 90, 120, 151, 181, 212, 243, 273, 304, 334]"

definition normalize_month :: "int \<Rightarrow> int \<Rightarrow> int \<times> int" where
  "normalize_month year month =
     (if month \<ge> 12 then (year + cdiv month 12, cmod month 12)
      else if month < 0 then
        (let year = year + cdiv month 12; month = cmod month 12
         in if month \<noteq> 0 then (year - 1, month + 12) else (year, month))
      else (year, month))"

definition tm_to_time :: "tm \<Rightarrow> int" where
  "tm_to_time tm =
     (let (year, month) = normalize_month (tm_year tm + - 100) (tm_mon tm);
          z4 = to_int (Q_div (year - (if month < 2 then 1 else 0)) 4);
          z100 = Q_div z4 25;
          z400 = Q_div z100 4;
          day = to_int (tm_mday tm + (year * 365 + z4 - z100 + z400 + days_at_month ! nat month))
      in day * 86400 + tm_hour tm * 3600 + tm_min tm * 60 + tm_sec tm - - 946684800)"

section \<open>The calendar\<close>

lemma cdiv_nonneg: "0 \<le> a \<Longrightarrow> 0 < b \<Longrightarrow> cdiv a b = a div b"
  by (cases "a = 0") (simp_all add: cdiv_def)

lemma Q_div_floor: "0 < b \<Longrightarrow> Q_div a b = a div b"
proof (cases "a > 0")
  case True
  then show "0 < b \<Longrightarrow> Q_div a b = a div b" by (simp add: Q_div_def cdiv_nonneg)
next
  case False
  assume b: "0 < b"
  have "(b - a - 1) div b = - (a div b)"
    by (rule int_div_pos_eq [where r = "b - 1 - a mod b"]) (use b pos_mod_bound [OF b, of a] pos_mod_sign [OF b, of a] in \<open>auto simp: algebra_simps minus_mult_div_eq_mod [symmetric]\<close>)
  then show "Q_div a b = a div b" using False b by (simp add: Q_div_def cdiv_nonneg)
qed

text \<open>The Gregorian calendar: the length of a month, and the day after a day.\<close>

definition leap :: "int \<Rightarrow> bool" where
  "leap y \<longleftrightarrow> 4 dvd y \<and> (100 dvd y \<longrightarrow> 400 dvd y)"

definition month_length :: "int \<Rightarrow> int \<Rightarrow> int" where
  "month_length y m = (if m = 1 then (if leap y then 29 else 28) else if m \<in> {3, 5, 8, 10} then 30 else 31)"

definition valid_day :: "tm \<Rightarrow> bool" where
  "valid_day t \<longleftrightarrow> 0 \<le> tm_mon t \<and> tm_mon t < 12 \<and> 1 \<le> tm_mday t \<and> tm_mday t \<le> month_length (1900 + tm_year t) (tm_mon t)"

definition next_day :: "tm \<Rightarrow> tm" where
  "next_day t =
     (if tm_mday t < month_length (1900 + tm_year t) (tm_mon t) then t\<lparr>tm_mday := tm_mday t + 1\<rparr>
      else if tm_mon t < 11 then t\<lparr>tm_mday := 1, tm_mon := tm_mon t + 1\<rparr>
      else t\<lparr>tm_mday := 1, tm_mon := 0, tm_year := tm_year t + 1\<rparr>)"

text \<open>Leap days before a year, counted from the year 2000.\<close>

definition leaps :: "int \<Rightarrow> int" where
  "leaps y = y div 4 - y div 100 + y div 400"

lemma leaps_step: "leaps y = leaps (y - 1) + (if leap (2000 + y) then 1 else 0)"
proof -
  have step: "y div k = (y - 1) div k + (if k dvd y then 1 else 0)" if "0 < k" for k :: int
  proof (cases "k dvd y")
    case True
    then obtain q where "y = k * q" ..
    moreover have "(k * q - 1) div k = q - 1" by (rule int_div_pos_eq [where r = "k - 1"]) (use that in \<open>auto simp: algebra_simps\<close>)
    ultimately show ?thesis using that by simp
  next
    case False
    then have "0 < y mod k" using that by (simp add: dvd_eq_mod_eq_0 order_less_le)
    moreover have "y mod k < k" using that by simp
    moreover have "y - 1 = k * (y div k) + (y mod k - 1)" by simp
    ultimately have "(y - 1) div k = y div k" by (intro int_div_pos_eq [where r = "y mod k - 1"]) auto
    then show ?thesis using False by simp
  qed
  have "4 dvd 2000 + y \<longleftrightarrow> 4 dvd y" "100 dvd 2000 + y \<longleftrightarrow> 100 dvd y" "400 dvd 2000 + y \<longleftrightarrow> 400 dvd y" by (rule dvd_add_right_iff, simp)+
  moreover have "100 dvd y \<Longrightarrow> 4 dvd y" "400 dvd y \<Longrightarrow> 100 dvd y" by (erule dvd_trans [rotated], simp)+
  ultimately have l: "leap (2000 + y) \<longleftrightarrow> 4 dvd y \<and> (100 dvd y \<longrightarrow> 400 dvd y)" and d: "100 dvd y \<Longrightarrow> 4 dvd y" "400 dvd y \<Longrightarrow> 100 dvd y" by (simp_all only: leap_def)
  have "a - b + c = a' - b' + c' + (if p \<and> (q \<longrightarrow> r) then 1 else 0)"
    if "a = a' + (if p then 1 else 0)" "b = b' + (if q then 1 else 0)" "c = c' + (if r then 1 else 0)" "q \<Longrightarrow> p" "r \<Longrightarrow> q" for a b c a' b' c' :: int and p q r
    unfolding that(1-3) using that(4,5) by (cases p; cases q; cases r) simp_all
  note sum = this
  have "y div 4 = (y - 1) div 4 + (if 4 dvd y then 1 else 0)" "y div 100 = (y - 1) div 100 + (if 100 dvd y then 1 else 0)"
    "y div 400 = (y - 1) div 400 + (if 400 dvd y then 1 else 0)" by (rule step, simp)+
  from sum [OF this d] show ?thesis unfolding leaps_def l .
qed

text \<open>The number of the day before the first of a month.\<close>

definition month_start :: "int \<Rightarrow> int \<Rightarrow> int" where
  "month_start y m = (y - 100) * 365 + leaps (y - 100 - (if m < 2 then 1 else 0)) + days_at_month ! nat m"

lemma month_start_next:
  assumes "0 \<le> m" and "m < 11"
  shows "month_start y (m + 1) = month_start y m + month_length (1900 + y) m"
proof -
  have "leaps (y - 100) = leaps (y - 101) + (if leap (1900 + y) then 1 else 0)" using leaps_step [of "y - 100"] by simp
  moreover have "m \<in> {0..10}" using assms by simp
  then have "m \<in> {0, 1, 2, 3, 4, 5, 6, 7, 8, 9, 10}" by (simp add: simp_from_to)
  ultimately show ?thesis unfolding month_start_def month_length_def days_at_month_def by (elim insertE emptyE) simp_all
qed

lemma month_start_year: "month_start (y + 1) 0 = month_start y 11 + month_length (1900 + y) 11"
  by (simp add: month_start_def month_length_def days_at_month_def)

lemma valid_day_31: "valid_day t \<Longrightarrow> \<bar>tm_mday t\<bar> \<le> 31"
  by (auto simp: valid_day_def month_length_def split: if_splits)

text \<open>The years whose days 32 bits can count.\<close>

definition countable_year :: "int \<Rightarrow> bool" where
  "countable_year y \<longleftrightarrow> \<bar>y\<bar> \<le> 5000001"

lemma to_int_id: "\<bar>x\<bar> < 2147483648 \<Longrightarrow> to_int x = x"
  unfolding to_int_def by (rule signed_take_bit_int_eq_self) auto

lemma month_start_bound:
  assumes "countable_year y" and "0 \<le> m" and "m < 12"
  shows "\<bar>month_start y m\<bar> \<le> 2000000000"
proof -
  have "days_at_month ! nat m \<in> set days_at_month" using assms by (intro nth_mem) (simp add: days_at_month_def)
  then have "0 \<le> days_at_month ! nat m" "days_at_month ! nat m \<le> 334" by (auto simp: days_at_month_def)
  moreover define z where "z = y - 100 - (if m < 2 then 1 else 0)"
  have z: "- 5000200 \<le> z" "z \<le> 5000200" using assms(1) unfolding z_def countable_year_def by auto
  then have "- 5000200 div k \<le> z div k" "z div k \<le> 5000200 div k" if "0 < k" for k using that by (intro zdiv_mono1; simp)+
  from this[of 4] this[of 100] this[of 400] have "\<bar>leaps z\<bar> \<le> 1400000" unfolding leaps_def by simp linarith
  ultimately show ?thesis using assms(1) unfolding month_start_def z_def[symmetric] countable_year_def abs_le_iff by (simp add: algebra_simps)
qed

lemma tm_to_time_days:
  assumes "0 \<le> tm_mon t" and "tm_mon t < 12" and "countable_year (tm_year t)" and "\<bar>tm_mday t\<bar> \<le> 31"
  shows "tm_to_time t = (tm_mday t + month_start (tm_year t) (tm_mon t)) * 86400 + (tm_hour t * 3600 + tm_min t * 60 + tm_sec t) + 946684800"
proof -
  define y where "y = tm_year t - 100 - (if tm_mon t < 2 then 1 else 0)"
  let ?clock = "tm_hour t * 3600 + tm_min t * 60 + tm_sec t"
  have z4: "to_int (y div 4) = y div 4" using assms(3) unfolding countable_year_def y_def by (intro to_int_id) auto
  have "tm_to_time t = to_int (tm_mday t + ((tm_year t - 100) * 365 + y div 4 - y div 4 div 25 + y div 4 div 25 div 4 + days_at_month ! nat (tm_mon t))) * 86400 +
      ?clock + 946684800"
    using assms(1,2) z4 unfolding y_def by (simp add: tm_to_time_def normalize_month_def Q_div_floor Let_def)
  also have "tm_mday t + ((tm_year t - 100) * 365 + y div 4 - y div 4 div 25 + y div 4 div 25 div 4 + days_at_month ! nat (tm_mon t)) =
      tm_mday t + month_start (tm_year t) (tm_mon t)"
    unfolding month_start_def leaps_def y_def[symmetric] by (simp add: zdiv_zmult2_eq [symmetric])
  also have "to_int \<dots> = tm_mday t + month_start (tm_year t) (tm_mon t)"
    using month_start_bound[OF assms(3,1,2)] assms(4) by (intro to_int_id) linarith
  finally show ?thesis .
qed

text \<open>
  C39: \<^verbatim>\<open>tm_to_time\<close> follows the Gregorian calendar: midnight of the first of January 2000 is second 946684800, and
  from any valid day of a year that is at most five million years away to the next day, through the ends of months, leap days, years and centuries, it
  advances by exactly 86400 seconds.
\<close>

theorem tm_to_time_calendar:
  "tm_to_time \<lparr>tm_sec = 0, tm_min = 0, tm_hour = 0, tm_mday = 1, tm_mon = 0, tm_year = 100\<rparr> = 946684800 \<and>
   (valid_day t \<and> \<bar>tm_year t\<bar> \<le> 5000000 \<longrightarrow> valid_day (next_day t) \<and> tm_to_time (next_day t) = tm_to_time t + 86400)"
proof (intro conjI impI)
  show "tm_to_time \<lparr>tm_sec = 0, tm_min = 0, tm_hour = 0, tm_mday = 1, tm_mon = 0, tm_year = 100\<rparr> = 946684800"
    by (simp add: tm_to_time_days countable_year_def month_start_def leaps_def days_at_month_def)
  assume a: "valid_day t \<and> \<bar>tm_year t\<bar> \<le> 5000000"
  then have v: "valid_day t" by simp
  have pos: "1 \<le> month_length y k" for y k by (simp add: month_length_def)
  show v': "valid_day (next_day t)" using v pos by (auto simp: valid_day_def next_day_def)
  have "tm_mday (next_day t) + month_start (tm_year (next_day t)) (tm_mon (next_day t)) = tm_mday t + month_start (tm_year t) (tm_mon t) + 1"
    using v month_start_next [of "tm_mon t" "tm_year t"] month_start_year [of "tm_year t"]
    by (cases "tm_mon t = 11") (auto simp: next_day_def valid_day_def)
  moreover have y: "countable_year (tm_year t)" "countable_year (tm_year (next_day t))" using a by (auto simp: countable_year_def next_day_def)
  moreover have "tm_hour (next_day t) = tm_hour t" "tm_min (next_day t) = tm_min t" "tm_sec (next_day t) = tm_sec t" by (simp_all add: next_day_def)
  ultimately show "tm_to_time (next_day t) = tm_to_time t + 86400"
    using v v' y valid_day_31[OF v] valid_day_31[OF v'] by (simp add: valid_day_def tm_to_time_days algebra_simps)
qed

theorem tm_to_time_calendar_witness:
  "tm_to_time \<lparr>tm_sec = 5, tm_min = 0, tm_hour = 7, tm_mday = 1, tm_mon = 2, tm_year = 200\<rparr> =
   tm_to_time \<lparr>tm_sec = 5, tm_min = 0, tm_hour = 7, tm_mday = 28, tm_mon = 1, tm_year = 200\<rparr> + 86400"
  using tm_to_time_calendar [of "\<lparr>tm_sec = 5, tm_min = 0, tm_hour = 7, tm_mday = 28, tm_mon = 1, tm_year = 200\<rparr>"]
  by (simp add: valid_day_def next_day_def month_length_def leap_def)

section \<open>The clock\<close>

text \<open>The two decimal digits of a number below 100.\<close>

definition bcd :: "nat \<Rightarrow> u8" where
  "bcd n = of_nat (16 * (n div 10) + n mod 10)"

lemma bcd_to_int_bcd: "n < 100 \<Longrightarrow> bcd_to_int (bcd n) = of_nat n"
proof -
  have "\<forall>n\<in>set [0..<100]. bcd_to_int (bcd n) = of_nat n" by code_simp
  then show "n < 100 \<Longrightarrow> bcd_to_int (bcd n) = of_nat n" by simp
qed

text \<open>A clock that is not updating and whose registers hold the numbers \<open>r\<close>; reading them changes nothing that is read.\<close>

definition clock_shows :: "'d io \<Rightarrow> (u8 \<Rightarrow> u8) \<Rightarrow> ('d \<Rightarrow> bool) \<Rightarrow> bool" where
  "clock_shows io r I \<longleftrightarrow> r 0x0a AND 0x80 = 0 \<and>
     (\<forall>d k. I d \<longrightarrow> fst (in8 io CMOS_DATA (out8 io CMOS_ADDR k d)) = r k \<and> I (snd (in8 io CMOS_DATA (out8 io CMOS_ADDR k d))))"

lemma clock_reads:
  assumes "clock_shows io r I" and "I d"
  obtains d' where "rtc_get_time io d = Some (rtc_decode (r 0x0b) (r 0) (r 2) (r 4) (r 7) (r 8) (r 9), d')" and "I d'"
proof -
  have reg: "\<exists>d'. rtc_read_reg io k d = (r k, d') \<and> I d'" if "I d" for k d
    using assms(1) that by (intro exI [of _ "snd (in8 io CMOS_DATA (out8 io CMOS_ADDR k d))"]) (simp add: clock_shows_def rtc_read_reg_def prod_eq_iff)
  have idle: "r 0x0a AND 0x80 = 0" using assms(1) by (simp add: clock_shows_def)
  obtain d0 where "rtc_wait io d = Some d0" "I d0"
    using reg [OF assms(2), of "0x0a"] idle by (auto simp: rtc_wait.simps [of io d] rtc_busy_def rtc_read_reg_def)
  moreover obtain d1 where "rtc_read_reg io 0 d0 = (r 0, d1)" "I d1" using reg [OF \<open>I d0\<close>] by blast
  moreover obtain d2 where "rtc_read_reg io 2 d1 = (r 2, d2)" "I d2" using reg [OF \<open>I d1\<close>] by blast
  moreover obtain d3 where "rtc_read_reg io 4 d2 = (r 4, d3)" "I d3" using reg [OF \<open>I d2\<close>] by blast
  moreover obtain d4 where "rtc_read_reg io 7 d3 = (r 7, d4)" "I d4" using reg [OF \<open>I d3\<close>] by blast
  moreover obtain d5 where "rtc_read_reg io 8 d4 = (r 8, d5)" "I d5" using reg [OF \<open>I d4\<close>] by blast
  moreover obtain d6 where "rtc_read_reg io 9 d5 = (r 9, d6)" "I d6" using reg [OF \<open>I d5\<close>] by blast
  moreover obtain d7 where "rtc_read_reg io 0x0b d6 = (r 0x0b, d7)" "I d7" using reg [OF \<open>I d6\<close>] by blast
  ultimately show thesis by (intro that [of d7]) (simp_all add: rtc_get_time_def)
qed

text \<open>
  \<^verbatim>\<open>rtc_get_time\<close> reads back a time that a clock in 24-hour mode stores in decimal digits. In 12-hour mode it does not:
  the decimal conversion destroys the bit for the afternoon before it is tested, so that 11 p.m. becomes hour 91.
\<close>

theorem rtc_get_time_bcd:
  assumes "clock_shows io r I" and "I d" and "r 0x0b AND 0x04 = 0"
    and "r 0 = bcd sec" "r 2 = bcd mins" "r 7 = bcd day" "r 8 = bcd mon" "r 9 = bcd year" and "\<forall>n\<in>{sec, mins, hour, day, mon, year}. n < 100"
    and "if r 0x0b AND 0x02 \<noteq> 0 then r 4 = bcd hour else r 4 = 0x80 OR bcd 11"
  shows "\<exists>d'. rtc_get_time io d = Some (\<lparr>tm_sec = int sec, tm_min = int mins, tm_hour = (if r 0x0b AND 0x02 \<noteq> 0 then int hour else 91),
    tm_mday = int day, tm_mon = int mon - 1, tm_year = 100 + int year\<rparr>, d')"
proof -
  obtain d' where r: "rtc_get_time io d = Some (rtc_decode (r 0x0b) (r 0) (r 2) (r 4) (r 7) (r 8) (r 9), d')" using clock_reads [OF assms(1,2)] by blast
  have u: "uint (bcd_to_int (bcd n)) = int n" if "n < 100" for n
    using that by (simp add: bcd_to_int_bcd unsigned_of_nat take_bit_nat_eq_self)
  have h: "bcd_to_int (0x80 OR bcd 11) = 91" "(91 :: u8) AND 0x80 = 0" by (simp_all add: bcd_def bcd_to_int_def)
  show ?thesis unfolding r rtc_decode_def using assms(3-10) u h by (auto simp: Let_def)
qed

text \<open>A clock whose state is the selected register: 23:59:58 on the 29th of February 2024, in 24-hour mode.\<close>

definition demo_clock :: "u8 \<Rightarrow> u8" where
  "demo_clock k = (if k = 0 then 0x58 else if k = 2 then 0x59 else if k = 4 then 0x23 else if k = 7 then 0x29 else if k = 8 then 0x02
     else if k = 9 then 0x24 else if k = 0x0b then 0x02 else 0)"

definition demo_cmos :: "u8 io" where
  "demo_cmos = \<lparr>in8 = (\<lambda>p d. (if p = CMOS_DATA then demo_clock d else 0, d)), out8 = (\<lambda>p v d. if p = CMOS_ADDR then v else d),
     in16 = (\<lambda>p d. (0, d)), out16 = (\<lambda>p v d. d), in32 = (\<lambda>p d. (0, d)), out32 = (\<lambda>p v d. d)\<rparr>"

theorem rtc_get_time_bcd_witness:
  "\<exists>d'. rtc_get_time demo_cmos 0 = Some (\<lparr>tm_sec = 58, tm_min = 59, tm_hour = 23, tm_mday = 29, tm_mon = 1, tm_year = 124\<rparr>, d')"
proof -
  have "clock_shows demo_cmos demo_clock (\<lambda>_. True)" by (simp add: clock_shows_def demo_cmos_def demo_clock_def)
  from rtc_get_time_bcd [OF this, of 58 59 29 2 24 23 0] show ?thesis by (simp add: demo_clock_def bcd_def)
qed

end
