(* ===== verification/Strings.thy ===== *)
theory Strings
  imports Prelude
begin

text \<open>
  The string and memory routines of lib/string.c on a byte memory with natural-number addresses.
  A loop that runs until it meets a null byte need not end: such a routine is a partial function
  into \<open>option\<close>, \<open>None\<close> being a loop that never ends. The string instructions behind
  \<^verbatim>\<open>memset\<close> and \<^verbatim>\<open>memmove\<close> (\<^verbatim>\<open>rep stos\<close>, \<^verbatim>\<open>rep movs\<close>, with the width and direction that the code
  selects) are modelled step by step.
\<close>

type_synonym mem = "nat \<Rightarrow> u8"

section \<open>Operations\<close>

partial_function (option) strlen_loop :: "mem \<Rightarrow> nat \<Rightarrow> nat \<Rightarrow> nat option" where
  "strlen_loop m s n = (if m s \<noteq> 0 then strlen_loop m (s + 1) (n + 1) else Some n)"

definition strlen :: "mem \<Rightarrow> nat \<Rightarrow> nat option" where
  "strlen m s = strlen_loop m s 0"

fun strnlen_loop :: "mem \<Rightarrow> nat \<Rightarrow> nat \<Rightarrow> nat \<Rightarrow> nat" where
  "strnlen_loop m s 0 n = n"
| "strnlen_loop m s (Suc sz) n = (if m s \<noteq> 0 then strnlen_loop m (s + 1) sz (n + 1) else n)"

definition strnlen :: "mem \<Rightarrow> nat \<Rightarrow> nat \<Rightarrow> nat" where
  "strnlen m s sz = strnlen_loop m s sz 0"

partial_function (option) strcpy_loop :: "nat \<Rightarrow> nat \<Rightarrow> mem \<Rightarrow> mem option" where
  "strcpy_loop dst src m =
     (let c = m src; m' = m(dst := c)
      in if c \<noteq> 0 then strcpy_loop (dst + 1) (src + 1) m' else Some m')"

definition strcpy :: "nat \<Rightarrow> nat \<Rightarrow> mem \<Rightarrow> (nat \<times> mem) option" where
  "strcpy dst src m = map_option (\<lambda>m'. (dst, m')) (strcpy_loop dst src m)"

definition strcat :: "nat \<Rightarrow> nat \<Rightarrow> mem \<Rightarrow> (nat \<times> mem) option" where
  "strcat dst src m =
     Option.bind (strlen m dst) (\<lambda>len. map_option (\<lambda>(_, m'). (dst, m')) (strcpy (dst + len) src m))"

fun strncpy_loop :: "nat \<Rightarrow> nat \<Rightarrow> nat \<Rightarrow> mem \<Rightarrow> mem" where
  "strncpy_loop dst src 0 m = m"
| "strncpy_loop dst src (Suc k) m =
     (let m' = m(dst := m src)
      in strncpy_loop (dst + 1) (if m' src \<noteq> 0 then src + 1 else src) k m')"

definition strncpy :: "nat \<Rightarrow> nat \<Rightarrow> nat \<Rightarrow> mem \<Rightarrow> nat \<times> mem" where
  "strncpy dst src sz m = (dst, strncpy_loop dst src sz m)"

fun strlcpy_loop :: "nat \<Rightarrow> nat \<Rightarrow> nat \<Rightarrow> mem \<Rightarrow> nat \<times> mem" where
  "strlcpy_loop dst src 0 m = (dst, m(dst := 0))"
| "strlcpy_loop dst src (Suc k) m =
     (if k > 0 \<and> m src \<noteq> 0 then strlcpy_loop (dst + 1) (src + 1) k (m(dst := m src))
      else (dst, m(dst := 0)))"

definition strlcpy :: "nat \<Rightarrow> nat \<Rightarrow> nat \<Rightarrow> mem \<Rightarrow> nat \<times> mem" where
  "strlcpy dst src sz m =
     (if sz > 0 then (case strlcpy_loop dst src sz m of (dst', m') \<Rightarrow> (dst' - dst, m')) else (0, m))"

partial_function (option) strcmp :: "mem \<Rightarrow> nat \<Rightarrow> nat \<Rightarrow> int option" where
  "strcmp m p q =
     (if m p \<noteq> 0 \<and> m p = m q then strcmp m (p + 1) (q + 1) else Some (uint (m p) - uint (m q)))"

fun strncmp :: "mem \<Rightarrow> nat \<Rightarrow> nat \<Rightarrow> nat \<Rightarrow> int" where
  "strncmp m p q 0 = 0"
| "strncmp m p q (Suc n) =
     (if m p \<noteq> 0 \<and> m p = m q then strncmp m (p + 1) (q + 1) n else uint (m p) - uint (m q))"

text \<open>The outer \<open>option\<close> of the result is termination, the inner one the null pointer.\<close>

partial_function (option) strchr :: "mem \<Rightarrow> nat \<Rightarrow> u8 \<Rightarrow> nat option option" where
  "strchr m s c = (if m s \<noteq> 0 then if m s = c then Some (Some s) else strchr m (s + 1) c else Some None)"

partial_function (option) strfind :: "mem \<Rightarrow> nat \<Rightarrow> u8 \<Rightarrow> nat option" where
  "strfind m s c = (if m s \<noteq> 0 then if m s = c then Some s else strfind m (s + 1) c else Some s)"

text \<open>\<^verbatim>\<open>rep stosb\<close> and \<^verbatim>\<open>rep stosl\<close>.\<close>

fun rep_stosb :: "nat \<Rightarrow> u32 \<Rightarrow> nat \<Rightarrow> mem \<Rightarrow> mem" where
  "rep_stosb di ax 0 m = m"
| "rep_stosb di ax (Suc cx) m = rep_stosb (di + 1) ax cx (m(di := ucast ax))"

definition put32 :: "nat \<Rightarrow> u32 \<Rightarrow> mem \<Rightarrow> mem" where
  "put32 a w m = m(a := ucast w, a + 1 := ucast (drop_bit 8 w), a + 2 := ucast (drop_bit 16 w), a + 3 := ucast (drop_bit 24 w))"

fun rep_stosl :: "nat \<Rightarrow> u32 \<Rightarrow> nat \<Rightarrow> mem \<Rightarrow> mem" where
  "rep_stosl di ax 0 m = m"
| "rep_stosl di ax (Suc cx) m = rep_stosl (di + 4) ax cx (put32 di ax m)"

definition memset :: "nat \<Rightarrow> u32 \<Rightarrow> nat \<Rightarrow> mem \<Rightarrow> nat \<times> mem" where
  "memset v c n m =
     (if n = 0 then (v, m)
      else if v mod 4 = 0 \<and> n mod 4 = 0 then
        let c = c AND 0xFF;
            c = push_bit 24 c OR push_bit 16 c OR push_bit 8 c OR c
        in (v, rep_stosl v c (n div 4) m)
      else (v, rep_stosb v c n m))"

text \<open>
  \<^verbatim>\<open>rep movsb\<close> (\<open>w = 1\<close>) and \<^verbatim>\<open>rep movsl\<close> (\<open>w = 4\<close>): an element is read before it is written. With
  the direction flag set the addresses go down; they are integers, as they may pass 0 at the end.
\<close>

definition move_elem :: "nat \<Rightarrow> int \<Rightarrow> int \<Rightarrow> mem \<Rightarrow> mem" where
  "move_elem w d s m = (\<lambda>a. if d \<le> int a \<and> int a < d + int w then m (nat (int a - d + s)) else m a)"

fun rep_movs :: "nat \<Rightarrow> bool \<Rightarrow> int \<Rightarrow> int \<Rightarrow> nat \<Rightarrow> mem \<Rightarrow> mem" where
  "rep_movs w down di si 0 m = m"
| "rep_movs w down di si (Suc cx) m =
     rep_movs w down (if down then di - int w else di + int w) (if down then si - int w else si + int w) cx
       (move_elem w di si m)"

definition memmove :: "nat \<Rightarrow> nat \<Rightarrow> nat \<Rightarrow> mem \<Rightarrow> nat \<times> mem" where
  "memmove dst src n m =
     (let s = src; d = dst in
      if s < d \<and> s + n > d then
        let s = s + n; d = d + n in
        if s mod 4 = 0 \<and> d mod 4 = 0 \<and> n mod 4 = 0
        then (dst, rep_movs 4 True (int d - 4) (int s - 4) (n div 4) m)
        else (dst, rep_movs 1 True (int d - 1) (int s - 1) n m)
      else
        if s mod 4 = 0 \<and> d mod 4 = 0 \<and> n mod 4 = 0
        then (dst, rep_movs 4 False (int d) (int s) (n div 4) m)
        else (dst, rep_movs 1 False (int d) (int s) n m))"

definition memcpy :: "nat \<Rightarrow> nat \<Rightarrow> nat \<Rightarrow> mem \<Rightarrow> nat \<times> mem" where
  "memcpy dst src n m = memmove dst src n m"

fun memcmp :: "mem \<Rightarrow> nat \<Rightarrow> nat \<Rightarrow> nat \<Rightarrow> int" where
  "memcmp m s1 s2 0 = 0"
| "memcmp m s1 s2 (Suc n) =
     (if m s1 \<noteq> m s2 then uint (m s1) - uint (m s2) else memcmp m (s1 + 1) (s2 + 1) n)"

fun memfind :: "mem \<Rightarrow> nat \<Rightarrow> u32 \<Rightarrow> nat \<Rightarrow> nat" where
  "memfind m s c 0 = s"
| "memfind m s c (Suc n) = (if m s = ucast c then s else memfind m (s + 1) c n)"

text \<open>\<^verbatim>\<open>strtol\<close>: values are computed in 64-bit arithmetic; overflow is not detected.\<close>

partial_function (option) skip_blanks :: "mem \<Rightarrow> nat \<Rightarrow> nat option" where
  "skip_blanks m s = (if m s = 32 \<or> m s = 9 then skip_blanks m (s + 1) else Some s)"

definition digit_of :: "u8 \<Rightarrow> int option" where
  "digit_of c =
     (if 48 \<le> c \<and> c \<le> 57 then Some (uint c - 48)
      else if 97 \<le> c \<and> c \<le> 122 then Some (uint c - 97 + 10)
      else if 65 \<le> c \<and> c \<le> 90 then Some (uint c - 65 + 10)
      else None)"

partial_function (option) strtol_digits :: "mem \<Rightarrow> nat \<Rightarrow> int \<Rightarrow> u64 \<Rightarrow> (u64 \<times> nat) option" where
  "strtol_digits m s base val =
     (case digit_of (m s) of None \<Rightarrow> Some (val, s)
      | Some dig \<Rightarrow> if dig \<ge> base then Some (val, s)
                    else strtol_digits m (s + 1) base (val * of_int base + of_int dig))"

definition strtol :: "mem \<Rightarrow> nat \<Rightarrow> int \<Rightarrow> (u64 \<times> nat) option" where
  "strtol m s base =
     Option.bind (skip_blanks m s) (\<lambda>s.
       let neg = (m s = 45);
           s = (if m s = 43 \<or> m s = 45 then s + 1 else s);
           (s, base) = (if (base = 0 \<or> base = 16) \<and> m s = 48 \<and> m (s + 1) = 120 then (s + 2, 16)
                        else if base = 0 \<and> m s = 48 then (s + 1, 8)
                        else if base = 0 then (s, 10)
                        else (s, base))
       in map_option (\<lambda>(val, s). (if neg then - val else val, s)) (strtol_digits m s base 0))"

section \<open>Strings\<close>

text \<open>\<open>cstr m s cs\<close>: the null-terminated string \<open>cs\<close> stands at address \<open>s\<close>.\<close>

fun cstr :: "mem \<Rightarrow> nat \<Rightarrow> u8 list \<Rightarrow> bool" where
  "cstr m s [] \<longleftrightarrow> m s = 0"
| "cstr m s (c # cs) \<longleftrightarrow> c \<noteq> 0 \<and> m s = c \<and> cstr m (s + 1) cs"

lemma cstr_cong: "(\<And>a. s \<le> a \<Longrightarrow> a \<le> s + length cs \<Longrightarrow> m' a = m a) \<Longrightarrow> cstr m' s cs = cstr m s cs"
  by (induction cs arbitrary: s) auto

lemma strlen_loop_cstr: "cstr m s cs \<Longrightarrow> strlen_loop m s n = Some (n + length cs)"
  by (induction cs arbitrary: s n) (auto simp: strlen_loop.simps)

lemma strnlen_loop_cstr: "cstr m s cs \<Longrightarrow> strnlen_loop m s k n = n + min k (length cs)"
proof (induction k arbitrary: s n cs)
  case (Suc k)
  then show ?case by (cases cs) auto
qed simp

lemma strcpy_loop_cstr:
  assumes "cstr m src cs" and "dst + length cs < src \<or> src + length cs < dst"
  shows "\<exists>m'. strcpy_loop dst src m = Some m' \<and> cstr m' dst cs \<and>
     (\<forall>a. a < dst \<or> dst + length cs < a \<longrightarrow> m' a = m a)"
  using assms
proof (induction cs arbitrary: src dst m)
  case Nil
  then show ?case by (subst strcpy_loop.simps) auto
next
  case (Cons c cs)
  let ?m = "m(dst := c)"
  have "cstr ?m (src + 1) cs"
    using Cons.prems by (subst cstr_cong [of _ _ _ m]) auto
  moreover have "dst + 1 + length cs < src + 1 \<or> src + 1 + length cs < dst + 1" using Cons.prems by auto
  ultimately obtain m' where m': "strcpy_loop (dst + 1) (src + 1) ?m = Some m'" "cstr m' (dst + 1) cs"
      "\<forall>a. a < dst + 1 \<or> dst + 1 + length cs < a \<longrightarrow> m' a = ?m a"
    using Cons.IH [of ?m "src + 1" "dst + 1"] by blast
  have "strcpy_loop dst src m = Some m'" using Cons.prems m'(1) by (subst strcpy_loop.simps) simp
  with m' Cons.prems show ?case by auto
qed

lemmas byte_order = word_less_def [symmetric] word_uint_eq_iff [symmetric] uint_0_iff word_gt_0

lemma uint_pos: "0 < uint (c :: u8) \<longleftrightarrow> c \<noteq> 0"
  using uint_0_iff [of c] uint_ge_0 [of c] by linarith

lemma strcmp_cstr:
  assumes "cstr m p xs" and "cstr m q ys"
  shows "\<exists>r. strcmp m p q = Some r \<and> (r = 0 \<longleftrightarrow> xs = ys) \<and> (r < 0 \<longleftrightarrow> ord_class.lexordp xs ys)"
  using assms
proof (induction xs arbitrary: p q ys)
  case Nil
  then show ?case by (cases ys) (auto simp: strcmp.simps byte_order uint_pos)
next
  case (Cons x xs)
  note prem = Cons.prems
  show ?case
  proof (cases ys)
    case Nil
    with prem show ?thesis
      by (subst strcmp.simps) (auto simp: byte_order uint_pos)
  next
    case (Cons y ys')
    with prem Cons.IH [of "p + 1" "q + 1" ys'] show ?thesis
      by (subst strcmp.simps) (auto simp: byte_order uint_pos)
  qed
qed

lemma strncmp_cstr:
  assumes "cstr m p xs" and "cstr m q ys"
  shows "(strncmp m p q n = 0 \<longleftrightarrow> take n xs = take n ys) \<and> (strncmp m p q n < 0 \<longleftrightarrow> ord_class.lexordp (take n xs) (take n ys))"
  using assms
proof (induction n arbitrary: p q xs ys)
  case (Suc n)
  then show ?case
    using Suc.IH [of "p + 1" "tl xs" "q + 1" "tl ys"]
    by (cases xs; cases ys) (auto simp: byte_order uint_pos)
qed simp

lemma strlcpy_loop_cstr:
  assumes "cstr m src cs" and "dst + sz \<le> src \<or> src + length cs < dst" and "sz > 0"
  shows "\<exists>m'. strlcpy_loop dst src sz m = (dst + min (sz - 1) (length cs), m') \<and> cstr m' dst (take (sz - 1) cs) \<and>
     (\<forall>a. a < dst \<or> dst + sz \<le> a \<longrightarrow> m' a = m a)"
  using assms
proof (induction sz arbitrary: src dst m cs)
  case (Suc k)
  show ?case
  proof (cases "k > 0 \<and> cs \<noteq> []")
    case False
    with Suc.prems show ?thesis by (cases cs) auto
  next
    case True
    then obtain c cs' where cs: "cs = c # cs'" by (cases cs) auto
    let ?m = "m(dst := c)"
    have "cstr ?m (src + 1) cs'" using Suc.prems cs by (subst cstr_cong [of _ _ _ m]) auto
    moreover have "dst + 1 + k \<le> src + 1 \<or> src + 1 + length cs' < dst + 1" using Suc.prems cs by auto
    ultimately obtain m' where m': "strlcpy_loop (dst + 1) (src + 1) k ?m = (dst + 1 + min (k - 1) (length cs'), m')"
        "cstr m' (dst + 1) (take (k - 1) cs')" "\<forall>a. a < dst + 1 \<or> dst + 1 + k \<le> a \<longrightarrow> m' a = ?m a"
      using Suc.IH [of ?m "src + 1" cs' "dst + 1"] True by blast
    have "strlcpy_loop dst src (Suc k) m = (dst + min k (length cs), m')"
      using True m'(1) Suc.prems cs by auto
    moreover have "cstr m' dst (take k cs)" using m' Suc.prems cs True by (cases k) auto
    ultimately show ?thesis using m'(3) by auto
  qed
qed simp

section \<open>Moving memory\<close>

definition moved :: "int \<Rightarrow> int \<Rightarrow> int \<Rightarrow> mem \<Rightarrow> mem" where
  "moved d s len m = (\<lambda>a. if d \<le> int a \<and> int a < d + len then m (nat (int a - d + s)) else m a)"

lemma moved_step_up:
  assumes "0 \<le> s" and "0 \<le> k" and "d \<le> s \<or> s + (int w + k) \<le> d"
  shows "moved (d + int w) (s + int w) k (move_elem w d s m) = moved d s (int w + k) m"
  using assms by (auto simp: moved_def move_elem_def fun_eq_iff add_diff_eq diff_add_eq)

lemma rep_movs_up:
  assumes "0 \<le> s" and "d \<le> s \<or> s + int w * int cx \<le> d"
  shows "rep_movs w False d s cx m = moved d s (int w * int cx) m"
  using assms
proof (induction cx arbitrary: d s m)
  case 0
  then show ?case by (auto simp: moved_def fun_eq_iff)
next
  case (Suc cx)
  define k where "k = int w * int cx"
  have k: "int w * int (Suc cx) = int w + k" "0 \<le> k" by (simp_all add: k_def algebra_simps)
  have "rep_movs w False (d + int w) (s + int w) cx (move_elem w d s m) = moved (d + int w) (s + int w) k (move_elem w d s m)"
    unfolding k_def by (rule Suc.IH) (use Suc.prems k(1) in \<open>auto simp: k_def\<close>)
  with moved_step_up [OF Suc.prems(1) k(2)] Suc.prems(2) show ?case unfolding k(1) by simp
qed

lemma moved_step_down:
  assumes "0 \<le> s - k" and "0 \<le> k" and "s \<le> d"
  shows "moved (d - k) (s - k) k (move_elem w d s m) = moved (d - k) (s - k) (int w + k) m"
  using assms by (auto simp: moved_def move_elem_def fun_eq_iff add_diff_eq diff_add_eq)

lemma rep_movs_down:
  assumes "0 \<le> s + int w - int w * int cx" and "s \<le> d"
  shows "rep_movs w True d s cx m = moved (d + int w - int w * int cx) (s + int w - int w * int cx) (int w * int cx) m"
  using assms
proof (induction cx arbitrary: d s m)
  case 0
  then show ?case by (auto simp: moved_def fun_eq_iff)
next
  case (Suc cx)
  define k where "k = int w * int cx"
  have k: "int w * int (Suc cx) = int w + k" "0 \<le> k" by (simp_all add: k_def algebra_simps)
  have sk: "0 \<le> s - k" using Suc.prems(1) unfolding k(1) by simp
  have "rep_movs w True (d - int w) (s - int w) cx (move_elem w d s m) = moved (d - k) (s - k) k (move_elem w d s m)"
    using Suc.IH [of "s - int w" "d - int w" "move_elem w d s m"] sk Suc.prems(2) by (simp add: k_def)
  with moved_step_down [OF sk k(2) Suc.prems(2)] show ?case unfolding k(1) by simp
qed

lemma rep_stosb_eq: "rep_stosb v c n m = (\<lambda>a. if v \<le> a \<and> a < v + n then ucast c else m a)"
  by (induction n arbitrary: v m) (auto simp: fun_eq_iff)

lemma rep_stosl_eq:
  assumes "\<And>m a. put32 a c m = (\<lambda>b. if a \<le> b \<and> b < a + 4 then x else m b)"
  shows "rep_stosl v c n m = (\<lambda>a. if v \<le> a \<and> a < v + 4 * n then x else m a)"
  by (induction n arbitrary: v m) (auto simp: fun_eq_iff assms)

lemma spread_byte:
  fixes c :: u32
  defines "b \<equiv> c AND 0xFF"
  defines "p \<equiv> push_bit 24 b OR push_bit 16 b OR push_bit 8 b OR b"
  shows "(ucast p :: u8) = ucast c" and "(ucast (drop_bit 8 p) :: u8) = ucast c"
    and "(ucast (drop_bit 16 p) :: u8) = ucast c" and "(ucast (drop_bit 24 p) :: u8) = ucast c"
proof -
  have m: "(0xFF :: u32) = mask 8" by (simp add: mask_eq_exp_minus_1)
  show "(ucast p :: u8) = ucast c" "(ucast (drop_bit 8 p) :: u8) = ucast c"
      "(ucast (drop_bit 16 p) :: u8) = ucast c" "(ucast (drop_bit 24 p) :: u8) = ucast c"
    unfolding p_def b_def m
    by (rule bit_word_eqI; auto simp: bit_unsigned_iff bit_or_iff bit_push_bit_iff bit_and_iff bit_mask_iff bit_drop_bit_eq)+
qed

section \<open>Properties\<close>

text \<open>
  On two null-terminated strings \<^verbatim>\<open>strcmp\<close> returns, and the sign of its result is their
  lexicographic order (0 exactly for equal strings); \<^verbatim>\<open>strncmp\<close> does the same for the prefixes of length \<open>n\<close>.
\<close>

theorem strcmp_lexicographic:
  assumes "cstr m p xs" and "cstr m q ys"
  shows "(\<exists>r. strcmp m p q = Some r \<and> (r = 0 \<longleftrightarrow> xs = ys) \<and> (r < 0 \<longleftrightarrow> ord_class.lexordp xs ys)) \<and>
    (strncmp m p q n = 0 \<longleftrightarrow> take n xs = take n ys) \<and>
    (strncmp m p q n < 0 \<longleftrightarrow> ord_class.lexordp (take n xs) (take n ys))"
  using strcmp_cstr [OF assms] strncmp_cstr [OF assms] by blast

definition demo_mem :: mem where
  "demo_mem a = (if a = 10 then 97 else if a = 11 then 98 else if a = 20 then 97 else if a = 21 then 99 else 0)"

theorem strcmp_lexicographic_witness:
  "(\<exists>r. strcmp demo_mem 10 20 = Some r \<and> r < 0) \<and> strncmp demo_mem 10 20 1 = 0"
  using strcmp_lexicographic [of demo_mem 10 "[97, 98]" 20 "[97, 99]" 1] by (auto simp: demo_mem_def)

text \<open>
  \<^verbatim>\<open>strcpy\<close> on disjoint memory returns with the string at the destination and nothing else changed;
  \<^verbatim>\<open>strlcpy\<close> into a buffer of \<open>sz > 0\<close> bytes stores the longest prefix that fits with its null byte,
  returns the prefix's length and writes no byte outside the buffer.
\<close>

theorem strcpy_strlcpy_copy:
  assumes "cstr m src cs"
  shows "(dst + length cs < src \<or> src + length cs < dst \<longrightarrow>
      (\<exists>m'. strcpy dst src m = Some (dst, m') \<and> cstr m' dst cs \<and> (\<forall>a. a < dst \<or> dst + length cs < a \<longrightarrow> m' a = m a))) \<and>
    ((dst + sz \<le> src \<or> src + length cs < dst) \<and> sz > 0 \<longrightarrow>
      (\<exists>m'. strlcpy dst src sz m = (min (sz - 1) (length cs), m') \<and> cstr m' dst (take (sz - 1) cs) \<and>
        (\<forall>a. a < dst \<or> dst + sz \<le> a \<longrightarrow> m' a = m a)))"
  using strcpy_loop_cstr [OF assms, of dst] strlcpy_loop_cstr [OF assms, of dst sz]
  by (fastforce simp: strcpy_def strlcpy_def)

theorem strcpy_strlcpy_copy_witness:
  "(\<exists>m'. strcpy 30 10 demo_mem = Some (30, m') \<and> cstr m' 30 [97, 98]) \<and>
   (\<exists>m'. strlcpy 30 10 2 demo_mem = (1, m') \<and> cstr m' 30 [97])"
  using strcpy_strlcpy_copy [of demo_mem 10 "[97, 98]" 30 2] by (auto simp: demo_mem_def)

text \<open>
  C21: \<^verbatim>\<open>memmove\<close> copies \<open>n\<close> bytes correctly however the two blocks overlap and whichever string
  instruction is used, \<^verbatim>\<open>memset\<close> fills \<open>n\<close> bytes with the low byte of its argument, and both
  change no other byte.
\<close>

theorem memmove_memset_correct:
  "snd (memmove dst src n m) a = (if dst \<le> a \<and> a < dst + n then m (a - dst + src) else m a) \<and>
   snd (memset v c n m) a = (if v \<le> a \<and> a < v + n then ucast c else m a)"
proof
  have mv: "moved (int dst) (int src) (int n) m a = (if dst \<le> a \<and> a < dst + n then m (a - dst + src) else m a)"
    by (auto simp: moved_def nat_diff_distrib intro!: arg_cong [of _ _ m])
  have n4: "4 * int (n div 4) = int n" if "n mod 4 = 0" using that by presburger
  have up: "rep_movs 1 False (int dst) (int src) n m = moved (int dst) (int src) (int n) m"
      "n mod 4 = 0 \<Longrightarrow> rep_movs 4 False (int dst) (int src) (n div 4) m = moved (int dst) (int src) (int n) m"
    if "\<not> (src < dst \<and> src + n > dst)"
    using that n4 by (subst rep_movs_up; auto)+
  have down: "rep_movs 1 True (int (dst + n) - 1) (int (src + n) - 1) n m = moved (int dst) (int src) (int n) m"
      "n mod 4 = 0 \<Longrightarrow> rep_movs 4 True (int (dst + n) - 4) (int (src + n) - 4) (n div 4) m = moved (int dst) (int src) (int n) m"
    if "src < dst"
    using that n4 by (subst rep_movs_down; simp)+
  show "snd (memmove dst src n m) a = (if dst \<le> a \<and> a < dst + n then m (a - dst + src) else m a)"
    unfolding memmove_def Let_def using up down mv by simp
  have "put32 a' (push_bit 24 (c AND 0xFF) OR push_bit 16 (c AND 0xFF) OR push_bit 8 (c AND 0xFF) OR (c AND 0xFF)) m'
      = (\<lambda>b. if a' \<le> b \<and> b < a' + 4 then ucast c else m' b)" for m' a'
    unfolding put32_def spread_byte by (auto simp: fun_eq_iff)
  note stosl = rep_stosl_eq [OF this]
  show "snd (memset v c n m) a = (if v \<le> a \<and> a < v + n then ucast c else m a)"
    unfolding memset_def Let_def stosl rep_stosb_eq by auto
qed

end
