(* ===== verification/Printfmt.thy ===== *)
theory Printfmt
  imports Strings
begin

text \<open>
  The formatting routines of lib/printfmt.c. The characters passed to the \<^verbatim>\<open>putch\<close> callback are
  collected in a list; \<^verbatim>\<open>vsnprintf\<close> is the callback \<^verbatim>\<open>sprintputch\<close> run over that list. A format
  string is the list of its bytes without the null byte. An argument is a machine word or the
  string a pointer points to (\<open>None\<close> for the null pointer); taking an argument that is not there
  or of the other kind is undefined.
\<close>

section \<open>Numbers\<close>

definition hex_digit :: "nat \<Rightarrow> u8" where
  "hex_digit d = (if d < 10 then of_nat (48 + d) else of_nat (87 + d))"

text \<open>
  \<^verbatim>\<open>printnum\<close>, for the bases 8, 10 and 16 that occur. \<^verbatim>\<open>while (--width > 0)\<close> pads with
  \<open>width - 1\<close> characters.
\<close>

function printnum :: "nat \<Rightarrow> nat \<Rightarrow> int \<Rightarrow> u8 \<Rightarrow> u8 list" where
  "printnum num base width padc =
     (if base < 2 then []
      else (if num \<ge> base then printnum (num div base) base (width - 1) padc
            else replicate (nat (width - 1)) padc)
           @ [hex_digit (num mod base)])"
  by pat_completeness auto
termination
  by (relation "measure (\<lambda>(num, _). num)") auto

declare printnum.simps [simp del]

section \<open>Arguments\<close>

datatype arg = Word u64 | Text "u8 list option"

definition getuint :: "nat \<Rightarrow> arg list \<Rightarrow> (u64 \<times> arg list) res" where
  "getuint lflag ap =
     (case ap of Word w # rest \<Rightarrow> Inr (if lflag \<ge> 1 then w else ucast (ucast w :: u32), rest)
      | _ \<Rightarrow> Inl KUndef)"

definition getint :: "nat \<Rightarrow> arg list \<Rightarrow> (u64 \<times> arg list) res" where
  "getint lflag ap =
     (case ap of Word w # rest \<Rightarrow> Inr (if lflag \<ge> 1 then w else scast (ucast w :: u32), rest)
      | _ \<Rightarrow> Inl KUndef)"

definition getarg :: "arg list \<Rightarrow> (int \<times> arg list) res" where
  "getarg ap = (case ap of Word w # rest \<Rightarrow> Inr (sint (ucast w :: u32), rest) | _ \<Rightarrow> Inl KUndef)"

section \<open>Conversions\<close>

record spec =
  padc :: u8
  width :: int
  precision :: int
  lflag :: nat
  altflag :: bool

definition start_spec :: spec where
  "start_spec = \<lparr>padc = 32, width = - 1, precision = - 1, lflag = 0, altflag = False\<rparr>"

text \<open>
  What a \<^verbatim>\<open>%\<close> sequence does: \<open>Done rest ap out\<close> puts \<open>out\<close> and goes on at \<open>rest\<close>; \<open>Literal ap\<close> is the
  default branch, which puts \<^verbatim>\<open>%\<close> and goes back to the character behind it.
\<close>

datatype conv = Done "u8 list" "arg list" "u8 list" | Literal "arg list"

fun read_width :: "int \<Rightarrow> u8 list \<Rightarrow> int \<times> u8 list" where
  "read_width p [] = (p, [])"
| "read_width p (c # r) =
     (if 48 \<le> c \<and> c \<le> 57 then read_width (p * 10 + uint c - 48) r else (p, c # r))"

lemma read_width_length: "length (snd (read_width p r)) \<le> length r"
proof (induction r arbitrary: p)
  case (Cons c r)
  then show ?case by (auto intro: le_SucI)
qed simp

text \<open>The conversion \<^verbatim>\<open>%s\<close>.\<close>

definition put_char :: "bool \<Rightarrow> u8 \<Rightarrow> u8" where
  "put_char alt ch = (if alt \<and> (ch < 32 \<or> ch > 126) then 63 else ch)"

definition print_string :: "spec \<Rightarrow> u8 list \<Rightarrow> u8 list" where
  "print_string sp p =
     (let shown = (if precision sp < 0 then p else take (nat (precision sp)) p);
          w = (if width sp > 0 \<and> padc sp \<noteq> 45 then width sp - int (length shown) else width sp);
          left = (if width sp > 0 \<and> padc sp \<noteq> 45 then replicate (nat w) (padc sp) else []);
          w = (if width sp > 0 \<and> padc sp \<noteq> 45 then min w 0 else w);
          w = w - int (length shown)
      in left @ map (put_char (altflag sp)) shown @ replicate (nat w) 32)"

text \<open>\<^verbatim>\<open>process_precision\<close>.\<close>

definition process_precision :: "int \<Rightarrow> spec \<Rightarrow> spec" where
  "process_precision p sp =
     (if width sp < 0 then sp\<lparr>width := p, precision := - 1\<rparr> else sp\<lparr>precision := p\<rparr>)"

definition number :: "u8 list \<Rightarrow> u8 list \<Rightarrow> nat \<Rightarrow> spec \<Rightarrow> u64 \<times> arg list \<Rightarrow> conv res" where
  "number rest prefix base sp = (\<lambda>(num, ap).
     Inr (Done rest ap (prefix @ printnum (unat num) base (width sp) (padc sp))))"

definition signed_number :: "u8 list \<Rightarrow> spec \<Rightarrow> u64 \<times> arg list \<Rightarrow> conv res" where
  "signed_number rest sp = (\<lambda>(num, ap).
     if num <s 0 then number rest [45] 10 sp (- num, ap) else number rest [] 10 sp (num, ap))"

text \<open>The strings of \<^verbatim>\<open>error_string\<close> (include/error.h has the numbers).\<close>

definition ascii :: "string \<Rightarrow> u8 list" where
  "ascii s = map (\<lambda>c. of_nat (of_char c)) s"

definition error_string :: "nat \<Rightarrow> u8 list option" where
  "error_string e =
     map_option ascii (map_of [(1, ''Resources temporarily unavailable''), (2, ''No child process''), (4, ''Bad address''),
       (5, ''Invalid argument''), (6, ''Not enough space''), (7, ''Function not implemented''),
       (8, ''Operation not permitted'')] e)"

definition print_error :: "int \<Rightarrow> u8 list" where
  "print_error err =
     (let err = (if err < 0 then - err else err)
      in case error_string (nat err) of
           None \<Rightarrow> ascii ''error '' @ printnum (nat err) 10 (- 1) 32
         | Some p \<Rightarrow> p)"

function reswitch :: "u8 list \<Rightarrow> spec \<Rightarrow> arg list \<Rightarrow> conv res" where
  "reswitch [] sp ap = Inr (Literal ap)"
| "reswitch (ch # fmt) sp ap =
     (if ch = 45 then reswitch fmt (sp\<lparr>padc := 45\<rparr>) ap
      else if ch = 48 then reswitch fmt (sp\<lparr>padc := 48\<rparr>) ap
      else if 49 \<le> ch \<and> ch \<le> 57 then
        let (p, fmt') = read_width (uint ch - 48) fmt in reswitch fmt' (process_precision p sp) ap
      else if ch = 42 then
        rbind (getarg ap) (\<lambda>(p, ap). reswitch fmt (process_precision p sp) ap)
      else if ch = 46 then reswitch fmt (if width sp < 0 then sp\<lparr>width := 0\<rparr> else sp) ap
      else if ch = 35 then reswitch fmt (sp\<lparr>altflag := True\<rparr>) ap
      else if ch = 108 then reswitch fmt (sp\<lparr>lflag := lflag sp + 1\<rparr>) ap
      else if ch = 99 then rbind (getarg ap) (\<lambda>(c, ap). Inr (Done fmt ap [of_int c]))
      else if ch = 101 then rbind (getarg ap) (\<lambda>(e, ap). Inr (Done fmt ap (print_error e)))
      else if ch = 115 then
        (case ap of Text p # ap \<Rightarrow> Inr (Done fmt ap (print_string sp (case p of None \<Rightarrow> ascii ''(null)'' | Some s \<Rightarrow> s)))
         | _ \<Rightarrow> Inl KUndef)
      else if ch = 100 then rbind (getint (lflag sp) ap) (signed_number fmt sp)
      else if ch = 117 then rbind (getuint (lflag sp) ap) (number fmt [] 10 sp)
      else if ch = 111 then rbind (getuint (lflag sp) ap) (number fmt [] 8 sp)
      else if ch = 112 then rbind (getuint 2 ap) (number fmt [48, 120] 16 sp)
      else if ch = 120 then rbind (getuint (lflag sp) ap) (number fmt [] 16 sp)
      else if ch = 37 then Inr (Done fmt ap [37])
      else Inr (Literal ap))"
  by pat_completeness auto
termination
proof (relation "measure (\<lambda>(fmt, _). length fmt)", goal_cases)
  case (4 ch fmt sp ap x p fmt')
  then show ?case using read_width_length [of "uint ch - 48" fmt] by (metis case_prod_conv in_measure le_imp_less_Suc length_Cons snd_conv)
qed auto

declare reswitch.simps(2) [simp del]

lemma reswitch_rest: "reswitch fmt sp ap = Inr (Done rest ap' out) \<Longrightarrow> length rest \<le> length fmt"
proof (induction fmt sp ap rule: reswitch.induct)
  case (2 ch fmt sp ap)
  obtain p fmt' where r: "read_width (uint ch - 48) fmt = (p, fmt')" by fastforce
  have le: "length fmt' \<le> length fmt" using read_width_length [of "uint ch - 48" fmt] r by simp
  note IH = 2(3) [OF _ _ _ r [symmetric] refl]
  show ?case
    using 2(8) le 2(1,2,4-7) IH [unfolded r]
    by (subst (asm) reswitch.simps(2))
      (auto simp: r number_def signed_number_def res_eq_Inr split: if_splits prod.splits list.splits arg.splits dest: le_trans intro: le_SucI)
qed simp

lemma conv_case_cong [fundef_cong]:
  assumes "c = c'" and "\<And>r a out. c' = Done r a out \<Longrightarrow> f r a out = f' r a out" and "\<And>a. c' = Literal a \<Longrightarrow> g a = g' a"
  shows "(case c of Done r a out \<Rightarrow> f r a out | Literal a \<Rightarrow> g a) = (case c' of Done r a out \<Rightarrow> f' r a out | Literal a \<Rightarrow> g' a)"
  using assms by (simp split: conv.splits)

function vprintfmt :: "u8 list \<Rightarrow> arg list \<Rightarrow> u8 list res" where
  "vprintfmt [] ap = Inr []"
| "vprintfmt (ch # fmt) ap =
     (if ch \<noteq> 37 then rbind (vprintfmt fmt ap) (\<lambda>out. Inr (ch # out))
      else rbind (reswitch fmt start_spec ap) (\<lambda>conv.
        case conv of Done rest ap out \<Rightarrow> rbind (vprintfmt rest ap) (\<lambda>out'. Inr (out @ out'))
        | Literal ap \<Rightarrow> rbind (vprintfmt fmt ap) (\<lambda>out'. Inr (37 # out'))))"
  by pat_completeness auto
termination
  by (relation "measure (\<lambda>(fmt, _). length fmt)") (auto dest: reswitch_rest)

section \<open>Printing to a buffer\<close>

record sprintbuf =
  buf :: nat
  ebuf :: nat
  cnt :: nat

definition sprintputch :: "u8 \<Rightarrow> sprintbuf \<times> mem \<Rightarrow> sprintbuf \<times> mem" where
  "sprintputch ch = (\<lambda>(b, m).
     let b = b\<lparr>cnt := cnt b + 1\<rparr>
     in if buf b < ebuf b then (b\<lparr>buf := buf b + 1\<rparr>, m(buf b := ch)) else (b, m))"

definition EINVAL :: int where "EINVAL = 5"

definition vsnprintf :: "nat \<Rightarrow> int \<Rightarrow> u8 list \<Rightarrow> arg list \<Rightarrow> mem \<Rightarrow> (int \<times> mem) res" where
  "vsnprintf bf n fmt ap m =
     (let b = \<lparr>buf = bf, ebuf = nat (int bf + n - 1), cnt = 0\<rparr> in
      if bf = 0 \<or> n < 1 then Inr (- EINVAL, m)
      else rbind (vprintfmt fmt ap) (\<lambda>out.
        let (b, m) = fold sprintputch out (b, m)
        in Inr (int (cnt b), m(buf b := 0))))"

text \<open>\<^verbatim>\<open>snprintf\<close> collects its arguments and calls \<^verbatim>\<open>vsnprintf\<close>.\<close>

definition snprintf :: "nat \<Rightarrow> int \<Rightarrow> u8 list \<Rightarrow> arg list \<Rightarrow> mem \<Rightarrow> (int \<times> mem) res" where
  "snprintf bf n fmt args m = vsnprintf bf n fmt args m"

section \<open>The buffer\<close>

lemma fold_sprintputch:
  "p \<le> e \<Longrightarrow> fold sprintputch out (\<lparr>buf = p, ebuf = e, cnt = c\<rparr>, m) =
     (\<lparr>buf = min e (p + length out), ebuf = e, cnt = c + length out\<rparr>,
      (\<lambda>a. if p \<le> a \<and> a < min e (p + length out) then out ! (a - p) else m a))"
proof (induction out arbitrary: p c m)
  case Nil
  then show ?case by (auto simp: fun_eq_iff)
next
  case (Cons ch out)
  show ?case
  proof (cases "p < e")
    case True
    have "fold sprintputch (ch # out) (\<lparr>buf = p, ebuf = e, cnt = c\<rparr>, m)
        = fold sprintputch out (\<lparr>buf = p + 1, ebuf = e, cnt = c + 1\<rparr>, m(p := ch))"
      using True by (simp add: sprintputch_def)
    also have "\<dots> = (\<lparr>buf = min e (p + 1 + length out), ebuf = e, cnt = c + 1 + length out\<rparr>,
        (\<lambda>a. if p + 1 \<le> a \<and> a < min e (p + 1 + length out) then out ! (a - (p + 1)) else (m(p := ch)) a))"
      by (rule Cons.IH) (use True in simp)
    also have "(\<lambda>a. if p + 1 \<le> a \<and> a < min e (p + 1 + length out) then out ! (a - (p + 1)) else (m(p := ch)) a)
        = (\<lambda>a. if p \<le> a \<and> a < min e (p + length (ch # out)) then (ch # out) ! (a - p) else m a)"
      using True by (auto simp: fun_eq_iff nth_Cons')
    finally show ?thesis by simp
  next
    case False
    with Cons.prems have "p = e" by simp
    with Cons.IH [of p "c + 1" m] show ?thesis by (auto simp: sprintputch_def fun_eq_iff)
  qed
qed



section \<open>Printing and reading numbers\<close>

lemma hex_digit_ok: "list_all (\<lambda>d. digit_of (hex_digit d) = Some (int d) \<and> hex_digit d \<noteq> 0) [0..<16]"
  by code_simp

lemma hex_digit: "d < 16 \<Longrightarrow> digit_of (hex_digit d) = Some (int d)" "d < 16 \<Longrightarrow> hex_digit d \<noteq> 0"
  using hex_digit_ok by (auto simp: list_all_iff)

text \<open>\<open>at m s xs\<close>: the bytes \<open>xs\<close> stand at \<open>s\<close>.\<close>

fun at :: "mem \<Rightarrow> nat \<Rightarrow> u8 list \<Rightarrow> bool" where
  "at m s [] \<longleftrightarrow> True"
| "at m s (x # xs) \<longleftrightarrow> m s = x \<and> at m (s + 1) xs"

lemma at_append: "at m s (xs @ ys) \<longleftrightarrow> at m s xs \<and> at m (s + length xs) ys"
  by (induction xs arbitrary: s) auto

lemma cstr_at: "cstr m s xs \<longleftrightarrow> at m s xs \<and> m (s + length xs) = 0 \<and> 0 \<notin> set xs"
  by (induction xs arbitrary: s) auto

text \<open>Reading the digits \<^verbatim>\<open>printnum\<close> has put computes the number again.\<close>

lemma strtol_printnum:
  assumes "2 \<le> b" and "b \<le> 16" and "w \<le> 1" and "at m s (printnum n b w pad)"
  shows "strtol_digits m s (int b) val =
     strtol_digits m (s + length (printnum n b w pad)) (int b)
       (val * of_nat b ^ length (printnum n b w pad) + of_nat n)"
  using assms(3,4)
proof (induction n arbitrary: w s val rule: less_induct)
  case (less n)
  let ?d = "n mod b"
  have "?d < b" using assms(1) by simp
  then have d: "?d < 16" "\<not> int ?d \<ge> int b" using assms(2) by simp_all
  have one: "strtol_digits m t (int b) v = strtol_digits m (t + 1) (int b) (v * of_nat b + of_nat ?d)"
    if "m t = hex_digit ?d" for t v
    using that d hex_digit(1) [OF d(1)] by (subst strtol_digits.simps) simp
  show ?case
  proof (cases "n \<ge> b")
    case True
    let ?p = "printnum (n div b) b (w - 1) pad"
    have p: "printnum n b w pad = ?p @ [hex_digit ?d]"
      using True assms(1) by (subst printnum.simps) simp
    have lt: "n div b < n" using True assms(1) by (intro div_less_dividend) auto
    have at: "at m s ?p" "m (s + length ?p) = hex_digit ?d" using less.prems(2) by (simp_all add: p at_append)
    have "(of_nat (n div b) * of_nat b + of_nat ?d :: u64) = of_nat n"
      by (simp only: of_nat_mult [symmetric] of_nat_add [symmetric] div_mult_mod_eq)
    then have v: "(val * of_nat b ^ length ?p + of_nat (n div b)) * of_nat b + of_nat ?d
        = val * of_nat b ^ Suc (length ?p) + of_nat n"
      by (simp add: algebra_simps)
    have "strtol_digits m s (int b) val = strtol_digits m (s + length ?p) (int b) (val * of_nat b ^ length ?p + of_nat (n div b))"
      by (rule less.IH [OF lt]) (use less.prems at in auto)
    then show ?thesis unfolding one [OF at(2)] v by (simp add: p)
  next
    case False
    then have p: "printnum n b w pad = [hex_digit ?d]" "?d = n"
      using assms(1) less.prems(1) by (subst printnum.simps, simp_all)
    with less.prems(2) one [of s val] show ?thesis by simp
  qed
qed

lemma printnum_chars:
  assumes "2 \<le> b" and "b \<le> 16" and "w \<le> 1"
  shows "printnum n b w pad \<noteq> []" and "\<forall>c\<in>set (printnum n b w pad). \<exists>d<b. c = hex_digit d"
proof -
  show "printnum n b w pad \<noteq> []" using assms by (subst printnum.simps) simp
  show "\<forall>c\<in>set (printnum n b w pad). \<exists>d<b. c = hex_digit d"
    using assms(3)
  proof (induction n arbitrary: w rule: less_induct)
    case (less n)
    define d where "d = n mod b"
    then have m: "d < b" using assms(1) by simp
    show ?case
    proof (cases "n \<ge> b")
      case True
      then have "n div b < n" using assms(1) by (intro div_less_dividend) auto
      then have "\<forall>c\<in>set (printnum (n div b) b (w - 1) pad). \<exists>d<b. c = hex_digit d"
        using less.prems by (intro less.IH) auto
      with True m assms(1) show ?thesis by (subst printnum.simps) (auto simp: d_def [symmetric])
    next
      case False
      with m less.prems assms(1) show ?thesis by (subst printnum.simps) (auto simp: d_def [symmetric])
    qed
  qed
qed

lemma printnum_cstr:
  assumes "cstr m s (printnum n 10 w pad)" and "w \<le> 1"
  shows "strtol_digits m s 10 0 = Some (of_nat n, s + length (printnum n 10 w pad))"
proof -
  have "digit_of 0 = None" by code_simp
  then have "strtol_digits m (s + length (printnum n 10 w pad)) 10 v = Some (v, s + length (printnum n 10 w pad))" for v
    using assms(1) by (subst strtol_digits.simps) (simp add: cstr_at)
  with assms strtol_printnum [of 10 w m s n pad 0] show ?thesis by (simp add: cstr_at)
qed

lemma decimal_first:
  assumes "cstr m s (printnum n 10 w pad)" and "w \<le> 1"
  shows "m s \<noteq> 32" and "m s \<noteq> 9" and "m s \<noteq> 43" and "m s \<noteq> 45"
proof -
  have all: "list_all (\<lambda>d. hex_digit d \<noteq> 32 \<and> hex_digit d \<noteq> 9 \<and> hex_digit d \<noteq> 43 \<and> hex_digit d \<noteq> 45) [0..<16]" by code_simp
  obtain c cs where c: "printnum n 10 w pad = c # cs" using printnum_chars(1) [of 10 w n pad] assms(2) by (cases "printnum n 10 w pad") auto
  then obtain d where "d < 10" "c = hex_digit d" using printnum_chars(2) [of 10 w n pad] assms(2) by auto
  with all assms(1) c show "m s \<noteq> 32" "m s \<noteq> 9" "m s \<noteq> 43" "m s \<noteq> 45" by (auto simp: list_all_iff)
qed



end
