(* ===== verification/Console.thy ===== *)
theory Console
  imports Ports Printfmt Spinlock
begin

text \<open>
  The console: serial port, parallel port, text display, keyboard and input buffer of kernel/console.c, the line editor of
  lib/readline.c and the printing of kernel/printf.c. The state is one record: the devices behind the ports, the
  memory of the two text displays, and the static variables of the sources. A value of type \<^verbatim>\<open>int\<close> that is sent
  to a device is a word of 32 bits.
\<close>

section \<open>State\<close>

text \<open>\<^verbatim>\<open>cons\<close>, the input buffer.\<close>

record ring =
  ring_buf :: "nat \<Rightarrow> u8"
  rpos :: u32
  wpos :: u32

datatype crt = CGA | MONO

record 'd console =
  dev :: 'd
  video :: "crt \<Rightarrow> nat \<Rightarrow> u16"
  has_cga :: bool
  serial_exists :: bool
  addr_6845 :: u16
  crt_buf :: crt
  crt_pos :: u16
  shift :: u32
  cons :: ring
  con_lock :: spinlock
  con_cpu :: nat

definition port_in :: "'d io \<Rightarrow> u16 \<Rightarrow> 'd console \<Rightarrow> u8 \<times> 'd console" where
  "port_in io p s = (case in8 io p (dev s) of (v, d) \<Rightarrow> (v, s\<lparr>dev := d\<rparr>))"

definition port_out :: "'d io \<Rightarrow> u16 \<Rightarrow> u8 \<Rightarrow> 'd console \<Rightarrow> 'd console" where
  "port_out io p v s = s\<lparr>dev := out8 io p v (dev s)\<rparr>"

text \<open>A store to the memory of a colour display that is not there is lost.\<close>

definition video_wr :: "crt \<Rightarrow> nat \<Rightarrow> u16 \<Rightarrow> 'd console \<Rightarrow> 'd console" where
  "video_wr b i v s = (if b = CGA \<and> \<not> has_cga s then s else s\<lparr>video := (video s)(b := (video s b)(i := v))\<rparr>)"

section \<open>Serial and parallel port\<close>

definition COM1 :: u16 where "COM1 = 0x3F8"

definition delay :: "'d io \<Rightarrow> 'd console \<Rightarrow> 'd console" where
  "delay io s = snd (port_in io 0x84 (snd (port_in io 0x84 (snd (port_in io 0x84 (snd (port_in io 0x84 s)))))))"

definition serial_proc_data :: "'d io \<Rightarrow> 'd console \<Rightarrow> (int \<times> 'd console) res" where
  "serial_proc_data io s =
     (let (lsr, s) = port_in io (COM1 + 5) s in
      if lsr AND 0x01 = 0 then Inr (- 1, s)
      else let (c, s) = port_in io (COM1 + 0) s in Inr (uint c, s))"

text \<open>Waiting for a port with a bound on the number of attempts; \<open>n\<close> is what is left of the 12800.\<close>

fun wait_port :: "'d io \<Rightarrow> u16 \<Rightarrow> u8 \<Rightarrow> nat \<Rightarrow> 'd console \<Rightarrow> 'd console" where
  "wait_port io p msk n s =
     (let (v, s) = port_in io p s in
      if v AND msk \<noteq> 0 then s
      else case n of 0 \<Rightarrow> s | Suc n \<Rightarrow> wait_port io p msk n (delay io s))"

declare wait_port.simps [simp del]

definition serial_putc :: "'d io \<Rightarrow> u32 \<Rightarrow> 'd console \<Rightarrow> 'd console" where
  "serial_putc io c s = port_out io (COM1 + 0) (ucast c) (wait_port io (COM1 + 5) 0x20 12800 s)"

definition serial_init :: "'d io \<Rightarrow> 'd console \<Rightarrow> 'd console" where
  "serial_init io s =
     (let s = port_out io (COM1 + 2) 0 s;
          s = port_out io (COM1 + 3) 0x80 s;
          s = port_out io (COM1 + 0) 12 s;
          s = port_out io (COM1 + 1) 0 s;
          s = port_out io (COM1 + 3) (0x03 AND NOT 0x80) s;
          s = port_out io (COM1 + 4) 0 s;
          s = port_out io (COM1 + 1) 0x01 s;
          (lsr, s) = port_in io (COM1 + 5) s;
          s = s\<lparr>serial_exists := lsr \<noteq> 0xFF\<rparr>;
          (_, s) = port_in io (COM1 + 2) s;
          (_, s) = port_in io (COM1 + 0) s
      in s)"

definition lpt_putc :: "'d io \<Rightarrow> u32 \<Rightarrow> 'd console \<Rightarrow> 'd console" where
  "lpt_putc io c s =
     (let s = wait_port io (0x378 + 1) 0x80 12800 s;
          s = port_out io (0x378 + 0) (ucast c) s;
          s = port_out io (0x378 + 2) (0x08 OR 0x04 OR 0x01) s
      in port_out io (0x378 + 2) 0x08 s)"

section \<open>Text display\<close>

definition CRT_COLS :: nat where "CRT_COLS = 80"
definition CRT_SIZE :: nat where "CRT_SIZE = 25 * 80"

definition cga_init :: "'d io \<Rightarrow> 'd console \<Rightarrow> 'd console" where
  "cga_init io s =
     (let was = video s CGA 0;
          s = video_wr CGA 0 0xA55A s;
          (cp, addr, s) = (if video s CGA 0 \<noteq> 0xA55A then (MONO, 0x3B4, s) else (CGA, 0x3D4, video_wr CGA 0 was s));
          s = s\<lparr>addr_6845 := addr\<rparr>;
          s = port_out io (addr_6845 s) 14 s;
          (hi, s) = port_in io (addr_6845 s + 1) s;
          s = port_out io (addr_6845 s) 15 s;
          (lo, s) = port_in io (addr_6845 s + 1) s
      in s\<lparr>crt_buf := cp, crt_pos := push_bit 8 (ucast hi) OR ucast lo\<rparr>)"

text \<open>The scrolling and the cursor at the end of \<^verbatim>\<open>cga_putc\<close>.\<close>

fun blank_from :: "crt \<Rightarrow> nat list \<Rightarrow> 'd console \<Rightarrow> 'd console" where
  "blank_from b [] s = s"
| "blank_from b (i # is) s = blank_from b is (video_wr b i (0x0700 OR 32) s)"

fun copy_up :: "crt \<Rightarrow> nat list \<Rightarrow> 'd console \<Rightarrow> 'd console" where
  "copy_up b [] s = s"
| "copy_up b (i # is) s = copy_up b is (video_wr b i (video s b (i + CRT_COLS)) s)"

definition cga_scroll :: "'d console \<Rightarrow> 'd console" where
  "cga_scroll s =
     (if unat (crt_pos s) \<ge> CRT_SIZE then
        let s = copy_up (crt_buf s) [0..<CRT_SIZE - CRT_COLS] s;
            s = blank_from (crt_buf s) [CRT_SIZE - CRT_COLS..<CRT_SIZE] s
        in s\<lparr>crt_pos := crt_pos s - 80\<rparr>
      else s)"

definition cga_cursor :: "'d io \<Rightarrow> 'd console \<Rightarrow> 'd console" where
  "cga_cursor io s =
     (let s = port_out io (addr_6845 s) 14 s;
          s = port_out io (addr_6845 s + 1) (ucast (drop_bit 8 (crt_pos s))) s;
          s = port_out io (addr_6845 s) 15 s
      in port_out io (addr_6845 s + 1) (ucast (crt_pos s)) s)"

text \<open>The tabulator is printed as five spaces through \<^verbatim>\<open>cons_putc\<close>, so that both functions are mutually recursive.\<close>

lemma or_attr_low: "(c OR 0x0700) AND 0xff = c AND (0xff :: u32)"
  by (simp add: bit.conj_disj_distrib2)

function (sequential) cga_putc :: "'d io \<Rightarrow> u32 \<Rightarrow> 'd console \<Rightarrow> 'd console"
  and cons_putc :: "'d io \<Rightarrow> u32 \<Rightarrow> 'd console \<Rightarrow> 'd console" where
  "cga_putc io c0 s =
     (let c = (if c0 AND NOT 0xFF = 0 then c0 OR 0x0700 else c0) in
      cga_cursor io (cga_scroll
        (if c AND 0xff = 8 then
           if crt_pos s > 0 then
             let s = s\<lparr>crt_pos := crt_pos s - 1\<rparr>
             in video_wr (crt_buf s) (unat (crt_pos s)) (ucast (c AND NOT 0xff OR 32)) s
           else s
         else if c AND 0xff = 10 then
           let s = s\<lparr>crt_pos := crt_pos s + 80\<rparr>
           in s\<lparr>crt_pos := crt_pos s - crt_pos s mod 80\<rparr>
         else if c AND 0xff = 13 then s\<lparr>crt_pos := crt_pos s - crt_pos s mod 80\<rparr>
         else if c AND 0xff = 9 then
           cons_putc io 32 (cons_putc io 32 (cons_putc io 32 (cons_putc io 32 (cons_putc io 32 s))))
         else
           let s' = video_wr (crt_buf s) (unat (crt_pos s)) (ucast c) s
           in s'\<lparr>crt_pos := crt_pos s + 1\<rparr>)))"
| "cons_putc io c s = cga_putc io c (lpt_putc io c (serial_putc io c s))"
  by pat_completeness auto
termination
  by (relation "measure (\<lambda>x. case x of Inl (io, c, s) \<Rightarrow> if c AND 0xff = 9 then 2 else 0 | Inr (io, c, s) \<Rightarrow> if c AND 0xff = 9 then 3 else 1)")
    (auto simp: or_attr_low split: if_splits)

declare cga_putc.simps [simp del] cons_putc.simps [simp del]

section \<open>kernel/printf.c\<close>

text \<open>
  \<^verbatim>\<open>putch\<close> increments its pointer to the counter and not the counter, so that the counter of \<^verbatim>\<open>vcprintf\<close> stays 0.
  The characters of \<^verbatim>\<open>vprintfmt\<close> are printed in order. The console lock is taken unless this CPU has it.
\<close>

definition putch :: "'d io \<Rightarrow> u8 \<Rightarrow> 'd console \<Rightarrow> 'd console" where
  "putch io ch s = cons_putc io (ucast ch) s"

definition vcprintf :: "'d io \<Rightarrow> u8 list \<Rightarrow> arg list \<Rightarrow> 'd console \<Rightarrow> (int \<times> 'd console) res" where
  "vcprintf io fmt ap s =
     (let already_locked = (lock_cpu (con_lock s) = Some (con_cpu s)) in
      rbind (if already_locked then Inr s else rbind (spin_lock (con_lock s) (con_cpu s) [] 0) (\<lambda>l. Inr (s\<lparr>con_lock := l\<rparr>))) (\<lambda>s.
      rbind (vprintfmt fmt ap) (\<lambda>out.
      let s = fold (putch io) out s in
      rbind (if already_locked then Inr s else rbind (spin_unlock (con_lock s) (con_cpu s)) (\<lambda>l. Inr (s\<lparr>con_lock := l\<rparr>))) (\<lambda>s.
      Inr (0, s)))))"

definition cprintf :: "'d io \<Rightarrow> u8 list \<Rightarrow> arg list \<Rightarrow> 'd console \<Rightarrow> (int \<times> 'd console) res" where
  "cprintf io fmt ap s = vcprintf io fmt ap s"

section \<open>Keyboard\<close>

definition SHIFT :: u32 where "SHIFT = 1"
definition CTL :: u32 where "CTL = 2"
definition ALT :: u32 where "ALT = 4"
definition CAPSLOCK :: u32 where "CAPSLOCK = 8"
definition NUMLOCK :: u32 where "NUMLOCK = 16"
definition SCROLLLOCK :: u32 where "SCROLLLOCK = 32"
definition E0ESC :: u32 where "E0ESC = 64"
definition KEY_DEL :: u8 where "KEY_DEL = 0xE9"

definition shiftcode :: "u8 \<Rightarrow> u32" where
  "shiftcode k = (if k = 0x1D \<or> k = 0x9D then CTL else if k = 0x2A \<or> k = 0x36 then SHIFT else if k = 0x38 \<or> k = 0xB8 then ALT else 0)"

definition togglecode :: "u8 \<Rightarrow> u32" where
  "togglecode k = (if k = 0x3A then CAPSLOCK else if k = 0x45 then NUMLOCK else if k = 0x46 then SCROLLLOCK else 0)"

text \<open>A table starts with the listed codes; the others are 0 but for the extended keys.\<close>

definition table :: "u8 list \<Rightarrow> (u8 \<times> u8) list \<Rightarrow> u8 \<Rightarrow> u8" where
  "table cs ext k = (case map_of ext k of Some c \<Rightarrow> c | None \<Rightarrow> if unat k < length cs then cs ! unat k else 0)"

definition extended :: "(u8 \<times> u8) list" where
  "extended = [(0xC8, 0xE2), (0xC9, 0xE6), (0xCB, 0xE4), (0xCD, 0xE5), (0xCF, 0xE1), (0xD0, 0xE3), (0xD1, 0xE7), (0xD2, 0xE8), (0xD3, KEY_DEL)]"

definition keypad :: "u8 list" where
  "keypad = ascii ''789-456+1230.'' @ [0, 0, 0, 0]"

definition normalmap :: "u8 \<Rightarrow> u8" where
  "normalmap = table
     ([0, 0x1B] @ ascii ''1234567890-='' @ [8, 9] @ ascii ''qwertyuiop[]'' @ [10, 0] @ ascii ''asdfghjkl;'' @ [39] @ ascii ''`'' @ [0, 92] @
      ascii ''zxcvbnm,./'' @ [0] @ ascii ''*'' @ [0, 32] @ replicate 13 0 @ keypad)
     ([(0xC7, 0xE0), (0x9C, 10), (0xB5, 47)] @ extended)"

definition shiftmap :: "u8 \<Rightarrow> u8" where
  "shiftmap = table
     ([0, 27] @ ascii ''!@#$%^&*()_+'' @ [8, 9] @ ascii ''QWERTYUIOP{}'' @ [10, 0] @ ascii ''ASDFGHJKL:'' @ [34] @ ascii ''~'' @ [0, 124] @
      ascii ''ZXCVBNM<>?'' @ [0] @ ascii ''*'' @ [0, 32] @ replicate 13 0 @ keypad)
     ([(0xC7, 0xE0), (0x9C, 10), (0xB5, 47)] @ extended)"

definition ctl :: "string \<Rightarrow> u8 list" where
  "ctl cs = map (\<lambda>c. c - 64) (ascii cs)"

definition ctlmap :: "u8 \<Rightarrow> u8" where
  "ctlmap = table
     (replicate 16 0 @ ctl ''QWERTYUIOP'' @ [0, 0, 13, 0] @ ctl ''ASDFGHJKL'' @ [0, 0, 0, 0, 92 - 64] @ ctl ''ZXCVBNM'' @ [0, 0, 47 - 64, 0, 0])
     ([(0x97, 0xE0), (0xB5, 47 - 64)] @ extended)"

definition charcode :: "u32 \<Rightarrow> u8 \<Rightarrow> u8" where
  "charcode i = (if i = 0 then normalmap else if i = 1 then shiftmap else ctlmap)"

text \<open>The decoding of one byte from the keyboard: the new state of the modifiers and the character.\<close>

definition caps_letter :: "u32 \<Rightarrow> int \<Rightarrow> int" where
  "caps_letter sh c =
     (if sh AND CAPSLOCK \<noteq> 0 then if 97 \<le> c \<and> c \<le> 122 then c + (65 - 97) else if 65 \<le> c \<and> c \<le> 90 then c + (97 - 65) else c else c)"

definition kbd_decode :: "u8 \<Rightarrow> u32 \<Rightarrow> int \<times> u32" where
  "kbd_decode data sh =
     (if data = 0xE0 then (0, sh OR E0ESC)
      else if data AND 0x80 \<noteq> 0 then
        let data = (if sh AND E0ESC \<noteq> 0 then data else data AND 0x7F)
        in (0, sh AND NOT (shiftcode data OR E0ESC))
      else
        let (data, sh) = (if sh AND E0ESC \<noteq> 0 then (data OR 0x80, sh AND NOT E0ESC) else (data, sh));
            sh = sh OR shiftcode data;
            sh = sh XOR togglecode data
        in (caps_letter sh (uint (charcode (sh AND (CTL OR SHIFT)) data)), sh))"

definition kbd_proc_data :: "'d io \<Rightarrow> 'd console \<Rightarrow> (int \<times> 'd console) res" where
  "kbd_proc_data io s =
     (let (st, s) = port_in io 0x64 s in
      if st AND 0x01 = 0 then Inr (- 1, s)
      else
        let (data, s) = port_in io 0x60 s;
            (c, sh) = kbd_decode data (shift s);
            s = s\<lparr>shift := sh\<rparr>
        in if NOT sh AND (CTL OR ALT) = 0 \<and> c = uint KEY_DEL
           then rbind (cprintf io (ascii ''Rebooting!'' @ [10]) [] s) (\<lambda>(_, s). Inr (c, port_out io 0x92 0x3 s))
           else Inr (c, s))"

section \<open>Input buffer\<close>

definition CONSBUFSIZE :: u32 where "CONSBUFSIZE = 512"

definition ring_put :: "u8 \<Rightarrow> ring \<Rightarrow> ring" where
  "ring_put c r =
     (let w = wpos r + 1
      in r\<lparr>ring_buf := (ring_buf r)(unat (wpos r) := c), wpos := (if w = CONSBUFSIZE then 0 else w)\<rparr>)"

partial_function (option) cons_intr :: "('d console \<Rightarrow> (int \<times> 'd console) res) \<Rightarrow> 'd console \<Rightarrow> 'd console res option" where
  "cons_intr proc s =
     (case proc s of Inl e \<Rightarrow> Some (Inl e)
      | Inr cs \<Rightarrow>
        if fst cs = - 1 then Some (Inr (snd cs))
        else if fst cs = 0 then cons_intr proc (snd cs)
        else cons_intr proc ((snd cs)\<lparr>cons := ring_put (of_int (fst cs)) (cons (snd cs))\<rparr>))"

definition serial_intr :: "'d io \<Rightarrow> 'd console \<Rightarrow> 'd console res option" where
  "serial_intr io s = (if serial_exists s then cons_intr (serial_proc_data io) s else Some (Inr s))"

definition kbd_intr :: "'d io \<Rightarrow> 'd console \<Rightarrow> 'd console res option" where
  "kbd_intr io s = cons_intr (kbd_proc_data io) s"

definition kbd_init :: "'d io \<Rightarrow> 'd console \<Rightarrow> 'd console res option" where
  "kbd_init io s =
     map_option (\<lambda>r. rbind r (\<lambda>s. rbind (pic_enable_irq io 1 (dev s)) (\<lambda>d. Inr (s\<lparr>dev := d\<rparr>)))) (kbd_intr io s)"

definition ring_get :: "ring \<Rightarrow> int \<times> ring" where
  "ring_get r =
     (if rpos r \<noteq> wpos r then
        let p = rpos r + 1
        in (uint (ring_buf r (unat (rpos r))), r\<lparr>rpos := (if p = CONSBUFSIZE then 0 else p)\<rparr>)
      else (0, r))"

text \<open>Sequencing of code that may not end and may stop.\<close>

definition obind :: "'a res option \<Rightarrow> ('a \<Rightarrow> 'b res option) \<Rightarrow> 'b res option" where
  "obind m f = (case m of None \<Rightarrow> None | Some (Inl e) \<Rightarrow> Some (Inl e) | Some (Inr x) \<Rightarrow> f x)"

definition cons_getc :: "'d io \<Rightarrow> 'd console \<Rightarrow> (int \<times> 'd console) res option" where
  "cons_getc io s =
     obind (serial_intr io s) (\<lambda>s.
     obind (kbd_intr io s) (\<lambda>s.
     case ring_get (cons s) of (c, r) \<Rightarrow> Some (Inr (c, s\<lparr>cons := r\<rparr>))))"

definition cons_init :: "'d io \<Rightarrow> 'd console \<Rightarrow> 'd console res option" where
  "cons_init io s =
     obind (kbd_init io (cga_init io s)) (\<lambda>s.
     let s = serial_init io s
     in Some (if \<not> serial_exists s then rbind (cprintf io (ascii ''Serial port does not exist!'' @ [10]) [] s) (\<lambda>(_, s). Inr s) else Inr s))"

definition cputchar :: "'d io \<Rightarrow> int \<Rightarrow> 'd console \<Rightarrow> 'd console" where
  "cputchar io c s = cons_putc io (of_int c) s"

partial_function (option) getchar :: "'d io \<Rightarrow> 'd console \<Rightarrow> (int \<times> 'd console) res option" where
  "getchar io s =
     (case cons_getc io s of None \<Rightarrow> None
      | Some (Inl e) \<Rightarrow> Some (Inl e)
      | Some (Inr cs) \<Rightarrow> if fst cs = 0 then getchar io (snd cs) else Some (Inr cs))"

section \<open>lib/readline.c\<close>

definition BUFLEN :: nat where "BUFLEN = 1024"

text \<open>
  The loop of \<^verbatim>\<open>readline\<close> in the kernel, where \<^verbatim>\<open>iscons\<close> is 1: \<open>b\<close> is the static buffer, \<open>i\<close> the number of characters in it. The
  result is the buffer, or \<open>None\<close> for the null pointer after an error.
\<close>

partial_function (option) readline_loop :: "'d io \<Rightarrow> nat \<Rightarrow> (nat \<Rightarrow> u8) \<Rightarrow> 'd console \<Rightarrow> ((nat \<Rightarrow> u8) option \<times> 'd console) res option" where
  "readline_loop io i b s =
     (case getchar io s of None \<Rightarrow> None
      | Some (Inl e) \<Rightarrow> Some (Inl e)
      | Some (Inr (c, s)) \<Rightarrow>
        if c < 0 then Some (rbind (cprintf io (ascii ''read error: %e'' @ [10]) [Word (of_int c)] s) (\<lambda>(_, s). Inr (None, s)))
        else if (c = 8 \<or> c = 0x7f) \<and> i > 0 then readline_loop io (i - 1) b (cputchar io 8 s)
        else if c \<ge> 32 \<and> i < BUFLEN - 1 then readline_loop io (i + 1) (b(i := of_int c)) (cputchar io c s)
        else if c = 10 \<or> c = 13 then Some (Inr (Some (b(i := 0)), cputchar io 10 s))
        else readline_loop io i b s)"

definition readline :: "'d io \<Rightarrow> u8 list option \<Rightarrow> (nat \<Rightarrow> u8) \<Rightarrow> 'd console \<Rightarrow> ((nat \<Rightarrow> u8) option \<times> 'd console) res option" where
  "readline io prompt b s =
     obind (Some (case prompt of None \<Rightarrow> Inr (0, s) | Some p \<Rightarrow> cprintf io (ascii ''%s'') [Text (Some p)] s)) (\<lambda>(_, s).
     readline_loop io 0 b s)"

end
