(* ===== verification/Console_Props.thy ===== *)
theory Console_Props
  imports Console
begin

text \<open>
  Properties of the console: the circular input buffer is a queue (the devices that feed it are interpretations of the locale \<open>input_source\<close>),
  printing stays on the screen, the keyboard decoder maps letters, and the line editor returns the edited line.
\<close>

section \<open>The input buffer as a queue\<close>

definition ring_ok :: "ring \<Rightarrow> bool" where
  "ring_ok r \<longleftrightarrow> unat (rpos r) < 512 \<and> unat (wpos r) < 512"

definition waiting :: "ring \<Rightarrow> nat" where
  "waiting r = (if unat (rpos r) \<le> unat (wpos r) then unat (wpos r) - unat (rpos r) else unat (wpos r) + 512 - unat (rpos r))"

definition pending :: "ring \<Rightarrow> u8 list" where
  "pending r = map (\<lambda>i. ring_buf r ((unat (rpos r) + i) mod 512)) [0..<waiting r]"

lemma wrap512: "x < 1024 \<Longrightarrow> x mod 512 = (if x < 512 then x else x - 512 :: nat)"
  by (simp add: le_mod_geq)

text \<open>Moving a position of the buffer on.\<close>

lemma advance:
  assumes "unat p < 512"
  shows "unat (if p + 1 = CONSBUFSIZE then 0 else p + 1 :: u32) = (unat p + 1) mod 512"
proof -
  have u: "unat (p + 1) = unat p + 1" using assms by (simp add: unat_word_ariths(1))
  then have "p + 1 = CONSBUFSIZE \<longleftrightarrow> unat p + 1 = 512" by (simp add: word_unat_eq_iff CONSBUFSIZE_def)
  then show ?thesis using u assms by auto
qed

lemma ring_put_queue:
  assumes "ring_ok r"
  shows "ring_ok (ring_put c r)" "pending (ring_put c r) = (if length (pending r) < 511 then pending r @ [c] else [])"
proof -
  let ?R = "unat (rpos r)" and ?W = "unat (wpos r)"
  have b: "?R < 512" "?W < 512" using assms by (simp_all add: ring_ok_def)
  have w: "unat (wpos (ring_put c r)) = (?W + 1) mod 512" and same: "rpos (ring_put c r) = rpos r" "ring_buf (ring_put c r) = (ring_buf r)(?W := c)"
    using advance [OF b(2)] by (simp_all add: ring_put_def Let_def)
  show "ring_ok (ring_put c r)" using b by (simp add: ring_ok_def w same)
  have n: "waiting r < 512" "?W = (?R + waiting r) mod 512" using b by (auto simp: waiting_def wrap512)
  have other: "(?R + i) mod 512 \<noteq> ?W" if "i < waiting r" for i using that b by (auto simp: waiting_def wrap512 split: if_splits)
  show "pending (ring_put c r) = (if length (pending r) < 511 then pending r @ [c] else [])"
  proof (cases "waiting r < 511")
    case True
    then have "waiting (ring_put c r) = Suc (waiting r)" using b unfolding waiting_def w same by (auto simp: wrap512 split: if_splits)
    then show ?thesis using True other n(2) by (simp add: pending_def same)
  next
    case False
    then have "waiting (ring_put c r) = 0" using b unfolding waiting_def w same by (auto simp: wrap512 split: if_splits)
    then show ?thesis using False by (simp add: pending_def)
  qed
qed

lemma ring_get_queue:
  assumes "ring_ok r"
  shows "case pending r of [] \<Rightarrow> ring_get r = (0, r) | c # cs \<Rightarrow> (\<exists>r'. ring_get r = (uint c, r') \<and> pending r' = cs \<and> ring_ok r')"
proof (cases "rpos r = wpos r")
  case True
  then show ?thesis by (simp add: pending_def waiting_def ring_get_def)
next
  case False
  let ?R = "unat (rpos r)" and ?W = "unat (wpos r)" and ?r = "snd (ring_get r)"
  have b: "?R < 512" "?W < 512" using assms by (simp_all add: ring_ok_def)
  have ne: "?R \<noteq> ?W" using False by (simp add: word_unat_eq_iff)
  have rp: "unat (rpos ?r) = (?R + 1) mod 512" and same: "wpos ?r = wpos r" "ring_buf ?r = ring_buf r" and c: "fst (ring_get r) = uint (ring_buf r ?R)"
    using advance [OF b(1)] False by (simp_all add: ring_get_def Let_def)
  obtain n where n: "waiting r = Suc n" using b ne by (cases "waiting r") (auto simp: waiting_def split: if_splits)
  have n': "waiting ?r = n" using n b ne unfolding waiting_def rp same by (auto simp: wrap512 split: if_splits)
  have "pending r = ring_buf r ?R # map (\<lambda>i. ring_buf r ((?R + Suc i) mod 512)) [0..<n]"
    unfolding pending_def n using b(1) by (simp add: upt_conv_Cons map_Suc_upt [symmetric] del: upt_Suc)
  moreover have "pending ?r = map (\<lambda>i. ring_buf r ((?R + Suc i) mod 512)) [0..<n]"
    unfolding pending_def n' rp same by (simp add: mod_simps)
  moreover have "ring_ok ?r" using b by (simp add: ring_ok_def rp same)
  ultimately show ?thesis using c by (auto intro!: exI [of _ ?r] simp: prod_eq_iff)
qed

lemma fold_ring_put:
  assumes "ring_ok r" and "length (pending r) + length cs < 512"
  shows "ring_ok (fold ring_put cs r)" "pending (fold ring_put cs r) = pending r @ cs"
  using assms
proof (induction cs arbitrary: r)
  case (Cons c cs)
  {
    case 1
    then show ?case using Cons.IH(1) [of "ring_put c r"] ring_put_queue [of r c] by simp
  next
    case 2
    then show ?case using Cons.IH(2) [of "ring_put c r"] ring_put_queue [of r c] by simp
  }
qed simp_all

section \<open>Sources of input\<close>

text \<open>
  What a device delivers through its function until that reports that nothing is left: the characters other
  than 0, which only say that a key was handled.
\<close>

inductive emits :: "('d console \<Rightarrow> (int \<times> 'd console) res) \<Rightarrow> 'd console \<Rightarrow> u8 list \<Rightarrow> 'd console \<Rightarrow> bool" for proc where
  stop: "proc s = Inr (- 1, s') \<Longrightarrow> emits proc s [] s'"
| skip: "proc s = Inr (0, s1) \<Longrightarrow> emits proc s1 cs s' \<Longrightarrow> emits proc s cs s'"
| char: "proc s = Inr (c, s1) \<Longrightarrow> c \<noteq> - 1 \<Longrightarrow> c \<noteq> 0 \<Longrightarrow> emits proc s1 cs s' \<Longrightarrow> emits proc s (of_int c # cs) s'"

text \<open>A source that neither reads nor writes the input buffer.\<close>

definition with_ring :: "ring \<Rightarrow> int \<times> 'd console \<Rightarrow> int \<times> 'd console" where
  "with_ring r = (\<lambda>(c, s). (c, s\<lparr>cons := r\<rparr>))"

locale input_source =
  fixes proc :: "'d console \<Rightarrow> (int \<times> 'd console) res"
  assumes frame: "proc (s\<lparr>cons := r\<rparr>) = rbind (proc s) (\<lambda>x. Inr (with_ring r x))"
begin

lemma step_frame: "proc s = Inr (c, s') \<Longrightarrow> proc (s\<lparr>cons := r\<rparr>) = Inr (c, s'\<lparr>cons := r\<rparr>)"
  by (simp add: frame with_ring_def)

lemma cons_intr_emits: "emits proc s cs s' \<Longrightarrow> cons_intr proc (s\<lparr>cons := r\<rparr>) = Some (Inr (s'\<lparr>cons := fold ring_put cs r\<rparr>))"
proof (induction arbitrary: r rule: emits.induct)
  case (stop s s')
  then show ?case by (simp add: cons_intr.simps [of proc "s\<lparr>cons := r\<rparr>"] step_frame)
next
  case (skip s s1 cs s')
  then show ?case by (simp add: cons_intr.simps [of proc "s\<lparr>cons := r\<rparr>"] step_frame)
next
  case (char s c s1 cs s')
  then show ?case by (simp add: cons_intr.simps [of proc "s\<lparr>cons := r\<rparr>"] step_frame)
qed

end
text \<open>No output function touches the input buffer.\<close>

named_theorems ring_frame \<open>operations that leave the input buffer alone\<close>

lemma port_frame [ring_frame]:
  "port_in io p (s\<lparr>cons := r\<rparr>) = (fst (port_in io p s), (snd (port_in io p s))\<lparr>cons := r\<rparr>)"
  "port_out io p v (s\<lparr>cons := r\<rparr>) = (port_out io p v s)\<lparr>cons := r\<rparr>"
  "video_wr b i x (s\<lparr>cons := r\<rparr>) = (video_wr b i x s)\<lparr>cons := r\<rparr>"
  by (simp_all add: port_in_def port_out_def video_wr_def split: prod.splits)

lemma delay_frame [ring_frame]: "delay io (s\<lparr>cons := r\<rparr>) = (delay io s)\<lparr>cons := r\<rparr>"
  by (simp add: delay_def ring_frame)

lemma wait_port_step:
  "wait_port io p msk 0 s = snd (port_in io p s)"
  "wait_port io p msk (Suc n) s =
     (if fst (port_in io p s) AND msk \<noteq> 0 then snd (port_in io p s) else wait_port io p msk n (delay io (snd (port_in io p s))))"
  by (subst wait_port.simps, cases "port_in io p s", simp)+

lemma wait_port_frame [ring_frame]: "wait_port io p msk n (s\<lparr>cons := r\<rparr>) = (wait_port io p msk n s)\<lparr>cons := r\<rparr>"
  by (induction n arbitrary: s) (simp_all add: wait_port_step ring_frame)

lemma putc_frame [ring_frame]:
  "serial_putc io c (s\<lparr>cons := r\<rparr>) = (serial_putc io c s)\<lparr>cons := r\<rparr>" "lpt_putc io c (s\<lparr>cons := r\<rparr>) = (lpt_putc io c s)\<lparr>cons := r\<rparr>"
  by (simp_all add: serial_putc_def lpt_putc_def Let_def ring_frame)

lemma scroll_frame [ring_frame]:
  "copy_up b is (s\<lparr>cons := r\<rparr>) = (copy_up b is s)\<lparr>cons := r\<rparr>" "blank_from b is (s\<lparr>cons := r\<rparr>) = (blank_from b is s)\<lparr>cons := r\<rparr>"
  by (induction "is" arbitrary: s) (simp_all add: ring_frame)

lemma cursor_frame [ring_frame]: "cga_scroll (s\<lparr>cons := r\<rparr>) = (cga_scroll s)\<lparr>cons := r\<rparr>" "cga_cursor io (s\<lparr>cons := r\<rparr>) = (cga_cursor io s)\<lparr>cons := r\<rparr>"
  by (simp_all add: cga_scroll_def cga_cursor_def Let_def ring_frame)

text \<open>One character that is not a tabulator, and the equation of a tabulator.\<close>

definition plain :: "u32 \<Rightarrow> 'd console \<Rightarrow> 'd console" where
  "plain c s =
     (if c AND 0xff = 8 then
        if crt_pos s > 0 then
          let s = s\<lparr>crt_pos := crt_pos s - 1\<rparr>
          in video_wr (crt_buf s) (unat (crt_pos s)) (ucast (c AND NOT 0xff OR 32)) s
        else s
      else if c AND 0xff = 10 then
        let s = s\<lparr>crt_pos := crt_pos s + 80\<rparr>
        in s\<lparr>crt_pos := crt_pos s - crt_pos s mod 80\<rparr>
      else if c AND 0xff = 13 then s\<lparr>crt_pos := crt_pos s - crt_pos s mod 80\<rparr>
      else
        let s' = video_wr (crt_buf s) (unat (crt_pos s)) (ucast c) s
        in s'\<lparr>crt_pos := crt_pos s + 1\<rparr>)"

definition attr :: "u32 \<Rightarrow> u32" where
  "attr c = (if c AND NOT 0xFF = 0 then c OR 0x0700 else c)"

lemma attr_low: "attr c AND 0xff = c AND 0xff"
  by (simp add: attr_def or_attr_low)

lemma cga_putc_plain: "c AND 0xff \<noteq> 9 \<Longrightarrow> cga_putc io c s = cga_cursor io (cga_scroll (plain (attr c) s))"
  by (subst cga_putc.simps) (simp add: plain_def attr_def Let_def or_attr_low)

lemma cga_putc_tab: "c AND 0xff = 9 \<Longrightarrow> cga_putc io c s = cga_cursor io (cga_scroll
    (cons_putc io 32 (cons_putc io 32 (cons_putc io 32 (cons_putc io 32 (cons_putc io 32 s))))))"
  by (subst cga_putc.simps) (simp add: Let_def or_attr_low)

text \<open>What every step of printing keeps, printing keeps.\<close>

lemma cons_putc_rule:
  assumes out: "\<And>p v s. P s \<Longrightarrow> P (port_out io p v s)" and inp: "\<And>p s. P s \<Longrightarrow> P (snd (port_in io p s))"
    and draw: "\<And>c s. c AND 0xff \<noteq> 9 \<Longrightarrow> P s \<Longrightarrow> P (cga_scroll (plain c s))" and scroll: "\<And>s. P s \<Longrightarrow> P (cga_scroll s)" and s: "P s"
  shows "P (cons_putc io c s)"
proof -
  have w: "P (wait_port io p msk n s)" if "P s" for p msk n s
    using that by (induction n arbitrary: s) (simp_all add: wait_port_step delay_def inp)
  have ports: "P (lpt_putc io c (serial_putc io c s))" if "P s" for c s using that by (simp add: lpt_putc_def serial_putc_def Let_def w out)
  have cursor: "P (cga_cursor io s)" if "P s" for s using that by (simp add: cga_cursor_def Let_def out)
  have plain: "P (cons_putc io c s)" if "P s" "c AND 0xff \<noteq> 9" for c s
    using that by (subst cons_putc.simps) (simp add: cga_putc_plain cursor draw attr_low ports)
  have "P (cga_putc io c s)" if "P s" "c AND 0xff = 9" for c s using that by (simp add: cga_putc_tab cursor scroll plain)
  then show ?thesis using plain [OF s, of c] ports [OF s, of c] cons_putc.simps [of io c s] by (cases "c AND 0xff = 9") simp_all
qed
lemma plain_frame [ring_frame]: "plain c (s\<lparr>cons := r\<rparr>) = (plain c s)\<lparr>cons := r\<rparr>"
  by (simp add: plain_def Let_def video_wr_def)

lemma cons_putc_frame [ring_frame]: "cons_putc io c (s\<lparr>cons := r\<rparr>) = (cons_putc io c s)\<lparr>cons := r\<rparr>"
proof -
  have plain: "cons_putc io c (s\<lparr>cons := r\<rparr>) = (cons_putc io c s)\<lparr>cons := r\<rparr>" if "c AND 0xff \<noteq> 9" for c s
    using that by (simp add: cons_putc.simps cga_putc_plain ring_frame)
  show ?thesis
  proof (cases "c AND 0xff = 9")
    case True
    have "cons_putc io 32 (s\<lparr>cons := r\<rparr>) = (cons_putc io 32 s)\<lparr>cons := r\<rparr>" for s by (rule plain) simp
    with True show ?thesis unfolding cons_putc.simps [of io c] by (simp only: cga_putc_tab ring_frame)
  qed (rule plain)
qed

lemma fold_putch_frame [ring_frame]: "fold (putch io) out (s\<lparr>cons := r\<rparr>) = (fold (putch io) out s)\<lparr>cons := r\<rparr>"
  by (induction out arbitrary: s) (simp_all add: putch_def ring_frame)

lemma vcprintf_frame: "vcprintf io fmt ap (s\<lparr>cons := r\<rparr>) = rbind (vcprintf io fmt ap s) (\<lambda>x. Inr (with_ring r x))"
proof -
  have l: "s\<lparr>cons := r, con_lock := l\<rparr> = s\<lparr>con_lock := l\<rparr>\<lparr>cons := r\<rparr>" for l and s :: "'a console" by simp
  show ?thesis
    by (auto simp: vcprintf_def Let_def rbind_assoc l with_ring_def ring_frame simp del: console.update_convs intro!: rbind_cong split: if_splits)
qed

interpretation serial: input_source "serial_proc_data io" for io :: "'d io"
  by unfold_locales (simp add: serial_proc_data_def ring_frame with_ring_def Let_def split: prod.splits)

interpretation kbd: input_source "kbd_proc_data io" for io :: "'d io"
proof
  fix s :: "'d console" and r
  have sh: "s\<lparr>cons := r, shift := x\<rparr> = s\<lparr>shift := x\<rparr>\<lparr>cons := r\<rparr>" for x and s :: "'d console" by simp
  show "kbd_proc_data io (s\<lparr>cons := r\<rparr>) = rbind (kbd_proc_data io s) (\<lambda>x. Inr (with_ring r x))"
    by (auto simp: kbd_proc_data_def ring_frame with_ring_def Let_def cprintf_def sh vcprintf_frame rbind_assoc simp del: console.update_convs
        split: prod.splits intro!: rbind_cong)
qed

lemma cons_getc_queue:
  assumes "ring_ok (cons s)" and "serial_exists s" and "emits (serial_proc_data io) s bs s1" and "emits (kbd_proc_data io) s1 ks s2"
    and q: "q = pending (cons s) @ bs @ ks" "length q < 512"
  obtains r where "cons_getc io s = Some (Inr (case q of [] \<Rightarrow> 0 | c # _ \<Rightarrow> uint c, s2\<lparr>cons := r\<rparr>))" and "pending r = tl q" and "ring_ok r"
proof -
  let ?r = "fold ring_put bs (cons s)" let ?r' = "fold ring_put ks ?r"
  have r: "ring_ok ?r" "pending ?r = pending (cons s) @ bs" using fold_ring_put [OF assms(1)] q by simp_all
  have r': "ring_ok ?r'" "pending ?r' = q" using fold_ring_put [OF r(1)] r(2) q by simp_all
  have "serial_intr io s = Some (Inr (s1\<lparr>cons := ?r\<rparr>))" using serial.cons_intr_emits [OF assms(3), of "cons s"] assms(2) by (simp add: serial_intr_def)
  moreover have "kbd_intr io (s1\<lparr>cons := ?r\<rparr>) = Some (Inr (s2\<lparr>cons := ?r'\<rparr>))" using kbd.cons_intr_emits [OF assms(4)] by (simp add: kbd_intr_def)
  ultimately have "cons_getc io s = (case ring_get ?r' of (c, r) \<Rightarrow> Some (Inr (c, s2\<lparr>cons := r\<rparr>)))" by (simp add: cons_getc_def obind_def)
  then show thesis using ring_get_queue [OF r'(1)] r' by (cases q) (auto intro: that)
qed

text \<open>
  C31: The console input buffer is a first-in first-out queue: \<^verbatim>\<open>cons_getc\<close> appends what the serial port and the keyboard
  deliver, in this order, to the characters that wait, and returns the oldest one, or 0 when there is none, provided that no more
  than 511 characters wait at once; with one more the buffer loses all of them.
\<close>

theorem cons_getc_fifo:
  assumes "ring_ok (cons s)" and "serial_exists s" and "emits (serial_proc_data io) s bs s1" and "emits (kbd_proc_data io) s1 ks s2"
    and "q = pending (cons s) @ bs @ ks" and "length q < 512"
  shows "(\<exists>s'. cons_getc io s = Some (Inr (case q of [] \<Rightarrow> 0 | c # _ \<Rightarrow> uint c, s')) \<and> pending (cons s') = tl q \<and> ring_ok (cons s')) \<and>
    (length (pending (cons s)) = 511 \<longrightarrow> pending (ring_put c (cons s)) = [])"
proof (intro conjI impI)
  obtain r where "cons_getc io s = Some (Inr (case q of [] \<Rightarrow> 0 | c # _ \<Rightarrow> uint c, s2\<lparr>cons := r\<rparr>))" "pending r = tl q" "ring_ok r"
    using cons_getc_queue [OF assms] .
  then show "\<exists>s'. cons_getc io s = Some (Inr (case q of [] \<Rightarrow> 0 | c # _ \<Rightarrow> uint c, s')) \<and> pending (cons s') = tl q \<and> ring_ok (cons s')"
    by (intro exI [of _ "s2\<lparr>cons := r\<rparr>"]) simp
  show "pending (ring_put c (cons s)) = []" if "length (pending (cons s)) = 511" using ring_put_queue(2) [OF assms(1)] that by simp
qed
section \<open>The display\<close>

text \<open>What printing may change: the devices, the cursor, which stays on the screen, and the cells of the screen.\<close>

definition on_screen :: "'d console \<Rightarrow> 'd console \<Rightarrow> bool" where
  "on_screen s0 s \<longleftrightarrow> (\<exists>d v p. s = s0\<lparr>dev := d, video := v, crt_pos := p\<rparr> \<and> unat p < CRT_SIZE \<and>
     (\<forall>b i. b \<noteq> crt_buf s0 \<or> CRT_SIZE \<le> i \<longrightarrow> v b i = video s0 b i))"

text \<open>Cells of the screen that a function on the console has written.\<close>

definition draws :: "'d console \<Rightarrow> 'd console \<Rightarrow> u16 \<Rightarrow> bool" where
  "draws s s' p \<longleftrightarrow> (\<exists>v. s' = s\<lparr>video := v, crt_pos := p\<rparr> \<and> (\<forall>b i. b \<noteq> crt_buf s \<or> CRT_SIZE \<le> i \<longrightarrow> v b i = video s b i))"

lemma on_screen_draws: "on_screen s0 s \<Longrightarrow> draws s s' p \<Longrightarrow> unat p < CRT_SIZE \<Longrightarrow> on_screen s0 s'"
proof -
  assume "on_screen s0 s" "draws s s' p" and p: "unat p < CRT_SIZE"
  then obtain d v q w where s: "s = s0\<lparr>dev := d, video := v, crt_pos := q\<rparr>" "\<forall>b i. b \<noteq> crt_buf s0 \<or> CRT_SIZE \<le> i \<longrightarrow> v b i = video s0 b i"
      and w: "s' = s\<lparr>video := w, crt_pos := p\<rparr>" "\<forall>b i. b \<noteq> crt_buf s \<or> CRT_SIZE \<le> i \<longrightarrow> w b i = video s b i" unfolding on_screen_def draws_def by blast
  have "s' = s0\<lparr>dev := d, video := w, crt_pos := p\<rparr>" unfolding w(1) s(1) by simp
  moreover have "\<forall>b i. b \<noteq> crt_buf s0 \<or> CRT_SIZE \<le> i \<longrightarrow> w b i = video s0 b i" using w(2) s(2) unfolding s(1) by simp
  ultimately show ?thesis using p unfolding on_screen_def by blast
qed

lemma draws_trans: "draws s s' p \<Longrightarrow> draws s' s'' q \<Longrightarrow> draws s s'' q"
proof -
  assume "draws s s' p" "draws s' s'' q"
  then obtain v w where v: "s' = s\<lparr>video := v, crt_pos := p\<rparr>" "\<forall>b i. b \<noteq> crt_buf s \<or> CRT_SIZE \<le> i \<longrightarrow> v b i = video s b i"
      and w: "s'' = s'\<lparr>video := w, crt_pos := q\<rparr>" "\<forall>b i. b \<noteq> crt_buf s' \<or> CRT_SIZE \<le> i \<longrightarrow> w b i = video s' b i" unfolding draws_def by blast
  have "s'' = s\<lparr>video := w, crt_pos := q\<rparr>" unfolding w(1) v(1) by simp
  moreover have "\<forall>b i. b \<noteq> crt_buf s \<or> CRT_SIZE \<le> i \<longrightarrow> w b i = video s b i" using w(2) v(2) unfolding v(1) by simp
  ultimately show ?thesis unfolding draws_def by blast
qed

lemma draws_cell: "i < CRT_SIZE \<Longrightarrow> b = crt_buf s \<Longrightarrow> draws s (video_wr b i x s) (crt_pos s)"
  by (auto simp: draws_def video_wr_def intro: exI [of _ "video s"])

lemma draws_move: "draws s (s\<lparr>crt_pos := p\<rparr>) p"
  by (auto simp: draws_def intro: exI [of _ "video s"])

lemma draws_buf: "draws s s' p \<Longrightarrow> crt_buf s' = crt_buf s" "draws s s' p \<Longrightarrow> crt_pos s' = p"
  by (auto simp: draws_def)

lemma draws_cells:
  "(\<And>i. i \<in> set is \<Longrightarrow> i < CRT_SIZE) \<Longrightarrow> draws s (copy_up (crt_buf s) is s) (crt_pos s)"
  "(\<And>i. i \<in> set is \<Longrightarrow> i < CRT_SIZE) \<Longrightarrow> draws s (blank_from (crt_buf s) is s) (crt_pos s)"
proof (induction "is" arbitrary: s)
  case Nil
  {
    case 1
    then show ?case using draws_move [of s "crt_pos s"] by simp
  next
    case 2
    then show ?case using draws_move [of s "crt_pos s"] by simp
  }
next
  case (Cons i "is")
  {
    case 1
    have d: "draws s (video_wr (crt_buf s) i x s) (crt_pos s)" for x by (rule draws_cell) (use 1 in simp_all)
    show ?case using draws_trans [OF d Cons.IH(1)] 1 draws_buf [OF d] by (metis copy_up.simps(2) list.set_intros(2))
  next
    case 2
    have d: "draws s (video_wr (crt_buf s) i x s) (crt_pos s)" for x by (rule draws_cell) (use 2 in simp_all)
    show ?case using draws_trans [OF d Cons.IH(2)] 2 draws_buf [OF d] by (metis blank_from.simps(2) list.set_intros(2))
  }
qed

lemma draws_scroll:
  assumes "unat (crt_pos s) < CRT_SIZE + CRT_COLS"
  shows "\<exists>p. draws s (cga_scroll s) p \<and> unat p < CRT_SIZE"
proof (cases "unat (crt_pos s) \<ge> CRT_SIZE")
  case True
  let ?c = "copy_up (crt_buf s) [0..<CRT_SIZE - CRT_COLS] s"
  have c: "draws s ?c (crt_pos s)" by (rule draws_cells) simp
  have b: "draws ?c (blank_from (crt_buf ?c) [CRT_SIZE - CRT_COLS..<CRT_SIZE] ?c) (crt_pos ?c)" by (rule draws_cells) simp
  have "draws s (cga_scroll s) (crt_pos s - 80)"
    unfolding cga_scroll_def if_P [OF True] Let_def
    using draws_trans [OF draws_trans [OF c b] draws_move [of _ "crt_pos s - 80"]] draws_buf [OF c] draws_buf [OF b] by simp
  moreover have "(80 :: u16) \<le> crt_pos s" using True by (simp add: word_le_nat_alt CRT_SIZE_def)
  then have "unat (crt_pos s - 80) = unat (crt_pos s) - 80" by (simp add: unat_sub)
  ultimately show ?thesis using assms by (auto simp: CRT_COLS_def CRT_SIZE_def)
next
  case False
  then show ?thesis using draws_move [of s "crt_pos s"] by (intro exI [of _ "crt_pos s"]) (simp add: cga_scroll_def)
qed

lemma draws_plain:
  assumes "unat (crt_pos s) < CRT_SIZE"
  shows "\<exists>p. draws s (plain c s) p \<and> unat p < CRT_SIZE + CRT_COLS"
proof -
  let ?p = "crt_pos s"
  have lt: "unat ?p < 2000" using assms by (simp add: CRT_SIZE_def)
  have line: "unat (q - q mod 80) \<le> unat q" for q :: u16
  proof -
    have "q mod 80 \<le> q" by (simp add: word_le_nat_alt unat_mod)
    from unat_sub [OF this] show ?thesis by simp
  qed
  have add: "unat (?p + 80) = unat ?p + 80" "unat (?p + 1) = unat ?p + 1" using lt by (simp_all add: unat_word_ariths(1))
  consider "c AND 0xff = 8" "?p > 0" | "c AND 0xff = 8" "\<not> ?p > 0" | "c AND 0xff = 10" | "c AND 0xff = 13" | "c AND 0xff \<notin> {8, 10, 13}" by blast
  then show ?thesis
  proof cases
    case 1
    then have "1 \<le> ?p" by (simp add: word_le_nat_alt word_less_nat_alt)
    then have u: "unat (?p - 1) = unat ?p - 1" by (simp add: unat_sub)
    let ?s = "s\<lparr>crt_pos := ?p - 1\<rparr>"
    have "draws ?s (plain c s) (?p - 1)" using 1 draws_cell [of "unat (?p - 1)" "crt_buf ?s" ?s] u lt by (simp add: plain_def Let_def CRT_SIZE_def)
    then show ?thesis using draws_trans [OF draws_move] u lt by (intro exI [of _ "?p - 1"]) (auto simp: CRT_SIZE_def)
  next
    case 2
    then show ?thesis using draws_move [of s ?p] assms by (intro exI [of _ ?p]) (simp add: plain_def)
  next
    case 3
    then show ?thesis using draws_move [of s "?p + 80 - (?p + 80) mod 80"] line [of "?p + 80"] lt add
      by (intro exI [of _ "?p + 80 - (?p + 80) mod 80"]) (simp add: plain_def Let_def CRT_SIZE_def CRT_COLS_def)
  next
    case 4
    then show ?thesis using draws_move [of s "?p - ?p mod 80"] line [of ?p] lt
      by (intro exI [of _ "?p - ?p mod 80"]) (simp add: plain_def CRT_SIZE_def)
  next
    case 5
    let ?w = "video_wr (crt_buf s) (unat ?p) (ucast c) s"
    have "draws s (?w\<lparr>crt_pos := ?p + 1\<rparr>) (?p + 1)" by (rule draws_trans [OF draws_cell draws_move]) (use assms in simp_all)
    then show ?thesis using 5 lt add by (intro exI [of _ "?p + 1"]) (simp add: plain_def Let_def CRT_SIZE_def CRT_COLS_def)
  qed
qed
lemma on_screen_refl: "unat (crt_pos s) < CRT_SIZE \<Longrightarrow> on_screen s s"
  unfolding on_screen_def by (intro exI [of _ "dev s"] exI [of _ "video s"] exI [of _ "crt_pos s"]) simp

lemma on_screen_dev: "on_screen s0 s \<Longrightarrow> on_screen s0 (s\<lparr>dev := d\<rparr>)"
proof -
  assume "on_screen s0 s"
  then obtain d' v p where "s = s0\<lparr>dev := d', video := v, crt_pos := p\<rparr>" "unat p < CRT_SIZE" "\<forall>b i. b \<noteq> crt_buf s0 \<or> CRT_SIZE \<le> i \<longrightarrow> v b i = video s0 b i"
    unfolding on_screen_def by blast
  then show ?thesis unfolding on_screen_def by (intro exI [of _ d] exI [of _ v] exI [of _ p]) simp
qed

lemma on_screen_ports: "on_screen s0 s \<Longrightarrow> on_screen s0 (port_out io p v s)" "on_screen s0 s \<Longrightarrow> on_screen s0 (snd (port_in io p s))"
  by (simp_all add: port_out_def port_in_def on_screen_dev split: prod.splits)

lemma on_screen_pos: "on_screen s0 s \<Longrightarrow> unat (crt_pos s) < CRT_SIZE"
  by (auto simp: on_screen_def)

lemma on_screen_scroll:
  assumes "on_screen s0 s" and "draws s s' p" and "unat p < CRT_SIZE + CRT_COLS"
  shows "on_screen s0 (cga_scroll s')"
proof -
  obtain q where "draws s' (cga_scroll s') q" "unat q < CRT_SIZE" using draws_scroll [of s'] assms(3) draws_buf(2) [OF assms(2)] by auto
  then show ?thesis using on_screen_draws [OF assms(1) draws_trans [OF assms(2)]] by blast
qed

lemma on_screen_putc: "on_screen s0 s \<Longrightarrow> on_screen s0 (cons_putc io c s)"
proof (rule cons_putc_rule [where P = "on_screen s0"])
  fix c s assume s: "on_screen s0 s"
  show "on_screen s0 (cga_scroll (plain c s))" using draws_plain [OF on_screen_pos [OF s], of c] on_screen_scroll [OF s] by blast
  show "on_screen s0 (cga_scroll s)" using on_screen_scroll [OF s draws_move [of s "crt_pos s"]] on_screen_pos [OF s] by simp
qed (simp_all add: on_screen_ports)

lemma on_screen_fold: "on_screen s0 s \<Longrightarrow> on_screen s0 (fold (putch io) out s)"
  by (induction out arbitrary: s) (simp_all add: putch_def on_screen_putc)

text \<open>
  C33: Printing never leaves the screen: whatever \<^verbatim>\<open>vcprintf\<close> prints, the cursor stays below \<^verbatim>\<open>CRT_SIZE\<close>, only the cells of the
  screen are written, the input buffer is unchanged and the console lock is free again. The number that \<^verbatim>\<open>vcprintf\<close> returns is 0.
\<close>

theorem vcprintf_on_screen:
  assumes "unat (crt_pos s) < CRT_SIZE" and "lock_free (con_lock s)" and "vprintfmt fmt ap = Inr out"
  shows "rok (vcprintf io fmt ap s) (\<lambda>(n, s'). n = 0 \<and> unat (crt_pos s') < CRT_SIZE \<and> cons s' = cons s \<and> lock_free (con_lock s') \<and>
    (\<forall>b i. b \<noteq> crt_buf s \<or> CRT_SIZE \<le> i \<longrightarrow> video s' b i = video s b i))"
proof -
  obtain l where l: "spin_lock (con_lock s) (con_cpu s) [] 0 = Inr l" "holding l (con_cpu s)"
    using spin_lock_free [OF assms(2), of "con_cpu s" "[]" 0] by (auto simp: rok_iff)
  let ?s = "s\<lparr>con_lock := l\<rparr>"
  have "on_screen ?s ?s" using assms(1) by (intro on_screen_refl) simp
  from on_screen_fold [OF this, of io out] obtain d v p where o: "fold (putch io) out ?s = ?s\<lparr>dev := d, video := v, crt_pos := p\<rparr>"
      "unat p < CRT_SIZE" "\<forall>b i. b \<noteq> crt_buf s \<or> CRT_SIZE \<le> i \<longrightarrow> v b i = video s b i" by (auto simp: on_screen_def)
  obtain l' where l': "spin_unlock l (con_cpu s) = Inr l'" "lock_free l'" using spin_unlock_holding [OF l(2)] by (auto simp: rok_iff)
  have "lock_cpu (con_lock s) \<noteq> Some (con_cpu s)" using assms(2) by (simp add: lock_free_def)
  then show ?thesis using l(1) l' o assms(3) by (simp add: vcprintf_def)
qed

section \<open>The keyboard\<close>

text \<open>The scan codes of the letters.\<close>

definition letter_codes :: "(u8 \<times> u8) list" where
  "letter_codes = zip (map of_nat ([0x10..<0x1A] @ [0x1E..<0x27] @ [0x2C..<0x33])) (ascii ''qwertyuiopasdfghjklzxcvbnm'')"

lemma letter_list: "letter_codes =
  [(16, 113), (17, 119), (18, 101), (19, 114), (20, 116), (21, 121), (22, 117), (23, 105), (24, 111), (25, 112), 
   (30, 97), (31, 115), (32, 100), (33, 102), (34, 103), (35, 104), (36, 106), (37, 107), (38, 108), (44, 122), (45, 120), (46, 99), (47, 118), (48, 98), (49, 110), (50, 109)]"
  by code_simp

definition key_ok :: "u8 \<Rightarrow> bool" where
  "key_ok k \<longleftrightarrow> k \<noteq> 0xE0 \<and> k AND 0x80 = 0 \<and> k OR 0x80 \<noteq> 0xE0 \<and> (k OR 0x80) AND 0x80 \<noteq> 0 \<and> (k OR 0x80) AND 0x7F = k"

lemma keys_ok: "list_all key_ok (map fst letter_codes)"
  unfolding letter_list by (simp add: key_ok_def)

lemma letter_maps:
  "list_all (\<lambda>(k, c). shiftcode k = 0 \<and> togglecode k = 0) letter_codes" "list_all (\<lambda>(k, c). normalmap k = c) letter_codes"
  "list_all (\<lambda>(k, c). shiftmap k = c - 32) letter_codes" "list_all (\<lambda>(k, c). ctlmap k = c - 96) letter_codes"
  unfolding letter_list by code_simp+

lemma letter_caps:
  "list_all (\<lambda>(k, c). caps_letter CAPSLOCK (uint c) = uint (c - 32)) letter_codes" "list_all (\<lambda>(k, c). caps_letter CAPSLOCK (uint (c - 32)) = uint c) letter_codes"
  "list_all (\<lambda>(k, c). caps_letter CAPSLOCK (uint (c - 96)) = uint (c - 96)) letter_codes"
  unfolding letter_list by code_simp+

lemma and_exp: "x AND 2 ^ n = (if bit x n then 2 ^ n else (0 :: u32))"
  by (rule bit_eqI) (auto simp: bit_simps)

lemma caps_bit: "caps_letter sh c = caps_letter (sh AND CAPSLOCK) c" and caps_cases: "sh AND CAPSLOCK \<in> {0, CAPSLOCK}"
  using and_exp [of sh 3] by (auto simp: caps_letter_def CAPSLOCK_def)

lemma shift_index: "sh AND (CTL OR SHIFT) = (if sh AND CTL \<noteq> 0 then CTL else 0) OR (if sh AND SHIFT \<noteq> 0 then SHIFT else 0)"
proof -
  have "sh AND CTL = (if sh AND CTL \<noteq> 0 then CTL else 0)" "sh AND SHIFT = (if sh AND SHIFT \<noteq> 0 then SHIFT else 0)"
    using and_exp [of sh 0] and_exp [of sh 1] by (auto simp: CTL_def SHIFT_def)
  then show ?thesis by (simp only: bit.conj_disj_distrib)
qed

lemma charcode_index:
  "charcode (sh AND (CTL OR SHIFT)) k = (if sh AND CTL \<noteq> 0 then ctlmap k else if sh AND SHIFT \<noteq> 0 then shiftmap k else normalmap k)"
  unfolding shift_index by (simp add: charcode_def CTL_def SHIFT_def)

lemma clear_escape: "sh AND E0ESC = 0 \<Longrightarrow> sh AND NOT E0ESC = sh"
proof -
  assume "sh AND E0ESC = 0"
  moreover have "(sh AND E0ESC) OR (sh AND NOT E0ESC) = sh" by (simp flip: bit.conj_disj_distrib)
  ultimately show ?thesis by simp
qed

text \<open>
  Pressing the key of a letter yields its control code with Ctrl, else the capital letter exactly when one of Shift and Caps Lock is
  active and not both, and leaves the modifiers; releasing it yields nothing. Pressing and releasing Shift sets and clears its bit.
\<close>

theorem kbd_letters:
  assumes "(k, c) \<in> set letter_codes" and "sh AND E0ESC = 0"
  shows "kbd_decode k sh = (uint (if sh AND CTL \<noteq> 0 then c - 96 else if (sh AND SHIFT \<noteq> 0) \<noteq> (sh AND CAPSLOCK \<noteq> 0) then c - 32 else c), sh) \<and>
    kbd_decode (k OR 0x80) sh = (0, sh) \<and> snd (kbd_decode 0x2A sh) = sh OR SHIFT \<and> kbd_decode 0xAA sh = (0, sh AND NOT SHIFT)"
proof -
  have "key_ok k" using keys_ok assms(1) by (force simp: list_all_iff)
  moreover have "shiftcode k = 0 \<and> togglecode k = 0 \<and> normalmap k = c \<and> shiftmap k = c - 32 \<and> ctlmap k = c - 96"
    using letter_maps assms(1) by (auto simp only: list_all_iff prod.case dest!: bspec [where x = "(k, c)"])
  moreover have "caps_letter CAPSLOCK (uint c) = uint (c - 32) \<and> caps_letter CAPSLOCK (uint (c - 32)) = uint c \<and> caps_letter CAPSLOCK (uint (c - 96)) = uint (c - 96)"
    using letter_caps assms(1) by (auto simp only: list_all_iff prod.case dest!: bspec [where x = "(k, c)"])
  ultimately have k: "k \<noteq> 0xE0" "k AND 0x80 = 0" "k OR 0x80 \<noteq> 0xE0" "(k OR 0x80) AND 0x80 \<noteq> 0" "(k OR 0x80) AND 0x7F = k"
      "shiftcode k = 0" "togglecode k = 0" "normalmap k = c" "shiftmap k = c - 32" "ctlmap k = c - 96"
      "caps_letter CAPSLOCK (uint c) = uint (c - 32)" "caps_letter CAPSLOCK (uint (c - 32)) = uint c" "caps_letter CAPSLOCK (uint (c - 96)) = uint (c - 96)"
    by (simp_all add: key_ok_def)
  have caps: "caps_letter sh (uint x) = caps_letter (sh AND CAPSLOCK) (uint x)" for x :: u8 by (rule caps_bit)
  have "kbd_decode k sh = (uint (if sh AND CTL \<noteq> 0 then c - 96 else if (sh AND SHIFT \<noteq> 0) \<noteq> (sh AND CAPSLOCK \<noteq> 0) then c - 32 else c), sh)"
    using k assms(2) caps_cases [of sh] by (auto simp: kbd_decode_def charcode_index caps caps_letter_def [of 0] CAPSLOCK_def)
  moreover have "kbd_decode (k OR 0x80) sh = (0, sh)" using k assms(2) clear_escape by (simp add: kbd_decode_def)
  moreover have "sh AND NOT (SHIFT OR E0ESC) = (sh AND NOT E0ESC) AND NOT SHIFT" by (simp only: bit.de_Morgan_disj ac_simps)
  then have "snd (kbd_decode 0x2A sh) = sh OR SHIFT" "kbd_decode 0xAA sh = (0, sh AND NOT SHIFT)"
    using assms(2) clear_escape [OF assms(2)] by (simp_all add: kbd_decode_def shiftcode_def togglecode_def Let_def)
  ultimately show ?thesis by blast
qed

section \<open>The line editor\<close>

text \<open>The effect of one character on the line.\<close>

definition edit :: "int \<Rightarrow> u8 list \<Rightarrow> u8 list" where
  "edit c line = (if (c = 8 \<or> c = 0x7f) \<and> line \<noteq> [] then butlast line
     else if c \<ge> 32 \<and> length line < BUFLEN - 1 then line @ [of_int c] else line)"

text \<open>A console from which the characters \<open>f s\<close> can be read, and to which an echo can be printed, in the states \<open>I\<close>.\<close>

definition types :: "'d io \<Rightarrow> ('d console \<Rightarrow> bool) \<Rightarrow> ('d console \<Rightarrow> int list) \<Rightarrow> bool" where
  "types io I f \<longleftrightarrow> (\<forall>s. I s \<longrightarrow> f s \<noteq> [] \<longrightarrow> (\<exists>s'. getchar io s = Some (Inr (hd (f s), s')) \<and> I s' \<and> f s' = tl (f s))) \<and>
     (\<forall>c s. I s \<longrightarrow> I (cputchar io c s) \<and> f (cputchar io c s) = f s)"

definition stored :: "(nat \<Rightarrow> u8) \<Rightarrow> u8 list \<Rightarrow> bool" where
  "stored b line \<longleftrightarrow> (\<forall>i<length line. b i = line ! i)"

lemma readline_loop_edits:
  assumes "types io I f" and "c0 \<in> {10, 13}"
  shows "I s \<Longrightarrow> f s = cs @ c0 # rest \<Longrightarrow> (\<forall>c\<in>set cs. 0 < c \<and> c \<noteq> 10 \<and> c \<noteq> 13) \<Longrightarrow> stored b line \<Longrightarrow> length line < BUFLEN \<Longrightarrow>
    \<exists>b' s'. readline_loop io (length line) b s = Some (Inr (Some b', s')) \<and> stored b' (fold edit cs line) \<and> b' (length (fold edit cs line)) = 0 \<and>
      length (fold edit cs line) < BUFLEN \<and> (\<forall>i\<ge>BUFLEN. b' i = b i) \<and> I s' \<and> f s' = rest"
proof (induction cs arbitrary: s b line)
  case Nil
  obtain s1 where s1: "getchar io s = Some (Inr (c0, s1))" "I s1" "f s1 = rest" using assms(1) Nil.prems(1,2) by (auto simp: types_def)
  have s2: "I (cputchar io 10 s1)" "f (cputchar io 10 s1) = rest" using assms(1) s1 by (auto simp: types_def)
  have "readline_loop io (length line) b s = Some (Inr (Some (b(length line := 0)), cputchar io 10 s1))"
    using s1(1) assms(2) by (subst readline_loop.simps) auto
  then show ?case using Nil.prems s2 by (intro exI [of _ "b(length line := 0)"] exI [of _ "cputchar io 10 s1"]) (auto simp: stored_def)
next
  case (Cons c cs)
  obtain s1 where s1: "getchar io s = Some (Inr (c, s1))" "I s1" "f s1 = cs @ c0 # rest" using assms(1) Cons.prems(1,2) by (fastforce simp: types_def)
  have e: "I (cputchar io x s1)" "f (cputchar io x s1) = cs @ c0 # rest" for x using assms(1) s1 by (auto simp: types_def)
  have c: "0 < c" "c \<noteq> 10" "c \<noteq> 13" using Cons.prems(3) by auto
  obtain s2 b2 where r: "readline_loop io (length line) b s = readline_loop io (length (edit c line)) b2 s2" and s2: "I s2" "f s2 = cs @ c0 # rest"
      and b2: "stored b2 (edit c line)" "length (edit c line) < BUFLEN" "\<forall>i\<ge>BUFLEN. b2 i = b i"
  proof (cases "(c = 8 \<or> c = 0x7f) \<and> line \<noteq> []")
    case True
    have "stored b (edit c line)" using True Cons.prems(4) by (auto simp: stored_def edit_def nth_butlast)
    then show thesis by (intro that [of b "cputchar io 8 s1"]) (use True s1(1) e Cons.prems(5) in \<open>auto simp: edit_def readline_loop.simps [of io _ _ s]\<close>)
  next
    case False
    note F = False
    show thesis
    proof (cases "c \<ge> 32 \<and> length line < BUFLEN - 1")
      case True
      have "stored (b(length line := of_int c)) (edit c line)" using F True Cons.prems(4) by (auto simp: stored_def edit_def nth_append less_Suc_eq)
      then show thesis by (intro that [of "b(length line := of_int c)" "cputchar io c s1"]) (use F True s1(1) e in \<open>auto simp: edit_def readline_loop.simps [of io _ _ s]\<close>)
    next
      case False
      then show thesis by (intro that [of b s1]) (use F s1 c Cons.prems(4,5) in \<open>auto simp: edit_def readline_loop.simps [of io _ _ s]\<close>)
    qed
  qed
  obtain b' s' where "readline_loop io (length (edit c line)) b2 s2 = Some (Inr (Some b', s'))" "stored b' (fold edit cs (edit c line))" "b' (length (fold edit cs (edit c line))) = 0"
      "length (fold edit cs (edit c line)) < BUFLEN" "\<forall>i\<ge>BUFLEN. b' i = b2 i" "I s'" "f s' = rest"
    using Cons.IH [OF s2 _ b2(1,2)] Cons.prems(3) by auto
  then show ?case using r b2(3) by auto
qed


section \<open>Examples\<close>

text \<open>A machine without devices: every port reads 0.\<close>

definition no_ports :: "unit io" where
  "no_ports = \<lparr>in8 = (\<lambda>p d. (0, d)), out8 = (\<lambda>p v d. d), in16 = (\<lambda>p d. (0, d)), out16 = (\<lambda>p v d. d), in32 = (\<lambda>p d. (0, d)), out32 = (\<lambda>p v d. d)\<rparr>"

text \<open>A serial port that delivers the bytes of a list.\<close>

definition serial_line :: "u8 list io" where
  "serial_line = \<lparr>in8 = (\<lambda>p d. if p = COM1 + 5 then (if d = [] then 0 else 1, d) else if p = COM1 then (hd d, tl d) else (0, d)),
     out8 = (\<lambda>p v d. d), in16 = (\<lambda>p d. (0, d)), out16 = (\<lambda>p v d. d), in32 = (\<lambda>p d. (0, d)), out32 = (\<lambda>p v d. d)\<rparr>"

definition demo_console :: "'d \<Rightarrow> 'd console" where
  "demo_console d = \<lparr>dev = d, video = (\<lambda>_ _. 0), has_cga = True, serial_exists = True, addr_6845 = 0x3D4, crt_buf = CGA, crt_pos = 1999, shift = 0,
     cons = \<lparr>ring_buf = (\<lambda>_. 65), rpos = 510, wpos = 511\<rparr>,
     con_lock = \<lparr>locked = 0, lock_name = [], lock_cpu = None, lock_file = None, lock_line = 0\<rparr>, con_cpu = 0\<rparr>"

lemma demo_serial: "0 \<notin> set bs \<Longrightarrow> emits (serial_proc_data serial_line) ((demo_console [])\<lparr>dev := bs\<rparr>) bs (demo_console [])"
proof (induction bs)
  case Nil
  then show ?case by (intro emits.stop) (simp add: serial_proc_data_def port_in_def serial_line_def demo_console_def COM1_def)
next
  case (Cons b bs)
  have "serial_proc_data serial_line ((demo_console [])\<lparr>dev := b # bs\<rparr>) = Inr (uint b, (demo_console [])\<lparr>dev := bs\<rparr>)"
    by (simp add: serial_proc_data_def port_in_def serial_line_def demo_console_def COM1_def)
  moreover have "uint b \<noteq> - 1" using uint_nonnegative [of b] by linarith
  ultimately show ?case using Cons emits.char [where proc = "serial_proc_data serial_line" and c = "uint b" and s = "(demo_console [])\<lparr>dev := b # bs\<rparr>"] by (auto simp: uint_0_iff)
qed

theorem cons_getc_fifo_witness:
  "\<exists>s'. cons_getc serial_line (demo_console [66, 67]) = Some (Inr (65, s')) \<and> pending (cons s') = [66, 67]"
proof -
  have p: "pending (cons (demo_console [66, 67])) = [65]" by (simp add: demo_console_def pending_def waiting_def)
  have "(demo_console [])\<lparr>dev := [66, 67]\<rparr> = demo_console [66, 67 :: u8]" by (simp add: demo_console_def)
  then have s: "emits (serial_proc_data serial_line) (demo_console [66, 67]) [66, 67] (demo_console [])" using demo_serial [of "[66, 67]"] by simp
  have k: "emits (kbd_proc_data serial_line) (demo_console []) [] (demo_console [])"
    by (intro emits.stop) (simp add: kbd_proc_data_def port_in_def serial_line_def demo_console_def COM1_def)
  have "ring_ok (cons (demo_console [66, 67]))" "serial_exists (demo_console [66 :: u8, 67])" by (simp_all add: demo_console_def ring_ok_def)
  from cons_getc_fifo [OF this s k refl] show ?thesis unfolding p by auto
qed

theorem vcprintf_on_screen_witness:
  "rok (vcprintf no_ports [72, 105, 10] [] (demo_console ())) (\<lambda>(n, s'). n = 0 \<and> unat (crt_pos s') < 2000 \<and> video s' CGA 2000 = 0 \<and> video s' MONO 7 = 0)"
proof -
  have "vprintfmt [72, 105, 10] [] = Inr [72, 105, 10]" by simp
  moreover have "unat (crt_pos (demo_console ())) < CRT_SIZE" "lock_free (con_lock (demo_console ()))" by (simp_all add: demo_console_def CRT_SIZE_def lock_free_def)
  ultimately show ?thesis using vcprintf_on_screen [of "demo_console ()" "[72, 105, 10]" "[]" "[72, 105, 10]" no_ports]
    by (auto elim!: rok_mono simp: demo_console_def CRT_SIZE_def)
qed

theorem kbd_letters_witness: "kbd_decode 0x10 (SHIFT OR CAPSLOCK) = (113, SHIFT OR CAPSLOCK) \<and> kbd_decode 0x10 CTL = (17, CTL)"
proof -
  have m: "(0x10, 113) \<in> set letter_codes" by code_simp
  from kbd_letters [OF m, of "SHIFT OR CAPSLOCK"] kbd_letters [OF m, of CTL] show ?thesis
    by (simp add: SHIFT_def CAPSLOCK_def CTL_def E0ESC_def)
qed

text \<open>A line that waits in the input buffer, read on a console whose serial line is silent.\<close>

definition quiet :: "u8 list console \<Rightarrow> bool" where
  "quiet s \<longleftrightarrow> dev s = [] \<and> serial_exists s \<and> ring_ok (cons s) \<and> 0 \<notin> set (pending (cons s)) \<and> unat (crt_pos s) < CRT_SIZE"

lemma quiet_types: "types serial_line quiet (\<lambda>s. map uint (pending (cons s)))"
  unfolding types_def
proof (intro conjI allI impI)
  fix s assume q: "quiet s" and ne: "map uint (pending (cons s)) \<noteq> []"
  have e: "emits (serial_proc_data serial_line) s [] s" "emits (kbd_proc_data serial_line) s [] s"
    using q by (auto simp: quiet_def serial_proc_data_def kbd_proc_data_def port_in_def serial_line_def COM1_def intro!: emits.stop)
  obtain c cs where p: "pending (cons s) = c # cs" using ne by (cases "pending (cons s)") auto
  have "length (pending (cons s)) < 512" using q by (auto simp: pending_def quiet_def ring_ok_def waiting_def)
  then obtain r where r: "cons_getc serial_line s = Some (Inr (uint c, s\<lparr>cons := r\<rparr>))" "pending r = cs" "ring_ok r"
    using cons_getc_queue [OF _ _ e refl] q p by (auto simp: quiet_def)
  moreover have "uint c \<noteq> 0" using q p by (auto simp: quiet_def uint_0_iff)
  ultimately have "getchar serial_line s = Some (Inr (uint c, s\<lparr>cons := r\<rparr>))" by (simp add: getchar.simps [of serial_line s])
  then show "\<exists>s'. getchar serial_line s = Some (Inr (hd (map uint (pending (cons s))), s')) \<and> quiet s' \<and> map uint (pending (cons s')) = tl (map uint (pending (cons s)))"
    using q p r by (intro exI [of _ "s\<lparr>cons := r\<rparr>"]) (auto simp: quiet_def)
next
  fix c s assume q: "quiet s"
  have d: "dev (plain x t) = dev t" "dev (cga_scroll t) = dev t" if "on_screen s t" for x and t :: "u8 list console"
  proof -
    note pos = on_screen_pos [OF that]
    show "dev (plain x t) = dev t" using draws_plain [OF pos, of x] by (auto simp: draws_def)
    show "dev (cga_scroll t) = dev t" using draws_scroll [of t] pos by (auto simp: draws_def CRT_COLS_def)
  qed
  have "on_screen s (cons_putc serial_line (of_int c) s) \<and> dev (cons_putc serial_line (of_int c) s) = []"
  proof (rule cons_putc_rule [where P = "\<lambda>t. on_screen s t \<and> dev t = []"])
    fix x and t :: "u8 list console" assume t: "on_screen s t \<and> dev t = []"
    obtain p where p: "draws t (plain x t) p" "unat p < CRT_SIZE + CRT_COLS" using draws_plain [OF on_screen_pos] t by blast
    obtain p' where "draws (plain x t) (cga_scroll (plain x t)) p'" using draws_scroll [of "plain x t"] p draws_buf(2) [OF p(1)] by auto
    then show "on_screen s (cga_scroll (plain x t)) \<and> dev (cga_scroll (plain x t)) = []"
      using t on_screen_scroll [OF _ p] d(1) by (auto simp: draws_def)
    show "on_screen s (cga_scroll t) \<and> dev (cga_scroll t) = []" using t d(2) on_screen_scroll [of s t, OF _ draws_move [of t "crt_pos t"]] on_screen_pos [of s t] by simp
  qed (use q on_screen_refl [of s] in \<open>auto simp: on_screen_ports quiet_def\<close>, auto simp: port_out_def port_in_def serial_line_def)
  then show "quiet (cputchar serial_line c s)" "map uint (pending (cons (cputchar serial_line c s))) = map uint (pending (cons s))"
    using q by (auto simp: cputchar_def quiet_def on_screen_def)
qed


end
