(* ===== verification/Monitor.thy ===== *)
theory Monitor
  imports Console_Props
begin

text \<open>
  The command interpreter of kernel/monitor.c. The command buffer is the byte memory of the string routines, a pointer into it an index. What the
  commands other than \<^verbatim>\<open>help\<close> do is a parameter: they print the state of other components.
\<close>

section \<open>Commands\<close>

definition commands :: "(string \<times> string) list" where
  "commands =
     [(''help'', ''Display this list of commands''),
      (''kerninfo'', ''Display information about the kernel''),
      (''backtrace'', ''Display stack backtrace''),
      (''buddyinfo'', ''Display debugging information for the buddy allocator''),
      (''pageinfo'', ''Display page information for a given page index''),
      (''ptdump'', ''Display the page tables''),
      (''vmainfo'', ''Display the VMAs'')]"

fun help_loop :: "'d io \<Rightarrow> (string \<times> string) list \<Rightarrow> 'd console \<Rightarrow> 'd console res" where
  "help_loop io [] s = Inr s"
| "help_loop io (c # cs) s =
     rbind (cprintf io (ascii ''%s - %s'' @ [10]) [Text (Some (ascii (fst c))), Text (Some (ascii (snd c)))] s) (\<lambda>(_, s). help_loop io cs s)"

definition mon_help :: "'d io \<Rightarrow> 'd console \<Rightarrow> (int \<times> 'd console) res" where
  "mon_help io s = rbind (help_loop io commands s) (\<lambda>s. Inr (0, s))"

section \<open>Parsing\<close>

definition WHITESPACE :: "u8 list" where "WHITESPACE = [9, 13, 10, 32]"
definition MAXARGS :: nat where "MAXARGS = 16"

definition is_space :: "u8 \<Rightarrow> bool" where
  "is_space c \<longleftrightarrow> c \<in> set WHITESPACE"

partial_function (option) gobble :: "mem \<Rightarrow> nat \<Rightarrow> (mem \<times> nat) option" where
  "gobble m p = (if m p \<noteq> 0 \<and> is_space (m p) then gobble (m(p := 0)) (p + 1) else Some (m, p))"

partial_function (option) scan :: "mem \<Rightarrow> nat \<Rightarrow> nat option" where
  "scan m p = (if m p \<noteq> 0 \<and> \<not> is_space (m p) then scan m (p + 1) else Some p)"

text \<open>The parsing loop of \<^verbatim>\<open>runcmd\<close>; \<open>None\<close> in the result is the return after too many arguments.\<close>

partial_function (option) parse :: "mem \<Rightarrow> nat \<Rightarrow> nat list \<Rightarrow> (mem \<times> nat list option) option" where
  "parse m p argv =
     (case gobble m p of None \<Rightarrow> None
      | Some mp \<Rightarrow>
        if fst mp (snd mp) = 0 then Some (fst mp, Some argv)
        else if length argv = MAXARGS - 1 then Some (fst mp, None)
        else case scan (fst mp) (snd mp) of None \<Rightarrow> None | Some p' \<Rightarrow> parse (fst mp) p' (argv @ [snd mp]))"

text \<open>\<^verbatim>\<open>strcmp\<close> with a literal.\<close>

fun same_string :: "mem \<Rightarrow> nat \<Rightarrow> u8 list \<Rightarrow> bool" where
  "same_string m a [] \<longleftrightarrow> m a = 0"
| "same_string m a (c # cs) \<longleftrightarrow> m a = c \<and> same_string m (a + 1) cs"

fun lookup_command :: "mem \<Rightarrow> nat \<Rightarrow> nat \<Rightarrow> (string \<times> string) list \<Rightarrow> nat option" where
  "lookup_command m a i [] = None"
| "lookup_command m a i (c # cs) = (if same_string m a (ascii (fst c)) then Some i else lookup_command m a (Suc i) cs)"

text \<open>\<^verbatim>\<open>runcmd\<close>. A \<open>%s\<close> prints the bytes up to the null byte: \<open>c_string\<close> collects them.\<close>

partial_function (option) c_string :: "mem \<Rightarrow> nat \<Rightarrow> u8 list option" where
  "c_string m a = (if m a = 0 then Some [] else Option.bind (c_string m (a + 1)) (\<lambda>cs. Some (m a # cs)))"

type_synonym 'd command = "nat \<Rightarrow> nat list \<Rightarrow> mem \<Rightarrow> 'd console \<Rightarrow> (int \<times> 'd console) res option"

definition runcmd :: "'d io \<Rightarrow> 'd command \<Rightarrow> mem \<Rightarrow> 'd console \<Rightarrow> (int \<times> mem \<times> 'd console) res option" where
  "runcmd io func m s =
     (case parse m 0 [] of None \<Rightarrow> None
      | Some (m, None) \<Rightarrow>
          Some (rbind (cprintf io (ascii ''Too many arguments (max %d)'' @ [10]) [Word (of_nat MAXARGS)] s) (\<lambda>(_, s). Inr (0, m, s)))
      | Some (m, Some []) \<Rightarrow> Some (Inr (0, m, s))
      | Some (m, Some (a # as)) \<Rightarrow>
        (case lookup_command m a 0 commands of
           Some i \<Rightarrow> obind (if i = 0 then Some (mon_help io s) else func i (a # as) m s) (\<lambda>(r, s). Some (Inr (r, m, s)))
         | None \<Rightarrow>
           (case c_string m a of None \<Rightarrow> None
            | Some cs \<Rightarrow>
              Some (rbind (cprintf io (ascii ''Unknown command '' @ [39] @ ascii ''%s'' @ [39, 10]) [Text (Some cs)] s) (\<lambda>(_, s). Inr (0, m, s))))))"

text \<open>The loop of \<^verbatim>\<open>monitor\<close> and its greeting.\<close>

partial_function (option) monitor_loop :: "'d io \<Rightarrow> 'd command \<Rightarrow> mem \<Rightarrow> 'd console \<Rightarrow> 'd console res option" where
  "monitor_loop io func m s =
     (case readline io (Some (ascii ''K> '')) m s of None \<Rightarrow> None
      | Some (Inl e) \<Rightarrow> Some (Inl e)
      | Some (Inr (None, s)) \<Rightarrow> monitor_loop io func m s
      | Some (Inr (Some m, s)) \<Rightarrow>
        (case runcmd io func m s of None \<Rightarrow> None
         | Some (Inl e) \<Rightarrow> Some (Inl e)
         | Some (Inr (r, m, s)) \<Rightarrow> if r < 0 then Some (Inr s) else monitor_loop io func m s))"

definition monitor :: "'d io \<Rightarrow> 'd command \<Rightarrow> mem \<Rightarrow> 'd console \<Rightarrow> 'd console res option" where
  "monitor io func m s =
     obind (Some (cprintf io (ascii ''Welcome to the OpenLSD kernel monitor!'' @ [10]) [] s)) (\<lambda>(_, s).
     obind (Some (cprintf io (ascii ''Type '' @ [39] @ ascii ''help'' @ [39] @ ascii '' for a list of commands.'' @ [10]) [] s)) (\<lambda>(_, s).
     monitor_loop io func m s))"

section \<open>Words\<close>

text \<open>The words of a line.\<close>

function words :: "u8 list \<Rightarrow> u8 list list" where
  "words cs =
     (case dropWhile is_space cs of [] \<Rightarrow> []
      | c # r \<Rightarrow> (c # takeWhile (\<lambda>x. \<not> is_space x) r) # words (dropWhile (\<lambda>x. \<not> is_space x) r))"
  by pat_completeness auto
termination
proof (relation "measure length")
  fix cs c r
  assume "dropWhile is_space cs = c # r"
  then have "length (c # r) \<le> length cs" by (metis length_dropWhile_le)
  then show "(dropWhile (\<lambda>x. \<not> is_space x) r, cs) \<in> measure length"
    using length_dropWhile_le [of "\<lambda>x. \<not> is_space x" r] by simp
qed simp

declare words.simps [simp del]

section \<open>What the parser finds\<close>

definition zero_spaces :: "nat \<Rightarrow> nat \<Rightarrow> mem \<Rightarrow> mem" where
  "zero_spaces p n m = (\<lambda>a. if p \<le> a \<and> a < p + n then 0 else m a)"

lemma zero_spaces_0 [simp]: "zero_spaces p 0 m = m"
  unfolding zero_spaces_def by (rule ext) auto

lemma gobble_cstr:
  "cstr m p cs \<Longrightarrow> gobble m p = Some (zero_spaces p (length (takeWhile is_space cs)) m, p + length (takeWhile is_space cs)) \<and>
     cstr (zero_spaces p (length (takeWhile is_space cs)) m) (p + length (takeWhile is_space cs)) (dropWhile is_space cs)"
proof (induction cs arbitrary: m p)
  case Nil
  then show ?case by (subst gobble.simps) simp
next
  case (Cons c cs)
  show ?case
  proof (cases "is_space c")
    case True
    define m0 where "m0 = m(p := 0)"
    have "cstr m0 (p + 1) cs" using Cons.prems cstr_cong [of "p + 1" cs m0 m] by (simp add: m0_def)
    note ih = Cons.IH [OF this]
    have z: "zero_spaces (p + 1) n m0 = zero_spaces p (Suc n) m" for n by (auto simp: zero_spaces_def m0_def fun_eq_iff)
    have "gobble m p = gobble m0 (p + 1)" using True Cons.prems by (subst gobble.simps) (simp add: m0_def)
    then show ?thesis using ih True unfolding z by simp
  next
    case False
    then show ?thesis using Cons.prems by (subst gobble.simps) simp
  qed
qed

lemma scan_cstr:
  "cstr m p cs \<Longrightarrow> scan m p = Some (p + length (takeWhile (\<lambda>x. \<not> is_space x) cs)) \<and>
     cstr m (p + length (takeWhile (\<lambda>x. \<not> is_space x) cs)) (dropWhile (\<lambda>x. \<not> is_space x) cs)"
proof (induction cs arbitrary: p)
  case (Cons c cs)
  then show ?case using Cons.IH [of "p + 1"] by (cases "is_space c") (simp_all add: scan.simps [of m p])
qed (simp add: scan.simps)

lemma cstr_split: "cstr m p (xs @ ys) \<Longrightarrow> m' (p + length xs) = 0 \<Longrightarrow> (\<And>a. p \<le> a \<Longrightarrow> a < p + length xs \<Longrightarrow> m' a = m a) \<Longrightarrow> cstr m' p xs"
proof (induction xs arbitrary: p)
  case (Cons x xs)
  then show ?case using Cons.IH [of "p + 1"] by simp
qed simp

lemma parse_words:
  assumes "cstr m p cs" and "length argv \<le> 15"
  shows "\<exists>m' ps. parse m p argv = Some (m', if length argv + length (words cs) \<le> 15 then Some (argv @ ps) else None) \<and>
    (length argv + length (words cs) \<le> 15 \<longrightarrow> list_all2 (cstr m') ps (words cs) \<and> m' p = (if cs = [] \<or> is_space (hd cs) then 0 else m p)) \<and>
    (\<forall>a. a < p \<or> p + length cs < a \<longrightarrow> m' a = m a)"
  using assms
proof (induction cs arbitrary: m p argv rule: words.induct)
  case (1 cs)
  let ?n = "length (takeWhile is_space cs)" let ?m = "zero_spaces p ?n m" let ?q = "p + ?n"
  have len: "?n + length (dropWhile is_space cs) = length cs" by (metis length_append takeWhile_dropWhile_id)
  have g: "gobble m p = Some (?m, ?q)" "cstr ?m ?q (dropWhile is_space cs)" using gobble_cstr [OF "1.prems"(1)] by simp_all
  have first: "?m p = (if cs = [] \<or> is_space (hd cs) then 0 else m p)" using "1.prems"(1) by (cases cs) (auto simp: zero_spaces_def)
  show ?case
  proof (cases "dropWhile is_space cs")
    case Nil
    then have w: "words cs = []" by (simp only: words.simps [of cs] list.case)
    have "parse m p argv = Some (?m, Some argv)" using g Nil by (subst parse.simps) simp
    then show ?thesis using w first "1.prems"(2) len by (auto simp: zero_spaces_def)
  next
    case (Cons c r)
    let ?w = "c # takeWhile (\<lambda>x. \<not> is_space x) r" and ?r = "dropWhile (\<lambda>x. \<not> is_space x) r"
    have c: "\<not> is_space c" using Cons by (metis hd_dropWhile list.discI list.sel(1))
    have w: "words cs = ?w # words ?r" using Cons by (simp only: words.simps [of cs] list.case)
    have nz: "?m ?q = c" "c \<noteq> 0" using g(2) Cons by simp_all
    show ?thesis
    proof (cases "length argv = 15")
      case True
      then have "parse m p argv = Some (?m, None)" using g nz by (subst parse.simps) (simp add: MAXARGS_def)
      then show ?thesis using True w len by (auto simp: zero_spaces_def)
    next
      case False
      let ?e = "?q + length ?w"
      have s: "scan ?m ?q = Some ?e" "cstr ?m ?e ?r" using scan_cstr [OF g(2)] Cons c by simp_all
      have "length (argv @ [?q]) \<le> 15" using False "1.prems"(2) by simp
      from "1.IH" [OF Cons s(2) this] obtain m' ps where
          i: "parse ?m ?e (argv @ [?q]) = Some (m', if length (argv @ [?q]) + length (words ?r) \<le> 15 then Some ((argv @ [?q]) @ ps) else None)"
          "length (argv @ [?q]) + length (words ?r) \<le> 15 \<longrightarrow> list_all2 (cstr m') ps (words ?r) \<and> m' ?e = (if ?r = [] \<or> is_space (hd ?r) then 0 else ?m ?e)"
          "\<forall>a. a < ?e \<or> ?e + length ?r < a \<longrightarrow> m' a = ?m a" by blast
      have n: "length (argv @ [?q]) + length (words ?r) = length argv + length (words cs)" unfolding w by simp
      have m': "parse ?m ?e (argv @ [?q]) = Some (m', if length argv + length (words cs) \<le> 15 then Some (argv @ ?q # ps) else None)"
          "length argv + length (words cs) \<le> 15 \<Longrightarrow> list_all2 (cstr m') ps (words ?r) \<and> m' ?e = (if ?r = [] \<or> is_space (hd ?r) then 0 else ?m ?e)"
          "\<And>a. a < ?e \<or> ?e + length ?r < a \<Longrightarrow> m' a = ?m a" using i unfolding n append_assoc append_Cons append_Nil by blast+
      have "parse m p argv = parse ?m ?e (argv @ [?q])" using g nz s False by (subst parse.simps) (simp add: MAXARGS_def)
      moreover have "?r = [] \<or> is_space (hd ?r)" using hd_dropWhile [of "\<lambda>x. \<not> is_space x" r] by blast
      then have "cstr m' ?q ?w" if "length argv + length (words cs) \<le> 15"
        using that m'(2,3) g(2) Cons by (intro cstr_split [of ?m _ ?w ?r]) auto
      moreover have "p < ?e" "?e + length ?r = p + length cs" using len Cons by (simp_all add: takeWhile_dropWhile_id flip: length_append)
      ultimately show ?thesis using m' w first by (intro exI [of _ m'] exI [of _ "?q # ps"]) (auto simp: zero_spaces_def)
    qed
  qed
qed

lemma same_string_cstr: "cstr m a w \<Longrightarrow> 0 \<notin> set xs \<Longrightarrow> same_string m a xs \<longleftrightarrow> w = xs"
proof (induction w arbitrary: a xs)
  case Nil
  then show ?case by (cases xs) auto
next
  case (Cons c w)
  then show ?case by (cases xs) auto
qed

lemma c_string_cstr: "cstr m a w \<Longrightarrow> c_string m a = Some w"
  by (induction w arbitrary: a) (simp_all add: c_string.simps)

text \<open>The command with a given name.\<close>

definition command_index :: "u8 list \<Rightarrow> nat option" where
  "command_index w = (case filter (\<lambda>i. ascii (fst (commands ! i)) = w) [0..<length commands] of [] \<Rightarrow> None | i # _ \<Rightarrow> Some i)"

lemma command_names: "list_all (\<lambda>c. 0 \<notin> set (ascii (fst c))) commands"
  by code_simp

lemma lookup_command_spec:
  assumes "cstr m a w" and "list_all (\<lambda>c. 0 \<notin> set (ascii (fst c))) cs"
  shows "lookup_command m a k cs = (case filter (\<lambda>i. ascii (fst (cs ! (i - k))) = w) [k..<k + length cs] of [] \<Rightarrow> None | i # _ \<Rightarrow> Some i)"
  using assms(2)
proof (induction cs arbitrary: k)
  case (Cons c cs)
  have u: "[k..<k + length (c # cs)] = k # [Suc k..<Suc k + length cs]" by (simp add: upt_conv_Cons del: upt_Suc)
  have f: "filter (\<lambda>i. ascii (fst ((c # cs) ! (i - k))) = w) [Suc k..<Suc k + length cs] = filter (\<lambda>i. ascii (fst (cs ! (i - Suc k))) = w) [Suc k..<Suc k + length cs]"
    by (rule filter_cong) (auto simp: nth_Cons')
  show ?case unfolding u filter.simps f using Cons same_string_cstr [OF assms(1)] by auto
qed simp

text \<open>
  C34: \<^verbatim>\<open>runcmd\<close> on a line that ends in a null byte splits it into its words, each of which becomes a string of its own, and
  calls the command that the first word names with them; an empty line does nothing, an unknown command and more than 15 words are
  reported, and nothing behind the line is written.
\<close>

theorem runcmd_dispatches:
  assumes "cstr m 0 cs"
  shows "\<exists>m' ps. (\<forall>a>length cs. m' a = m a) \<and> (length (words cs) \<le> 15 \<longrightarrow> list_all2 (cstr m') ps (words cs)) \<and>
    runcmd io func m s =
      (if length (words cs) > 15 then
         Some (rbind (cprintf io (ascii ''Too many arguments (max %d)'' @ [10]) [Word 16] s) (\<lambda>(_, s). Inr (0, m', s)))
       else case words cs of [] \<Rightarrow> Some (Inr (0, m', s))
       | w # _ \<Rightarrow>
         (case command_index w of
            Some i \<Rightarrow> obind (if i = 0 then Some (mon_help io s) else func i ps m' s) (\<lambda>(r, s). Some (Inr (r, m', s)))
          | None \<Rightarrow> Some (rbind (cprintf io (ascii ''Unknown command '' @ [39] @ ascii ''%s'' @ [39, 10]) [Text (Some w)] s) (\<lambda>(_, s). Inr (0, m', s)))))"
proof -
  obtain m' ps where p: "parse m 0 [] = Some (m', if length (words cs) \<le> 15 then Some ps else None)"
      "length (words cs) \<le> 15 \<Longrightarrow> list_all2 (cstr m') ps (words cs)" "\<forall>a>length cs. m' a = m a"
    using parse_words [OF assms, of "[]"] by auto
  have look: "lookup_command m' a 0 commands = command_index w" if "cstr m' a w" for a w
    using lookup_command_spec [OF that command_names, of 0] by (simp add: command_index_def)
  show ?thesis
  proof (cases "words cs")
    case Nil
    then show ?thesis using p by (intro exI [of _ m'] exI [of _ ps]) (simp add: runcmd_def)
  next
    case (Cons w ws)
    show ?thesis
    proof (cases "length (words cs) \<le> 15")
      case True
      then obtain a as where a: "ps = a # as" "cstr m' a w" using p(2) Cons by (auto simp: list_all2_Cons2)
      have "runcmd io func m s = (case command_index w of
            Some i \<Rightarrow> obind (if i = 0 then Some (mon_help io s) else func i ps m' s) (\<lambda>(r, s). Some (Inr (r, m', s)))
          | None \<Rightarrow> Some (rbind (cprintf io (ascii ''Unknown command '' @ [39] @ ascii ''%s'' @ [39, 10]) [Text (Some w)] s) (\<lambda>(_, s). Inr (0, m', s))))"
        unfolding runcmd_def p(1) if_P [OF True] a(1) by (cases "command_index w") (simp_all add: look [OF a(2)] c_string_cstr [OF a(2)])
      then show ?thesis using p(2,3) True Cons by (intro exI [of _ m'] exI [of _ ps]) simp
    next
      case False
      then show ?thesis using p by (intro exI [of _ m'] exI [of _ ps]) (simp add: runcmd_def MAXARGS_def)
    qed
  qed
qed

theorem runcmd_dispatches_witness:
  "\<exists>m' ps. runcmd no_ports (\<lambda>i argv m s. Some (Inr (int i, s))) (\<lambda>i. if i < 9 then [32, 112, 116, 100, 117, 109, 112, 32, 55] ! i else 0) (demo_console ()) = Some (Inr (5, m', demo_console ())) \<and>
     list_all2 (cstr m') ps [[112, 116, 100, 117, 109, 112], [55]]"
proof -
  let ?cs = "[32, 112, 116, 100, 117, 109, 112, 32, 55]"
  have c: "cstr (\<lambda>i. if i < 9 then ?cs ! i else 0) 0 ?cs" by simp
  have w: "words ?cs = [[112, 116, 100, 117, 109, 112], [55]]" by (simp add: words.simps is_space_def WHITESPACE_def)
  have k: "command_index [112, 116, 100, 117, 109, 112] = Some 5" by code_simp
  from runcmd_dispatches [OF c, of no_ports "\<lambda>i argv m s. Some (Inr (int i, s))" "demo_console ()"]
  show ?thesis unfolding w list.case k by (auto simp: obind_def)
qed

end
