(* ===== verification/Firmware.thy ===== *)
theory Firmware
  imports Strings Printfmt Ports
begin

text \<open>
  The tables of the firmware (kernel/acpi/acpi.c, madt.c, mcfg.c, hpet.c) and the local interrupt controller (kernel/acpi/lapic.c). Memory is the byte
  memory of the string routines; a pointer \<^verbatim>\<open>KERNEL_VMA + a\<close> is the physical address \<open>a\<close>. The registers of the
  controller are operations on the state of the devices. Messages to the console are left out.
\<close>

section \<open>Little-endian fields\<close>

definition field :: "mem \<Rightarrow> nat \<Rightarrow> nat \<Rightarrow> nat" where
  "field m a n = (\<Sum>i<n. unat (m (a + i)) * 256 ^ i)"

definition bytes :: "mem \<Rightarrow> nat \<Rightarrow> nat \<Rightarrow> u8 list" where
  "bytes m a n = map (\<lambda>i. m (a + i)) [0..<n]"

section \<open>kernel/acpi/acpi.c\<close>

fun memsum_loop :: "mem \<Rightarrow> nat \<Rightarrow> nat \<Rightarrow> u8 \<Rightarrow> u8" where
  "memsum_loop m p 0 acc = acc"
| "memsum_loop m p (Suc len) acc = memsum_loop m (p + 1) len (acc + m p)"

definition memsum :: "mem \<Rightarrow> nat \<Rightarrow> nat \<Rightarrow> u8" where
  "memsum m s len = memsum_loop m s len 0"

definition SIZEOF_HDR :: nat where "SIZEOF_HDR = 36"

definition hdr_len :: "mem \<Rightarrow> nat \<Rightarrow> nat" where
  "hdr_len m hdr = field m (hdr + 4) 4"

definition acpi_check :: "mem \<Rightarrow> nat \<Rightarrow> string \<Rightarrow> bool" where
  "acpi_check m hdr signature \<longleftrightarrow> bytes m hdr 4 = ascii signature \<and> memsum m hdr (hdr_len m hdr) = 0"

function rsdp_find_range :: "mem \<Rightarrow> nat \<Rightarrow> nat \<Rightarrow> nat option" where
  "rsdp_find_range m p stop =
     (if p < stop then if bytes m p 8 = ascii ''RSD PTR '' then Some p else rsdp_find_range m (p + 16) stop else None)"
  by pat_completeness auto
termination by (relation "measure (\<lambda>(m, p, stop). stop - p)") auto

declare rsdp_find_range.simps [simp del]

definition rsdp_find :: "mem \<Rightarrow> nat option" where
  "rsdp_find m = rsdp_find_range m 0xe0000 0xfffff"

text \<open>
  The loops over the pointers of the \<^verbatim>\<open>XSDT\<close> and the \<^verbatim>\<open>RSDT\<close>, \<open>w\<close> bytes each. The number of pointers is computed from
  the length of the whole table, its header included.
\<close>

fun find_loop :: "mem \<Rightarrow> nat \<Rightarrow> nat \<Rightarrow> nat \<Rightarrow> string \<Rightarrow> nat option" where
  "find_loop m w sdtp 0 signature = None"
| "find_loop m w sdtp (Suc n) signature =
     (let hdr = field m sdtp w in if acpi_check m hdr signature then Some hdr else find_loop m w (sdtp + w) n signature)"

definition xsdt_find_table :: "mem \<Rightarrow> nat \<Rightarrow> string \<Rightarrow> nat option" where
  "xsdt_find_table m hdr signature = find_loop m 8 (hdr + SIZEOF_HDR) (hdr_len m hdr div 8) signature"

definition rsdt_find_table :: "mem \<Rightarrow> nat \<Rightarrow> string \<Rightarrow> nat option" where
  "rsdt_find_table m hdr signature = find_loop m 4 (hdr + SIZEOF_HDR) (hdr_len m hdr div 4) signature"

definition acpi_find_table :: "mem \<Rightarrow> nat \<Rightarrow> string \<Rightarrow> nat option" where
  "acpi_find_table m rsdp signature =
     (let xsdt = field m (rsdp + 24) 8 in
      if m (rsdp + 15) > 0 \<and> acpi_check m xsdt ''XSDT'' then xsdt_find_table m xsdt signature
      else
        let rsdt = field m (rsdp + 16) 4 in
        if acpi_check m rsdt ''RSDT'' then rsdt_find_table m rsdt signature else None)"

section \<open>kernel/acpi/lapic.c\<close>

record 'd mmio =
  rd32 :: "u16 \<Rightarrow> 'd \<Rightarrow> u32 \<times> 'd"
  wr32 :: "u16 \<Rightarrow> u32 \<Rightarrow> 'd \<Rightarrow> 'd"

record 'd firmware =
  fdev :: 'd
  lapic_addr :: nat
  lapic_base :: bool
  fcpus :: "nat \<Rightarrow> u8"
  started :: "nat set"
  nfound :: nat
  boot_cpu :: nat

definition lapic_read :: "'d mmio \<Rightarrow> u16 \<Rightarrow> 'd \<Rightarrow> u32 \<times> 'd" where
  "lapic_read mm a d = rd32 mm a d"

definition lapic_write :: "'d mmio \<Rightarrow> u16 \<Rightarrow> u32 \<Rightarrow> 'd \<Rightarrow> 'd" where
  "lapic_write mm a v d = snd (lapic_read mm 0x0020 (wr32 mm a v d))"

partial_function (option) lapic_wait :: "'d mmio \<Rightarrow> 'd \<Rightarrow> 'd option" where
  "lapic_wait mm d = (case lapic_read mm 0x0300 d of (v, d) \<Rightarrow> if v AND 0x1000 \<noteq> 0 then lapic_wait mm d else Some d)"

text \<open>
  \<open>mapped\<close> is whether \<^verbatim>\<open>mmio_map_region\<close> maps the registers (the code does not test it), \<open>boot\<close> the number of the CPU that booted.
\<close>

definition IRQ_TIMER :: u32 where "IRQ_TIMER = 32"
definition IRQ_SPURIOUS :: u32 where "IRQ_SPURIOUS = 39"
definition IRQ_ERROR :: u32 where "IRQ_ERROR = 51"

definition lapic_setup :: "'d mmio \<Rightarrow> nat \<Rightarrow> 'd \<Rightarrow> 'd option" where
  "lapic_setup mm boot d =
     (let d = lapic_write mm 0x00f0 (0x0100 OR IRQ_SPURIOUS) d;
          d = lapic_write mm 0x03e0 0x0b d;
          d = lapic_write mm 0x0320 (0x00020000 OR IRQ_TIMER) d;
          d = lapic_write mm 0x0380 10000000 d;
          (id, d) = lapic_read mm 0x0020 d;
          d = (if unat (drop_bit 24 id) \<noteq> boot then lapic_write mm 0x0350 0x00010000 d else d);
          d = lapic_write mm 0x0360 0x00010000 d;
          (ver, d) = lapic_read mm 0x0030 d;
          d = (if drop_bit 16 ver AND 0xff \<ge> 4 then lapic_write mm 0x0340 0x00010000 d else d);
          d = lapic_write mm 0x0370 IRQ_ERROR d;
          d = lapic_write mm 0x0280 0 d;
          d = lapic_write mm 0x0280 0 d;
          d = lapic_write mm 0x00b0 0 d;
          d = lapic_write mm 0x0310 0 d;
          d = lapic_write mm 0x0300 (0x00080000 OR 0x0500 OR 0x8000) d
      in map_option (lapic_write mm 0x0080 0) (lapic_wait mm d))"

definition lapic_cpunum :: "'d mmio \<Rightarrow> 'd firmware \<Rightarrow> nat \<times> 'd firmware" where
  "lapic_cpunum mm s =
     (if \<not> lapic_base s then (0, s)
      else case lapic_read mm 0x0020 (fdev s) of (v, d) \<Rightarrow> (unat (drop_bit 24 v), s\<lparr>fdev := d\<rparr>))"

definition lapic_init :: "'d mmio \<Rightarrow> bool \<Rightarrow> 'd firmware \<Rightarrow> 'd firmware res option" where
  "lapic_init mm mapped s =
     (if lapic_addr s = 0 then Some (Inr s)
      else
        let s = (if \<not> lapic_base s then s\<lparr>lapic_base := mapped\<rparr> else s)
        in if \<not> lapic_base s then Some (Inl KUndef)
           else map_option (\<lambda>d. Inr (s\<lparr>fdev := d\<rparr>)) (lapic_setup mm (boot_cpu s) (fdev s)))"

definition lapic_eoi :: "'d mmio \<Rightarrow> 'd firmware \<Rightarrow> 'd firmware" where
  "lapic_eoi mm s = (if \<not> lapic_base s then s else s\<lparr>fdev := lapic_write mm 0x00b0 0 (fdev s)\<rparr>)"

definition lapic_ipi :: "'d mmio \<Rightarrow> u32 \<Rightarrow> 'd \<Rightarrow> 'd option" where
  "lapic_ipi mm vector d = lapic_wait mm (lapic_write mm 0x0300 (0x000c0000 OR 0 OR vector) d)"

text \<open>
  The reset vector is two 16-bit words at 0x467 of the low memory. The second port is \<^verbatim>\<open>CMOS_DATA + 1\<close> in the source.
\<close>

definition lapic_startup :: "'d io \<Rightarrow> 'd mmio \<Rightarrow> u8 \<Rightarrow> u32 \<Rightarrow> mem \<Rightarrow> 'd \<Rightarrow> mem \<times> 'd" where
  "lapic_startup io mm apic_id addr m d =
     (let d = out8 io CMOS_ADDR 0xf d;
          d = out8 io (CMOS_DATA + 1) 0x8a d;
          wrv = drop_bit 4 addr;
          m = m(0x467 := 0, 0x468 := 0, 0x469 := ucast wrv, 0x46a := ucast (drop_bit 8 wrv));
          hi = push_bit 24 (ucast apic_id);
          d = lapic_write mm 0x0310 hi d;
          d = lapic_write mm 0x0300 (0x0500 OR 0x8000 OR 0x4000) d;
          d = lapic_write mm 0x0300 (0x0500 OR 0x8000) d;
          sipi = (\<lambda>d. lapic_write mm 0x0300 (0x0600 OR drop_bit 12 addr) (lapic_write mm 0x0310 hi d))
      in (m, sipi (sipi d)))"

section \<open>kernel/acpi/madt.c\<close>

definition NCPUS :: nat where "NCPUS = 64"

definition madt_parse_lapic :: "u8 \<Rightarrow> u8 \<Rightarrow> 'd firmware \<Rightarrow> 'd firmware" where
  "madt_parse_lapic cpu_id apic_id s =
     (if unat apic_id < NCPUS then s\<lparr>fcpus := (fcpus s)(unat apic_id := cpu_id), nfound := nfound s + 1\<rparr> else s)"

text \<open>The loop over the entries: an entry of length 0 is never left.\<close>

partial_function (option) madt_loop :: "mem \<Rightarrow> nat \<Rightarrow> nat \<Rightarrow> nat \<Rightarrow> 'd firmware \<Rightarrow> 'd firmware option" where
  "madt_loop m len i p s =
     (if i < len then
        madt_loop m len (i + unat (m (p + 1))) (p + unat (m (p + 1))) (if m p = 0 then madt_parse_lapic (m (p + 2)) (m (p + 3)) s else s)
      else Some s)"

text \<open>The length without the fixed part is a difference of unsigned 64-bit numbers.\<close>

definition madt_len :: "mem \<Rightarrow> nat \<Rightarrow> nat" where
  "madt_len m madt = unat (of_nat (hdr_len m madt) - 44 :: u64)"

definition madt_init :: "'d io \<Rightarrow> 'd mmio \<Rightarrow> mem \<Rightarrow> nat \<Rightarrow> 'd firmware \<Rightarrow> (int \<times> 'd firmware) option" where
  "madt_init io mm m rsdp s =
     (case acpi_find_table m rsdp ''APIC'' of None \<Rightarrow> Some (- 1, s)
      | Some madt \<Rightarrow>
        (case madt_loop m (madt_len m madt) 0 (madt + 44) (s\<lparr>lapic_addr := field m (madt + 36) 4, nfound := 0\<rparr>) of
           None \<Rightarrow> None
         | Some s \<Rightarrow>
           (let (cpu, s) = lapic_cpunum mm s;
                s = s\<lparr>boot_cpu := cpu, started := insert cpu (started s)\<rparr>;
                d = fdev s;
                d = (if field m (madt + 40) 4 \<noteq> 0 then
                       let d = out8 io 0x22 0x70 d; (v, d) = in8 io 0x23 d in out8 io 0x23 (v OR 1) d
                     else d)
            in Some (0, s\<lparr>fdev := d\<rparr>))))"

section \<open>kernel/acpi/mcfg.c\<close>

text \<open>\<open>enum\<close> is \<^verbatim>\<open>pci_enum_devices\<close>; the base address is cut to 32 bits by its parameter.\<close>

fun mcfg_loop :: "(u32 \<Rightarrow> nat \<Rightarrow> nat \<Rightarrow> 's \<Rightarrow> 's) \<Rightarrow> mem \<Rightarrow> nat \<Rightarrow> nat \<Rightarrow> 's \<Rightarrow> 's" where
  "mcfg_loop enum m entry 0 s = s"
| "mcfg_loop enum m entry (Suc n) s =
     mcfg_loop enum m (entry + 16) n (enum (of_nat (field m entry 8)) (unat (m (entry + 10))) (unat (m (entry + 11))) s)"

definition mcfg_init :: "(u32 \<Rightarrow> nat \<Rightarrow> nat \<Rightarrow> 's \<Rightarrow> 's) \<Rightarrow> mem \<Rightarrow> nat \<Rightarrow> 's \<Rightarrow> int \<times> 's" where
  "mcfg_init enum m rsdp s =
     (case acpi_find_table m rsdp ''MCFG'' of None \<Rightarrow> (- 1, s)
      | Some mcfg \<Rightarrow> (0, mcfg_loop enum m (mcfg + 44) (unat (of_nat (hdr_len m mcfg) - 44 :: u64) div 16) s))"

section \<open>kernel/acpi/hpet.c\<close>

record hpet_state =
  hpet_mapped :: bool
  hpet_enable :: bool
  main_cnt_val :: u64
  cnt_clk_period :: u32
  hpet_freq :: u64

text \<open>\<open>mapped\<close> is whether \<^verbatim>\<open>mmio_map_region\<close> succeeds; dividing by a period of 0 is undefined.\<close>

definition hpet_init :: "bool \<Rightarrow> mem \<Rightarrow> nat \<Rightarrow> hpet_state \<Rightarrow> (int \<times> hpet_state) res" where
  "hpet_init mapped m rsdp h =
     (case acpi_find_table m rsdp ''HPET'' of None \<Rightarrow> Inr (- 1, h)
      | Some _ \<Rightarrow>
        (let h = (if \<not> hpet_mapped h then h\<lparr>hpet_mapped := mapped\<rparr> else h) in
         if \<not> hpet_mapped h then Inr (- 1, h)
         else
           let h = h\<lparr>hpet_enable := False\<rparr>; h = h\<lparr>main_cnt_val := 0\<rparr>; h = h\<lparr>hpet_enable := True\<rparr>
           in kdefined (cnt_clk_period h \<noteq> 0) (Inr (0, h\<lparr>hpet_freq := 1000000000000000 div ucast (cnt_clk_period h)\<rparr>))))"

definition hpet_get_time :: "hpet_state \<Rightarrow> (u64 \<times> u64) res" where
  "hpet_get_time h = kdefined (hpet_freq h \<noteq> 0) (Inr (main_cnt_val h div hpet_freq h, main_cnt_val h mod hpet_freq h))"

section \<open>Finding a table\<close>

definition valid_table :: "mem \<Rightarrow> string \<Rightarrow> nat \<Rightarrow> bool" where
  "valid_table m signature t \<longleftrightarrow> bytes m t 4 = ascii signature \<and> (\<Sum>i<hdr_len m t. unat (m (t + i))) mod 256 = 0"

lemma memsum_loop_sum: "memsum_loop m p n acc = acc + of_nat (\<Sum>i<n. unat (m (p + i)))"
proof (induction n arbitrary: p acc)
  case (Suc n)
  have "(\<Sum>i<Suc n. unat (m (p + i))) = unat (m p) + (\<Sum>i<n. unat (m (p + 1 + i)))"
    unfolding sum.lessThan_Suc_shift by simp
  then show ?case using Suc by simp
qed simp

lemma acpi_check_valid: "acpi_check m t signature = valid_table m signature t"
proof -
  have "memsum m t n = 0 \<longleftrightarrow> (\<Sum>i<n. unat (m (t + i))) mod 256 = 0" for n
    unfolding memsum_def memsum_loop_sum add_0 word_of_nat_eq_0_iff by (simp add: mod_eq_0_iff_dvd)
  then show ?thesis by (simp add: acpi_check_def valid_table_def)
qed

lemma find_loop_find: "find_loop m w p n signature = List.find (valid_table m signature) (map (\<lambda>i. field m (p + w * i) w) [0..<n])"
proof (induction n arbitrary: p)
  case (Suc n)
  have "map (\<lambda>i. field m (p + w * i) w) [0..<Suc n] = field m p w # map (\<lambda>i. field m (p + w + w * i) w) [0..<n]"
    by (simp add: upt_conv_Cons map_Suc_upt [symmetric] comp_def algebra_simps del: upt_Suc)
  then show ?case using Suc by (simp add: acpi_check_valid)
qed simp

text \<open>The root table: where it is and the width of its pointers.\<close>

definition root_table :: "mem \<Rightarrow> nat \<Rightarrow> (nat \<times> nat) option" where
  "root_table m rsdp =
     (if m (rsdp + 15) > 0 \<and> valid_table m ''XSDT'' (field m (rsdp + 24) 8) then Some (8, field m (rsdp + 24) 8)
      else if valid_table m ''RSDT'' (field m (rsdp + 16) 4) then Some (4, field m (rsdp + 16) 4) else None)"

text \<open>
  \<^verbatim>\<open>acpi_find_table\<close> takes the 64-bit root table when the firmware has a valid one and the 32-bit one otherwise, and returns the first
  table behind it that has the signature and whose bytes add up to 0 modulo 256, or null when there is none. It looks at as many
  pointers as fit into the length of the root table with its header, which are 36 bytes more than the table has.
\<close>

theorem acpi_find_table_first:
  "acpi_find_table m rsdp signature =
     (case root_table m rsdp of None \<Rightarrow> None
      | Some (w, t) \<Rightarrow> List.find (valid_table m signature) (map (\<lambda>i. field m (t + 36 + w * i) w) [0..<hdr_len m t div w]))"
  by (simp add: acpi_find_table_def root_table_def acpi_check_valid xsdt_find_table_def rsdt_find_table_def find_loop_find SIZEOF_HDR_def Let_def)

section \<open>The processors\<close>

definition entry_ok :: "u8 list \<Rightarrow> bool" where
  "entry_ok e \<longleftrightarrow> 2 \<le> length e \<and> length e < 256 \<and> e ! 1 = of_nat (length e) \<and> (e ! 0 = 0 \<longrightarrow> 4 \<le> length e)"

definition lapic_entries :: "u8 list list \<Rightarrow> u8 list list" where
  "lapic_entries es = filter (\<lambda>e. e ! 0 = 0 \<and> unat (e ! 3) < NCPUS) es"

definition register :: "u8 list \<Rightarrow> (nat \<Rightarrow> u8) \<Rightarrow> nat \<Rightarrow> u8" where
  "register e c = c(unat (e ! 3) := e ! 2)"

lemma parse_register:
  "madt_parse_lapic (e ! 2) (e ! 3) s = (if unat (e ! 3) < NCPUS then s\<lparr>fcpus := register e (fcpus s), nfound := nfound s + 1\<rparr> else s)"
  by (simp add: madt_parse_lapic_def register_def)

lemma field_less: "field m a n < 256 ^ n"
proof (induction n)
  case (Suc n)
  have "unat (m (a + n)) \<le> 255" using unsigned_less [where 'a = nat, of "m (a + n)"] by simp
  then have u: "unat (m (a + n)) * 256 ^ n \<le> 255 * 256 ^ n" by (rule mult_le_mono1)
  have "field m a (Suc n) = field m a n + unat (m (a + n)) * 256 ^ n" by (simp add: field_def)
  also have "\<dots> < 256 ^ n + 255 * 256 ^ n" using Suc u by (rule add_less_le_mono)
  finally show ?case by simp
qed (simp add: field_def)

lemma lapic_cpunum_frame: "\<exists>d. snd (lapic_cpunum mm s) = s\<lparr>fdev := d\<rparr>"
  by (auto simp: lapic_cpunum_def intro: exI [of _ "fdev s"] split: prod.splits)

lemma madt_loop_entries:
  assumes "\<forall>e\<in>set es. entry_ok e" and "\<forall>i<length (concat es). m (p + i) = concat es ! i" and "len = i0 + length (concat es)"
  shows "madt_loop m len i0 p s = Some (s\<lparr>fcpus := fold register (lapic_entries es) (fcpus s), nfound := nfound s + length (lapic_entries es)\<rparr>)"
  using assms
proof (induction es arbitrary: i0 p s)
  case Nil
  then show ?case by (simp add: madt_loop.simps lapic_entries_def)
next
  case (Cons e es)
  have e: "2 \<le> length e" "length e < 256" "e ! 1 = of_nat (length e)" "e ! 0 = 0 \<Longrightarrow> 4 \<le> length e" using Cons.prems(1) by (auto simp: entry_ok_def)
  have at: "m (p + i) = e ! i" if "i < length e" for i using Cons.prems(2) that by (auto simp: nth_append)
  have "unat (m (p + 1)) = length e" using at [of 1] e by (simp add: unsigned_of_nat take_bit_nat_eq_self)
  moreover have "m p = e ! 0" using at [of 0] e by (cases e) auto
  moreover have "e ! 0 = 0 \<Longrightarrow> m (p + 2) = e ! 2 \<and> m (p + 3) = e ! 3" using at [of 2] at [of 3] e(4) by simp
  ultimately have step: "madt_loop m len i0 p s = madt_loop m len (i0 + length e) (p + length e) (if e ! 0 = 0 then madt_parse_lapic (e ! 2) (e ! 3) s else s)"
    using Cons.prems(3) e(1) by (subst madt_loop.simps) auto
  have "\<forall>i<length (concat es). m (p + length e + i) = concat es ! i"
  proof (intro allI impI)
    fix i assume "i < length (concat es)"
    then show "m (p + length e + i) = concat es ! i" using Cons.prems(2) [rule_format, of "length e + i"] by (simp add: nth_append ac_simps)
  qed
  from Cons.IH [OF _ this, of "i0 + length e"] Cons.prems show ?case unfolding step by (auto simp: lapic_entries_def parse_register)
qed

text \<open>
  C38: \<^verbatim>\<open>madt_init\<close> on a well-formed interrupt controller table ends, counts exactly the processor entries with an APIC number below
  64 and records the processor number of each, the last one for an APIC number winning.
\<close>

theorem madt_init_counts:
  assumes "acpi_find_table m rsdp ''APIC'' = Some t" and "\<forall>e\<in>set es. entry_ok e" and "bytes m (t + 44) (length (concat es)) = concat es"
    and "hdr_len m t = 44 + length (concat es)"
  shows "\<exists>s'. madt_init io mm m rsdp s = Some (0, s') \<and> nfound s' = length (lapic_entries es) \<and> fcpus s' = fold register (lapic_entries es) (fcpus s) \<and>
    lapic_addr s' = field m (t + 36) 4 \<and> boot_cpu s' \<in> started s'"
proof -
  have "hdr_len m t < 2 ^ 64" using field_less [of m "t + 4" 4] by (simp add: hdr_len_def)
  then have len: "madt_len m t = length (concat es)" using assms(4) by (simp add: madt_len_def unsigned_of_nat take_bit_nat_eq_self)
  have "\<forall>i<length (concat es). m (t + 44 + i) = concat es ! i" 
  proof (intro allI impI)
    fix i assume i: "i < length (concat es)"
    then have "bytes m (t + 44) (length (concat es)) ! i = m (t + 44 + i)" by (simp add: bytes_def)
    then show "m (t + 44 + i) = concat es ! i" unfolding assms(3) by simp
  qed
  from madt_loop_entries [OF assms(2) this, of "madt_len m t" 0 "s\<lparr>lapic_addr := field m (t + 36) 4, nfound := 0\<rparr>"] len
  have loop: "madt_loop m (madt_len m t) 0 (t + 44) (s\<lparr>lapic_addr := field m (t + 36) 4, nfound := 0\<rparr>) =
    Some (s\<lparr>lapic_addr := field m (t + 36) 4, nfound := length (lapic_entries es), fcpus := fold register (lapic_entries es) (fcpus s)\<rparr>)" (is "_ = Some ?s") by simp
  obtain cpu d where "lapic_cpunum mm ?s = (cpu, ?s\<lparr>fdev := d\<rparr>)" using lapic_cpunum_frame [of mm ?s] by (metis prod.collapse)
  then show ?thesis using assms(1) loop by (simp add: madt_init_def)
qed

section \<open>Examples\<close>

text \<open>
  A memory with a root pointer at 0, a root table of 40 bytes at 32 with one pointer, and an interrupt controller table at 256 with two
  processors and a longer entry of another type.
\<close>

definition demo_sdts :: "u8 list list" where
  "demo_sdts = [[0, 8, 0, 0, 1, 0, 0, 0], [2, 10, 0, 0, 2, 0, 0, 0, 0, 0], [0, 8, 7, 1, 1, 0, 0, 0]]"

definition demo_firmware :: mem where
  "demo_firmware = (\<lambda>_. 0)(16 := 32, 32 := 82, 33 := 83, 34 := 68, 35 := 84, 36 := 40, 41 := 154, 69 := 1, 256 := 65, 257 := 80, 258 := 73, 259 := 67, 260 := 70, 265 := 151, 294 := 224, 295 := 254, 301 := 8, 304 := 1, 308 := 2, 309 := 10, 312 := 2, 319 := 8, 320 := 7, 321 := 1, 322 := 1)"

lemma sum_numeral: "(\<Sum>i<n. f i) = sum_list (map f [0..<n])"
  by (simp add: interv_sum_list_conv_sum_set_nat atLeast0LessThan)

lemma demo_fields: "hdr_len demo_firmware 32 = 40" "hdr_len demo_firmware 256 = 70" "field demo_firmware 68 4 = 256" "field demo_firmware 16 4 = 32"
  "demo_firmware 15 = 0"
  by (simp_all add: hdr_len_def field_def sum_numeral upt_rec) (simp_all add: demo_firmware_def)

lemma demo_valid: "valid_table demo_firmware ''RSDT'' 32" "valid_table demo_firmware ''APIC'' 256"
  unfolding valid_table_def demo_fields by (simp_all add: sum_numeral bytes_def ascii_def upt_rec) (simp_all add: demo_firmware_def)

lemma demo_entries: "bytes demo_firmware 300 26 = concat demo_sdts"
  by (simp add: bytes_def demo_sdts_def upt_rec) (simp add: demo_firmware_def)

definition no_mmio :: "unit mmio" where
  "no_mmio = \<lparr>rd32 = (\<lambda>a d. (0, d)), wr32 = (\<lambda>a v d. d)\<rparr>"

definition no_devices :: "unit io" where
  "no_devices = \<lparr>in8 = (\<lambda>p d. (0, d)), out8 = (\<lambda>p v d. d), in16 = (\<lambda>p d. (0, d)), out16 = (\<lambda>p v d. d), in32 = (\<lambda>p d. (0, d)), out32 = (\<lambda>p v d. d)\<rparr>"

definition no_firmware :: "unit firmware" where
  "no_firmware = \<lparr>fdev = (), lapic_addr = 0, lapic_base = False, fcpus = (\<lambda>_. 0), started = {}, nfound = 0, boot_cpu = 0\<rparr>"

theorem madt_init_counts_witness:
  "\<exists>s'. madt_init no_devices no_mmio demo_firmware 0 no_firmware = Some (0, s') \<and> nfound s' = 2 \<and> fcpus s' 1 = 7"
proof -
  have "root_table demo_firmware 0 = Some (4, 32)" using demo_valid(1) by (simp add: root_table_def demo_fields)
  moreover have "map (\<lambda>i. field demo_firmware (32 + 36 + 4 * i) 4) [0..<hdr_len demo_firmware 32 div 4] = 256 # map (\<lambda>i. field demo_firmware (32 + 36 + 4 * i) 4) [1..<10]"
    using demo_fields(3) by (simp add: demo_fields(1) upt_rec [of 0])
  moreover have "acpi_find_table demo_firmware 0 ''APIC'' = (case root_table demo_firmware 0 of None \<Rightarrow> None
      | Some (w, t) \<Rightarrow> List.find (valid_table demo_firmware ''APIC'') (map (\<lambda>i. field demo_firmware (t + 36 + w * i) w) [0..<hdr_len demo_firmware t div w]))"
    by (simp add: acpi_find_table_def root_table_def acpi_check_valid xsdt_find_table_def rsdt_find_table_def find_loop_find SIZEOF_HDR_def Let_def)
  ultimately have t: "acpi_find_table demo_firmware 0 ''APIC'' = Some 256" using demo_valid(2) by (simp only: option.case prod.case) simp
  have e: "\<forall>e\<in>set demo_sdts. entry_ok e" and l: "length (concat demo_sdts) = 26" by (simp_all add: demo_sdts_def entry_ok_def)
  have b: "bytes demo_firmware (256 + 44) (length (concat demo_sdts)) = concat demo_sdts" "hdr_len demo_firmware 256 = 44 + length (concat demo_sdts)"
    unfolding l using demo_entries demo_fields(2) by simp_all
  have "length (lapic_entries demo_sdts) = 2" "fold register (lapic_entries demo_sdts) c 1 = 7" for c
    by (simp_all add: demo_sdts_def lapic_entries_def register_def NCPUS_def)
  then show ?thesis using madt_init_counts [OF t e b, of no_devices no_mmio no_firmware] by auto
qed

end
