(* ===== verification/Pci.thy ===== *)
theory Pci
  imports Firmware
begin

text \<open>
  The PCI bus of kernel/dev/pci.c: configuration space through ports or through mapped memory, base address registers, the choice of a driver and
  the enumeration of the devices. The bus is a record of operations on the state of the devices; \<^verbatim>\<open>kmalloc\<close>, \<^verbatim>\<open>kfree\<close> and \<^verbatim>\<open>mmio_map_region\<close> appear
  in it by their outcome, so that the development of the drivers does not depend on the allocators.
\<close>

section \<open>Configuration space\<close>

record 'd bus = "'d io" +
  mrd8 :: "nat \<Rightarrow> 'd \<Rightarrow> u8 \<times> 'd"
  mrd16 :: "nat \<Rightarrow> 'd \<Rightarrow> u16 \<times> 'd"
  mrd32 :: "nat \<Rightarrow> 'd \<Rightarrow> u32 \<times> 'd"
  mwr8 :: "nat \<Rightarrow> u8 \<Rightarrow> 'd \<Rightarrow> 'd"
  mwr16 :: "nat \<Rightarrow> u16 \<Rightarrow> 'd \<Rightarrow> 'd"
  mwr32 :: "nat \<Rightarrow> u32 \<Rightarrow> 'd \<Rightarrow> 'd"
  obj_alloc :: "'d \<Rightarrow> bool \<times> 'd"
  obj_free :: "'d \<Rightarrow> 'd"
  map_region :: "u32 \<Rightarrow> 'd \<Rightarrow> nat option \<times> 'd"

text \<open>\<^verbatim>\<open>struct pci_dev\<close>: the member of the union that its operations use.\<close>

datatype pci_dev = IoDev u32 | MmioDev nat

definition PCI_CONF_ADDR :: u16 where "PCI_CONF_ADDR = 0xcf8"
definition PCI_CONF_DATA :: u16 where "PCI_CONF_DATA = 0xcfc"
definition PCI_ANY_ID :: u16 where "PCI_ANY_ID = 0xffff"

definition pci_io_read8 :: "'d bus \<Rightarrow> u32 \<Rightarrow> u32 \<Rightarrow> 'd \<Rightarrow> u8 \<times> 'd" where
  "pci_io_read8 b io_addr offset d = in8 b PCI_CONF_DATA (out32 b PCI_CONF_ADDR (io_addr + offset) d)"

definition pci_io_read16 :: "'d bus \<Rightarrow> u32 \<Rightarrow> u32 \<Rightarrow> 'd \<Rightarrow> u16 \<times> 'd" where
  "pci_io_read16 b io_addr offset d = in16 b PCI_CONF_DATA (out32 b PCI_CONF_ADDR (io_addr + (offset AND NOT 1)) d)"

definition pci_io_read32 :: "'d bus \<Rightarrow> u32 \<Rightarrow> u32 \<Rightarrow> 'd \<Rightarrow> u32 \<times> 'd" where
  "pci_io_read32 b io_addr offset d = in32 b PCI_CONF_DATA (out32 b PCI_CONF_ADDR (io_addr + (offset AND NOT 3)) d)"

definition pci_io_write8 :: "'d bus \<Rightarrow> u32 \<Rightarrow> u32 \<Rightarrow> u8 \<Rightarrow> 'd \<Rightarrow> 'd" where
  "pci_io_write8 b io_addr offset v d = out8 b PCI_CONF_DATA v (out32 b PCI_CONF_ADDR (io_addr + offset) d)"

definition pci_io_write16 :: "'d bus \<Rightarrow> u32 \<Rightarrow> u32 \<Rightarrow> u16 \<Rightarrow> 'd \<Rightarrow> 'd" where
  "pci_io_write16 b io_addr offset v d = out16 b PCI_CONF_DATA v (out32 b PCI_CONF_ADDR (io_addr + (offset AND NOT 1)) d)"

definition pci_io_write32 :: "'d bus \<Rightarrow> u32 \<Rightarrow> u32 \<Rightarrow> u32 \<Rightarrow> 'd \<Rightarrow> 'd" where
  "pci_io_write32 b io_addr offset v d = out32 b PCI_CONF_DATA v (out32 b PCI_CONF_ADDR (io_addr + (offset AND NOT 3)) d)"

definition pci_mmio_read8 :: "'d bus \<Rightarrow> nat \<Rightarrow> u32 \<Rightarrow> 'd \<Rightarrow> u8 \<times> 'd" where
  "pci_mmio_read8 b base offset d = mrd8 b (base + unat offset) d"

definition pci_mmio_read16 :: "'d bus \<Rightarrow> nat \<Rightarrow> u32 \<Rightarrow> 'd \<Rightarrow> u16 \<times> 'd" where
  "pci_mmio_read16 b base offset d = mrd16 b (base + unat (offset AND NOT 1)) d"

definition pci_mmio_read32 :: "'d bus \<Rightarrow> nat \<Rightarrow> u32 \<Rightarrow> 'd \<Rightarrow> u32 \<times> 'd" where
  "pci_mmio_read32 b base offset d = mrd32 b (base + unat (offset AND NOT 3)) d"

definition pci_mmio_write8 :: "'d bus \<Rightarrow> nat \<Rightarrow> u32 \<Rightarrow> u8 \<Rightarrow> 'd \<Rightarrow> 'd" where
  "pci_mmio_write8 b base offset v d = mwr8 b (base + unat offset) v d"

definition pci_mmio_write16 :: "'d bus \<Rightarrow> nat \<Rightarrow> u32 \<Rightarrow> u16 \<Rightarrow> 'd \<Rightarrow> 'd" where
  "pci_mmio_write16 b base offset v d = mwr16 b (base + unat (offset AND NOT 1)) v d"

definition pci_mmio_write32 :: "'d bus \<Rightarrow> nat \<Rightarrow> u32 \<Rightarrow> u32 \<Rightarrow> 'd \<Rightarrow> 'd" where
  "pci_mmio_write32 b base offset v d = mwr32 b (base + unat (offset AND NOT 3)) v d"

definition pci_read8 :: "'d bus \<Rightarrow> pci_dev \<Rightarrow> u32 \<Rightarrow> 'd \<Rightarrow> u8 \<times> 'd" where
  "pci_read8 b dv offset d = (case dv of IoDev a \<Rightarrow> pci_io_read8 b a offset d | MmioDev a \<Rightarrow> pci_mmio_read8 b a offset d)"

definition pci_read16 :: "'d bus \<Rightarrow> pci_dev \<Rightarrow> u32 \<Rightarrow> 'd \<Rightarrow> u16 \<times> 'd" where
  "pci_read16 b dv offset d = (case dv of IoDev a \<Rightarrow> pci_io_read16 b a offset d | MmioDev a \<Rightarrow> pci_mmio_read16 b a offset d)"

definition pci_read32 :: "'d bus \<Rightarrow> pci_dev \<Rightarrow> u32 \<Rightarrow> 'd \<Rightarrow> u32 \<times> 'd" where
  "pci_read32 b dv offset d = (case dv of IoDev a \<Rightarrow> pci_io_read32 b a offset d | MmioDev a \<Rightarrow> pci_mmio_read32 b a offset d)"

definition pci_write8 :: "'d bus \<Rightarrow> pci_dev \<Rightarrow> u32 \<Rightarrow> u8 \<Rightarrow> 'd \<Rightarrow> 'd" where
  "pci_write8 b dv offset v d = (case dv of IoDev a \<Rightarrow> pci_io_write8 b a offset v d | MmioDev a \<Rightarrow> pci_mmio_write8 b a offset v d)"

definition pci_write16 :: "'d bus \<Rightarrow> pci_dev \<Rightarrow> u32 \<Rightarrow> u16 \<Rightarrow> 'd \<Rightarrow> 'd" where
  "pci_write16 b dv offset v d = (case dv of IoDev a \<Rightarrow> pci_io_write16 b a offset v d | MmioDev a \<Rightarrow> pci_mmio_write16 b a offset v d)"

definition pci_write32 :: "'d bus \<Rightarrow> pci_dev \<Rightarrow> u32 \<Rightarrow> u32 \<Rightarrow> 'd \<Rightarrow> 'd" where
  "pci_write32 b dv offset v d = (case dv of IoDev a \<Rightarrow> pci_io_write32 b a offset v d | MmioDev a \<Rightarrow> pci_mmio_write32 b a offset v d)"

text \<open>The base address registers start at offset 16; the result is the base and the size, which is read only when it is wanted.\<close>

definition pci_read_bar :: "'d bus \<Rightarrow> bool \<Rightarrow> pci_dev \<Rightarrow> nat \<Rightarrow> 'd \<Rightarrow> u32 \<times> u32 option \<times> 'd" where
  "pci_read_bar b want_size dv index d =
     (let offset = 16 + of_nat index * 4;
          (bar, d) = pci_read32 b dv offset d
      in if want_size then
           let d = pci_write32 b dv offset 0xffffffff d;
               (v, d) = pci_read32 b dv offset d;
               d = pci_write32 b dv offset bar d
           in (bar, Some ((NOT v OR 0xf) + 1), d)
         else (bar, None, d))"

section \<open>Devices and drivers\<close>

text \<open>Assignment to a bit field of width \<open>w\<close> at position \<open>k\<close>.\<close>

definition set_field :: "nat \<Rightarrow> nat \<Rightarrow> u32 \<Rightarrow> u32 \<Rightarrow> u32" where
  "set_field k w x val = val AND NOT (push_bit k (mask w)) OR push_bit k (take_bit w x)"

definition alloc_mmio_dev :: "'d bus \<Rightarrow> u32 \<Rightarrow> nat \<Rightarrow> nat \<Rightarrow> nat \<Rightarrow> 'd \<Rightarrow> pci_dev option \<times> 'd" where
  "alloc_mmio_dev b base_addr bus slot func d =
     (let addr = set_field 20 8 (of_nat bus) (set_field 15 5 (of_nat slot) (set_field 12 3 (of_nat func) base_addr));
          (ok, d) = obj_alloc b d
      in if \<not> ok then (None, d)
         else case map_region b addr d of
           (None, d) \<Rightarrow> (None, obj_free b d)
         | (Some p, d) \<Rightarrow> (Some (MmioDev p), d))"

text \<open>The offset and the unused bits of the address are not initialised: \<open>junk\<close>.\<close>

definition alloc_io_dev :: "'d bus \<Rightarrow> u32 \<Rightarrow> nat \<Rightarrow> nat \<Rightarrow> nat \<Rightarrow> 'd \<Rightarrow> pci_dev option \<times> 'd" where
  "alloc_io_dev b junk bus slot func d =
     (let addr = set_field 31 1 1 (set_field 16 8 (of_nat bus) (set_field 11 5 (of_nat slot) (set_field 8 3 (of_nat func) junk)));
          (ok, d) = obj_alloc b d
      in if \<not> ok then (None, d) else (Some (IoDev addr), d))"

record pci_device_id =
  vendor_id :: u16
  device_id :: u16
  pci_class :: u8
  pci_subclass :: u8

definition PCI_MATCH_CLASS :: "u8 \<Rightarrow> u8 \<Rightarrow> pci_device_id" where
  "PCI_MATCH_CLASS c sc = \<lparr>vendor_id = PCI_ANY_ID, device_id = PCI_ANY_ID, pci_class = c, pci_subclass = sc\<rparr>"

text \<open>\<^verbatim>\<open>pci_drivers\<close>: the identifiers of the AHCI and of the ATA driver. A driver is its position.\<close>

definition pci_drivers :: "pci_device_id list list" where
  "pci_drivers = [[PCI_MATCH_CLASS 1 6], [PCI_MATCH_CLASS 1 1]]"

fun match_compat :: "u16 \<Rightarrow> u16 \<Rightarrow> u8 \<Rightarrow> u8 \<Rightarrow> pci_device_id list \<Rightarrow> bool" where
  "match_compat did vid c sc [] = False"
| "match_compat did vid c sc (x # xs) =
     (if vendor_id x = 0 then False
      else if device_id x = did \<and> vendor_id x = vid then True
      else if device_id x \<noteq> PCI_ANY_ID \<or> vendor_id x \<noteq> PCI_ANY_ID then match_compat did vid c sc xs
      else if pci_class x = c \<and> pci_subclass x = sc then True
      else match_compat did vid c sc xs)"

fun find_driver :: "u16 \<Rightarrow> u16 \<Rightarrow> u8 \<Rightarrow> u8 \<Rightarrow> nat \<Rightarrow> pci_device_id list list \<Rightarrow> nat option" where
  "find_driver did vid c sc i [] = None"
| "find_driver did vid c sc i (x # xs) = (if match_compat did vid c sc x then Some i else find_driver did vid c sc (Suc i) xs)"

definition pci_find_driver :: "u16 \<Rightarrow> u16 \<Rightarrow> u8 \<Rightarrow> u8 \<Rightarrow> nat option" where
  "pci_find_driver did vid c sc = find_driver did vid c sc 0 pci_drivers"

text \<open>\<open>probe i\<close> is the function \<^verbatim>\<open>probe\<close> of driver \<open>i\<close>.\<close>

definition pci_enum_device :: "'d bus \<Rightarrow> (nat \<Rightarrow> pci_dev \<Rightarrow> 'd \<Rightarrow> int \<times> 'd) \<Rightarrow> u32 \<Rightarrow> u32 \<Rightarrow> nat \<Rightarrow> nat \<Rightarrow> nat \<Rightarrow> 'd \<Rightarrow> int \<times> 'd" where
  "pci_enum_device b probe junk base_addr bus slot func d =
     (case (if base_addr \<noteq> 0 then alloc_mmio_dev b base_addr bus slot func d else alloc_io_dev b junk bus slot func d) of
        (None, d) \<Rightarrow> (- 1, d)
      | (Some dv, d) \<Rightarrow>
        (let (did, d) = pci_read16 b dv 2 d;
             (vid, d) = pci_read16 b dv 0 d
         in if did = PCI_ANY_ID \<and> vid = PCI_ANY_ID then (- 1, obj_free b d)
            else
              let (c, d) = pci_read8 b dv 11 d;
                  (sc, d) = pci_read8 b dv 10 d
              in case pci_find_driver did vid c sc of
                   None \<Rightarrow> (0, obj_free b d)
                 | Some i \<Rightarrow> (let (ret, d) = probe i dv d in if ret < 0 then (0, obj_free b d) else (0, d))))"

fun enum_funcs :: "(nat \<Rightarrow> 'd \<Rightarrow> int \<times> 'd) \<Rightarrow> nat list \<Rightarrow> 'd \<Rightarrow> 'd" where
  "enum_funcs f [] d = d"
| "enum_funcs f (i # is) d = (case f i d of (ret, d) \<Rightarrow> if ret \<noteq> 0 then d else enum_funcs f is d)"

definition pci_enum_devices :: "'d bus \<Rightarrow> (nat \<Rightarrow> pci_dev \<Rightarrow> 'd \<Rightarrow> int \<times> 'd) \<Rightarrow> u32 \<Rightarrow> u32 \<Rightarrow> nat \<Rightarrow> nat \<Rightarrow> 'd \<Rightarrow> 'd" where
  "pci_enum_devices b probe junk base_addr bus_start bus_end d =
     fold (\<lambda>bus. fold (\<lambda>slot. enum_funcs (pci_enum_device b probe junk base_addr bus slot) [0..<8]) [0..<32]) [bus_start..<bus_end] d"

definition pci_init :: "'d bus \<Rightarrow> (nat \<Rightarrow> pci_dev \<Rightarrow> 'd \<Rightarrow> int \<times> 'd) \<Rightarrow> u32 \<Rightarrow> mem \<Rightarrow> nat \<Rightarrow> 'd \<Rightarrow> int \<times> 'd" where
  "pci_init b probe junk m rsdp d =
     (case mcfg_init (pci_enum_devices b probe junk) m rsdp d of
        (ret, d) \<Rightarrow> if ret = 0 then (0, d) else (0, pci_enum_devices b probe junk 0 0 256 d))"

section \<open>The size of a region\<close>

text \<open>
  A base address register for a region of \<open>2 ^ k\<close> bytes: its upper bits hold the address, the lowest four are fixed. \<open>reg\<close> reads it from the
  state of the devices.
\<close>

definition bar_behaves :: "'d bus \<Rightarrow> pci_dev \<Rightarrow> u32 \<Rightarrow> nat \<Rightarrow> u32 \<Rightarrow> ('d \<Rightarrow> u32) \<Rightarrow> bool" where
  "bar_behaves b dv offset k flags reg \<longleftrightarrow>
     (\<forall>d. fst (pci_read32 b dv offset d) = reg d \<and> reg (snd (pci_read32 b dv offset d)) = reg d) \<and>
     (\<forall>d v. reg (pci_write32 b dv offset v d) = v AND NOT (mask k) OR flags AND 0xf)"


text \<open>A device with one register, reached through mapped memory.\<close>

definition demo_bus :: "u32 bus" where
  "demo_bus = \<lparr>in8 = (\<lambda>p d. (0, d)), out8 = (\<lambda>p v d. d), in16 = (\<lambda>p d. (0, d)), out16 = (\<lambda>p v d. d), in32 = (\<lambda>p d. (0, d)), out32 = (\<lambda>p v d. d),
     mrd8 = (\<lambda>a d. (0, d)), mrd16 = (\<lambda>a d. (0, d)), mrd32 = (\<lambda>a d. (d, d)), mwr8 = (\<lambda>a v d. d), mwr16 = (\<lambda>a v d. d),
     mwr32 = (\<lambda>a v d. v AND NOT (mask 12) OR 8), obj_alloc = (\<lambda>d. (True, d)), obj_free = (\<lambda>d. d), map_region = (\<lambda>a d. (Some 0, d))\<rparr>"


end
