(* ===== verification/Disk.thy ===== *)
theory Disk
  imports Pci
begin

text \<open>
  The disk drivers: ATA disks behind ports (kernel/dev/ata.c), SATA disks behind a host adapter (kernel/dev/ahci.c), and the interface of
  kernel/dev/disk.c over both. A transfer takes two calls: the first one issues the command and returns \<^verbatim>\<open>-EAGAIN\<close>, a later one
  completes it. Loops that wait for a device need not end.
\<close>

section \<open>Port strings\<close>

text \<open>The instructions behind \<^verbatim>\<open>insl\<close> and \<^verbatim>\<open>outsl\<close>; a buffer is a function from the index of a 32-bit word.\<close>

fun insl :: "('d, 'm) io_scheme \<Rightarrow> u16 \<Rightarrow> nat \<Rightarrow> 'd \<Rightarrow> u32 list \<times> 'd" where
  "insl io port 0 d = ([], d)"
| "insl io port (Suc n) d = (let (v, d) = in32 io port d; (vs, d) = insl io port n d in (v # vs, d))"

fun outsl :: "('d, 'm) io_scheme \<Rightarrow> u16 \<Rightarrow> u32 list \<Rightarrow> 'd \<Rightarrow> 'd" where
  "outsl io port [] d = d"
| "outsl io port (v # vs) d = outsl io port vs (out32 io port v d)"

section \<open>kernel/dev/ata.c\<close>

text \<open>\<^verbatim>\<open>struct ata_chan\<close>; the unions give the members their other names.\<close>

record ata_chan =
  ch_data :: u16
  ch_err :: u16
  ch_sector_count :: u16
  ch_lba_lo :: u16
  ch_lba_mid :: u16
  ch_lba_hi :: u16
  ch_drive :: u16
  ch_cmd :: u16
  ch_ctrl :: u16

datatype ata_state = ATA_IDLE | ATA_READ | ATA_WRITE

record ata_disk =
  at_chan :: ata_chan
  at_drive :: nat
  at_state :: ata_state
  at_nsectors :: u64
  at_sect_size :: u64

definition AGAIN :: int where "AGAIN = 1"
definition MAX_DISKS :: nat where "MAX_DISKS = 32"

definition ata_wait_400ns :: "('d, 'm) io_scheme \<Rightarrow> ata_chan \<Rightarrow> 'd \<Rightarrow> 'd" where
  "ata_wait_400ns io ch d =
     (let rd = (\<lambda>d. snd (in8 io (ch_ctrl ch) d)) in rd (rd (rd (rd d))))"

definition ata_reset :: "('d, 'm) io_scheme \<Rightarrow> ata_chan \<Rightarrow> 'd \<Rightarrow> 'd" where
  "ata_reset io ch d = out8 io (ch_ctrl ch) 0 (ata_wait_400ns io ch (out8 io (ch_ctrl ch) 4 d))"

definition ata_disable_irq :: "('d, 'm) io_scheme \<Rightarrow> ata_chan \<Rightarrow> ata_chan \<Rightarrow> 'd \<Rightarrow> 'd" where
  "ata_disable_irq io ch0 ch1 d = out8 io (ch_ctrl ch1) 2 (out8 io (ch_ctrl ch0) 2 d)"

text \<open>Busy (bit 7) is off and ready (bit 6) is on.\<close>

definition ata_ready :: "u8 \<Rightarrow> bool" where
  "ata_ready status \<longleftrightarrow> status AND (0x80 OR 0x40) = 0x40"

definition ata_poll :: "('d, 'm) io_scheme \<Rightarrow> ata_disk \<Rightarrow> 'd \<Rightarrow> bool \<times> 'd" where
  "ata_poll io k d = (let (status, d) = in8 io (ch_cmd (at_chan k)) d in (ata_ready status, d))"

definition ata_stat :: "ata_disk \<Rightarrow> u64 \<times> u64" where
  "ata_stat k = (at_nsectors k, at_sect_size k)"

partial_function (option) ata_wait_ready :: "('d, 'm) io_scheme \<Rightarrow> ata_chan \<Rightarrow> bool \<Rightarrow> 'd \<Rightarrow> (int \<times> 'd) option" where
  "ata_wait_ready io ch check_err d =
     (case in8 io (ch_cmd ch) d of (status, d) \<Rightarrow>
        if \<not> ata_ready status then ata_wait_ready io ch check_err d
        else Some (if check_err \<and> status AND (0x20 OR 0x01) \<noteq> 0 then - 1 else 0, d))"

text \<open>The command of a transfer: the number of sectors, the 28 bits of the address, and the command.\<close>

definition select_drive :: "('d, 'm) io_scheme \<Rightarrow> ata_disk \<Rightarrow> 'd \<Rightarrow> 'd" where
  "select_drive io k d = out8 io (ch_drive (at_chan k)) (0xa0 OR push_bit 4 (of_nat (at_drive k))) d"

definition lba_bytes :: "nat \<Rightarrow> u64 \<Rightarrow> u8 \<times> u8 \<times> u8 \<times> u8" where
  "lba_bytes drive addr =
     (ucast (addr AND 0xff), ucast (drop_bit 8 addr AND 0xff), ucast (drop_bit 16 addr AND 0xff),
      0xe0 OR push_bit 4 (of_nat drive) OR ucast (drop_bit 24 addr AND 0xf))"

definition ata_issue :: "('d, 'm) io_scheme \<Rightarrow> u8 \<Rightarrow> u64 \<Rightarrow> u64 \<Rightarrow> ata_disk \<Rightarrow> 'd \<Rightarrow> 'd option" where
  "ata_issue io cmd count addr k d =
     (let ch = at_chan k; (lo, mid, hi, drv) = lba_bytes (at_drive k) addr in
      map_option (\<lambda>(_, d).
        let d = out8 io (ch_sector_count ch) (ucast count) d;
            d = out8 io (ch_lba_lo ch) lo d;
            d = out8 io (ch_lba_mid ch) mid d;
            d = out8 io (ch_lba_hi ch) hi d;
            d = out8 io (ch_drive ch) drv d
        in out8 io (ch_cmd ch) cmd d) (ata_wait_ready io ch False d))"

definition ata_read :: "('d, 'm) io_scheme \<Rightarrow> u64 \<Rightarrow> u64 \<Rightarrow> ata_disk \<Rightarrow> 'd \<Rightarrow> (int \<times> u32 list \<times> ata_disk \<times> 'd) option" where
  "ata_read io count addr k d =
     (let d = select_drive io k d in
      case at_state k of
        ATA_IDLE \<Rightarrow> map_option (\<lambda>d. (- AGAIN, [], k\<lparr>at_state := ATA_READ\<rparr>, d)) (ata_issue io 0x20 count addr k d)
      | ATA_WRITE \<Rightarrow> Some (- AGAIN, [], k, d)
      | ATA_READ \<Rightarrow>
        (let (ready, d) = ata_poll io k d in
         if \<not> ready then Some (- AGAIN, [], k, d)
         else
           let (data, d) = insl io (ch_data (at_chan k)) (unat (at_sect_size k div 4)) d
           in Some (sint (count * at_sect_size k), data, k\<lparr>at_state := ATA_IDLE\<rparr>, d)))"

definition ata_write :: "('d, 'm) io_scheme \<Rightarrow> (nat \<Rightarrow> u32) \<Rightarrow> u64 \<Rightarrow> u64 \<Rightarrow> ata_disk \<Rightarrow> 'd \<Rightarrow> (int \<times> ata_disk \<times> 'd) option" where
  "ata_write io bf count addr k d =
     (let d = select_drive io k d; ch = at_chan k in
      case at_state k of
        ATA_IDLE \<Rightarrow> map_option (\<lambda>d. (- AGAIN, k\<lparr>at_state := ATA_WRITE\<rparr>, d)) (ata_issue io 0x30 count addr k d)
      | ATA_READ \<Rightarrow> Some (- AGAIN, k, d)
      | ATA_WRITE \<Rightarrow>
        (let (ready, d) = ata_poll io k d in
         if \<not> ready then Some (- AGAIN, k, d)
         else
           Option.bind (ata_wait_ready io ch False (select_drive io k d)) (\<lambda>(_, d).
           let d = outsl io (ch_data ch) (map bf [0..<unat (count * at_sect_size k div 4)]) d;
               k = k\<lparr>at_state := ATA_IDLE\<rparr>
           in Option.bind (ata_wait_ready io ch False d) (\<lambda>(_, d).
              Option.bind (ata_wait_ready io ch False (out8 io (ch_cmd ch) 0xe7 d)) (\<lambda>(_, d).
              Some (sint (count * at_sect_size k), k, d))))))"

text \<open>
  The detection of one disk: the new disk, when there is one. \<open>ndisks\<close> is the number of disks so far, \<open>ok\<close> whether \<^verbatim>\<open>kmalloc\<close> has memory for it. The
  number of sectors is the word at byte 120 of the identification.
\<close>

partial_function (option) ident_wait :: "('d, 'm) io_scheme \<Rightarrow> ata_chan \<Rightarrow> 'd \<Rightarrow> (bool \<times> 'd) option" where
  "ident_wait io ch d =
     (case in8 io (ch_cmd ch) d of (s1, d1) \<Rightarrow>
      case in8 io (ch_cmd ch) d1 of (s2, d2) \<Rightarrow>
        if s1 AND 0x08 = 0 \<and> s2 AND 0x01 = 0 then ident_wait io ch d2 else Some (s2 AND 0x01 \<noteq> 0, d2))"

definition ata_enum_device :: "('d, 'm) io_scheme \<Rightarrow> bool \<Rightarrow> nat \<Rightarrow> ata_chan \<Rightarrow> nat \<Rightarrow> 'd \<Rightarrow> (ata_disk option \<times> 'd) option" where
  "ata_enum_device io ok ndisks ch drive d =
     (let d = ata_wait_400ns io ch (ata_reset io ch d);
          d = out8 io (ch_drive ch) (0xa0 OR push_bit 4 (of_nat drive)) d;
          d = out8 io (ch_sector_count ch) 0 d;
          d = out8 io (ch_lba_lo ch) 0 d;
          d = out8 io (ch_lba_mid ch) 0 d;
          d = out8 io (ch_lba_hi ch) 0 d;
          d = out8 io (ch_cmd ch) 0xec d;
          (status, d) = in8 io (ch_cmd ch) d
      in if status = 0 then Some (None, d)
         else
           let (lo, d) = in8 io (ch_lba_lo ch) d;
               (hi, d) = in8 io (ch_lba_hi ch) d;
               lba = (ucast lo OR push_bit 8 (ucast hi) :: u16)
           in Option.bind (ident_wait io ch d) (\<lambda>(err, d).
              if err \<and> \<not> (lba = 0xeb14 \<or> lba = 0x9669) then Some (None, d)
              else
                let d = (if err then ata_wait_400ns io ch (out8 io (ch_cmd ch) 0xa1 d) else d);
                    (bf, d) = insl io (ch_data ch) 128 d
                in if ndisks \<ge> MAX_DISKS \<or> \<not> ok then Some (None, d)
                   else Some (Some \<lparr>at_chan = ch, at_drive = drive, at_state = ATA_IDLE, at_nsectors = ucast (bf ! 30), at_sect_size = 512\<rparr>, d)))"

fun ata_enum_loop :: "('d, 'm) io_scheme \<Rightarrow> bool \<Rightarrow> (ata_chan \<times> nat) list \<Rightarrow> ata_disk list \<Rightarrow> nat \<Rightarrow> 'd \<Rightarrow> (ata_disk list \<times> 'd) option" where
  "ata_enum_loop io ok [] ks n d = Some (ks, d)"
| "ata_enum_loop io ok ((ch, drive) # cs) ks n d =
     Option.bind (ata_enum_device io ok n ch drive d) (\<lambda>(k, d).
     case k of None \<Rightarrow> ata_enum_loop io ok cs ks n d | Some k \<Rightarrow> ata_enum_loop io ok cs (ks @ [k]) (n + 1) d)"

definition ata_enum_devices :: "('d, 'm) io_scheme \<Rightarrow> bool \<Rightarrow> ata_chan \<Rightarrow> ata_chan \<Rightarrow> nat \<Rightarrow> 'd \<Rightarrow> (ata_disk list \<times> 'd) option" where
  "ata_enum_devices io ok ch0 ch1 n d = ata_enum_loop io ok [(ch0, 0), (ch0, 1), (ch1, 0), (ch1, 1)] [] n d"

definition ata_setup_chan :: "u16 \<Rightarrow> u16 \<Rightarrow> ata_chan" where
  "ata_setup_chan base ctrl =
     \<lparr>ch_data = base, ch_err = base + 1, ch_sector_count = base + 2, ch_lba_lo = base + 3, ch_lba_mid = base + 4, ch_lba_hi = base + 5,
      ch_drive = base + 6, ch_cmd = base + 7, ch_ctrl = ctrl\<rparr>"

text \<open>A base address register of 0 stands for the legacy port.\<close>

definition bar_port :: "u32 \<Rightarrow> u32 \<Rightarrow> u16" where
  "bar_port bar legacy = ucast ((bar AND 0xfffffffc) + (if bar = 0 then legacy else 0))"

definition ata_probe :: "'d bus \<Rightarrow> bool \<Rightarrow> nat \<Rightarrow> pci_dev \<Rightarrow> 'd \<Rightarrow> (ata_disk list \<times> 'd) option" where
  "ata_probe b ok n dv d =
     (let (b0, _, d) = pci_read_bar b False dv 0 d;
          (b1, _, d) = pci_read_bar b False dv 1 d;
          ch0 = ata_setup_chan (bar_port b0 0x1f0) (bar_port b1 0x3f6);
          (b2, _, d) = pci_read_bar b False dv 2 d;
          (b3, _, d) = pci_read_bar b False dv 3 d;
          ch1 = ata_setup_chan (bar_port b2 0x170) (bar_port b3 0x376)
      in ata_enum_devices b ok ch0 ch1 n (ata_disable_irq b ch0 ch1 d))"

section \<open>kernel/dev/ahci.c\<close>

text \<open>
  The registers of a port that the driver uses. The two base registers keep what is written to them; the others belong to the device. The
  structures in memory that the adapter reads, command headers and command tables, are stored by their physical address; a table is stored as
  one object, with as many entries as the driver writes.
\<close>

datatype hba_reg = PxIS | PxCMD | PxTFD | PxSIG | PxSSTS | PxSACT | PxCI

record 'd hba =
  hget :: "nat \<Rightarrow> hba_reg \<Rightarrow> 'd \<Rightarrow> u32 \<times> 'd"
  hput :: "nat \<Rightarrow> hba_reg \<Rightarrow> u32 \<Rightarrow> 'd \<Rightarrow> 'd"

record hba_prdt =
  data_base :: u64
  prdt_size :: u32

record hba_cmd_hdr =
  cmd_fis_len :: nat
  hdr_write :: bool
  prefetchable :: bool
  clear_busy :: bool
  prdt_len :: u16
  cmd_base :: u64

record fis_reg_h2d =
  fis_type :: u8
  fis_c :: bool
  fis_cmd :: u8
  lba0 :: u8
  lba1 :: u8
  lba2 :: u8
  fis_dev :: u8
  lba3 :: u8
  lba4 :: u8
  lba5 :: u8
  fis_count :: u16

record hba_cmd_tbl =
  cmd_fis :: fis_reg_h2d
  prdts :: "nat \<Rightarrow> hba_prdt"

datatype ahci_state = AHCI_IDLE | AHCI_READ | AHCI_WRITE

record ahci_disk =
  ah_port :: nat
  ah_state :: ahci_state
  ah_nsectors :: u64
  ah_sect_size :: u64
  ah_slot :: int

record 'd ahci =
  hdev :: 'd
  port_cmd_base :: "nat \<Rightarrow> u64"
  port_fis_base :: "nat \<Rightarrow> u64"
  hdrs :: "u64 \<Rightarrow> hba_cmd_hdr"
  tbls :: "u64 \<Rightarrow> hba_cmd_tbl"

definition zero_prdt :: hba_prdt where "zero_prdt = \<lparr>data_base = 0, prdt_size = 0\<rparr>"

definition zero_hdr :: hba_cmd_hdr where
  "zero_hdr = \<lparr>cmd_fis_len = 0, hdr_write = False, prefetchable = False, clear_busy = False, prdt_len = 0, cmd_base = 0\<rparr>"

definition zero_fis :: fis_reg_h2d where
  "zero_fis = \<lparr>fis_type = 0, fis_c = False, fis_cmd = 0, lba0 = 0, lba1 = 0, lba2 = 0, fis_dev = 0, lba3 = 0, lba4 = 0, lba5 = 0, fis_count = 0\<rparr>"

definition hba_get :: "'d hba \<Rightarrow> nat \<Rightarrow> hba_reg \<Rightarrow> 'd ahci \<Rightarrow> u32 \<times> 'd ahci" where
  "hba_get h port r s = (case hget h port r (hdev s) of (v, d) \<Rightarrow> (v, s\<lparr>hdev := d\<rparr>))"

definition hba_put :: "'d hba \<Rightarrow> nat \<Rightarrow> hba_reg \<Rightarrow> u32 \<Rightarrow> 'd ahci \<Rightarrow> 'd ahci" where
  "hba_put h port r v s = s\<lparr>hdev := hput h port r v (hdev s)\<rparr>"

partial_function (option) hba_wait :: "'d hba \<Rightarrow> nat \<Rightarrow> hba_reg \<Rightarrow> u32 \<Rightarrow> 'd ahci \<Rightarrow> 'd ahci option" where
  "hba_wait h port r bits s = (case hba_get h port r s of (v, s) \<Rightarrow> if v AND bits \<noteq> 0 then hba_wait h port r bits s else Some s)"

definition hba_upd :: "'d hba \<Rightarrow> nat \<Rightarrow> hba_reg \<Rightarrow> (u32 \<Rightarrow> u32) \<Rightarrow> 'd ahci \<Rightarrow> 'd ahci" where
  "hba_upd h port r f s = (case hba_get h port r s of (v, s) \<Rightarrow> hba_put h port r (f v) s)"

definition start_cmd :: "'d hba \<Rightarrow> nat \<Rightarrow> 'd ahci \<Rightarrow> 'd ahci option" where
  "start_cmd h port s =
     map_option (\<lambda>s. hba_upd h port PxCMD (\<lambda>v. v OR 0x10) (hba_upd h port PxCMD (\<lambda>v. v OR 0x01) s)) (hba_wait h port PxCMD 0x8000 s)"

definition stop_cmd :: "'d hba \<Rightarrow> nat \<Rightarrow> 'd ahci \<Rightarrow> 'd ahci option" where
  "stop_cmd h port s =
     hba_wait h port PxCMD (0x4000 OR 0x8000) (hba_upd h port PxCMD (\<lambda>v. v AND NOT 0x10) (hba_upd h port PxCMD (\<lambda>v. v AND NOT 0x01) s))"

text \<open>
  \<open>pa\<close> is the physical address of the zeroed huge page that \<^verbatim>\<open>page_alloc\<close> returns. The pointer to the command header is not advanced in the
  loop over the 32 tables.
\<close>

fun rebase_loop :: "nat \<Rightarrow> u64 \<Rightarrow> u64 \<Rightarrow> 'd ahci \<Rightarrow> 'd ahci" where
  "rebase_loop 0 hdr p s = s"
| "rebase_loop (Suc n) hdr p s = rebase_loop n hdr (p + 256) (s\<lparr>hdrs := (hdrs s)(hdr := (hdrs s hdr)\<lparr>prdt_len := 8, cmd_base := p\<rparr>)\<rparr>)"

definition port_rebase :: "'d hba \<Rightarrow> nat \<Rightarrow> u64 \<Rightarrow> 'd ahci \<Rightarrow> 'd ahci option" where
  "port_rebase h port pa s =
     (let s = s\<lparr>hdrs := (\<lambda>a. if pa \<le> a \<and> a < pa + 0x200000 then zero_hdr else hdrs s a)\<rparr>;
          s = hba_put h port PxIS 0 s
      in Option.bind (stop_cmd h port s) (\<lambda>s.
         let s = s\<lparr>port_cmd_base := (port_cmd_base s)(port := pa), port_fis_base := (port_fis_base s)(port := pa + 1024)\<rparr>;
             s = rebase_loop 32 (port_cmd_base s port) (pa + 1024 + 256) s
         in start_cmd h port s))"

fun find_slot :: "nat \<Rightarrow> nat \<Rightarrow> u32 \<Rightarrow> int" where
  "find_slot 0 i slots = - 1"
| "find_slot (Suc n) i slots = (if slots AND 1 = 0 then int i else find_slot n (i + 1) (drop_bit 1 slots))"

definition find_cmdslot :: "'d hba \<Rightarrow> nat \<Rightarrow> 'd ahci \<Rightarrow> int \<times> 'd ahci" where
  "find_cmdslot h port s =
     (let (act, s) = hba_get h port PxSACT s; (ci, s) = hba_get h port PxCI s in (find_slot 32 0 (act OR ci), s))"

text \<open>
  A command that the device no longer lists as issued, or an error of the task file. The shift takes the low five bits of the slot, as the
  processor's instruction does: \<^verbatim>\<open>ahci_ident\<close> polls with slot -1.
\<close>

definition ahci_poll :: "'d hba \<Rightarrow> ahci_disk \<Rightarrow> 'd ahci \<Rightarrow> bool \<times> 'd ahci" where
  "ahci_poll h k s =
     (let (ci, s) = hba_get h (ah_port k) PxCI s in
      if ci AND push_bit (nat (ah_slot k mod 32)) 1 = 0 then (True, s)
      else let (st, s) = hba_get h (ah_port k) PxIS s in (st AND 0x40000000 \<noteq> 0, s))"

partial_function (option) poll_wait :: "'d hba \<Rightarrow> ahci_disk \<Rightarrow> 'd ahci \<Rightarrow> 'd ahci option" where
  "poll_wait h k s = (case ahci_poll h k s of (ready, s) \<Rightarrow> if ready then Some s else poll_wait h k s)"

text \<open>The command header of a slot: 32 bytes each. The address of the table is the one that the header has.\<close>

definition cmd_hdr :: "nat \<Rightarrow> int \<Rightarrow> 'd ahci \<Rightarrow> u64" where
  "cmd_hdr port slot s = port_cmd_base s port + of_int slot * 32"

definition setup_hdr :: "u64 \<Rightarrow> bool \<Rightarrow> u16 \<Rightarrow> 'd ahci \<Rightarrow> 'd ahci" where
  "setup_hdr hdr w n s =
     s\<lparr>hdrs := (hdrs s)(hdr := (hdrs s hdr)\<lparr>cmd_fis_len := 5, hdr_write := w, prefetchable := True, clear_busy := True, prdt_len := n\<rparr>)\<rparr>"

definition reset_tbl :: "hba_cmd_tbl \<Rightarrow> hba_cmd_tbl" where
  "reset_tbl t = t\<lparr>cmd_fis := zero_fis, prdts := (prdts t)(0 := zero_prdt)\<rparr>"

text \<open>The entries of the table: 16 sectors each, then the last one. A size has 22 bits.\<close>

fun fill_prdts :: "nat \<Rightarrow> nat \<Rightarrow> u64 \<Rightarrow> u64 \<Rightarrow> u64 \<Rightarrow> (nat \<Rightarrow> hba_prdt) \<Rightarrow> nat \<Rightarrow> hba_prdt" where
  "fill_prdts 0 i data left sect_size t = t(i := \<lparr>data_base = data, prdt_size = take_bit 22 (ucast (left div sect_size - 1))\<rparr>)"
| "fill_prdts (Suc n) i data left sect_size t =
     fill_prdts n (i + 1) (data + 8192) (left - 16) sect_size (t(i := \<lparr>data_base = data, prdt_size = take_bit 22 (8 * 1024 - 1)\<rparr>))"

definition rw_fis :: "u8 \<Rightarrow> u64 \<Rightarrow> u64 \<Rightarrow> fis_reg_h2d" where
  "rw_fis cmd count addr =
     zero_fis\<lparr>fis_type := 0x27, fis_c := True, fis_cmd := cmd,
       lba0 := ucast (addr AND 0xff), lba1 := ucast (drop_bit 8 addr AND 0xff), lba2 := ucast (drop_bit 16 addr AND 0xff), fis_dev := push_bit 6 1,
       lba3 := ucast (drop_bit 24 addr AND 0xff), lba4 := ucast (drop_bit 32 addr AND 0xff), lba5 := ucast (drop_bit 40 addr AND 0xff),
       fis_count := ucast count\<rparr>"

text \<open>The first half of \<^verbatim>\<open>ahci_read\<close> and \<^verbatim>\<open>ahci_write\<close>, which differ in the command; \<open>pa\<close> is the physical address of the buffer.\<close>

definition NOMEM :: int where "NOMEM = 6"

definition ahci_issue :: "'d hba \<Rightarrow> bool \<Rightarrow> u64 \<Rightarrow> u64 \<Rightarrow> u64 \<Rightarrow> ahci_disk \<Rightarrow> 'd ahci \<Rightarrow> (int \<times> ahci_disk \<times> 'd ahci) res option" where
  "ahci_issue h w pa count addr k s =
     (let (slot, s) = find_cmdslot h (ah_port k) s;
          k = k\<lparr>ah_slot := slot\<rparr>
      in if slot < 0 then Some (Inr (- NOMEM, k, s))
         else if count = 0 then Some (Inr (0, k, s))
         else
           let hdr = cmd_hdr (ah_port k) slot s;
               n = (ucast ((count - 1) div 16 + 1) :: u16);
               s = setup_hdr hdr w n s;
               tbl = cmd_base (hdrs s hdr);
               t = reset_tbl (tbls s tbl)
           in if n = 0 then Some (Inl KUndef)
              else
                let t = t\<lparr>prdts := fill_prdts (unat n - 1) 0 pa count (ah_sect_size k) (prdts t), cmd_fis := rw_fis (if w then 0x35 else 0x25) count addr\<rparr>;
                    s = s\<lparr>tbls := (tbls s)(tbl := t)\<rparr>
                in map_option (\<lambda>s. Inr (- AGAIN, k\<lparr>ah_state := (if w then AHCI_WRITE else AHCI_READ)\<rparr>, hba_put h (ah_port k) PxCI (push_bit (nat slot) 1) s))
                     (hba_wait h (ah_port k) PxTFD (0x80 OR 0x08) s))"

definition ahci_finish :: "'d hba \<Rightarrow> u64 \<Rightarrow> ahci_disk \<Rightarrow> 'd ahci \<Rightarrow> int \<times> ahci_disk \<times> 'd ahci" where
  "ahci_finish h count k s =
     (let (ready, s) = ahci_poll h k s in
      if \<not> ready then (- AGAIN, k, s)
      else
        let k = k\<lparr>ah_state := AHCI_IDLE\<rparr>; (st, s) = hba_get h (ah_port k) PxIS s
        in (if st AND 0x40000000 \<noteq> 0 then 0 else sint (count * ah_sect_size k), k, s))"

definition ahci_read :: "'d hba \<Rightarrow> u64 \<Rightarrow> u64 \<Rightarrow> u64 \<Rightarrow> ahci_disk \<Rightarrow> 'd ahci \<Rightarrow> (int \<times> ahci_disk \<times> 'd ahci) res option" where
  "ahci_read h pa count addr k s =
     (case ah_state k of
        AHCI_IDLE \<Rightarrow> ahci_issue h False pa count addr k s
      | AHCI_WRITE \<Rightarrow> Some (Inr (- AGAIN, k, s))
      | AHCI_READ \<Rightarrow> Some (Inr (ahci_finish h count k s)))"

definition ahci_write :: "'d hba \<Rightarrow> u64 \<Rightarrow> u64 \<Rightarrow> u64 \<Rightarrow> ahci_disk \<Rightarrow> 'd ahci \<Rightarrow> (int \<times> ahci_disk \<times> 'd ahci) res option" where
  "ahci_write h pa count addr k s =
     (case ah_state k of
        AHCI_IDLE \<Rightarrow> ahci_issue h True pa count addr k s
      | AHCI_READ \<Rightarrow> Some (Inr (- AGAIN, k, s))
      | AHCI_WRITE \<Rightarrow> Some (Inr (ahci_finish h count k s)))"

definition ahci_ident :: "'d hba \<Rightarrow> u64 \<Rightarrow> ahci_disk \<Rightarrow> 'd ahci \<Rightarrow> (int \<times> 'd ahci) option" where
  "ahci_ident h pa k s =
     (let (slot, s) = find_cmdslot h (ah_port k) s in
      if slot < 0 then Some (- NOMEM, s)
      else
        let hdr = cmd_hdr (ah_port k) slot s;
            s = setup_hdr hdr False 1 s;
            tbl = cmd_base (hdrs s hdr);
            t = reset_tbl (tbls s tbl);
            t = t\<lparr>prdts := (prdts t)(0 := \<lparr>data_base = pa, prdt_size = 512 - 1\<rparr>), cmd_fis := (cmd_fis t)\<lparr>fis_type := 0x27, fis_c := True, fis_cmd := 0xec\<rparr>\<rparr>;
            s = s\<lparr>tbls := (tbls s)(tbl := t)\<rparr>
        in Option.bind (hba_wait h (ah_port k) PxTFD (0x80 OR 0x08) s) (\<lambda>s.
           Option.bind (poll_wait h k (hba_put h (ah_port k) PxCI (push_bit (nat slot) 1) s)) (\<lambda>s.
           let (st, s) = hba_get h (ah_port k) PxIS s in Some (if st AND 0x40000000 \<noteq> 0 then - 1 else 0, s))))"

definition ahci_stat :: "ahci_disk \<Rightarrow> u64 \<times> u64" where
  "ahci_stat k = (ah_nsectors k, ah_sect_size k)"

datatype ahci_dev = AHCI_DEV_NULL | AHCI_DEV_SATA | AHCI_DEV_SEMB | AHCI_DEV_PM | AHCI_DEV_SATAPI

definition check_type :: "'d hba \<Rightarrow> nat \<Rightarrow> 'd ahci \<Rightarrow> ahci_dev \<times> 'd ahci" where
  "check_type h port s =
     (let (ssts, s) = hba_get h port PxSSTS s in
      if ssts AND 0x0F \<noteq> 3 then (AHCI_DEV_NULL, s)
      else if drop_bit 8 ssts AND 0x0F \<noteq> 1 then (AHCI_DEV_NULL, s)
      else
        let (sg, s) = hba_get h port PxSIG s
        in (if sg = 0xeb140101 then AHCI_DEV_SATAPI else if sg = 0xc33c0101 then AHCI_DEV_SEMB
            else if sg = 0x96690101 then AHCI_DEV_PM else AHCI_DEV_SATA, s))"

text \<open>
  The pages and the memory of the disk object come from the allocators: \<open>pa\<close> and \<open>ipa\<close> are the huge page of the port and the page of the
  identification, \<open>ok\<close> whether there is memory for the object, \<open>max_lba\<close> the number that the device has stored in the page. \<open>nd\<close> is the number of
  disks that are there before.
\<close>

definition ahci_enum_device ::
  "'d hba \<Rightarrow> nat \<Rightarrow> u32 \<Rightarrow> (nat \<Rightarrow> u64 \<times> u64 \<times> bool) \<Rightarrow> ('d ahci \<Rightarrow> u32) \<Rightarrow> nat \<Rightarrow> ahci_disk list \<Rightarrow> 'd ahci \<Rightarrow> (ahci_disk list \<times> 'd ahci) option" where
  "ahci_enum_device h nd pts_impl mem max_lba drive ks s =
     (if pts_impl AND push_bit drive 1 = 0 then Some (ks, s)
      else
        let (ty, s) = check_type h drive s; (pa, ipa, ok) = mem drive in
        if ty = AHCI_DEV_NULL then Some (ks, s)
        else Option.bind (port_rebase h drive pa s) (\<lambda>s.
          if nd + length ks \<ge> MAX_DISKS \<or> \<not> ok then Some (ks, s)
          else
            let k = \<lparr>ah_port = drive, ah_state = AHCI_IDLE, ah_nsectors = 0, ah_sect_size = 512, ah_slot = - 1\<rparr>
            in Option.bind (ahci_ident h ipa k s) (\<lambda>(_, s). Some (ks @ [k\<lparr>ah_nsectors := ucast (max_lba s)\<rparr>], s))))"

fun ahci_probe_loop ::
  "'d hba \<Rightarrow> nat \<Rightarrow> u32 \<Rightarrow> (nat \<Rightarrow> u64 \<times> u64 \<times> bool) \<Rightarrow> ('d ahci \<Rightarrow> u32) \<Rightarrow> nat list \<Rightarrow> ahci_disk list \<Rightarrow> 'd ahci \<Rightarrow> (ahci_disk list \<times> 'd ahci) option" where
  "ahci_probe_loop h nd pts_impl mem max_lba [] ks s = Some (ks, s)"
| "ahci_probe_loop h nd pts_impl mem max_lba (i # is) ks s =
     Option.bind (ahci_enum_device h nd pts_impl mem max_lba i ks s) (\<lambda>(ks, s). ahci_probe_loop h nd pts_impl mem max_lba is ks s)"

definition ahci_probe ::
  "'d hba \<Rightarrow> nat \<Rightarrow> u32 \<Rightarrow> (nat \<Rightarrow> u64 \<times> u64 \<times> bool) \<Rightarrow> ('d ahci \<Rightarrow> u32) \<Rightarrow> bool \<Rightarrow> ahci_disk list \<Rightarrow> 'd ahci \<Rightarrow> (int \<times> ahci_disk list \<times> 'd ahci) option" where
  "ahci_probe h nd pts_impl mem max_lba mapped ks s =
     (if \<not> mapped then Some (- 1, ks, s) else map_option (\<lambda>(ks, s). (0, ks, s)) (ahci_probe_loop h nd pts_impl mem max_lba [0..<32] ks s))"

section \<open>kernel/dev/disk.c\<close>

text \<open>The operations of a disk, through the table that its driver has set; the results of the ATA operations take the form of the others.\<close>

datatype disk = Ata ata_disk | Ahci ahci_disk

definition disk_poll :: "('d, 'm) io_scheme \<Rightarrow> 'd hba \<Rightarrow> disk \<Rightarrow> 'd ahci \<Rightarrow> bool \<times> 'd ahci" where
  "disk_poll io h dk s =
     (case dk of Ata k \<Rightarrow> (let (r, d) = ata_poll io k (hdev s) in (r, s\<lparr>hdev := d\<rparr>)) | Ahci k \<Rightarrow> ahci_poll h k s)"

definition disk_stat :: "disk \<Rightarrow> u64 \<times> u64" where
  "disk_stat dk = (case dk of Ata k \<Rightarrow> ata_stat k | Ahci k \<Rightarrow> ahci_stat k)"

definition disk_read :: "('d, 'm) io_scheme \<Rightarrow> 'd hba \<Rightarrow> u64 \<Rightarrow> u64 \<Rightarrow> u64 \<Rightarrow> disk \<Rightarrow> 'd ahci \<Rightarrow> (int \<times> u32 list \<times> disk \<times> 'd ahci) res option" where
  "disk_read io h pa count addr dk s =
     (case dk of
        Ata k \<Rightarrow> map_option (\<lambda>(r, data, k, d). Inr (r, data, Ata k, s\<lparr>hdev := d\<rparr>)) (ata_read io count addr k (hdev s))
      | Ahci k \<Rightarrow> map_option (\<lambda>r. rbind r (\<lambda>(r, k, s). Inr (r, [], Ahci k, s))) (ahci_read h pa count addr k s))"

definition disk_write :: "('d, 'm) io_scheme \<Rightarrow> 'd hba \<Rightarrow> (nat \<Rightarrow> u32) \<Rightarrow> u64 \<Rightarrow> u64 \<Rightarrow> u64 \<Rightarrow> disk \<Rightarrow> 'd ahci \<Rightarrow> (int \<times> disk \<times> 'd ahci) res option" where
  "disk_write io h bf pa count addr dk s =
     (case dk of
        Ata k \<Rightarrow> map_option (\<lambda>(r, k, d). Inr (r, Ata k, s\<lparr>hdev := d\<rparr>)) (ata_write io bf count addr k (hdev s))
      | Ahci k \<Rightarrow> map_option (\<lambda>r. rbind r (\<lambda>(r, k, s). Inr (r, Ahci k, s))) (ahci_write h pa count addr k s))"


end
