(* ===== verification/Disk_Props.thy ===== *)
theory Disk_Props
  imports Disk
begin

text \<open>
  Properties of the disk drivers: the protocol of issue and completion that both keep, stated once for any driver (the locale \<open>transfer\<close>) and
  interpreted for the interface of kernel/dev/disk.c; the sector that a command names; the table that describes the buffer of a SATA transfer; and the choice of a
  command slot.
\<close>

section \<open>The two-call protocol\<close>

datatype phase = Idle | Busy bool

datatype disk_call = Read u64 u64 u64 | Write "nat \<Rightarrow> u32" u64 u64 u64

primrec dir :: "disk_call \<Rightarrow> bool" where
  "dir (Read pa n addr) = False"
| "dir (Write bf pa n addr) = True"

primrec sectors :: "disk_call \<Rightarrow> u64" where
  "sectors (Read pa n addr) = n"
| "sectors (Write bf pa n addr) = n"

definition phase_of :: "disk \<Rightarrow> phase" where
  "phase_of dk = (case dk of
      Ata k \<Rightarrow> (case at_state k of ATA_IDLE \<Rightarrow> Idle | ATA_READ \<Rightarrow> Busy False | ATA_WRITE \<Rightarrow> Busy True)
    | Ahci k \<Rightarrow> (case ah_state k of AHCI_IDLE \<Rightarrow> Idle | AHCI_READ \<Rightarrow> Busy False | AHCI_WRITE \<Rightarrow> Busy True))"

text \<open>One call of the interface, with the result that the caller sees.\<close>

definition disk_do :: "('d, 'm) io_scheme \<Rightarrow> 'd hba \<Rightarrow> disk_call \<Rightarrow> disk \<times> 'd ahci \<Rightarrow> (int \<times> disk \<times> 'd ahci) res option" where
  "disk_do io h c ds = (case c of
      Read pa n addr \<Rightarrow> (case disk_read io h pa n addr (fst ds) (snd ds) of
          None \<Rightarrow> None
        | Some (Inl e) \<Rightarrow> Some (Inl e)
        | Some (Inr (r, _, dk, s)) \<Rightarrow> Some (Inr (r, dk, s)))
    | Write bf pa n addr \<Rightarrow> disk_write io h bf pa n addr (fst ds) (snd ds))"

text \<open>A sequence of calls, with the list of their results.\<close>

fun run_calls :: "(disk_call \<Rightarrow> 's \<Rightarrow> (int \<times> 's) res option) \<Rightarrow> disk_call list \<Rightarrow> 's \<Rightarrow> (int list \<times> 's) res option" where
  "run_calls exec [] s = Some (Inr ([], s))"
| "run_calls exec (c # cs) s = (case exec c s of
      None \<Rightarrow> None
    | Some (Inl e) \<Rightarrow> Some (Inl e)
    | Some (Inr (r, s)) \<Rightarrow> (case run_calls exec cs s of
          None \<Rightarrow> None
        | Some (Inl e) \<Rightarrow> Some (Inl e)
        | Some (Inr (rs, s)) \<Rightarrow> Some (Inr (r # rs, s))))"

locale transfer =
  fixes phase :: "'s \<Rightarrow> phase"
    and size :: "'s \<Rightarrow> u64"
    and exec :: "disk_call \<Rightarrow> 's \<Rightarrow> (int \<times> 's) res option"
  assumes from_idle: "\<lbrakk>exec c s = Some (Inr (r, s')); phase s = Idle\<rbrakk>
      \<Longrightarrow> r = - AGAIN \<and> phase s' = Busy (dir c) \<or> r \<in> {0, - NOMEM} \<and> phase s' = Idle"
    and from_other: "\<lbrakk>exec c s = Some (Inr (r, s')); phase s = Busy w; dir c \<noteq> w\<rbrakk> \<Longrightarrow> r = - AGAIN \<and> phase s' = Busy w"
    and from_own: "\<lbrakk>exec c s = Some (Inr (r, s')); phase s = Busy w; dir c = w\<rbrakk>
      \<Longrightarrow> r = - AGAIN \<and> phase s' = Busy w \<or> r \<in> {0, sint (sectors c * size s)} \<and> phase s' = Idle"
    and size_kept: "exec c s = Some (Inr (r, s')) \<Longrightarrow> size s' = size s"
begin

lemma run_snocD:
  assumes "run_calls exec (cs @ [c]) s = Some (Inr (rs, s'))"
  obtains rs0 s0 r where "run_calls exec cs s = Some (Inr (rs0, s0))" "exec c s0 = Some (Inr (r, s'))" "rs = rs0 @ [r]"
  using assms
proof (induction cs arbitrary: s rs thesis)
  case Nil
  then show ?case by (auto split: option.splits sum.splits)
next
  case (Cons a cs)
  then obtain r1 s1 where e: "exec a s = Some (Inr (r1, s1))" by (auto split: option.splits sum.splits)
  then obtain rs1 where r: "run_calls exec (cs @ [c]) s1 = Some (Inr (rs1, s'))" and rs: "rs = r1 # rs1"
    using Cons.prems(2) by (auto simp: split: option.splits sum.splits)
  from Cons.IH[OF _ r] obtain rs0 s0 r where "run_calls exec cs s1 = Some (Inr (rs0, s0))" "exec c s0 = Some (Inr (r, s'))" "rs1 = rs0 @ [r]"
    by blast
  then show ?case using e rs Cons.prems(1)[of "r1 # rs0" s0 r] by auto
qed

lemma run_length: "run_calls exec cs s = Some (Inr (rs, s')) \<Longrightarrow> length rs = length cs"
  by (induction cs arbitrary: s rs) (auto simp: split: option.splits sum.splits)

lemma run_size: "run_calls exec cs s = Some (Inr (rs, s')) \<Longrightarrow> size s' = size s"
  by (induction cs arbitrary: s rs) (fastforce simp: size_kept split: option.splits sum.splits)+

text \<open>A disk that is busy after a run has been issued a command by one of its calls, since when every call has returned \<^verbatim>\<open>-EAGAIN\<close>.\<close>

definition issued :: "disk_call list \<Rightarrow> int list \<Rightarrow> 's \<Rightarrow> bool \<Rightarrow> bool" where
  "issued cs rs s w \<longleftrightarrow> (\<exists>i < length cs. dir (cs ! i) = w \<and> (\<forall>j. i \<le> j \<and> j < length cs \<longrightarrow> rs ! j = - AGAIN) \<and>
      (\<exists>s0. run_calls exec (take i cs) s = Some (Inr (take i rs, s0)) \<and> phase s0 = Idle))"

lemma busy_issued:
  assumes "run_calls exec cs s = Some (Inr (rs, s'))" and "phase s = Idle" and "phase s' = Busy w"
  shows "issued cs rs s w"
  using assms
proof (induction cs arbitrary: rs s' rule: rev_induct)
  case Nil
  then show ?case by simp
next
  case (snoc c cs)
  from snoc.prems(1) obtain rs0 s0 r where r: "run_calls exec cs s = Some (Inr (rs0, s0))" "exec c s0 = Some (Inr (r, s'))" "rs = rs0 @ [r]"
    by (rule run_snocD)
  have len: "length rs0 = length cs" using r(1) by (rule run_length)
  show ?case
  proof (cases "phase s0")
    case Idle
    then have "r = - AGAIN" "dir c = w" using from_idle[OF r(2)] snoc.prems(3) by auto
    then show ?thesis unfolding issued_def using r Idle len by (intro exI[of _ "length cs"]) (auto simp: nth_append less_Suc_eq)
  next
    case (Busy v)
    then have a: "r = - AGAIN" "v = w" using from_own[OF r(2) Busy] from_other[OF r(2) Busy] snoc.prems(3) by auto
    obtain i where "i < length cs" "dir (cs ! i) = w" "\<forall>j. i \<le> j \<and> j < length cs \<longrightarrow> rs0 ! j = - AGAIN"
      "\<exists>s0. run_calls exec (take i cs) s = Some (Inr (take i rs0, s0)) \<and> phase s0 = Idle"
      using snoc.IH[OF r(1) snoc.prems(2)] Busy a(2) unfolding issued_def by blast
    then show ?thesis unfolding issued_def using r(3) len a by (intro exI[of _ i]) (auto simp: nth_append less_Suc_eq)
  qed
qed

lemma completes:
  assumes "run_calls exec (cs @ [c]) s = Some (Inr (rs @ [r], s'))" and "phase s = Idle" and "r \<notin> {- AGAIN, - NOMEM, 0}"
  shows "r = sint (sectors c * size s) \<and> phase s' = Idle \<and> issued cs rs s (dir c)"
proof -
  from assms(1) obtain rs0 s0 where e: "run_calls exec cs s = Some (Inr (rs, s0))" "exec c s0 = Some (Inr (r, s'))"
    by (auto elim!: run_snocD)
  show ?thesis
  proof (cases "phase s0")
    case Idle
    then show ?thesis using from_idle[OF e(2)] assms(3) by auto
  next
    case (Busy w)
    then have "dir c = w" using from_other[OF e(2)] assms(3) by auto
    then show ?thesis using from_own[OF e(2) Busy] assms(3) busy_issued[OF e(1) assms(2)] Busy run_size[OF e(1)] by auto
  qed
qed

end

section \<open>Both drivers keep the protocol\<close>

definition sect_size_of :: "disk \<Rightarrow> u64" where
  "sect_size_of dk = snd (disk_stat dk)"

lemma ata_read_cases:
  "ata_read io n addr k d = Some (r, data, k', d') \<Longrightarrow>
     at_sect_size k' = at_sect_size k \<and>
     (case at_state k of
        ATA_IDLE \<Rightarrow> r = - AGAIN \<and> at_state k' = ATA_READ
      | ATA_WRITE \<Rightarrow> r = - AGAIN \<and> at_state k' = ATA_WRITE
      | ATA_READ \<Rightarrow> r = - AGAIN \<and> at_state k' = ATA_READ \<or> r = sint (n * at_sect_size k) \<and> at_state k' = ATA_IDLE)"
  by (auto simp: ata_read_def Let_def split: ata_state.splits prod.splits if_splits)

lemma ata_write_cases:
  "ata_write io bf n addr k d = Some (r, k', d') \<Longrightarrow>
     at_sect_size k' = at_sect_size k \<and>
     (case at_state k of
        ATA_IDLE \<Rightarrow> r = - AGAIN \<and> at_state k' = ATA_WRITE
      | ATA_READ \<Rightarrow> r = - AGAIN \<and> at_state k' = ATA_READ
      | ATA_WRITE \<Rightarrow> r = - AGAIN \<and> at_state k' = ATA_WRITE \<or> r = sint (n * at_sect_size k) \<and> at_state k' = ATA_IDLE)"
  by (auto simp: ata_write_def Let_def bind_eq_Some_conv split: ata_state.splits prod.splits if_splits)

lemma ahci_issue_cases:
  "ahci_issue h w pa n addr k s = Some (Inr (r, k', s')) \<Longrightarrow>
     ah_sect_size k' = ah_sect_size k \<and>
     (r = - AGAIN \<and> ah_state k' = (if w then AHCI_WRITE else AHCI_READ) \<or> r \<in> {0, - NOMEM} \<and> ah_state k' = ah_state k)"
  by (auto simp: ahci_issue_def Let_def split: prod.splits if_splits)

lemma ahci_finish_cases:
  "ahci_finish h n k s = (r, k', s') \<Longrightarrow>
     ah_sect_size k' = ah_sect_size k \<and>
     (r = - AGAIN \<and> ah_state k' = ah_state k \<or> r \<in> {0, sint (n * ah_sect_size k)} \<and> ah_state k' = AHCI_IDLE)"
  by (auto simp: ahci_finish_def Let_def split: prod.splits if_splits)

lemma ahci_read_cases:
  "ahci_read h pa n addr k s = Some (Inr (r, k', s')) \<Longrightarrow>
     ah_sect_size k' = ah_sect_size k \<and>
     (case ah_state k of
        AHCI_IDLE \<Rightarrow> r = - AGAIN \<and> ah_state k' = AHCI_READ \<or> r \<in> {0, - NOMEM} \<and> ah_state k' = AHCI_IDLE
      | AHCI_WRITE \<Rightarrow> r = - AGAIN \<and> ah_state k' = AHCI_WRITE
      | AHCI_READ \<Rightarrow> r = - AGAIN \<and> ah_state k' = AHCI_READ \<or> r \<in> {0, sint (n * ah_sect_size k)} \<and> ah_state k' = AHCI_IDLE)"
  by (auto simp: ahci_read_def dest!: ahci_issue_cases ahci_finish_cases split: ahci_state.splits)

lemma ahci_write_cases:
  "ahci_write h pa n addr k s = Some (Inr (r, k', s')) \<Longrightarrow>
     ah_sect_size k' = ah_sect_size k \<and>
     (case ah_state k of
        AHCI_IDLE \<Rightarrow> r = - AGAIN \<and> ah_state k' = AHCI_WRITE \<or> r \<in> {0, - NOMEM} \<and> ah_state k' = AHCI_IDLE
      | AHCI_READ \<Rightarrow> r = - AGAIN \<and> ah_state k' = AHCI_READ
      | AHCI_WRITE \<Rightarrow> r = - AGAIN \<and> ah_state k' = AHCI_WRITE \<or> r \<in> {0, sint (n * ah_sect_size k)} \<and> ah_state k' = AHCI_IDLE)"
  by (auto simp: ahci_write_def dest!: ahci_issue_cases ahci_finish_cases split: ahci_state.splits)

lemmas driver_cases = ata_read_cases ata_write_cases ahci_read_cases ahci_write_cases

text \<open>The driver that a successful call of the interface has called, with its result.\<close>

lemma disk_do_cases:
  assumes "disk_do io h c (dk, s) = Some (Inr (r, dk', s'))"
  obtains (ata_read) pa n addr k data k' d where "c = Read pa n addr" "dk = Ata k" "dk' = Ata k'" "ata_read io n addr k (hdev s) = Some (r, data, k', d)"
  | (ata_write) bf pa n addr k k' d where "c = Write bf pa n addr" "dk = Ata k" "dk' = Ata k'" "ata_write io bf n addr k (hdev s) = Some (r, k', d)"
  | (ahci_read) pa n addr k k' where "c = Read pa n addr" "dk = Ahci k" "dk' = Ahci k'" "ahci_read h pa n addr k s = Some (Inr (r, k', s'))"
  | (ahci_write) bf pa n addr k k' where "c = Write bf pa n addr" "dk = Ahci k" "dk' = Ahci k'" "ahci_write h pa n addr k s = Some (Inr (r, k', s'))"
proof (cases c)
  case (Read pa n addr)
  then show ?thesis using assms ata_read ahci_read
    by (cases dk) (auto simp: disk_do_def disk_read_def rbind_eq_Inr split: sum.splits option.splits)
next
  case (Write bf pa n addr)
  then show ?thesis using assms ata_write ahci_write
    by (cases dk) (auto simp: disk_do_def disk_write_def rbind_eq_Inr split: sum.splits option.splits)
qed

interpretation dsk: transfer "\<lambda>(dk, s). phase_of dk" "\<lambda>(dk, s). sect_size_of dk" "disk_do io h" for io h
proof
  fix c r and ds ds' :: "disk \<times> 'a ahci"
  assume e: "disk_do io h c ds = Some (Inr (r, ds'))"
  obtain dk s dk' s' where ds: "ds = (dk, s)" "ds' = (dk', s')" by (cases ds, cases ds') auto
  note simps = phase_of_def sect_size_of_def disk_stat_def ata_stat_def ahci_stat_def
  note c = disk_do_cases[OF e[unfolded ds]]
  { assume "(case ds of (dk, s) \<Rightarrow> phase_of dk) = Idle"
    then show "r = - AGAIN \<and> (case ds' of (dk, s) \<Rightarrow> phase_of dk) = Busy (dir c) \<or> r \<in> {0, - NOMEM} \<and> (case ds' of (dk, s) \<Rightarrow> phase_of dk) = Idle"
      by (cases rule: c) (auto simp: ds simps dest!: driver_cases split: ata_state.splits ahci_state.splits) }
  { fix w assume "(case ds of (dk, s) \<Rightarrow> phase_of dk) = Busy w" and "dir c \<noteq> w"
    then show "r = - AGAIN \<and> (case ds' of (dk, s) \<Rightarrow> phase_of dk) = Busy w"
      by (cases rule: c) (auto simp: ds simps dest!: driver_cases split: ata_state.splits ahci_state.splits) }
  { fix w assume "(case ds of (dk, s) \<Rightarrow> phase_of dk) = Busy w" and "dir c = w"
    then show "r = - AGAIN \<and> (case ds' of (dk, s) \<Rightarrow> phase_of dk) = Busy w \<or>
        r \<in> {0, sint (sectors c * (case ds of (dk, s) \<Rightarrow> sect_size_of dk))} \<and> (case ds' of (dk, s) \<Rightarrow> phase_of dk) = Idle"
      by (cases rule: c) (auto simp: ds simps dest!: driver_cases split: ata_state.splits ahci_state.splits) }
  show "(case ds' of (dk, s) \<Rightarrow> sect_size_of dk) = (case ds of (dk, s) \<Rightarrow> sect_size_of dk)"
    by (cases rule: c) (auto simp: ds simps dest!: driver_cases)
qed

text \<open>
  C35: A call of \<^verbatim>\<open>disk_read\<close> or \<^verbatim>\<open>disk_write\<close> that returns a number of bytes, as the last call of any sequence of calls on a disk that was
  idle, returns the size of the sectors it asks for, leaves the disk idle, and finishes a transfer in its own direction: an earlier call in that direction found the disk
  idle, and it and every call since, in whatever direction, returned \<^verbatim>\<open>-EAGAIN\<close>. This holds of both drivers.
\<close>

theorem disk_transfer_protocol:
  assumes "run_calls (disk_do io h) (cs @ [c]) (dk, s) = Some (Inr (rs @ [r], dk', s'))" and "phase_of dk = Idle"
    and "r \<notin> {- AGAIN, - NOMEM, 0}"
  shows "r = sint (sectors c * snd (disk_stat dk)) \<and> phase_of dk' = Idle \<and>
    (\<exists>i < length cs. dir (cs ! i) = dir c \<and> (\<forall>j. i \<le> j \<and> j < length cs \<longrightarrow> rs ! j = - AGAIN) \<and>
      (\<exists>dk0 s0. run_calls (disk_do io h) (take i cs) (dk, s) = Some (Inr (take i rs, dk0, s0)) \<and> phase_of dk0 = Idle))"
  using dsk.completes[OF assms(1)] assms(2,3) by (auto simp: dsk.issued_def sect_size_of_def)

text \<open>A drive that is always ready and full of zeros.\<close>

definition zero_io :: "unit io" where
  "zero_io = \<lparr>in8 = (\<lambda>_ d. (0x40, d)), out8 = (\<lambda>_ _ d. d), in16 = (\<lambda>_ d. (0, d)), out16 = (\<lambda>_ _ d. d), in32 = (\<lambda>_ d. (0, d)), out32 = (\<lambda>_ _ d. d)\<rparr>"

definition zero_hba :: "unit hba" where
  "zero_hba = \<lparr>hget = (\<lambda>_ _ d. (0, d)), hput = (\<lambda>_ _ _ d. d)\<rparr>"

definition zero_disk :: disk where
  "zero_disk = Ata \<lparr>at_chan = ata_setup_chan 0x1f0 0x3f6, at_drive = 0, at_state = ATA_IDLE, at_nsectors = 2048, at_sect_size = 512\<rparr>"

definition zero_mem :: "unit ahci" where
  "zero_mem = \<lparr>hdev = (), port_cmd_base = (\<lambda>_. 0), port_fis_base = (\<lambda>_. 0), hdrs = (\<lambda>_. zero_hdr), tbls = (\<lambda>_. \<lparr>cmd_fis = zero_fis, prdts = (\<lambda>_. zero_prdt)\<rparr>)\<rparr>"

lemma zero_insl: "insl zero_io port n d = (replicate n 0, d)"
  by (induction n) (simp_all add: zero_io_def)

lemma zero_wait: "ata_wait_ready zero_io ch False d = Some (0, d)"
  by (subst ata_wait_ready.simps) (simp add: zero_io_def ata_ready_def)

lemma zero_poll: "ata_poll zero_io k d = (True, d)"
  by (simp add: ata_poll_def zero_io_def ata_ready_def)

lemma zero_out: "out8 zero_io port b d = d"
  by (simp add: zero_io_def)

lemma zero_read:
  "ata_read zero_io n addr k d = (case at_state k of
      ATA_IDLE \<Rightarrow> Some (- AGAIN, [], k\<lparr>at_state := ATA_READ\<rparr>, d)
    | ATA_WRITE \<Rightarrow> Some (- AGAIN, [], k, d)
    | ATA_READ \<Rightarrow> Some (sint (n * at_sect_size k), replicate (unat (at_sect_size k div 4)) 0, k\<lparr>at_state := ATA_IDLE\<rparr>, d))"
  by (simp add: ata_read_def Let_def select_drive_def ata_issue_def zero_wait zero_poll zero_insl zero_out split: ata_state.splits prod.splits)

theorem disk_transfer_protocol_witness:
  "\<exists>dk' s'. run_calls (disk_do zero_io zero_hba) [Read 0 2 7, Write (\<lambda>_. 0) 0 1 3, Read 0 2 7] (zero_disk, zero_mem) =
       Some (Inr ([- AGAIN, - AGAIN, 1024], dk', s')) \<and> phase_of dk' = Idle"
proof -
  let ?run = "run_calls (disk_do zero_io zero_hba) ([Read 0 2 7, Write (\<lambda>_. 0) 0 1 3] @ [Read 0 2 7]) (zero_disk, zero_mem)"
  obtain dk' s' where r: "?run = Some (Inr ([- AGAIN, - AGAIN] @ [1024], dk', s'))"
    by (simp add: disk_do_def disk_read_def disk_write_def ata_write_def Let_def zero_disk_def zero_read)
  moreover have "phase_of zero_disk = Idle" by (simp add: phase_of_def zero_disk_def)
  ultimately show ?thesis using disk_transfer_protocol[OF r] by (auto simp: AGAIN_def NOMEM_def)
qed

section \<open>Sector addresses\<close>

text \<open>What the device makes of the bytes it is given: an ATA device has 28 bits of address and the drive in bit 4, a SATA device 48 bits.\<close>

definition ata_lba :: "u8 \<times> u8 \<times> u8 \<times> u8 \<Rightarrow> u64" where
  "ata_lba b = (case b of (lo, mid, hi, drv) \<Rightarrow>
     ucast lo OR push_bit 8 (ucast mid) OR push_bit 16 (ucast hi) OR push_bit 24 (ucast (drv AND 0xf)))"

definition fis_lba :: "fis_reg_h2d \<Rightarrow> u64" where
  "fis_lba f = ucast (lba0 f) OR push_bit 8 (ucast (lba1 f)) OR push_bit 16 (ucast (lba2 f)) OR
     push_bit 24 (ucast (lba3 f)) OR push_bit 32 (ucast (lba4 f)) OR push_bit 40 (ucast (lba5 f))"

lemma low_byte: "ucast (ucast (addr AND 0xff :: u64) :: u8) = take_bit 8 addr"
proof -
  have "(0xff :: u64) = mask 8" by (simp add: mask_eq_exp_minus_1)
  show ?thesis unfolding \<open>0xff = mask 8\<close> by (intro bit_word_eqI) (auto simp: bit_simps)
qed

lemma join_field: "take_bit n addr OR push_bit n (take_bit m (drop_bit n addr)) = take_bit (n + m) (addr :: u64)"
  by (rule bit_word_eqI) (auto simp: bit_simps)

lemma drive_nibble:
  assumes "drive < 2"
  shows "ucast ((0xe0 OR push_bit 4 (of_nat drive) OR ucast (w AND 0xf)) AND 0xf :: u8) = take_bit 4 (w :: u64)"
proof -
  have m: "(0xf :: u64) = mask 4" "(0xf :: u8) = mask 4" by (simp_all add: mask_eq_exp_minus_1)
  have z: "(0xe0 OR push_bit 4 (of_nat drive)) AND 0xf = (0 :: u8)" using assms by (auto simp: less_2_cases_iff)
  have "(0xe0 OR push_bit 4 (of_nat drive) OR ucast (w AND 0xf)) AND 0xf = (ucast (w AND 0xf) AND 0xf :: u8)"
    using z by (simp add: bit.conj_disj_distrib2)
  then show ?thesis unfolding m by (intro bit_word_eqI) (auto simp: bit_simps)
qed

text \<open>
  C36: A transfer names the sector the caller asks for. The bytes that \<^verbatim>\<open>ata_read\<close> and \<^verbatim>\<open>ata_write\<close> write select, for either drive, the low 28
  bits of the address, with the drive in bit 4 of the last one and the bits that ask for a linear address set; the frame that \<^verbatim>\<open>ahci_read\<close> and
  \<^verbatim>\<open>ahci_write\<close> build selects the low 48 bits.
\<close>

theorem sector_address:
  assumes "drive < 2"
  shows "ata_lba (lba_bytes drive addr) = take_bit 28 addr \<and>
    (case lba_bytes drive addr of (_, _, _, drv) \<Rightarrow> (bit drv 4 \<longleftrightarrow> drive = 1) \<and> bit drv 5 \<and> bit drv 6 \<and> bit drv 7) \<and>
    fis_lba (rw_fis cmd n addr) = take_bit 48 addr"
proof (intro conjI)
  show "ata_lba (lba_bytes drive addr) = take_bit 28 addr"
    using assms by (simp add: ata_lba_def lba_bytes_def low_byte drive_nibble) (simp add: or.assoc [symmetric] join_field)
  have nibble: "(0xf :: u64) = mask 4" by (simp add: mask_eq_exp_minus_1)
  have "bit (ucast (drop_bit 24 addr AND 0xf) :: u8) i \<Longrightarrow> i < 4" for i
    unfolding nibble by (simp add: bit_simps)
  then show "case lba_bytes drive addr of (_, _, _, drv) \<Rightarrow> (bit drv 4 \<longleftrightarrow> drive = 1) \<and> bit drv 5 \<and> bit drv 6 \<and> bit drv 7"
    using assms by (auto simp: lba_bytes_def bit_or_iff less_2_cases_iff bit_numeral_word_iff)
  show "fis_lba (rw_fis cmd n addr) = take_bit 48 addr"
    by (simp add: fis_lba_def rw_fis_def low_byte or.assoc [symmetric] join_field)
qed

theorem sector_address_witness:
  "ata_lba (lba_bytes 1 0xabcdef9) = 0xabcdef9 \<and> lba_bytes 1 0xabcdef9 = (0xf9, 0xde, 0xbc, 0xfa) \<and>
   fis_lba (rw_fis 0x25 1 0x123456789abc) = 0x123456789abc"
  using sector_address[of 1 "0xabcdef9" "0x25" 1] sector_address[of 1 "0x123456789abc" "0x25" 1]
  by (simp add: lba_bytes_def take_bit_eq_mod)

section \<open>The table of a SATA transfer\<close>

lemma fill_prdts_below: "j < i \<Longrightarrow> fill_prdts m i pa left sz t j = t j"
  by (induction m arbitrary: i pa left t) auto

lemma fill_prdts_inner:
  "i \<le> j \<Longrightarrow> j < i + m \<Longrightarrow> fill_prdts m i pa left sz t j = \<lparr>data_base = pa + of_nat (j - i) * 8192, prdt_size = 8191\<rparr>"
proof (induction m arbitrary: i pa left t)
  case (Suc m)
  show ?case
  proof (cases "j = i")
    case True
    then show ?thesis by (simp add: fill_prdts_below)
  next
    case False
    then have "j - i = Suc (j - Suc i)" using Suc.prems by simp
    then show ?thesis using Suc False by (simp add: algebra_simps)
  qed
qed simp

lemma fill_prdts_last:
  "fill_prdts m i pa left sz t (i + m) =
     \<lparr>data_base = pa + of_nat m * 8192, prdt_size = take_bit 22 (ucast ((left - of_nat m * 16) div sz - 1))\<rparr>"
proof (induction m arbitrary: i pa left t)
  case (Suc m)
  show ?case using Suc[of "i + 1" "pa + 8192" "left - 16"] by (simp add: algebra_simps del: fun_upd_apply)
qed simp

lemma prdt_all_ones: "take_bit 22 (ucast (- 1 :: u64)) = (2 ^ 22 - 1 :: u32)"
  by code_simp

text \<open>
  C37: The entries that \<^verbatim>\<open>ahci_read\<close> and \<^verbatim>\<open>ahci_write\<close> give the adapter for a transfer of up to a million sectors: each but the last one
  describes the next 8 KiB of the buffer. The last one starts where it should, but its size, which the code computes as the number of sectors that are
  left divided by 512, is 4 MiB whatever is left.
\<close>

theorem ahci_table:
  assumes "0 < n" and "unat n \<le> 16 * 65535"
  defines "m \<equiv> (unat n - 1) div 16"
  shows "(\<forall>j < m. fill_prdts m 0 pa n 512 t j = \<lparr>data_base = pa + of_nat j * 8192, prdt_size = 8 * 1024 - 1\<rparr>) \<and>
    unat n - 16 * m \<in> {1..16} \<and>
    fill_prdts m 0 pa n 512 t m = \<lparr>data_base = pa + of_nat m * 8192, prdt_size = 2 ^ 22 - 1\<rparr>"
proof (intro conjI)
  show "\<forall>j < m. fill_prdts m 0 pa n 512 t j = \<lparr>data_base = pa + of_nat j * 8192, prdt_size = 8 * 1024 - 1\<rparr>"
    using fill_prdts_inner[of 0 _ m] by simp
  have pos: "0 < unat n" using assms(1) by (simp add: word_less_nat_alt)
  then show left: "unat n - 16 * m \<in> {1..16}" unfolding m_def by auto
  have "unat (n - of_nat m * 16) = unat n - 16 * m"
  proof -
    have "m \<le> 65535" using assms(2) unfolding m_def by auto
    then have "unat (of_nat m * 16 :: u64) = 16 * m" by (simp add: unat_word_ariths unat_of_nat)
    moreover have "16 * m \<le> unat n" using left by auto
    ultimately show ?thesis by (simp add: unat_sub_if')
  qed
  then have "n - of_nat m * 16 < 512" using left by (simp add: word_less_nat_alt)
  then have "(n - of_nat m * 16) div 512 = 0" by (simp add: word_arith_nat_div word_less_nat_alt)
  then show "fill_prdts m 0 pa n 512 t m = \<lparr>data_base = pa + of_nat m * 8192, prdt_size = 2 ^ 22 - 1\<rparr>"
    using fill_prdts_last[of m 0 pa n 512 t] prdt_all_ones by simp
qed

theorem ahci_table_witness:
  "fill_prdts 1 0 0x100000 20 512 (\<lambda>_. zero_prdt) 0 = \<lparr>data_base = 0x100000, prdt_size = 8191\<rparr> \<and>
   fill_prdts 1 0 0x100000 20 512 (\<lambda>_. zero_prdt) 1 = \<lparr>data_base = 0x102000, prdt_size = 2 ^ 22 - 1\<rparr>"
  using ahci_table[of 20 "0x100000" "\<lambda>_. zero_prdt"] by simp

section \<open>Command slots\<close>

lemma find_slot_lowest:
  "(if \<forall>j < n. bit w j then find_slot n i w = - 1
    else \<exists>j < n. find_slot n i w = int (i + j) \<and> \<not> bit w j \<and> (\<forall>k < j. bit w k))"
proof (induction n arbitrary: i w)
  case (Suc n)
  have b: "w AND 1 = 0 \<longleftrightarrow> \<not> bit w 0" by (simp add: and_one_eq bit_0 odd_iff_mod_2_eq_one)
  have sh: "bit (drop_bit 1 w) j \<longleftrightarrow> bit w (Suc j)" for j by (simp add: bit_simps)
  show ?case
  proof (cases "bit w 0")
    case False
    then show ?thesis using b by (auto intro!: exI[of _ 0])
  next
    case True
    note IH = Suc.IH[of "drop_bit 1 w" "i + 1", unfolded sh]
    show ?thesis
    proof (cases "\<forall>j < n. bit w (Suc j)")
      case True
      then show ?thesis using IH \<open>bit w 0\<close> b by (auto simp: less_Suc_eq_0_disj)
    next
      case False
      then obtain j where "j < n" "find_slot n (i + 1) (drop_bit 1 w) = int (i + 1 + j)" "\<not> bit w (Suc j)" "\<forall>k < j. bit w (Suc k)"
        using IH unfolding if_not_P[OF False] by blast
      then have j: "Suc j < Suc n" "find_slot (Suc n) i w = int (i + Suc j)" "\<not> bit w (Suc j)" "\<forall>k < Suc j. bit w k"
        using \<open>bit w 0\<close> b by (auto simp: less_Suc_eq_0_disj)
      then have "\<not> (\<forall>j < Suc n. bit w j)" by blast
      from if_not_P[OF this] j show ?thesis by metis
    qed
  qed
qed simp

text \<open>
  Only the header of slot 0 is prepared: the headers of the other slots keep the zeros of the fresh page, so that their tables are at physical
  address 0.
\<close>

lemma rebase_loop_first_only: "a \<noteq> hdr \<Longrightarrow> hdrs (rebase_loop n hdr p s) a = hdrs s a"
  by (induction n arbitrary: p s) auto

lemma rebase_loop_last: "0 < n \<Longrightarrow> cmd_base (hdrs (rebase_loop n hdr p s) hdr) = p + of_nat (n - 1) * 256"
proof (induction n arbitrary: p s)
  case (Suc n)
  note IH = Suc.IH
  show ?case
  proof (cases n)
    case (Suc m)
    then show ?thesis using IH[of "p + 256" "s\<lparr>hdrs := (hdrs s)(hdr := (hdrs s hdr)\<lparr>prdt_len := 8, cmd_base := p\<rparr>)\<rparr>"]
      by (simp add: algebra_simps del: fun_upd_apply)
  qed simp
qed simp

end
