(* ===== verification/Spec2Isabelle.thy ===== *)
theory Spec2Isabelle
  imports Range_Props Monitor Disk_Props
begin

text \<open>
  A verification development for OpenLSD, a teaching kernel for x86-64 written in C (the sources under
  src/). The configuration is the one of the repository's build: the big kernel lock is not defined
  (fine-grained locks are), debug spin locks are, the fair scheduler is off (\<^verbatim>\<open>FAIR_SCHEDULER\<close> is 0) and none of the
  \<^verbatim>\<open>BONUS\<close> or \<^verbatim>\<open>LAB3_SYSCALL\<close> parts is compiled.

  \<^bold>\<open>The program.\<close> The boot loader hands a memory map to the kernel, which aligns it, places an array of page
  descriptors behind its image and gives the usable frames to a buddy allocator (kernel/mem). On this rest the
  page tables, which are read and changed through one generic walker with callbacks, and a slab heap. A
  task (kernel/sched) has a page table and an address space of areas (kernel/vma), held in a red-black
  tree and a sorted list (lib). User code enters through the interrupt table: page faults populate areas or copy
  shared pages, system calls change areas and tasks, the timer calls the scheduler, which keeps one
  global and two local queues per CPU. Kernel threads move pages to disk and end tasks when memory runs out. Below are the devices: disks on
  a PCI bus that the tables of the firmware describe, the console with its monitor, interrupt controllers and clocks. Formatted
  printing and string functions are shared by all.

  \<^bold>\<open>Conventions.\<close> Every C function is a HOL function with the state as an explicit record, extended component
  by component: \<open>kmem\<close> (lists, page descriptors, frames) \<open>kvm\<close> (registers, TLB log) \<open>kboot\<close>
  (boot allocator) \<open>kslab\<close> (heap) \<open>kvma\<close> (areas) \<open>ktask\<close> (tasks). Machine integers are words of their
  width. All intrusive lists of the kernel live in one store of next and previous pointers whose nodes are the
  constructors of \<open>anchor\<close>, one for every list member of a structure; structures are named by
  numbers, 0 being the null pointer. Physical memory is a function from frame and index to 64-bit words. A
  result is \<open>'a res = kerror + 'a\<close>: \<open>KPanic\<close> is a failed assertion or \<^verbatim>\<open>panic\<close>, \<open>KSpin\<close> a lock that is not
  free, \<open>KUndef\<close> an access that C leaves undefined, \<open>KDiverge\<close> a loop that does not end. Loops are structural recursion or
  \<open>partial_function\<close>, whose missing result becomes \<open>KDiverge\<close>; the theorems \<open>rok (f x) P\<close> say that \<open>f x\<close>
  returns, without any of these errors, and that \<open>P\<close> holds of the result. Functions that leave the kernel have a result
  of type \<open>flow\<close>: \<open>Returns\<close>, \<open>Iret\<close> with the registers loaded, or \<open>Halts\<close>. The only fuel is the first argument of
  \<^verbatim>\<open>sched_yield\<close>, which bounds its nesting; one level is enough for the theorems that a task is entered.
  Values that the code reads from outside (uninitialised variables, addresses of literals, the time stamp counter) are
  arguments, and so are the instructions and registers through which it reaches a device: the record \<open>io\<close> for ports, \<open>mmio\<close>, \<open>bus\<close>
  and \<open>hba\<close> for memory-mapped registers, each an operation on a state of the devices of which nothing is assumed.
  A loop that waits for a device is a \<open>partial_function\<close> into \<open>option\<close>; a theorem that needs the device to answer says so.

  \<^bold>\<open>Theories and sources.\<close>
  \<^item> \<open>Prelude\<close>: results, their bind and weakest precondition, lemmas on words and functions.
  \<^item> \<open>Lists\<close> (lib/list.c, include/list.h): ring representation \<open>is_list\<close>, the locale of a sequence store and its
    interpretation, refinement of every operation.
  \<^item> \<open>Spinlock\<close> (kernel/spinlock.c): the lock operations of one CPU, and a step relation over all CPUs with mutual
    exclusion and progress.
  \<^item> \<open>Buddy\<close>, \<open>Buddy_Inv\<close>, \<open>Buddy_Spec\<close> (kernel/mem/buddy.c, dev/swap_util.c): the allocator, its invariant as a set of
    disjoint aligned blocks, and the effect of every operation on the set of free frames.
  \<^item> \<open>Paging\<close>, \<open>Page_Walk\<close>, \<open>Page_Table\<close>, \<open>Page_Table_Spec\<close>, \<open>Page_Table_Props\<close> (include/x86-64/paging.h, kernel/mem/walk.c, ptbl.c,
    insert.c, lookup.c, remove.c, protect.c, populate.c, user.c, map.c, tlb.c): address arithmetic, the walker with its four nested
    loops, the callbacks; translation as the four-level walk of the hardware, and mapping, looking up, unmapping
    and protecting pages.
  \<^item> \<open>Boot\<close>, \<open>Boot_Props\<close> (kernel/mem/boot.c, init.c): memory map, boot allocator, \<^verbatim>\<open>page_init\<close>.
  \<^item> \<open>Slab\<close>, \<open>Slab_Inv\<close>, \<open>Slab_Spec\<close>, \<open>Slab_Props\<close> (kernel/mem/slab.c, kmem.c): the heap, its invariant on top of the one of the
    page allocator, and that objects in use never overlap.
  \<^item> \<open>RBTree\<close>, \<open>RBTree_Spec\<close> (lib/rbtree.c): the pointer operations, abstracted to trees; balance after
    insertion, iteration, removal.
  \<^item> \<open>VMA\<close>, \<open>VMA_Props\<close> (kernel/vma/find.c, insert.c, merge.c, split.c, remove.c, walk.c, protect.c): areas; the tree and the
    list hold the same sorted, disjoint areas, and lookups and insertions agree with that sequence.
  \<^item> \<open>Fault\<close>, \<open>Fault_Spec\<close>, \<open>Fault_Props\<close> (kernel/vma/populate.c, pfault.c, syscall.c): page faults, copy-on-write, and the system
    calls on areas.
  \<^item> \<open>Runq\<close>, \<open>Task\<close>, \<open>Process\<close>, \<open>Trap\<close> (kernel/sched): run queues and load balancing; creating, running and ending tasks;
    waiting, forking and kernel threads; system calls, interrupts and descriptor tables.
  \<^item> \<open>Sched_Spec\<close>, \<open>Sched_Props\<close>: the round-robin machine as a locale over an abstract step, its interpretation, the refinement
    by \<^verbatim>\<open>sched_yield\<close> and the bound after which every task has run.
  \<^item> \<open>Trap_Props\<close>, \<open>Task_Props\<close>: the path of a page fault through the interrupt handler back to the task, error results of
    system calls, the gates of the interrupt table, new tasks, and the pages that a fork shares.
  \<^item> \<open>Strings\<close>, \<open>Printfmt\<close> (lib/string.c, printfmt.c): memory blocks and strings on a byte memory, the formatter and
    its bounded buffer.

  \<^item> \<open>Swap\<close>, \<open>Walk_Range\<close>, \<open>Range_Props\<close> (kernel/dev/swap.c, rmap.c, oom.c): the clock over the replacement list, moving pages out and in, and the
    choice of the task to kill; the walker over a range of pages, what it does to every entry, and what this gives for
    protecting a range and for the score of a task.
  \<^item> \<open>Ports\<close> (kernel/pic.c, rtc.c, lib/time.c): interrupt controllers, the CMOS clock, and that seconds follow the calendar.
  \<^item> \<open>Console\<close>, \<open>Console_Props\<close> (kernel/console.c, printf.c, lib/readline.c): serial and parallel port, screen, keyboard and line input; the
    input buffer is a queue fed by two sources of one interface, output stays on the screen, and lines are edited.
  \<^item> \<open>Monitor\<close> (kernel/monitor.c): splitting of a line and the call of its command.
  \<^item> \<open>Firmware\<close> (kernel/acpi): tables with their checksums, the list of processors, the local APIC and the event timer.
  \<^item> \<open>Pci\<close> (kernel/dev/pci.c): the configuration space, sizes of regions, drivers and enumeration.
  \<^item> \<open>Disk\<close>, \<open>Disk_Props\<close> (kernel/dev/ata.c, ahci.c, disk.c): both drivers; the protocol of issue and completion as an interface that both
    keep, the sector a command names, and the table of a SATA transfer.

  \<^bold>\<open>Not modelled.\<close> Functions that only print (the dump of page tables and areas, debug output, the monitor commands other than help, which are a
  parameter of the interpreter); the order of calls in kernel/main.c and the start of other CPUs; the boot loader; the stubs of the user
  library; the tests of the kernel; assembly. CPUs interleave only in \<open>Spinlock\<close>; the other components are the steps of one CPU between two
  lock operations, where a lock held by another CPU is \<open>KSpin\<close>. The behaviour of hardware is not modelled beyond what a hypothesis states.
\<close>

end
